(* ===== verification/Prelude.thy ===== *)
theory Prelude
  imports Main "HOL-Library.Word"
begin

text \<open>
  Shared vocabulary of the development.

  \<^item> The C integer types of \<^verbatim>\<open>src/src/types.h\<close> are machine words: \<open>u8\<close> is \<^verbatim>\<open>uchar\<close>, \<open>u16\<close> is
    \<^verbatim>\<open>ushort\<close>, \<open>u32\<close> is \<^verbatim>\<open>uint\<close> and every 32-bit pointer. A signed \<^verbatim>\<open>int\<close> whose sign matters is a
    \<open>u32\<close> read with \<open>sint\<close>; arithmetic on it wraps, as the x86 instructions do.
  \<^item> A routine that may not return (\<^verbatim>\<open>panic\<close>, a busy wait, \<^verbatim>\<open>exit\<close>) yields a value of \<open>'a res\<close>, a sum
    whose left side says why it stopped.
  \<^item> Memory is a total function from 32-bit addresses to bytes; little-endian 32-bit loads and stores
    are defined on top of it, with the lemmas that the components share.
\<close>

section \<open>Words and results\<close>

unbundle bit_operations_syntax

type_synonym u8 = "8 word"
type_synonym u16 = "16 word"
type_synonym u32 = "32 word"

text \<open>Why a routine does not return to its caller.\<close>

datatype stop =
    Panic string     \<comment> \<open>\<^verbatim>\<open>panic(s)\<close>: the machine freezes with message \<open>s\<close>\<close>
  | Spins            \<comment> \<open>a busy wait whose condition does not hold yet\<close>
  | Blocks           \<comment> \<open>\<^verbatim>\<open>sleep\<close>: waits for another process\<close>
  | Fault string     \<comment> \<open>an access the C abstract machine gives no meaning\<close>

type_synonym 'a res = "stop + 'a"

definition rbind :: "'e + 'a \<Rightarrow> ('a \<Rightarrow> 'e + 'b) \<Rightarrow> 'e + 'b" where
  "rbind x f = (case x of Inl e \<Rightarrow> Inl e | Inr a \<Rightarrow> f a)"

lemma rbind_simps [simp]:
  "rbind (Inl e) f = Inl e"
  "rbind (Inr a) f = f a"
  by (simp_all add: rbind_def)

lemma rbind_eq_Inr: "rbind x f = Inr b \<longleftrightarrow> (\<exists>a. x = Inr a \<and> f a = Inr b)"
  by (cases x) simp_all

lemma rbind_eq_Inl: "rbind x f = Inl e \<longleftrightarrow> x = Inl e \<or> (\<exists>a. x = Inr a \<and> f a = Inl e)"
  by (cases x) simp_all

lemma rbind_assoc: "rbind (rbind x f) g = rbind x (\<lambda>a. rbind (f a) g)"
  by (cases x) simp_all

lemma rbind_cong [fundef_cong]:
  "x = y \<Longrightarrow> (\<And>a. y = Inr a \<Longrightarrow> f a = g a) \<Longrightarrow> rbind x f = rbind y g"
  by (auto simp: rbind_def split: sum.splits)

named_theorems res_simps \<open>elimination of the result monad\<close>
lemmas [res_simps] = rbind_eq_Inr rbind_eq_Inl

text \<open>The C idiom \<^verbatim>\<open>(uchar)*p - (uchar)*q\<close> compares two bytes.\<close>

lemma uchar_diff [simp]:
  fixes a b :: u8
  shows "uint a - uint b = 0 \<longleftrightarrow> a = b" and "uint a - uint b < 0 \<longleftrightarrow> a < b"
    and "uint a = 0 \<longleftrightarrow> a = 0" and "0 < uint a \<longleftrightarrow> a \<noteq> 0"
    and "uint a = uint b \<longleftrightarrow> a = b" and "uint a < uint b \<longleftrightarrow> a < b"
  using uint_ge_0[of a] by (auto simp: word_uint_eq_iff word_less_def less_le)

text \<open>Signed readings, as arithmetic.\<close>

lemma uint_int_unat: "uint c = int (unat c)"
  by simp

lemma uint_bound_u8: "0 \<le> uint (c :: u8)" "uint c < 256"
  using unsigned_less[where ?'a = int, of c] by simp_all

lemma uint_bound_u32: "0 \<le> uint (c :: u32)" "uint c < 2 ^ 32"
  using unsigned_less[where ?'a = int, of c] by simp_all

lemma mod_half: "0 \<le> u \<Longrightarrow> u < 2 * h \<Longrightarrow> (u + h) mod (2 * h) - h = (if u < h then u else u - 2 * h)"
  for u h :: int
proof (cases "u < h")
  case False
  assume "u < 2 * h"
  have "(u + h) mod (2 * h) = ((u - h) + 2 * h) mod (2 * h)" by (simp add: algebra_simps)
  also have "\<dots> = u - h" using False \<open>u < 2 * h\<close> by (simp only: mod_add_self2) simp
  finally show ?thesis using False by simp
qed simp

lemma sint_u8: "sint (c :: u8) = (if uint c < 128 then uint c else uint c - 256)"
proof -
  have "sint c = (uint c + 128) mod (2 * 128) - 128"
    by (simp add: sint_uint signed_take_bit_eq_take_bit_shift take_bit_eq_mod)
  then show ?thesis using mod_half[of "uint c" 128] uint_bound_u8[of c] by simp
qed

lemma sint_u32: "sint (c :: u32) = (if uint c < 2 ^ 31 then uint c else uint c - 2 ^ 32)"
proof -
  have "sint c = (uint c + 2 ^ 31) mod (2 * 2 ^ 31) - 2 ^ 31"
    by (simp add: sint_uint signed_take_bit_eq_take_bit_shift take_bit_eq_mod)
  then show ?thesis using mod_half[of "uint c" "2 ^ 31"] uint_bound_u32[of c] by simp
qed

lemma and_255_bit: "bit (c AND 0xFF :: u32) n \<longleftrightarrow> n < 8 \<and> bit c n"
proof -
  have eq: "(0xFF :: u32) = mask 8" by (simp add: mask_eq_exp_minus_1)
  show ?thesis unfolding eq bit_and_iff bit_mask_iff
    by (auto dest: bit_imp_le_length)
qed

section \<open>Lists\<close>

lemma nth_list_update_if:
  "i < length xs \<Longrightarrow> xs[i := v] ! j = (if i = j then v else xs ! j)"
  by simp

lemma takeWhile_all_eq: "(\<And>x. x \<in> set xs \<Longrightarrow> P x) \<Longrightarrow> takeWhile P xs = xs"
  by (simp add: takeWhile_eq_all_conv)

text \<open>The first index of a list satisfying a predicate: the shape of every table scan of the kernel.\<close>

fun find_index :: "('a \<Rightarrow> bool) \<Rightarrow> 'a list \<Rightarrow> nat option" where
  "find_index P [] = None"
| "find_index P (x # xs) = (if P x then Some 0 else map_option Suc (find_index P xs))"

lemma find_index_SomeD:
  "find_index P xs = Some i \<Longrightarrow> i < length xs \<and> P (xs ! i) \<and> (\<forall>j < i. \<not> P (xs ! j))"
proof (induction xs arbitrary: i)
  case (Cons x xs)
  show ?case
  proof (cases "P x")
    case False
    with Cons.prems obtain k where k: "find_index P xs = Some k" "i = Suc k" by auto
    with Cons.IH[OF k(1)] False show ?thesis by (auto simp: less_Suc_eq_0_disj)
  qed (use Cons.prems in auto)
qed simp

lemma find_index_None: "find_index P xs = None \<longleftrightarrow> (\<forall>x \<in> set xs. \<not> P x)"
  by (induction xs) auto

lemma find_index_Some_iff:
  "find_index P xs = Some i \<longleftrightarrow> i < length xs \<and> P (xs ! i) \<and> (\<forall>j < i. \<not> P (xs ! j))"
proof
  assume i: "i < length xs \<and> P (xs ! i) \<and> (\<forall>j < i. \<not> P (xs ! j))"
  then obtain k where k: "find_index P xs = Some k"
    by (cases "find_index P xs") (auto simp: find_index_None)
  from find_index_SomeD[OF k] i have "k = i" by (metis linorder_neqE_nat)
  with k show "find_index P xs = Some i" by simp
qed (rule find_index_SomeD)

section \<open>Byte-addressed memory\<close>

type_synonym mem = "u32 \<Rightarrow> u8"

definition store32 :: "mem \<Rightarrow> u32 \<Rightarrow> u32 \<Rightarrow> mem" where
  "store32 m a v = m(a := ucast v, a + 1 := ucast (drop_bit 8 v),
     a + 2 := ucast (drop_bit 16 v), a + 3 := ucast (drop_bit 24 v))"

definition load32 :: "mem \<Rightarrow> u32 \<Rightarrow> u32" where
  "load32 m a = ucast (m a) OR push_bit 8 (ucast (m (a + 1)))
     OR push_bit 16 (ucast (m (a + 2))) OR push_bit 24 (ucast (m (a + 3)))"

lemma load32_store32_same [simp]: "load32 (store32 m a v) a = v"
proof (rule bit_word_eqI)
  fix n
  assume "n < LENGTH(32)"
  then consider "n < 8" | "8 \<le> n \<and> n < 16" | "16 \<le> n \<and> n < 24" | "24 \<le> n \<and> n < 32"
    by fastforce
  then show "bit (load32 (store32 m a v) a) n = bit v n"
    by cases (auto simp: load32_def store32_def bit_or_iff bit_push_bit_iff bit_ucast_iff
        bit_drop_bit_eq)
qed

lemma unat_of_nat_u32: "n < 2 ^ 32 \<Longrightarrow> unat (of_nat n :: u32) = n"
  by (simp add: unat_of_nat take_bit_nat_eq_self)

lemma unat_add_noof: "unat (a::u32) + unat b < 2 ^ 32 \<Longrightarrow> unat (a + b) = unat a + unat b"
  by (simp add: unat_word_ariths)

lemma unat_less_2p32: "unat (a :: u32) < 2 ^ 32"
  using unsigned_less[where ?'a = nat, of a] by simp

lemma unat_minus_1 [simp]: "unat (- 1 :: u32) = 2 ^ 32 - 1"
  using unat_sub_if_size[of "0 :: u32" 1] by (simp add: word_size)

text \<open>Addresses are compared by their offset from a base: \<open>a\<close> lies in the \<open>n\<close> bytes from \<open>p\<close> iff
  \<open>unat (a - p) < n\<close>, also when the region wraps around the end of the address space.\<close>

lemma offset_of_nat: "n < 2 ^ 32 \<Longrightarrow> unat ((p + of_nat n) - p :: u32) = n"
  by (simp add: unat_of_nat_u32)

lemma offset_Suc:
  fixes a p :: u32
  assumes "a \<noteq> p"
  shows "unat (a - p) = Suc (unat (a - (p + 1)))"
proof -
  have ne: "a - p \<noteq> 0" using assms by simp
  have "a - (p + 1) = (a - p) - 1" by simp
  then have "unat (a - (p + 1)) = unat (a - p) - 1"
    using ne by (metis unat_minus_one)
  moreover have "unat (a - p) \<noteq> 0" using ne by (simp add: unat_eq_zero)
  ultimately show ?thesis by simp
qed

end
