(* ===== verification/Stdio.thy ===== *)
theory Stdio
  imports Prelude
begin

text \<open>
  The part of the C standard input/output library that the host programs of \<^verbatim>\<open>P1a\<close>, \<^verbatim>\<open>P3a\<close> and \<^verbatim>\<open>P4a\<close>
  call. A stream opened for reading is the list of bytes it still holds; what a program prints is
  appended to a list. A C buffer filled by \<^verbatim>\<open>getline\<close> or \<^verbatim>\<open>fgets\<close> holds the bytes of the line followed by
  a NUL, so \<^verbatim>\<open>strlen\<close> and \<^verbatim>\<open>%s\<close> see the bytes before the first NUL.
\<close>

fun split_line :: "u8 list \<Rightarrow> u8 list \<times> u8 list" where
  "split_line [] = ([], [])"
| "split_line (c # cs) =
     (if c = 10 then ([c], cs) else let (l, r) = split_line cs in (c # l, r))"

text \<open>\<^verbatim>\<open>getline\<close>: \<open>None\<close> is its result \<^verbatim>\<open>-1\<close> at end of file.\<close>

definition getline :: "u8 list \<Rightarrow> (u8 list \<times> u8 list) option" where
  "getline xs = (if xs = [] then None else Some (split_line xs))"

text \<open>\<^verbatim>\<open>fgets(buffer, sz, f)\<close>: at most \<open>sz - 1\<close> bytes, never past a newline; \<open>None\<close> is \<^verbatim>\<open>NULL\<close>.\<close>

definition fgets :: "nat \<Rightarrow> u8 list \<Rightarrow> (u8 list \<times> u8 list) option" where
  "fgets sz xs =
     (if xs = [] then None
      else let (l, r) = split_line (take (sz - 1) xs) in Some (l, r @ drop (sz - 1) xs))"

text \<open>What \<^verbatim>\<open>%s\<close> prints and \<^verbatim>\<open>strlen\<close> counts of a buffer with the contents \<open>b\<close>.\<close>

definition c_string :: "u8 list \<Rightarrow> u8 list" where
  "c_string b = takeWhile (\<lambda>c. c \<noteq> 0) b"

text \<open>\<^verbatim>\<open>fread(&n, sizeof(int), 1, f)\<close> on a little-endian machine; a short read consumes what is left.\<close>

definition int_bytes :: "u32 \<Rightarrow> u8 list" where
  "int_bytes w = [ucast w, ucast (drop_bit 8 w), ucast (drop_bit 16 w), ucast (drop_bit 24 w)]"

definition bytes_int :: "u8 list \<Rightarrow> u32" where
  "bytes_int bs = ucast (bs ! 0) OR push_bit 8 (ucast (bs ! 1))
     OR push_bit 16 (ucast (bs ! 2)) OR push_bit 24 (ucast (bs ! 3))"

definition fread_int :: "u8 list \<Rightarrow> u32 option \<times> u8 list" where
  "fread_int xs = (if 4 \<le> length xs then (Some (bytes_int (take 4 xs)), drop 4 xs) else (None, []))"

definition fread_char :: "u8 list \<Rightarrow> u8 option \<times> u8 list" where
  "fread_char xs = (case xs of [] \<Rightarrow> (None, []) | c # r \<Rightarrow> (Some c, r))"

lemma split_line_append: "fst (split_line xs) @ snd (split_line xs) = xs"
  by (induction xs) (auto simp: Let_def split: prod.splits)

lemma split_line_nonempty: "xs \<noteq> [] \<Longrightarrow> fst (split_line xs) \<noteq> []"
  by (cases xs) (auto simp: Let_def split: prod.splits)

lemma getline_append: "getline xs = Some (l, r) \<Longrightarrow> l @ r = xs \<and> l \<noteq> []"
  using split_line_append[of xs] split_line_nonempty[of xs]
  by (auto simp: getline_def split: if_splits)

lemma getline_shorter: "getline xs = Some (l, r) \<Longrightarrow> length r < length xs"
  by (drule getline_append) auto

lemma fgets_append:
  assumes "fgets sz xs = Some (l, r)" and "1 < sz"
  shows "l @ r = xs \<and> l \<noteq> []"
proof -
  let ?t = "take (sz - 1) xs"
  have ne: "xs \<noteq> []" and l: "l = fst (split_line ?t)"
    and r: "r = snd (split_line ?t) @ drop (sz - 1) xs"
    using assms(1) by (auto simp: fgets_def split: if_splits prod.splits)
  have "?t \<noteq> []" using ne assms(2) by simp
  then have "l \<noteq> []" using l split_line_nonempty[of ?t] by simp
  moreover have "l @ r = ?t @ drop (sz - 1) xs"
    using split_line_append[of ?t] by (simp add: l r flip: append_assoc)
  ultimately show ?thesis by simp
qed

lemma c_string_id: "0 \<notin> set b \<Longrightarrow> c_string b = b"
  by (auto simp: c_string_def takeWhile_eq_all_conv)

lemma bytes_int_bytes [simp]: "bytes_int (int_bytes w) = w"
proof -
  have "bytes_int (int_bytes w) = load32 (store32 (\<lambda>_. 0) 0 w) 0"
    unfolding bytes_int_def int_bytes_def load32_def store32_def by (simp del: push_bit_of_1)
  then show ?thesis by simp
qed

lemma length_int_bytes [simp]: "length (int_bytes w) = 4"
  by (simp add: int_bytes_def)

lemma fread_int_bytes [simp]: "fread_int (int_bytes w @ xs) = (Some w, xs)"
  by (simp add: fread_int_def)

lemma fread_int_Nil [simp]: "fread_int [] = (None, [])"
  by (simp add: fread_int_def)

lemma fread_char_Cons [simp]: "fread_char (c # xs) = (Some c, xs)"
  by (simp add: fread_char_def)

lemma fread_int_shorter: "fread_int xs = (Some n, r) \<Longrightarrow> length r < length xs"
  by (auto simp: fread_int_def split: if_splits)

lemma fread_char_le: "fread_char xs = (c, r) \<Longrightarrow> length r \<le> length xs"
  by (auto simp: fread_char_def split: list.splits)

end
