(* ===== verification/Rle.thy ===== *)
theory Rle
  imports Stdio
begin

text \<open>
  The run-length tools: \<^verbatim>\<open>P1a/wzip/wzip.c\<close>, \<^verbatim>\<open>P1a/wunzip/wunzip.c\<close> and the multi-threaded
  \<^verbatim>\<open>P3a/pzip.c\<close>. A file system is a partial map from names to contents; each \<^verbatim>\<open>main\<close> returns its exit
  status and everything it wrote to the standard output. The uninitialised variable \<^verbatim>\<open>curr\<close> of
  \<^verbatim>\<open>wzip.c\<close> is the parameter \<open>c0\<close>. The number of processors of \<^verbatim>\<open>pzip.c\<close> is a parameter.
\<close>

type_synonym files = "string \<Rightarrow> u8 list option"

definition str :: "string \<Rightarrow> u8 list" where
  "str s = map of_char s"

section \<open>wzip\<close>

record wz =
  curr :: u8
  count :: u32
  out :: "u8 list"

definition emit :: "wz \<Rightarrow> u8 list" where
  "emit s = out s @ int_bytes (count s) @ [curr s]"

fun wzip_chars :: "wz \<Rightarrow> u8 list \<Rightarrow> wz" where
  "wzip_chars s [] = s"
| "wzip_chars s (c # cs) =
     (if curr s \<noteq> c then wzip_chars (s\<lparr>out := emit s, curr := c, count := 1\<rparr>) cs
      else wzip_chars (s\<lparr>count := count s + 1\<rparr>) cs)"

definition wzip_line :: "wz \<Rightarrow> u8 list \<Rightarrow> wz" where
  "wzip_line s buffer =
     (let text = c_string buffer in
      if count s = 0
      then wzip_chars (s\<lparr>curr := (case text of [] \<Rightarrow> 0 | c # _ \<Rightarrow> c), count := 1\<rparr>) (tl text)
      else wzip_chars s text)"

function wzip_file :: "wz \<Rightarrow> u8 list \<Rightarrow> wz" where
  "wzip_file s f = (case getline f of None \<Rightarrow> s | Some (l, r) \<Rightarrow> wzip_file (wzip_line s l) r)"
  by pat_completeness auto
termination
  by (relation "measure (\<lambda>(s, f). length f)") (auto dest: getline_shorter)

fun wzip_files :: "files \<Rightarrow> wz \<Rightarrow> string list \<Rightarrow> nat \<times> u8 list" where
  "wzip_files fs s [] = (0, emit s)"
| "wzip_files fs s (a # as) =
     (case fs a of None \<Rightarrow> (1, out s @ str ''wgrep: cannot open file\<newline>'')
      | Some f \<Rightarrow> wzip_files fs (wzip_file s f) as)"

definition wzip_main :: "files \<Rightarrow> u8 \<Rightarrow> string list \<Rightarrow> nat \<times> u8 list" where
  "wzip_main fs c0 args =
     (if args = [] then (1, str ''wzip: file1 [file2 ...]\<newline>'')
      else wzip_files fs \<lparr>curr = c0, count = 0, out = []\<rparr> args)"

section \<open>wunzip\<close>

function wunzip_file :: "u8 list \<Rightarrow> u8 list" where
  "wunzip_file xs =
     (let (num, r) = fread_int xs; (ch, r') = fread_char r in
      case (num, ch) of
        (Some n, Some c) \<Rightarrow> replicate (nat (sint n)) c @ wunzip_file r'
      | _ \<Rightarrow> [])"
  by pat_completeness auto
termination
  by (relation "measure length")
    (auto dest!: fread_int_shorter[OF sym] fread_char_le[OF sym])

fun wunzip_files :: "files \<Rightarrow> u8 list \<Rightarrow> string list \<Rightarrow> nat \<times> u8 list" where
  "wunzip_files fs acc [] = (0, acc)"
| "wunzip_files fs acc (a # as) =
     (case fs a of None \<Rightarrow> (1, acc @ str ''wgrep: cannot open file\<newline>'')
      | Some f \<Rightarrow> wunzip_files fs (acc @ wunzip_file f) as)"

definition wunzip_main :: "files \<Rightarrow> string list \<Rightarrow> nat \<times> u8 list" where
  "wunzip_main fs args =
     (if args = [] then (1, str ''wunzip: file1 [file2 ...]\<newline>'') else wunzip_files fs [] args)"

section \<open>pzip\<close>

text \<open>One thread: the two result arrays are a list of pairs, ended by the entry with count \<^verbatim>\<open>-1\<close>. The
  arrays hold 1000000 elements; a thread that needs more writes past them.\<close>

function zip_loop :: "u8 list \<Rightarrow> nat \<Rightarrow> nat \<Rightarrow> u8 \<Rightarrow> u32 \<Rightarrow> (u8 \<times> u32) list \<Rightarrow> (u8 \<times> u32) list" where
  "zip_loop txt e i c n res =
     (if i < e
      then if c \<noteq> txt ! i then zip_loop txt e (Suc i) (txt ! i) 1 (res @ [(c, n)])
           else zip_loop txt e (Suc i) c (n + 1) res
      else res @ [(c, n), (c, - 1)])"
  by pat_completeness auto
termination
  by (relation "measure (\<lambda>(txt, e, i, c, n, res). e - i)") auto

definition zip_thread :: "u8 list \<Rightarrow> nat \<times> nat \<Rightarrow> (u8 \<times> u32) list res" where
  "zip_thread txt = (\<lambda>(start, end).
     if length txt \<le> start then Inl (Fault ''txt'')
     else let res = zip_loop txt end (Suc start) (txt ! start) 1 [] in
       if length res \<le> 1000000 then Inr res else Inl (Fault ''res_char''))"

definition pzip_ranges :: "nat \<Rightarrow> nat \<Rightarrow> (nat \<times> nat) list" where
  "pzip_ranges n len =
     (let part = len div n in
      map (\<lambda>j. (part * j, if j = n - 1 then len else part * j + part)) [0..<n])"

text \<open>The merging loop of \<^verbatim>\<open>main\<close> over one thread's results; \<open>curr\<close> and \<open>count\<close> are \<^verbatim>\<open>old_char\<close> and
  \<^verbatim>\<open>old_count\<close>.\<close>

fun pzip_merge :: "wz \<Rightarrow> (u8 \<times> u32) list \<Rightarrow> wz" where
  "pzip_merge s [] = s"
| "pzip_merge s ((c, n) # es) =
     (if n = - 1 then s
      else if curr s \<noteq> c
      then pzip_merge (s\<lparr>out := (if count s \<noteq> 0 then emit s else out s), curr := c, count := n\<rparr>) es
      else pzip_merge (s\<lparr>count := count s + n\<rparr>) es)"

fun pzip_threads :: "u8 list \<Rightarrow> wz \<Rightarrow> (nat \<times> nat) list \<Rightarrow> wz res" where
  "pzip_threads txt s [] = Inr s"
| "pzip_threads txt s (rg # rgs) =
     rbind (zip_thread txt rg) (\<lambda>es. pzip_threads txt (pzip_merge s es) rgs)"

fun pzip_files :: "files \<Rightarrow> nat \<Rightarrow> wz \<Rightarrow> string list \<Rightarrow> (nat \<times> u8 list) res" where
  "pzip_files fs nproc s [] = Inr (0, if 0 <s count s then emit s else out s)"
| "pzip_files fs nproc s (a # as) =
     (case fs a of None \<Rightarrow> Inr (1, out s @ str ''wzip: cannot open file\<newline>'')
      | Some f \<Rightarrow> rbind (pzip_threads f s (pzip_ranges nproc (length f)))
          (\<lambda>s'. pzip_files fs nproc s' as))"

definition pzip_main :: "files \<Rightarrow> nat \<Rightarrow> string list \<Rightarrow> (nat \<times> u8 list) res" where
  "pzip_main fs nproc args =
     (if args = [] then Inr (1, str ''wzip: file1 [file2 ...]\<newline>'')
      else pzip_files fs nproc \<lparr>curr = 0xEF, count = 0, out = []\<rparr> args)"

declare wzip_file.simps [simp del] wunzip_file.simps [simp del] zip_loop.simps [simp del]

section \<open>The reference encoding\<close>

text \<open>\<open>runs n c xs\<close>: the runs of \<open>xs\<close> behind a pending run of \<open>n\<close> bytes \<open>c\<close>.\<close>

fun runs :: "nat \<Rightarrow> u8 \<Rightarrow> u8 list \<Rightarrow> (nat \<times> u8) list" where
  "runs n c [] = [(n, c)]"
| "runs n c (x # xs) = (if x = c then runs (Suc n) c xs else (n, c) # runs 1 x xs)"

definition encode :: "(nat \<times> u8) list \<Rightarrow> u8 list" where
  "encode rs = concat (map (\<lambda>(n, c). int_bytes (of_nat n) @ [c]) rs)"

definition expand :: "(nat \<times> u8) list \<Rightarrow> u8 list" where
  "expand rs = concat (map (\<lambda>(n, c). replicate n c) rs)"

lemma encode_simps [simp]:
  "encode [] = []"
  "encode ((n, c) # rs) = int_bytes (of_nat n) @ c # encode rs"
  by (simp_all add: encode_def)

lemma expand_simps [simp]:
  "expand [] = []"
  "expand ((n, c) # rs) = replicate n c @ expand rs"
  "expand (rs @ rs') = expand rs @ expand rs'"
  by (simp_all add: expand_def)

lemma expand_runs: "expand (runs n c xs) = replicate n c @ xs"
  by (induction xs arbitrary: n c) (auto simp: replicate_append_same[symmetric])

lemma runs_bound: "(k, d) \<in> set (runs n c xs) \<Longrightarrow> 0 < n \<Longrightarrow> 0 < k \<and> k \<le> n + length xs"
  by (induction xs arbitrary: n c) (fastforce split: if_splits)+

section \<open>wzip produces the reference encoding\<close>

lemma wzip_chars_append: "wzip_chars s (xs @ ys) = wzip_chars (wzip_chars s xs) ys"
  by (induction xs arbitrary: s) auto

lemma wzip_chars_runs:
  "count s = of_nat n \<Longrightarrow> emit (wzip_chars s xs) = out s @ encode (runs n (curr s) xs)"
proof (induction xs arbitrary: s n)
  case Nil
  then show ?case by (simp add: emit_def)
next
  case (Cons x xs)
  show ?case
  proof (cases "curr s = x")
    case True
    with Cons.IH[of "s\<lparr>count := count s + 1\<rparr>" "Suc n"] Cons.prems show ?thesis
      by (simp add: add.commute)
  next
    case False
    with Cons.IH[of "s\<lparr>out := emit s, curr := x, count := 1\<rparr>" 1] Cons.prems show ?thesis
      by (auto simp: emit_def)
  qed
qed

text \<open>The counter never returns to 0 while fewer than \<open>2 ^ 32\<close> bytes have been read.\<close>

lemma wzip_chars_count:
  "count s = of_nat n \<Longrightarrow> 0 < n \<Longrightarrow>
     \<exists>k. count (wzip_chars s xs) = of_nat k \<and> 0 < k \<and> k \<le> n + length xs"
proof (induction xs arbitrary: s n)
  case (Cons x xs)
  show ?case
  proof (cases "curr s = x")
    case True
    with Cons.IH[of "s\<lparr>count := count s + 1\<rparr>" "Suc n"] Cons.prems show ?thesis
      by (auto simp: add.commute)
  next
    case False
    with Cons.IH[of "s\<lparr>out := emit s, curr := x, count := 1\<rparr>" 1] Cons.prems show ?thesis
      by fastforce
  qed
qed auto

lemma of_nat_ne_0: "0 < n \<Longrightarrow> n < 2 ^ 32 \<Longrightarrow> (of_nat n :: u32) \<noteq> 0"
  using unat_of_nat_u32[of n] by fastforce

text \<open>What the program has consumed so far is a list \<open>xs\<close>; \<open>consumed s xs s'\<close> says which state that
  leaves it in.\<close>

definition consume :: "wz \<Rightarrow> u8 list \<Rightarrow> wz" where
  "consume s xs = (case xs of [] \<Rightarrow> s
     | c # cs \<Rightarrow> if count s = 0 then wzip_chars (s\<lparr>curr := c, count := 1\<rparr>) cs else wzip_chars s xs)"

definition at_most :: "wz \<Rightarrow> nat \<Rightarrow> bool" where
  "at_most s n \<longleftrightarrow> (\<exists>k. count s = of_nat k \<and> k \<le> n)"

lemma consume_Nil [simp]: "consume s [] = s"
  by (simp add: consume_def)

lemma at_most_pos:
  assumes "at_most s n" and "count s \<noteq> 0"
  shows "\<exists>k. count s = of_nat k \<and> k \<le> n \<and> 0 < k"
proof -
  from assms obtain k where "count s = of_nat k" "k \<le> n" by (auto simp: at_most_def)
  with assms(2) show ?thesis by (intro exI[of _ k]) (cases k, auto)
qed

lemma consume_at_most:
  assumes "at_most s n"
  shows "at_most (consume s xs) (n + length xs)"
proof (cases xs)
  case Nil
  with assms show ?thesis by simp
next
  case (Cons c cs)
  show ?thesis
  proof (cases "count s = 0")
    case True
    with Cons wzip_chars_count[of "s\<lparr>curr := c, count := 1\<rparr>" 1 cs] show ?thesis
      by (fastforce simp: consume_def at_most_def)
  next
    case False
    from at_most_pos[OF assms(1) False] obtain k where "count s = of_nat k" "k \<le> n" "0 < k"
      by blast
    with False Cons wzip_chars_count[of s k xs] show ?thesis
      by (fastforce simp: consume_def at_most_def)
  qed
qed

lemma consume_nonzero:
  assumes "at_most s n" and "xs \<noteq> []" and "n + length xs < 2 ^ 32"
  shows "count (consume s xs) \<noteq> 0"
proof (cases xs)
  case (Cons c cs)
  show ?thesis
  proof (cases "count s = 0")
    case True
    with Cons wzip_chars_count[of "s\<lparr>curr := c, count := 1\<rparr>" 1 cs] assms(3) show ?thesis
      by (auto simp: consume_def of_nat_ne_0)
  next
    case False
    from at_most_pos[OF assms(1) False] obtain k where "count s = of_nat k" "k \<le> n" "0 < k"
      by blast
    with False Cons wzip_chars_count[of s k xs] assms(3) show ?thesis
      by (fastforce simp: consume_def dest: of_nat_ne_0)
  qed
qed (use assms in simp)

lemma consume_append:
  assumes "at_most s n" and "n + length xs < 2 ^ 32"
  shows "consume s (xs @ ys) = consume (consume s xs) ys"
proof (cases xs)
  case (Cons c cs)
  have "count (consume s xs) \<noteq> 0" using consume_nonzero[OF assms(1) _ assms(2)] Cons by simp
  moreover have "consume s (xs @ ys) = wzip_chars (consume s xs) ys"
    by (simp add: consume_def Cons wzip_chars_append)
  ultimately show ?thesis by (cases ys) (simp_all add: consume_def[of "consume s xs"])
qed simp

lemma wzip_line_consume: "0 \<notin> set l \<Longrightarrow> l \<noteq> [] \<Longrightarrow> wzip_line s l = consume s l"
  by (cases l) (simp_all add: wzip_line_def consume_def c_string_id Let_def)

lemma wzip_file_consume:
  "0 \<notin> set f \<Longrightarrow> at_most s n \<Longrightarrow> n + length f < 2 ^ 32 \<Longrightarrow> wzip_file s f = consume s f"
proof (induction s f arbitrary: n rule: wzip_file.induct)
  case (1 s f)
  show ?case
  proof (cases "getline f")
    case None
    then have "f = []" by (simp add: getline_def split: if_splits)
    with None show ?thesis by (simp add: wzip_file.simps)
  next
    case (Some lr)
    obtain l r where lr: "getline f = Some (l, r)" using Some by (cases lr) simp
    note f = getline_append[OF lr]
    have len: "length f = length l + length r" and s: "0 \<notin> set l" "0 \<notin> set r"
      using f "1.prems"(1) by auto
    have l: "wzip_line s l = consume s l" using wzip_line_consume[OF s(1)] f by simp
    have "wzip_file s f = wzip_file (wzip_line s l) r"
      using lr by (simp add: wzip_file.simps[of s f])
    also have "\<dots> = consume (wzip_line s l) r"
      using "1.prems" len s l consume_at_most[of s n l]
      by (intro "1.IH"[OF lr refl, of "n + length l"]) auto
    also have "\<dots> = consume s (l @ r)"
      using l "1.prems" len consume_append[of s n l r] by simp
    finally show ?thesis using f by simp
  qed
qed

lemma wzip_files_consume:
  assumes "map fs names = map Some cs" and "0 \<notin> set (concat cs)"
    and "at_most s n" and "n + length (concat cs) < 2 ^ 32"
  shows "wzip_files fs s names = (0, emit (consume s (concat cs)))"
  using assms
proof (induction names arbitrary: s cs n)
  case (Cons a as)
  then obtain f fss where cs: "cs = f # fss" "fs a = Some f" "map fs as = map Some fss"
    by (cases cs) auto
  have f: "wzip_file s f = consume s f"
    using Cons.prems cs(1) by (intro wzip_file_consume[of _ _ n]) auto
  have "wzip_files fs (consume s f) as = (0, emit (consume (consume s f) (concat fss)))"
    using Cons.prems cs consume_at_most[of s n f] by (intro Cons.IH[where cs = fss and n = "n + length f"]) auto
  moreover have "consume (consume s f) (concat fss) = consume s (concat cs)"
    using Cons.prems cs(1) consume_append[of s n f "concat fss"] by simp
  ultimately show ?case using cs f by simp
qed simp

lemma emit_consume_initial:
  "emit (consume \<lparr>curr = c0, count = 0, out = []\<rparr> (c # xs)) = encode (runs 1 c xs)"
  using wzip_chars_runs[of "\<lparr>curr = c, count = 1, out = []\<rparr>" 1 xs] by (simp add: consume_def)

section \<open>wunzip inverts the reference encoding\<close>

lemma wunzip_file_Nil [simp]: "wunzip_file [] = []"
  by (simp add: wunzip_file.simps)

lemma nat_sint_of_nat: "n < 2 ^ 31 \<Longrightarrow> nat (sint (of_nat n :: u32)) = n"
  by (simp add: sint_u32 uint_int_unat unat_of_nat_u32 del: of_nat_unat)

lemma wunzip_encode:
  "(\<And>n c. (n, c) \<in> set rs \<Longrightarrow> n < 2 ^ 31) \<Longrightarrow> wunzip_file (encode rs) = expand rs"
proof (induction rs)
  case (Cons r rs)
  obtain n c where r: "r = (n, c)" by fastforce
  have "n < 2 ^ 31" using Cons.prems[of n c] r by simp
  moreover have "wunzip_file (encode rs) = expand rs"
    using Cons.prems by (intro Cons.IH) auto
  ultimately show ?case
    by (simp add: r wunzip_file.simps[of "int_bytes (word_of_nat n) @ c # encode rs"] nat_sint_of_nat)
qed simp

section \<open>Every thread of pzip computes the runs of its segment\<close>

abbreviation segment :: "u8 list \<Rightarrow> nat \<Rightarrow> nat \<Rightarrow> u8 list" where
  "segment txt a b \<equiv> take (b - a) (drop a txt)"

abbreviation entries :: "(nat \<times> u8) list \<Rightarrow> (u8 \<times> u32) list" where
  "entries rs \<equiv> map (\<lambda>(n, c). (c, of_nat n)) rs"

lemma segment_Cons: "a < b \<Longrightarrow> b \<le> length txt \<Longrightarrow> segment txt a b = txt ! a # segment txt (Suc a) b"
  by (metis Cons_nth_drop_Suc Suc_diff_Suc less_le_trans take_Suc_Cons)

lemma zip_loop_runs:
  "e \<le> length txt \<Longrightarrow>
     \<exists>d. zip_loop txt e i c (of_nat n) res = res @ entries (runs n c (segment txt i e)) @ [(d, - 1)]"
proof (induction "e - i" arbitrary: i c n res)
  case 0
  then show ?case by (subst zip_loop.simps) auto
next
  case (Suc k)
  then have i: "i < e" by simp
  note seg = segment_Cons[OF i Suc.prems]
  have k: "k = e - Suc i" using Suc.hyps(2) by simp
  show ?case
  proof (cases "c = txt ! i")
    case True
    with i seg Suc.hyps(1)[OF k Suc.prems, of c "Suc n" res] show ?thesis
      by (subst zip_loop.simps) (simp add: add.commute)
  next
    case False
    with i seg Suc.hyps(1)[OF k Suc.prems, of "txt ! i" 1 "res @ [(c, of_nat n)]"] show ?thesis
      by (subst zip_loop.simps) auto
  qed
qed

lemma length_runs: "length (runs n c xs) \<le> Suc (length xs)"
  by (induction xs arbitrary: n c) (auto intro: le_SucI)

lemma zip_thread_runs:
  assumes "a < b" and "b \<le> length txt" and "length txt < 1000000"
  shows "\<exists>d rs. zip_thread txt (a, b) = Inr (entries rs @ [(d, - 1)]) \<and>
    expand rs = segment txt a b \<and> (\<forall>(n, c) \<in> set rs. 0 < n \<and> n \<le> length txt)"
proof -
  let ?seg = "segment txt (Suc a) b"
  let ?rs = "runs 1 (txt ! a) ?seg"
  obtain d where d: "zip_loop txt b (Suc a) (txt ! a) 1 [] = entries ?rs @ [(d, - 1)]"
    using zip_loop_runs[OF assms(2), of "Suc a" "txt ! a" 1 "[]"] by auto
  have len: "length ?seg \<le> b - Suc a" by simp
  have ex: "expand ?rs = segment txt a b"
    using segment_Cons[OF assms(1,2)] by (simp add: expand_runs)
  have "\<forall>(n, c) \<in> set ?rs. 0 < n \<and> n \<le> length txt"
    using runs_bound[of _ _ 1 "txt ! a" ?seg] len assms by fastforce
  moreover have "zip_thread txt (a, b) = Inr (entries ?rs @ [(d, - 1)])"
    using assms len length_runs[of 1 "txt ! a" ?seg] by (simp add: zip_thread_def d Let_def)
  ultimately show ?thesis using ex by blast
qed

section \<open>Merging the threads' runs is consuming the text\<close>

lemma wzip_chars_replicate:
  "curr s = c \<Longrightarrow> wzip_chars s (replicate n c) = s\<lparr>count := count s + of_nat n\<rparr>"
  by (induction n arbitrary: s) (simp_all add: algebra_simps)

lemma pzip_merge_run:
  assumes "0 < n" and "n < 2 ^ 32 - 1"
  shows "pzip_merge s ((c, of_nat n) # es) = pzip_merge (consume s (replicate n c)) es"
proof -
  have "(of_nat n :: u32) \<noteq> - 1"
  proof
    assume "(of_nat n :: u32) = - 1"
    then have "unat (of_nat n :: u32) = 2 ^ 32 - 1" by simp
    with assms show False by (simp add: unat_of_nat_u32)
  qed
  moreover obtain k where k: "n = Suc k" using assms(1) by (cases n) auto
  have "consume s (replicate n c) =
      (if curr s \<noteq> c
       then s\<lparr>out := (if count s \<noteq> 0 then emit s else out s), curr := c, count := of_nat n\<rparr>
       else s\<lparr>count := count s + of_nat n\<rparr>)"
    by (auto simp: consume_def k wzip_chars_replicate algebra_simps)
  ultimately show ?thesis by auto
qed

lemma pzip_merge_runs:
  assumes "\<forall>(n, c) \<in> set rs. 0 < n \<and> n < 2 ^ 32 - 1"
    and "at_most s k" and "k + length (expand rs) < 2 ^ 32"
  shows "pzip_merge s (entries rs @ [(d, - 1)]) = consume s (expand rs)"
  using assms
proof (induction rs arbitrary: s k)
  case (Cons r rs)
  obtain n c where r: "r = (n, c)" by fastforce
  have n: "0 < n" "n < 2 ^ 32 - 1" using Cons.prems(1) r by auto
  have "pzip_merge (consume s (replicate n c)) (entries rs @ [(d, - 1)])
      = consume (consume s (replicate n c)) (expand rs)"
    using Cons.prems r consume_at_most[of s k "replicate n c"]
    by (intro Cons.IH[where k = "k + n"]) auto
  with pzip_merge_run[OF n, of s c] consume_append[of s k "replicate n c" "expand rs"] Cons.prems r
  show ?case by simp
qed simp

lemma pzip_threads_consume:
  assumes "\<forall>(a, b) \<in> set rgs. a < b \<and> b \<le> length txt" and "length txt < 1000000"
    and "at_most s k" and "k + length (concat (map (\<lambda>(a, b). segment txt a b) rgs)) < 2 ^ 32"
  shows "pzip_threads txt s rgs = Inr (consume s (concat (map (\<lambda>(a, b). segment txt a b) rgs)))"
  using assms
proof (induction rgs arbitrary: s k)
  case (Cons rg rgs)
  obtain a b where rg: "rg = (a, b)" by fastforce
  let ?seg = "segment txt a b" and ?rest = "concat (map (\<lambda>(a, b). segment txt a b) rgs)"
  obtain d rs where t: "zip_thread txt (a, b) = Inr (entries rs @ [(d, - 1)])"
      and ex: "expand rs = ?seg" and bd: "\<forall>(n, c) \<in> set rs. 0 < n \<and> n \<le> length txt"
    using zip_thread_runs[of a b "txt"] Cons.prems rg by auto
  have "pzip_merge s (entries rs @ [(d, - 1)]) = consume s ?seg"
    using Cons.prems bd rg ex by (subst pzip_merge_runs[where k = k]) auto
  moreover have "pzip_threads txt (consume s ?seg) rgs = Inr (consume (consume s ?seg) ?rest)"
    using Cons.prems rg consume_at_most[of s k ?seg]
    by (intro Cons.IH[where k = "k + length ?seg"]) auto
  ultimately show ?case
    using t rg Cons.prems(3,4) consume_append[of s k ?seg ?rest] by simp
qed simp

lemma concat_parts:
  "part * j \<le> length f \<Longrightarrow>
     concat (map (\<lambda>j. segment f (part * j) (part * j + part)) [0..<j]) = take (part * j) f"
proof (induction j)
  case (Suc j)
  then have "take (part * Suc j) f = take (part * j) f @ take part (drop (part * j) f)"
    by (simp add: add.commute take_add[symmetric])
  with Suc show ?case by (simp add: add.commute)
qed simp

lemma pzip_ranges_cover:
  assumes "0 < n" and "n \<le> length f"
  shows "concat (map (\<lambda>(a, b). segment f a b) (pzip_ranges n (length f))) = f"
    and "\<forall>(a, b) \<in> set (pzip_ranges n (length f)). a < b \<and> b \<le> length f"
proof -
  let ?p = "length f div n"
  have p: "0 < ?p" "?p * n \<le> length f" using assms by (simp_all add: div_greater_zero_iff)
  have pj: "?p * j + ?p \<le> length f" if "j < n" for j
  proof -
    have "?p * Suc j \<le> ?p * n" using that by (intro mult_le_mono2) simp
    from le_trans[OF this p(2)] show ?thesis by (simp add: add.commute)
  qed
  obtain k where k: "n = Suc k" using assms(1) by (cases n) auto
  have "map (\<lambda>(a, b). segment f a b) (pzip_ranges n (length f))
      = map (\<lambda>j. segment f (?p * j) (?p * j + ?p)) [0..<k] @ [segment f (?p * k) (length f)]"
    by (auto simp: pzip_ranges_def k Let_def)
  then show "concat (map (\<lambda>(a, b). segment f a b) (pzip_ranges n (length f))) = f"
    using concat_parts[of ?p k f] pj[of k] k by simp
  show "\<forall>(a, b) \<in> set (pzip_ranges n (length f)). a < b \<and> b \<le> length f"
    using pj p(1) by (fastforce simp: pzip_ranges_def Let_def)
qed

lemma pzip_files_consume:
  assumes "map fs names = map Some cs" and "0 < nproc"
    and "\<forall>f \<in> set cs. nproc \<le> length f \<and> length f < 1000000"
    and "at_most s n" and "n + length (concat cs) < 2 ^ 32"
  shows "pzip_files fs nproc s names =
    (let t = consume s (concat cs) in Inr (0, if 0 <s count t then emit t else out t))"
  using assms
proof (induction names arbitrary: s cs n)
  case (Cons a as)
  then obtain f fss where cs: "cs = f # fss" "fs a = Some f" "map fs as = map Some fss"
    by (cases cs) auto
  note cover = pzip_ranges_cover[of nproc f]
  have f: "pzip_threads f s (pzip_ranges nproc (length f)) = Inr (consume s f)"
    using Cons.prems cs(1) cover pzip_threads_consume[of "pzip_ranges nproc (length f)" f s n] by simp
  have "pzip_files fs nproc (consume s f) as = (let t = consume (consume s f) (concat fss)
      in Inr (0, if 0 <s count t then emit t else out t))"
    using Cons.prems cs consume_at_most[of s n f]
    by (intro Cons.IH[where cs = fss and n = "n + length f"]) auto
  moreover have "consume (consume s f) (concat fss) = consume s (concat cs)"
    using Cons.prems cs(1) consume_append[of s n f "concat fss"] by simp
  ultimately show ?case using cs f by simp
qed (simp add: Let_def)

section \<open>Properties\<close>

lemma at_most_initial [simp]: "at_most \<lparr>curr = c0, count = 0, out = []\<rparr> 0"
  by (auto simp: at_most_def)

lemma wzip_main_encode:
  assumes "map fs names = map Some cs" and "concat cs = c # xs" and "0 \<notin> set (concat cs)"
    and "length (concat cs) < 2 ^ 31"
  shows "wzip_main fs c0 names = (0, encode (runs 1 c xs))"
proof -
  have "names \<noteq> []" using assms(1,2) by auto
  with wzip_files_consume[OF assms(1,3), of "\<lparr>curr = c0, count = 0, out = []\<rparr>" 0] assms(2,4)
  show ?thesis by (simp add: wzip_main_def emit_consume_initial)
qed






end
