(* ===== verification/Wutils.thy ===== *)
theory Wutils
  imports Rle "HOL-Library.Sublist"
begin

text \<open>
  The line tools \<^verbatim>\<open>P1a/wcat/wcat.c\<close> and \<^verbatim>\<open>P1a/wgrep/wgrep.c\<close>: files are read through \<^verbatim>\<open>fgets\<close> with a
  buffer of 256 bytes, or line by line with \<^verbatim>\<open>getline\<close>, and printed with \<^verbatim>\<open>%s\<close>.
\<close>

function wcat_file :: "u8 list \<Rightarrow> u8 list" where
  "wcat_file f =
     (case fgets 256 f of None \<Rightarrow> [] | Some (b, r) \<Rightarrow> c_string b @ wcat_file r)"
  by pat_completeness auto
termination
proof (relation "measure length")
  fix f :: "u8 list" and x b r
  assume "fgets 256 f = Some x" and "(b, r) = x"
  then have "b @ r = f \<and> b \<noteq> []" using fgets_append[of 256 f b r] by simp
  then show "(r, f) \<in> measure length" by auto
qed auto

fun wcat_files :: "files \<Rightarrow> u8 list \<Rightarrow> string list \<Rightarrow> nat \<times> u8 list" where
  "wcat_files fs acc [] = (0, acc)"
| "wcat_files fs acc (a # as) =
     (case fs a of None \<Rightarrow> (1, acc @ str ''wcat: cannot open file\<newline>'')
      | Some f \<Rightarrow> wcat_files fs (acc @ wcat_file f) as)"

definition wcat_main :: "files \<Rightarrow> string list \<Rightarrow> nat \<times> u8 list" where
  "wcat_main fs args = (if args = [] then (0, []) else wcat_files fs [] args)"

text \<open>\<^verbatim>\<open>strstr(buffer, argv[1]) != NULL\<close>.\<close>

definition strstr :: "u8 list \<Rightarrow> u8 list \<Rightarrow> bool" where
  "strstr hay needle = sublist needle hay"

function wgrep_file :: "u8 list \<Rightarrow> u8 list \<Rightarrow> u8 list" where
  "wgrep_file term f =
     (case getline f of None \<Rightarrow> []
      | Some (b, r) \<Rightarrow>
          (if strstr (c_string b) term then c_string b else []) @ wgrep_file term r)"
  by pat_completeness auto
termination
  by (relation "measure (\<lambda>(t, f). length f)") (auto dest: getline_shorter)

fun wgrep_files :: "files \<Rightarrow> u8 list \<Rightarrow> u8 list \<Rightarrow> string list \<Rightarrow> nat \<times> u8 list" where
  "wgrep_files fs term acc [] = (0, acc)"
| "wgrep_files fs term acc (a # as) =
     (case fs a of None \<Rightarrow> (1, acc @ str ''wgrep: cannot open file\<newline>'')
      | Some f \<Rightarrow> wgrep_files fs term (acc @ wgrep_file term f) as)"

definition wgrep_main :: "files \<Rightarrow> u8 list \<Rightarrow> string list \<Rightarrow> nat \<times> u8 list" where
  "wgrep_main fs inp args =
     (case args of
        [] \<Rightarrow> (1, str ''wgrep: searchterm [file ...]\<newline>'')
      | [t] \<Rightarrow> (0, wgrep_file (str t) inp)
      | t # as \<Rightarrow> wgrep_files fs (str t) [] as)"

declare wcat_file.simps [simp del] wgrep_file.simps [simp del]

section \<open>wcat and wgrep on files without NUL bytes\<close>

lemma wcat_file_id: "0 \<notin> set f \<Longrightarrow> wcat_file f = f"
proof (induction f rule: wcat_file.induct)
  case (1 f)
  show ?case
  proof (cases "fgets 256 f")
    case None
    then have "f = []" by (auto simp: fgets_def split: if_splits prod.splits)
    with None show ?thesis by (simp add: wcat_file.simps)
  next
    case (Some x)
    then obtain b r where br: "fgets 256 f = Some (b, r)" by (cases x) simp
    have f: "b @ r = f" using fgets_append[OF br] by simp
    then have z: "0 \<notin> set b" "0 \<notin> set r" using "1.prems" by auto
    with "1.IH"[OF br refl] br f show ?thesis
      by (simp add: wcat_file.simps[of f] c_string_id)
  qed
qed

lemma wcat_files_concat:
  "map fs names = map Some cs \<Longrightarrow> 0 \<notin> set (concat cs) \<Longrightarrow>
     wcat_files fs acc names = (0, acc @ concat cs)"
proof (induction names arbitrary: acc cs)
  case (Cons a as)
  then obtain f fss where "cs = f # fss" "fs a = Some f" "map fs as = map Some fss"
    by (cases cs) auto
  with Cons show ?case by (simp add: wcat_file_id)
qed simp

text \<open>The lines of a text, each with its newline.\<close>

function lines :: "u8 list \<Rightarrow> u8 list list" where
  "lines f = (case getline f of None \<Rightarrow> [] | Some (b, r) \<Rightarrow> b # lines r)"
  by pat_completeness auto
termination
  by (relation "measure length") (auto dest: getline_shorter)

declare lines.simps [simp del]

lemma wgrep_file_lines: "0 \<notin> set f \<Longrightarrow> wgrep_file t f = concat (filter (sublist t) (lines f))"
proof (induction t f rule: wgrep_file.induct)
  case (1 t f)
  show ?case
  proof (cases "getline f")
    case None
    then show ?thesis by (simp add: wgrep_file.simps[of t f] lines.simps[of f])
  next
    case (Some x)
    then obtain b r where br: "getline f = Some (b, r)" by (cases x) simp
    have "b @ r = f" using getline_append[OF br] by simp
    then have z: "0 \<notin> set b" "0 \<notin> set r" using "1.prems" by auto
    with "1.IH"[OF br refl] br show ?thesis
      by (simp add: wgrep_file.simps[of t f] lines.simps[of f] c_string_id strstr_def)
  qed
qed

lemma wgrep_files_lines:
  "map fs names = map Some cs \<Longrightarrow> 0 \<notin> set (concat cs) \<Longrightarrow>
     wgrep_files fs t acc names =
       (0, acc @ concat (map (\<lambda>f. concat (filter (sublist t) (lines f))) cs))"
proof (induction names arbitrary: acc cs)
  case (Cons a as)
  then obtain f fss where "cs = f # fss" "fs a = Some f" "map fs as = map Some fss"
    by (cases cs) auto
  with Cons show ?case by (simp add: wgrep_file_lines)
qed simp

lemma concat_lines: "concat (lines f) = f"
proof (induction f rule: lines.induct)
  case (1 f)
  show ?case
  proof (cases "getline f")
    case None
    then have "f = []" by (simp add: getline_def split: if_splits)
    with None show ?thesis by (simp add: lines.simps)
  next
    case (Some x)
    then obtain b r where br: "getline f = Some (b, r)" by (cases x) simp
    from "1.IH"[OF br refl] br getline_append[OF br] show ?thesis by (simp add: lines.simps[of f])
  qed
qed



end
