(* ===== verification/Grep.thy ===== *)
theory Grep
  imports Wutils
begin

text \<open>
  \<^verbatim>\<open>src/src/grep.c\<close>: the regular expression matcher and the line buffer of \<^verbatim>\<open>grep\<close>. A C string is the list
  of its bytes without the NUL, so \<^verbatim>\<open>re[1]\<close> of a one-byte pattern is the NUL. The file is read with a
  buffer of 1024 bytes of which the program keeps the unfinished last line between two \<^verbatim>\<open>read\<close> calls.
\<close>

section \<open>The matcher\<close>

text \<open>The character constants of the pattern language.\<close>

abbreviation "c_caret \<equiv> (94 :: u8)"
abbreviation "c_dollar \<equiv> (36 :: u8)"
abbreviation "c_star \<equiv> (42 :: u8)"
abbreviation "c_dot \<equiv> (46 :: u8)"

definition char_at :: "u8 list \<Rightarrow> nat \<Rightarrow> u8" where
  "char_at s i = (if i < length s then s ! i else 0)"

function (sequential) matchhere :: "u8 list \<Rightarrow> u8 list \<Rightarrow> bool"
  and matchstar :: "u8 \<Rightarrow> u8 list \<Rightarrow> u8 list \<Rightarrow> bool" where
  "matchhere re text =
     (if re = [] then True
      else if char_at re 1 = c_star then matchstar (re ! 0) (drop 2 re) text
      else if re ! 0 = c_dollar \<and> length re = 1 then text = []
      else if text \<noteq> [] \<and> (re ! 0 = c_dot \<or> re ! 0 = text ! 0) then matchhere (tl re) (tl text)
      else False)"
| "matchstar c re text =
     (if matchhere re text then True
      else if text \<noteq> [] \<and> (text ! 0 = c \<or> c = c_dot) then matchstar c re (tl text)
      else False)"
  by pat_completeness auto
termination
  by (relation "measures [case_sum (\<lambda>(re, text). length re) (\<lambda>(c, re, text). Suc (length re)),
        case_sum (\<lambda>(re, text). length text) (\<lambda>(c, re, text). length text)]")
    (auto simp: char_at_def split: if_splits)

fun match_any :: "u8 list \<Rightarrow> u8 list \<Rightarrow> bool" where
  "match_any re [] = matchhere re []"
| "match_any re (c # text) = (if matchhere re (c # text) then True else match_any re text)"

definition matches :: "u8 list \<Rightarrow> u8 list \<Rightarrow> bool" where
  "matches re text =
     (if re \<noteq> [] \<and> re ! 0 = c_caret then matchhere (tl re) text else match_any re text)"

declare matchhere.simps [simp del] matchstar.simps [simp del]

section \<open>The line buffer\<close>

text \<open>The scan of the buffer: for every newline, match the line before it, print it with its newline if
  it matches, and go on behind it; \<^verbatim>\<open>strchr\<close> finds no newline behind a NUL. Returned are what is printed
  and the bytes behind the last newline found.\<close>

fun scan_lines :: "u8 list \<Rightarrow> u8 list \<Rightarrow> u8 list \<Rightarrow> u8 list \<times> u8 list" where
  "scan_lines pat acc [] = ([], acc)"
| "scan_lines pat acc (c # cs) =
     (if c = 0 then ([], acc @ c # cs)
      else if c = 10
      then let (o1, rest) = scan_lines pat [] cs in
        ((if matches pat acc then acc @ [10] else []) @ o1, rest)
      else scan_lines pat (acc @ [c]) cs)"

text \<open>\<^verbatim>\<open>read(fd, buf+m, sizeof(buf)-m-1)\<close> on a regular file delivers as much as fits or is left. When no
  newline was found (\<^verbatim>\<open>p == buf\<close>) the whole buffer is dropped.\<close>

function grep_loop :: "u8 list \<Rightarrow> u8 list \<Rightarrow> u8 list \<Rightarrow> u8 list" where
  "grep_loop pat buf f =
     (let n = min (1023 - length buf) (length f) in
      if n = 0 then []
      else let (printed, rest) = scan_lines pat [] (buf @ take n f);
               keep = (if length rest = length (buf @ take n f) then [] else rest) in
        printed @ grep_loop pat keep (drop n f))"
  by pat_completeness auto
termination
  by (relation "measure (\<lambda>(pat, buf, f). length f)") auto

declare grep_loop.simps [simp del]

definition grep :: "u8 list \<Rightarrow> u8 list \<Rightarrow> u8 list" where
  "grep pat f = grep_loop pat [] f"

fun grep_files :: "files \<Rightarrow> u8 list \<Rightarrow> u8 list \<Rightarrow> string list \<Rightarrow> u8 list" where
  "grep_files fs pat acc [] = acc"
| "grep_files fs pat acc (a # as) =
     (case fs a of None \<Rightarrow> acc @ str ''grep: cannot open '' @ str a @ str ''\<newline>''
      | Some f \<Rightarrow> grep_files fs pat (acc @ grep pat f) as)"

text \<open>What the program prints on file descriptor 1, and on file descriptor 2.\<close>

definition grep_main :: "files \<Rightarrow> u8 list \<Rightarrow> string list \<Rightarrow> u8 list \<times> u8 list" where
  "grep_main fs inp args =
     (case args of
        [] \<Rightarrow> ([], str ''usage: grep pattern [file ...]\<newline>'')
      | [p] \<Rightarrow> (grep (str p) inp, [])
      | p # as \<Rightarrow> (grep_files fs (str p) [] as, []))"

section \<open>What a pattern means\<close>

datatype atom = Chr u8 | Dot
datatype item = One atom | Many atom | Eol

fun ok :: "atom \<Rightarrow> u8 \<Rightarrow> bool" where
  "ok Dot x = True"
| "ok (Chr c) x = (c = x)"

definition atom_of :: "u8 \<Rightarrow> atom" where
  "atom_of c = (if c = c_dot then Dot else Chr c)"

fun parse_re :: "u8 list \<Rightarrow> item list" where
  "parse_re [] = []"
| "parse_re [c] = (if c = c_dollar then [Eol] else [One (atom_of c)])"
| "parse_re (c # d # re) =
     (if d = c_star then Many (atom_of c) # parse_re re else One (atom_of c) # parse_re (d # re))"

text \<open>\<open>accepts is t\<close>: the items match a prefix of the text \<open>t\<close>.\<close>

inductive accepts :: "item list \<Rightarrow> u8 list \<Rightarrow> bool" where
  acc_nil: "accepts [] t"
| acc_one: "ok a c \<Longrightarrow> accepts is t \<Longrightarrow> accepts (One a # is) (c # t)"
| acc_many: "list_all (ok a) xs \<Longrightarrow> accepts is t \<Longrightarrow> accepts (Many a # is) (xs @ t)"
| acc_eol: "accepts [Eol] []"

inductive_simps accepts_Nil [simp]: "accepts [] t"
inductive_simps accepts_One [simp]: "accepts (One a # is) t"
inductive_simps accepts_Eol [simp]: "accepts [Eol] t"
inductive_cases accepts_ManyE: "accepts (Many a # is) t"

lemma accepts_Many:
  "accepts (Many a # is) t \<longleftrightarrow>
     accepts is t \<or> (\<exists>c t'. t = c # t' \<and> ok a c \<and> accepts (Many a # is) t')"
proof
  assume "accepts (Many a # is) t"
  then obtain xs t' where t: "t = xs @ t'" "list_all (ok a) xs" "accepts is t'"
    by (elim accepts_ManyE) auto
  show "accepts is t \<or> (\<exists>c t'. t = c # t' \<and> ok a c \<and> accepts (Many a # is) t')"
  proof (cases xs)
    case (Cons x ys)
    with t have "accepts (Many a # is) (ys @ t')" by (intro acc_many) auto
    with t Cons show ?thesis by auto
  qed (use t in simp)
next
  assume "accepts is t \<or> (\<exists>c t'. t = c # t' \<and> ok a c \<and> accepts (Many a # is) t')"
  then show "accepts (Many a # is) t"
  proof
    assume "accepts is t"
    then show ?thesis using acc_many[of a "[]" "is" t] by simp
  next
    assume "\<exists>c t'. t = c # t' \<and> ok a c \<and> accepts (Many a # is) t'"
    then obtain c xs t' where "t = c # xs @ t'" "ok a c" "list_all (ok a) xs" "accepts is t'"
      by (auto elim: accepts_ManyE)
    then show ?thesis using acc_many[of a "c # xs" "is" t'] by simp
  qed
qed

lemma ok_atom_of: "ok (atom_of c) x \<longleftrightarrow> c = c_dot \<or> c = x"
  by (simp add: atom_of_def)

lemma matcher_accepts:
  "matchhere re text \<longleftrightarrow> accepts (parse_re re) text"
  "matchstar c re text \<longleftrightarrow> accepts (Many (atom_of c) # parse_re re) text"
proof (induction re "text" and c re "text" rule: matchhere_matchstar.induct)
  case (1 re tx)
  then show ?case
  proof (cases re rule: parse_re.cases)
    case (3 c d r)
    with 1 show ?thesis
      by (cases tx; subst matchhere.simps) (auto simp: char_at_def ok_atom_of)
  next
    case 2
    with 1 show ?thesis
      by (cases tx; subst matchhere.simps) (auto simp: char_at_def ok_atom_of matchhere.simps)
  qed (simp add: matchhere.simps)
next
  case (2 c re tx)
  then show ?case
    by (subst matchstar.simps, subst accepts_Many, cases tx) (auto simp: ok_atom_of)
qed


lemma match_any_ex: "match_any re tx \<longleftrightarrow> (\<exists>pre suf. tx = pre @ suf \<and> matchhere re suf)"
proof (induction tx)
  case (Cons c tx)
  then show ?case by (auto simp: Cons_eq_append_conv)
qed simp

section \<open>The lines grep prints\<close>

definition unlines :: "u8 list list \<Rightarrow> u8 list" where
  "unlines ls = concat (map (\<lambda>l. l @ [10]) ls)"

lemma unlines_simps [simp]:
  "unlines [] = []" "unlines (l # ls) = l @ 10 # unlines ls" "unlines (as @ bs) = unlines as @ unlines bs"
  by (simp_all add: unlines_def)

lemma split_unlines:
  "\<exists>ls t. b = unlines ls @ t \<and> 10 \<notin> set t \<and> (\<forall>l \<in> set ls. 10 \<notin> set l)"
proof (induction b)
  case (Cons c b)
  then obtain ls t where h: "b = unlines ls @ t" "10 \<notin> set t" "\<forall>l \<in> set ls. 10 \<notin> set l" by blast
  show ?case
  proof (cases "c = 10")
    case True
    then show ?thesis using h by (intro exI[of _ "[] # ls"] exI[of _ t]) simp
  next
    case c: False
    show ?thesis
    proof (cases ls)
      case Nil
      then show ?thesis using h c by (intro exI[of _ "[]"] exI[of _ "c # t"]) simp
    next
      case (Cons l ls')
      then show ?thesis using h c by (intro exI[of _ "(c # l) # ls'"] exI[of _ t]) auto
    qed
  qed
qed (intro exI[of _ "[]"], simp)

lemma first_newline:
  assumes "l @ 10 # x = l' @ (10 :: u8) # y" "10 \<notin> set l" "10 \<notin> set l'"
  shows "l = l' \<and> x = y"
proof -
  have "takeWhile (\<lambda>c. c \<noteq> 10) (l @ 10 # x) = l" using assms(2) by (subst takeWhile_append2) auto
  moreover have "takeWhile (\<lambda>c. c \<noteq> 10) (l' @ 10 # y) = l'"
    using assms(3) by (subst takeWhile_append2) auto
  ultimately show ?thesis using assms(1) by simp
qed

lemma unlines_prefix:
  assumes "unlines ls1 @ r = unlines ls @ t" "10 \<notin> set t"
    and "\<forall>l \<in> set ls1. 10 \<notin> set l" "\<forall>l \<in> set ls. 10 \<notin> set l"
  shows "\<exists>ls2. ls = ls1 @ ls2 \<and> r = unlines ls2 @ t"
  using assms
proof (induction ls1 arbitrary: ls)
  case (Cons l ls1)
  then obtain l' ls' where ls: "ls = l' # ls'"
    by (cases ls) (auto dest: arg_cong[where f = set])
  have "l = l' \<and> unlines ls1 @ r = unlines ls' @ t"
    using Cons.prems ls by (intro first_newline) auto
  with Cons.IH[of ls'] Cons.prems ls show ?case by auto
qed simp

lemma scan_lines_tail: "10 \<notin> set t \<Longrightarrow> scan_lines pat acc t = ([], acc @ t)"
  by (induction t arbitrary: acc) auto

lemma scan_lines_line:
  "10 \<notin> set l \<Longrightarrow> 0 \<notin> set l \<Longrightarrow> scan_lines pat acc (l @ 10 # r) =
     (let (o1, rest) = scan_lines pat [] r in
        ((if matches pat (acc @ l) then acc @ l @ [10] else []) @ o1, rest))"
  by (induction l arbitrary: acc) auto

lemma scan_lines_unlines:
  assumes "\<forall>l \<in> set ls. 10 \<notin> set l \<and> 0 \<notin> set l" "10 \<notin> set t"
  shows "scan_lines pat [] (unlines ls @ t) = (unlines (filter (matches pat) ls), t)"
  using assms
proof (induction ls)
  case (Cons l ls)
  then show ?case by (simp add: scan_lines_line)
qed (simp add: scan_lines_tail)

lemma grep_loop_no_newline:
  "10 \<notin> set buf \<Longrightarrow> 10 \<notin> set f \<Longrightarrow> grep_loop pat buf f = []"
proof (induction pat buf f rule: grep_loop.induct)
  case (1 pat buf f)
  show ?case
  proof (cases "min (1023 - length buf) (length f) = 0")
    case True
    then show ?thesis by (subst grep_loop.simps) (simp add: Let_def)
  next
    case False
    define n where "n = min (1023 - length buf) (length f)"
    have nn: "10 \<notin> set (buf @ take n f)" "10 \<notin> set (drop n f)"
      using 1(2,3) by (auto dest: in_set_takeD in_set_dropD)
    have "grep_loop pat [] (drop n f) = []"
      using 1(1)[of n "([], buf @ take n f)" "[]" "buf @ take n f" "[]"] False nn
      by (simp add: n_def scan_lines_tail)
    with False nn show ?thesis
      by (subst grep_loop.simps) (simp add: scan_lines_tail Let_def n_def[symmetric])
  qed
qed

lemma buffer_has_newline:
  assumes "buf @ f = l @ 10 # r" "length buf \<le> 1022" "length l \<le> 1022"
  shows "10 \<in> set (buf @ take (min (1023 - length buf) (length f)) f)"
proof -
  define k where "k = length buf + min (1023 - length buf) (length f)"
  have "buf @ take (min (1023 - length buf) (length f)) f = take k (buf @ f)" by (simp add: k_def)
  moreover have "length l < k"
    using arg_cong[OF assms(1), of length] assms(2,3) by (auto simp: k_def min_def)
  ultimately show ?thesis using assms(1) by (simp add: take_Cons')
qed

lemma grep_loop_lines:
  assumes "buf @ f = unlines ls @ t" "10 \<notin> set buf" "length buf \<le> 1022" "10 \<notin> set t"
    and "\<forall>l \<in> set ls. 10 \<notin> set l \<and> 0 \<notin> set l \<and> length l \<le> 1022"
  shows "grep_loop pat buf f = unlines (filter (matches pat) ls)"
  using assms
proof (induction "length f" arbitrary: buf f ls rule: less_induct)
  case less
  define n where "n = min (1023 - length buf) (length f)"
  show ?case
  proof (cases "ls = []")
    case True
    with less.prems have "10 \<notin> set (buf @ f)" by simp
    then show ?thesis using True by (simp add: grep_loop_no_newline)
  next
    case ne: False
    obtain l ls' where ls: "ls = l # ls'" using ne by (cases ls) auto
    have n: "n \<noteq> 0"
      using less.prems ls by (auto simp: n_def dest: arg_cong[where f = set])
    obtain ls1 t1 where b: "buf @ take n f = unlines ls1 @ t1" "10 \<notin> set t1" "\<forall>l \<in> set ls1. 10 \<notin> set l"
      using split_unlines by blast
    have whole: "unlines ls1 @ (t1 @ drop n f) = unlines ls @ t"
      using b(1) less.prems(1) by (metis append.assoc append_take_drop_id)
    obtain ls2 where ls2: "ls = ls1 @ ls2" "t1 @ drop n f = unlines ls2 @ t"
      using unlines_prefix[OF whole less.prems(4) b(3)] less.prems(5) by auto
    have "10 \<in> set (buf @ take n f)"
      using buffer_has_newline[of buf f l "unlines ls' @ t"] less.prems ls by (simp add: n_def)
    then have ls1: "ls1 \<noteq> []" using b by auto
    have short: "length t1 < length (buf @ take n f)" using b(1) ls1 by (cases ls1) auto
    have "grep_loop pat t1 (drop n f) = unlines (filter (matches pat) ls2)"
    proof (rule less.hyps)
      show "length (drop n f) < length f" using n by (auto simp: n_def)
      show "length t1 \<le> 1022" using short less.prems(3) by (auto simp: n_def)
    qed (use less.prems(4,5) ls2 b(2) in auto)
    moreover have "scan_lines pat [] (buf @ take n f) = (unlines (filter (matches pat) ls1), t1)"
      unfolding b(1) using less.prems(5) ls2(1) b(2) by (intro scan_lines_unlines) auto
    ultimately show ?thesis
      using n short ls2(1) by (subst grep_loop.simps) (simp add: Let_def n_def[symmetric])
  qed
qed



end
