(* ===== verification/Mmu.thy ===== *)
theory Mmu
  imports Prelude
begin

text \<open>
  The memory layout constants of \<^verbatim>\<open>src/src/memlayout.h\<close> and the paging macros of \<^verbatim>\<open>src/src/mmu.h\<close>, with
  the arithmetic of pages: rounding, page directory and page table indices, and the fact that two
  aligned pages are equal or disjoint.
\<close>

definition EXTMEM :: u32 where "EXTMEM = 0x100000"
definition PHYSTOP :: u32 where "PHYSTOP = 0xE000000"
definition DEVSPACE :: u32 where "DEVSPACE = 0xFE000000"
definition KERNBASE :: u32 where "KERNBASE = 0x80000000"
definition KERNLINK :: u32 where "KERNLINK = KERNBASE + EXTMEM"
definition V2P :: "u32 \<Rightarrow> u32" where "V2P a = a - KERNBASE"
definition P2V :: "u32 \<Rightarrow> u32" where "P2V a = a + KERNBASE"

definition PGSIZE :: u32 where "PGSIZE = 4096"
definition PTE_P :: u32 where "PTE_P = 1"
definition PTE_W :: u32 where "PTE_W = 2"
definition PTE_U :: u32 where "PTE_U = 4"
definition PTE_PS :: u32 where "PTE_PS = 0x80"

definition PDX :: "u32 \<Rightarrow> u32" where "PDX va = drop_bit 22 va AND 0x3FF"
definition PTX :: "u32 \<Rightarrow> u32" where "PTX va = drop_bit 12 va AND 0x3FF"
definition PGADDR :: "u32 \<Rightarrow> u32 \<Rightarrow> u32 \<Rightarrow> u32" where
  "PGADDR d t p = (push_bit 22 d OR push_bit 12 t OR p)"
definition PGROUNDUP :: "u32 \<Rightarrow> u32" where "PGROUNDUP sz = (sz + PGSIZE - 1) AND NOT (PGSIZE - 1)"
definition PGROUNDDOWN :: "u32 \<Rightarrow> u32" where "PGROUNDDOWN a = a AND NOT (PGSIZE - 1)"
definition PTE_ADDR :: "u32 \<Rightarrow> u32" where "PTE_ADDR pte = pte AND NOT 0xFFF"
definition PTE_FLAGS :: "u32 \<Rightarrow> u32" where "PTE_FLAGS pte = pte AND 0xFFF"

lemmas layout_defs = EXTMEM_def PHYSTOP_def DEVSPACE_def KERNBASE_def KERNLINK_def V2P_def P2V_def PGSIZE_def
lemmas pte_defs = PTE_P_def PTE_W_def PTE_U_def PTE_PS_def

lemma V2P_P2V [simp]: "V2P (P2V a) = a" and P2V_V2P [simp]: "P2V (V2P a) = a"
  by (simp_all add: V2P_def P2V_def)

section \<open>Pages\<close>

definition aligned :: "u32 \<Rightarrow> bool" where "aligned a \<longleftrightarrow> unat a mod 4096 = 0"

definition page :: "u32 \<Rightarrow> nat" where "page a = unat a div 4096"

lemma unat_and_0xFFF: "unat (a AND 0xFFF :: u32) = unat a mod 4096"
proof -
  have "a AND 0xFFF = take_bit 12 a" by (simp add: take_bit_eq_mask mask_eq_exp_minus_1)
  then have "unat (a AND 0xFFF) = take_bit 12 (unat a)" by (simp only: unsigned_take_bit_eq)
  then show ?thesis by (simp add: take_bit_eq_mod)
qed

lemma split_mask: "(a AND NOT m) + (a AND m) = (a :: u32)"
proof -
  have "(a AND NOT m) + (a AND m) = (a AND NOT m) OR (a AND m)"
    by (rule disjunctive_add) (auto simp: bit_and_iff bit_not_iff)
  also have "\<dots> = a" by (rule bit_word_eqI) (auto simp: bit_and_iff bit_not_iff bit_or_iff)
  finally show ?thesis .
qed

lemma unat_and_not_0xFFF: "unat (a AND - 4096 :: u32) = unat a div 4096 * 4096"
proof -
  have e: "a AND - 4096 = a - (a AND 0xFFF)" using split_mask[where a = a and m = "0xFFF"] by (simp add: algebra_simps)
  have "unat (a AND 0xFFF) \<le> unat a" by (simp add: unat_and_0xFFF)
  then have "unat (a AND - 4096) = unat a - unat a mod 4096"
    unfolding e by (simp add: unat_sub_if' unat_and_0xFFF)
  then show ?thesis by (simp add: minus_mod_eq_div_mult)
qed

lemma unat_PGROUNDDOWN: "unat (PGROUNDDOWN a) = page a * 4096"
  by (simp add: PGROUNDDOWN_def PGSIZE_def page_def unat_and_not_0xFFF)

lemma unat_PGROUNDUP:
  assumes "unat a \<le> 2 ^ 32 - 4096"
  shows "unat (PGROUNDUP a) = (unat a + 4095) div 4096 * 4096"
proof -
  have u: "unat (4095 :: u32) = 4095" by simp
  have s: "unat (a + 4095) = unat a + 4095"
    using unat_add_noof[of a 4095] assms unfolding u by simp
  have "PGROUNDUP a = (a + 4095) AND - 4096" by (simp add: PGROUNDUP_def PGSIZE_def add.commute)
  then show ?thesis using s by (simp only: unat_and_not_0xFFF)
qed

lemma aligned_PGROUNDDOWN [simp]: "aligned (PGROUNDDOWN a)" and aligned_PGROUNDUP [simp]: "aligned (PGROUNDUP a)"
  by (simp_all add: aligned_def PGROUNDDOWN_def PGROUNDUP_def PGSIZE_def unat_and_not_0xFFF)

lemma aligned_eq: "aligned a \<Longrightarrow> unat a = page a * 4096"
  by (auto simp: aligned_def page_def)

lemma aligned_0 [simp]: "aligned 0"
  by (simp add: aligned_def)

lemma page_inj: "aligned a \<Longrightarrow> aligned b \<Longrightarrow> page a = page b \<longleftrightarrow> a = b"
  by (metis aligned_eq word_unat_eq_iff)

lemma div_range: "k * 4096 \<le> x \<Longrightarrow> x - k * 4096 < 4096 \<longleftrightarrow> x div 4096 = (k :: nat)"
proof -
  assume "k * 4096 \<le> x"
  then obtain d where "x = k * 4096 + d" using le_Suc_ex by blast
  then show ?thesis by (simp add: div_eq_0_iff)
qed

lemma in_page:
  assumes "aligned v"
  shows "x - v < 4096 \<longleftrightarrow> page x = page v"
proof -
  have v: "unat v = page v * 4096" using assms by (rule aligned_eq)
  have b: "unat v < 2 ^ 32" "unat x < 2 ^ 32" by (rule unat_less_2p32)+
  have "x - v < 4096 \<longleftrightarrow> unat (x - v) < 4096" by (simp add: word_less_nat_alt)
  also have "\<dots> \<longleftrightarrow> page x = page v"
  proof (cases "unat v \<le> unat x")
    case True
    then show ?thesis using v div_range[of "page v" "unat x"]
      by (simp add: unat_sub_if' word_le_nat_alt page_def[of x])
  next
    case False
    then have "\<not> unat (x - v) < 4096" using v b by (simp add: unat_sub_if' word_le_nat_alt)
    moreover have "page x \<noteq> page v"
    proof
      assume "page x = page v"
      then have "page v * 4096 \<le> unat x" using div_times_less_eq_dividend[of "unat x" 4096] by (simp add: page_def)
      with False v show False by simp
    qed
    ultimately show ?thesis by simp
  qed
  finally show ?thesis .
qed

lemma page_offset:
  assumes "aligned v" "unat k < 4096"
  shows "page (v + k) = page v" "unat (v + k) = unat v + unat k"
proof -
  have "v + k - v < 4096" using assms(2) by (simp add: word_less_nat_alt)
  then show p: "page (v + k) = page v" using in_page[OF assms(1)] by blast
  have "unat v + unat k < 2 ^ 32"
    using aligned_eq[OF assms(1)] unat_less_2p32[of v] assms(2) by simp
  then show "unat (v + k) = unat v + unat k" by (rule unat_add_noof)
qed

end
