(* ===== verification/Locks.thy ===== *)
theory Locks
  imports Mmu
begin

text \<open>
  Locks: \<^verbatim>\<open>src/src/spinlock.c\<close>, \<^verbatim>\<open>src/src/sleeplock.c\<close> and \<^verbatim>\<open>mycpu\<close> of \<^verbatim>\<open>src/src/proc.c\<close>.

  A \<open>cpu\<close> is the part of \<^verbatim>\<open>struct cpu\<close> the locks use together with the processor's flags register; a
  CPU is named by its index in \<^verbatim>\<open>cpus[]\<close>. \<open>acquire\<close> is the successful passage through the loop on the
  atomic \<^verbatim>\<open>xchg\<close>: while the lock word is set the exchange changes nothing and the CPU \<open>Spins\<close>. The
  locale \<open>mutex\<close> is what the rest of the kernel relies on when it treats the code between \<^verbatim>\<open>acquire\<close>
  and \<^verbatim>\<open>release\<close> as one atomic step; both kinds of lock provide it.
\<close>

section \<open>Processor state\<close>

definition FL_IF :: u32 where "FL_IF = 0x200"

record cpu =
  apicid :: u8
  eflags :: u32
  ncli :: int
  intena :: u32

definition cli :: "cpu \<Rightarrow> cpu" where
  "cli c = c\<lparr>eflags := eflags c AND NOT FL_IF\<rparr>"

definition sti :: "cpu \<Rightarrow> cpu" where
  "sti c = c\<lparr>eflags := eflags c OR FL_IF\<rparr>"

definition mycpu :: "cpu list \<Rightarrow> u32 \<Rightarrow> int \<Rightarrow> nat res" where
  "mycpu cpus flags lapicid =
     (if flags AND FL_IF \<noteq> 0 then Inl (Panic ''mycpu called with interrupts enabled\<newline>'')
      else case find_index (\<lambda>c. uint (apicid c) = lapicid) cpus of
        Some i \<Rightarrow> Inr i
      | None \<Rightarrow> Inl (Panic ''unknown apicid\<newline>''))"

definition pushcli :: "cpu \<Rightarrow> cpu" where
  "pushcli c =
     (let flags = eflags c;
          c1 = cli c;
          c2 = (if ncli c1 = 0 then c1\<lparr>intena := flags AND FL_IF\<rparr> else c1) in
      c2\<lparr>ncli := ncli c2 + 1\<rparr>)"

definition popcli :: "cpu \<Rightarrow> cpu res" where
  "popcli c =
     (if eflags c AND FL_IF \<noteq> 0 then Inl (Panic ''popcli - interruptible'')
      else let c1 = c\<lparr>ncli := ncli c - 1\<rparr> in
        if ncli c1 < 0 then Inl (Panic ''popcli'')
        else if ncli c1 = 0 \<and> intena c1 \<noteq> 0 then Inr (sti c1) else Inr c1)"

section \<open>Spin locks\<close>

record spinlock =
  locked :: u32
  lkname :: string
  lk_cpu :: "nat option"
  pcs :: "u32 list"

definition initlock :: "spinlock \<Rightarrow> string \<Rightarrow> spinlock" where
  "initlock lk nm = lk\<lparr>lkname := nm, locked := 0, lk_cpu := None\<rparr>"

text \<open>The call stack, read from the frames in memory; \<open>n\<close> entries are still to be filled.\<close>

fun callerpcs :: "mem \<Rightarrow> u32 \<Rightarrow> nat \<Rightarrow> u32 list" where
  "callerpcs m ebp 0 = []"
| "callerpcs m ebp (Suc n) =
     (if ebp = 0 \<or> ebp < KERNBASE \<or> ebp = 0xffffffff then replicate (Suc n) 0
      else load32 m (ebp + 4) # callerpcs m (load32 m ebp) n)"

definition getcallerpcs :: "mem \<Rightarrow> u32 \<Rightarrow> u32 list" where
  "getcallerpcs m v = callerpcs m (v - 8) 10"

definition holding :: "nat \<Rightarrow> cpu \<Rightarrow> spinlock \<Rightarrow> (bool \<times> cpu) res" where
  "holding me c lk =
     rbind (popcli (pushcli c)) (\<lambda>c1. Inr (locked lk \<noteq> 0 \<and> lk_cpu lk = Some me, c1))"

text \<open>\<open>stk\<close> is the call stack that \<open>getcallerpcs\<close> finds at the acquisition.\<close>

definition acquire :: "u32 list \<Rightarrow> nat \<Rightarrow> cpu \<Rightarrow> spinlock \<Rightarrow> (cpu \<times> spinlock) res" where
  "acquire stk me c lk =
     rbind (holding me (pushcli c) lk) (\<lambda>(h, c1).
       if h then Inl (Panic ''acquire'')
       else if locked lk \<noteq> 0 then Inl Spins
       else Inr (c1, lk\<lparr>locked := 1, lk_cpu := Some me, pcs := stk\<rparr>))"

definition release :: "nat \<Rightarrow> cpu \<Rightarrow> spinlock \<Rightarrow> (cpu \<times> spinlock) res" where
  "release me c lk =
     rbind (holding me c lk) (\<lambda>(h, c1).
       if \<not> h then Inl (Panic ''release'')
       else rbind (popcli c1) (\<lambda>c2.
         Inr (c2, lk\<lparr>pcs := (pcs lk)[0 := 0], lk_cpu := None, locked := 0\<rparr>)))"

section \<open>Sleep locks\<close>

record sleeplock =
  slocked :: u32
  slk :: spinlock
  sname :: string
  spid :: u32

text \<open>The segment of a routine up to the point where it returns or calls \<^verbatim>\<open>sleep\<close> (holding the spin
  lock, which \<^verbatim>\<open>sleep\<close> gives back); when woken, the process runs the segment again.\<close>

datatype 'a wait = Sleeps 'a | Done 'a

definition initsleeplock :: "sleeplock \<Rightarrow> string \<Rightarrow> sleeplock" where
  "initsleeplock lk nm =
     lk\<lparr>slk := initlock (slk lk) ''sleep lock'', sname := nm, slocked := 0, spid := 0\<rparr>"

definition acquiresleep :: "u32 list \<Rightarrow> nat \<Rightarrow> u32 \<Rightarrow> cpu \<Rightarrow> sleeplock \<Rightarrow> (cpu \<times> sleeplock) wait res" where
  "acquiresleep stk me pid c lk =
     rbind (acquire stk me c (slk lk)) (\<lambda>(c1, l1).
       let lk1 = lk\<lparr>slk := l1\<rparr> in
       if slocked lk1 \<noteq> 0 then Inr (Sleeps (c1, lk1))
       else let lk2 = lk1\<lparr>slocked := 1, spid := pid\<rparr> in
         rbind (release me c1 (slk lk2)) (\<lambda>(c2, l2). Inr (Done (c2, lk2\<lparr>slk := l2\<rparr>))))"

definition releasesleep :: "u32 list \<Rightarrow> nat \<Rightarrow> cpu \<Rightarrow> sleeplock \<Rightarrow> (cpu \<times> sleeplock) res" where
  "releasesleep stk me c lk =
     rbind (acquire stk me c (slk lk)) (\<lambda>(c1, l1).
       let lk1 = lk\<lparr>slk := l1, slocked := 0, spid := 0\<rparr> in
       rbind (release me c1 (slk lk1)) (\<lambda>(c2, l2). Inr (c2, lk1\<lparr>slk := l2\<rparr>)))"

definition holdingsleep :: "u32 list \<Rightarrow> nat \<Rightarrow> u32 \<Rightarrow> cpu \<Rightarrow> sleeplock \<Rightarrow> (bool \<times> cpu \<times> sleeplock) res" where
  "holdingsleep stk me pid c lk =
     rbind (acquire stk me c (slk lk)) (\<lambda>(c1, l1).
       let r = (slocked lk \<noteq> 0 \<and> spid lk = pid) in
       rbind (release me c1 l1) (\<lambda>(c2, l2). Inr (r, c2, lk\<lparr>slk := l2\<rparr>)))"

section \<open>Nesting of pushcli and popcli\<close>

lemma bit_FL_IF: "bit FL_IF n \<longleftrightarrow> n = 9"
proof -
  have "FL_IF = 2 ^ 9" by (simp add: FL_IF_def)
  show ?thesis unfolding \<open>FL_IF = 2 ^ 9\<close> bit_exp_iff by auto
qed

lemma and_FL_IF: "e AND FL_IF = 0 \<longleftrightarrow> \<not> bit e 9"
proof
  assume z: "e AND FL_IF = 0"
  show "\<not> bit e 9"
  proof
    assume "bit e 9"
    then have "bit (e AND FL_IF) 9" by (simp add: bit_and_iff bit_FL_IF)
    with z show False by simp
  qed
next
  assume "\<not> bit e 9"
  then show "e AND FL_IF = 0"
    by (intro bit_word_eqI) (auto simp: bit_and_iff bit_FL_IF)
qed

lemma bit_not_FL_IF: "n < 32 \<Longrightarrow> bit (NOT FL_IF) n \<longleftrightarrow> n \<noteq> 9"
  by (simp add: bit_not_iff bit_FL_IF)

lemma cli_cleared [simp]: "(e AND NOT FL_IF) AND FL_IF = 0"
  by (simp add: and_FL_IF bit_and_iff bit_not_FL_IF)

lemma cli_id: "e AND FL_IF = 0 \<Longrightarrow> e AND NOT FL_IF = e"
  by (rule bit_word_eqI) (auto simp: and_FL_IF bit_and_iff bit_not_FL_IF)

lemma sti_cli: "e AND FL_IF \<noteq> 0 \<Longrightarrow> (e AND NOT FL_IF) OR FL_IF = e"
  by (rule bit_word_eqI) (auto simp: and_FL_IF bit_and_iff bit_or_iff bit_not_FL_IF bit_FL_IF)

text \<open>Interrupts are off on a CPU that is inside a \<^verbatim>\<open>pushcli\<close>.\<close>

definition cpu_ok :: "cpu \<Rightarrow> bool" where
  "cpu_ok c \<longleftrightarrow> 0 \<le> ncli c \<and> (0 < ncli c \<longrightarrow> eflags c AND FL_IF = 0)"

lemma popcli_pushcli:
  assumes "cpu_ok c"
  shows "popcli (pushcli c) =
    Inr (if ncli c = 0 then c\<lparr>intena := eflags c AND FL_IF\<rparr> else c)"
proof (cases "ncli c = 0")
  case True
  then show ?thesis
    by (cases "eflags c AND FL_IF = 0")
      (simp_all add: popcli_def pushcli_def cli_def sti_def Let_def sti_cli cli_id)
next
  case False
  with assms have "0 < ncli c" "eflags c AND FL_IF = 0" by (auto simp: cpu_ok_def)
  then show ?thesis by (simp add: popcli_def pushcli_def cli_def Let_def cli_id)
qed

lemma cpu_ok_pushcli [simp]: "cpu_ok c \<Longrightarrow> cpu_ok (pushcli c) \<and> 0 < ncli (pushcli c)"
  by (auto simp: cpu_ok_def pushcli_def cli_def Let_def)

fun poppeds :: "nat \<Rightarrow> cpu \<Rightarrow> cpu res" where
  "poppeds 0 c = Inr c"
| "poppeds (Suc n) c = rbind (popcli c) (poppeds n)"

lemma holding_eq:
  assumes "cpu_ok c" "0 < ncli c"
  shows "holding me c lk = Inr (locked lk \<noteq> 0 \<and> lk_cpu lk = Some me, c)"
  using assms by (simp add: holding_def popcli_pushcli)

lemma acquire_eq:
  assumes "cpu_ok c"
  shows "acquire stk me c lk =
    (if locked lk \<noteq> 0 \<and> lk_cpu lk = Some me then Inl (Panic ''acquire'')
     else if locked lk \<noteq> 0 then Inl Spins
     else Inr (pushcli c, lk\<lparr>locked := 1, lk_cpu := Some me, pcs := stk\<rparr>))"
  using assms by (simp add: acquire_def holding_eq)

lemma release_eq:
  assumes "cpu_ok c" "0 < ncli c" "locked lk \<noteq> 0" "lk_cpu lk = Some me"
  shows "release me c lk = rbind (popcli c) (\<lambda>c2.
         Inr (c2, lk\<lparr>pcs := (pcs lk)[0 := 0], lk_cpu := None, locked := 0\<rparr>))"
  using assms by (simp add: release_def holding_eq)

text \<open>What a popped CPU looks like, as seen by a holder of the lock.\<close>

lemma popcli_ok:
  assumes "cpu_ok c" "0 < ncli c"
  obtains c' where "popcli c = Inr c'" "cpu_ok c'" "ncli c' = ncli c - 1"
proof -
  have off: "eflags c AND FL_IF = 0" using assms by (simp add: cpu_ok_def)
  show ?thesis
  proof (cases "ncli c = 1 \<and> intena c \<noteq> 0")
    case True
    with off that[of "sti (c\<lparr>ncli := 0\<rparr>)"] show ?thesis
      by (simp add: popcli_def Let_def cpu_ok_def sti_def)
  next
    case False
    with off assms that[of "c\<lparr>ncli := ncli c - 1\<rparr>"] show ?thesis
      by (auto simp: popcli_def Let_def cpu_ok_def)
  qed
qed

lemma acquire_release:
  assumes "cpu_ok c" "locked lk = 0"
  obtains c' where
    "release me (pushcli c) (lk\<lparr>locked := 1, lk_cpu := Some me, pcs := stk\<rparr>) =
       Inr (c', lk\<lparr>locked := 0, lk_cpu := None, pcs := stk[0 := 0]\<rparr>)"
    "cpu_ok c'" "eflags c' = eflags c" "ncli c' = ncli c"
proof -
  let ?c = "if ncli c = 0 then c\<lparr>intena := eflags c AND FL_IF\<rparr> else c"
  have "release me (pushcli c) (lk\<lparr>locked := 1, lk_cpu := Some me, pcs := stk\<rparr>) =
      Inr (?c, lk\<lparr>locked := 0, lk_cpu := None, pcs := stk[0 := 0]\<rparr>)"
    using assms by (subst release_eq) (simp_all add: popcli_pushcli)
  then show ?thesis using assms by (intro that[of ?c]) (auto simp: cpu_ok_def)
qed

section \<open>The contract of a lock\<close>

text \<open>\<open>acq x i l\<close> and \<open>rel x i l\<close>: owner \<open>i\<close> passes through the lock, respectively gives it back, in the
  context \<open>x\<close> (what the routine needs to know of its caller); \<open>None\<close> if it cannot.\<close>

datatype ('c, 'i) lockop = Acq 'c 'i | Rel 'c 'i

fun lock_run :: "('c \<Rightarrow> 'i \<Rightarrow> 'l \<Rightarrow> 'l option) \<Rightarrow> ('c \<Rightarrow> 'i \<Rightarrow> 'l \<Rightarrow> 'l option) \<Rightarrow>
    'l \<Rightarrow> ('c, 'i) lockop list \<Rightarrow> 'l option" where
  "lock_run acq rel l [] = Some l"
| "lock_run acq rel l (Acq x i # ops) =
     (case acq x i l of None \<Rightarrow> None | Some l' \<Rightarrow> lock_run acq rel l' ops)"
| "lock_run acq rel l (Rel x i # ops) =
     (case rel x i l of None \<Rightarrow> None | Some l' \<Rightarrow> lock_run acq rel l' ops)"

text \<open>The alternation of a lock's history: who is inside after it, if the history is one in which
  nobody enters while somebody is inside and nobody leaves but the one inside.\<close>

fun inside :: "'i option \<Rightarrow> ('c, 'i) lockop list \<Rightarrow> 'i option option" where
  "inside h [] = Some h"
| "inside None (Acq x i # ops) = inside (Some i) ops"
| "inside (Some j) (Acq x i # ops) = None"
| "inside h (Rel x i # ops) = (if h = Some i then inside None ops else None)"

locale mutex =
  fixes acq rel :: "'c \<Rightarrow> 'i \<Rightarrow> 'l \<Rightarrow> 'l option"
    and holder :: "'l \<Rightarrow> 'i option"
    and lock_ok :: "'l \<Rightarrow> bool"
  assumes acq_free: "lock_ok l \<Longrightarrow> holder l = None \<Longrightarrow>
      \<exists>l'. acq x i l = Some l' \<and> lock_ok l' \<and> holder l' = Some i"
    and acq_held: "lock_ok l \<Longrightarrow> holder l = Some j \<Longrightarrow> acq x i l = None"
    and rel_held: "lock_ok l \<Longrightarrow> holder l = Some i \<Longrightarrow>
      \<exists>l'. rel x i l = Some l' \<and> lock_ok l' \<and> holder l' = None"
    and rel_other: "lock_ok l \<Longrightarrow> holder l \<noteq> Some i \<Longrightarrow> rel x i l = None"
begin

lemma run_inside:
  "lock_ok l \<Longrightarrow>
     (case lock_run acq rel l ops of
        None \<Rightarrow> inside (holder l) ops = None
      | Some l' \<Rightarrow> lock_ok l' \<and> inside (holder l) ops = Some (holder l'))"
proof (induction ops arbitrary: l)
  case (Cons a ops)
  show ?case
  proof (cases a)
    case (Acq x i)
    show ?thesis
    proof (cases "holder l")
      case None
      with Cons.prems obtain l' where l': "acq x i l = Some l'" "lock_ok l'" "holder l' = Some i"
        using acq_free[of l x i] by auto
      with Cons.IH[OF l'(2)] Acq None show ?thesis by (auto split: option.splits)
    next
      case (Some j)
      with Cons.prems acq_held[of l j x i] Acq show ?thesis by simp
    qed
  next
    case (Rel x i)
    show ?thesis
    proof (cases "holder l = Some i")
      case True
      with Cons.prems obtain l' where l': "rel x i l = Some l'" "lock_ok l'" "holder l' = None"
        using rel_held[of l i x] by auto
      with Cons.IH[OF l'(2)] Rel True show ?thesis by (auto split: option.splits)
    next
      case False
      with Cons.prems rel_other[of l i x] Rel show ?thesis by (cases "holder l") simp_all
    qed
  qed
qed simp

lemma run_iff:
  "lock_ok l \<Longrightarrow> (\<exists>l'. lock_run acq rel l ops = Some l' \<and> holder l' = h) \<longleftrightarrow> inside (holder l) ops = Some h"
  using run_inside[of l ops] by (auto split: option.splits)

end

subsection \<open>Spin locks keep the contract\<close>

text \<open>All CPUs of the machine and one spin lock.\<close>

type_synonym spin_state = "(nat \<Rightarrow> cpu) \<times> spinlock"

definition spin_acq :: "u32 list \<Rightarrow> nat \<Rightarrow> spin_state \<Rightarrow> spin_state option" where
  "spin_acq stk i s = (case acquire stk i (fst s i) (snd s) of
     Inr (c, lk) \<Rightarrow> Some ((fst s)(i := c), lk) | Inl e \<Rightarrow> None)"

definition spin_rel :: "u32 list \<Rightarrow> nat \<Rightarrow> spin_state \<Rightarrow> spin_state option" where
  "spin_rel stk i s = (case release i (fst s i) (snd s) of
     Inr (c, lk) \<Rightarrow> Some ((fst s)(i := c), lk) | Inl e \<Rightarrow> None)"

definition spin_holder :: "spin_state \<Rightarrow> nat option" where
  "spin_holder s = (if locked (snd s) = 0 then None else lk_cpu (snd s))"

definition spin_ok :: "spin_state \<Rightarrow> bool" where
  "spin_ok s \<longleftrightarrow> (\<forall>i. cpu_ok (fst s i)) \<and>
     (locked (snd s) \<noteq> 0 \<longrightarrow> (\<exists>i. lk_cpu (snd s) = Some i \<and> 0 < ncli (fst s i)))"

interpretation spin: mutex spin_acq spin_rel spin_holder spin_ok
proof unfold_locales
  fix l x i
  assume ok: "spin_ok l" and h: "spin_holder l = Some i"
  then have c: "cpu_ok (fst l i)" "0 < ncli (fst l i)" "locked (snd l) \<noteq> 0" "lk_cpu (snd l) = Some i"
    by (auto simp: spin_ok_def spin_holder_def split: if_splits)
  obtain c' where c': "popcli (fst l i) = Inr c'" "cpu_ok c'" using popcli_ok[OF c(1,2)] by metis
  show "\<exists>l'. spin_rel x i l = Some l' \<and> spin_ok l' \<and> spin_holder l' = None"
    using ok c' release_eq[OF c] by (auto simp: spin_rel_def spin_ok_def spin_holder_def)
next
  fix l x i
  assume ok: "spin_ok l" and h: "spin_holder l \<noteq> Some i"
  then have c: "cpu_ok (fst l i)" by (auto simp: spin_ok_def)
  show "spin_rel x i l = None"
    using h by (auto simp: spin_rel_def release_def holding_def popcli_pushcli[OF c] spin_holder_def
        split: if_splits)
qed (auto simp: spin_acq_def spin_ok_def spin_holder_def acquire_eq split: if_splits)

text \<open>C14. Mutual exclusion of spin locks: whatever the order in which the CPUs of the machine pass through
  \<^verbatim>\<open>acquire\<close> and \<^verbatim>\<open>release\<close> of one lock, the sequence is possible exactly when acquisitions and releases
  alternate and each release is by the CPU that acquired last; so at most one CPU is between the two,
  and it is the one that the lock records.\<close>

theorem spinlock_mutual_exclusion:
  assumes "\<forall>i. cpu_ok (cpus i)"
  shows "(\<exists>s. lock_run spin_acq spin_rel (cpus, initlock lk nm) ops = Some s \<and> spin_holder s = h)
    \<longleftrightarrow> inside None ops = Some h"
proof -
  have "spin_ok (cpus, initlock lk nm)" "spin_holder (cpus, initlock lk nm) = None"
    using assms by (simp_all add: spin_ok_def spin_holder_def initlock_def)
  with spin.run_iff[of "(cpus, initlock lk nm)" ops h] show ?thesis by simp
qed

theorem spinlock_mutual_exclusion_witness:
  "(\<exists>s. lock_run spin_acq spin_rel
      ((\<lambda>i. \<lparr>apicid = 0, eflags = 0x202, ncli = 0, intena = 0\<rparr>),
       initlock \<lparr>locked = 0, lkname = [], lk_cpu = None, pcs = replicate 10 0\<rparr> ''kmem'')
      [Acq [] 0, Rel [] 0, Acq [] 1] = Some s \<and> spin_holder s = Some 1)
    \<longleftrightarrow> inside None [Acq ([] :: u32 list) 0, Rel [] 0, Acq [] 1] = Some (Some (1 :: nat))"
  by (rule spinlock_mutual_exclusion) (simp add: cpu_ok_def)

subsection \<open>Sleep locks keep the contract\<close>

text \<open>An owner is a process, known by its pid; it passes through the lock on some CPU. The callers of
  \<^verbatim>\<open>releasesleep\<close> (\<^verbatim>\<open>brelse\<close>, \<^verbatim>\<open>iunlock\<close>) check \<^verbatim>\<open>holdingsleep\<close> first.\<close>

type_synonym sleep_state = "(nat \<Rightarrow> cpu) \<times> sleeplock"

definition sleep_acq :: "u32 list \<times> nat \<Rightarrow> u32 \<Rightarrow> sleep_state \<Rightarrow> sleep_state option" where
  "sleep_acq x pid s = (case acquiresleep (fst x) (snd x) pid (fst s (snd x)) (snd s) of
     Inr (Done (c, lk)) \<Rightarrow> Some ((fst s)(snd x := c), lk) | _ \<Rightarrow> None)"

definition sleep_rel :: "u32 list \<times> nat \<Rightarrow> u32 \<Rightarrow> sleep_state \<Rightarrow> sleep_state option" where
  "sleep_rel x pid s = (case holdingsleep (fst x) (snd x) pid (fst s (snd x)) (snd s) of
     Inr (True, c, lk) \<Rightarrow>
       (case releasesleep (fst x) (snd x) c lk of
          Inr (c', lk') \<Rightarrow> Some ((fst s)(snd x := c'), lk') | Inl e \<Rightarrow> None)
   | _ \<Rightarrow> None)"

definition sleep_holder :: "sleep_state \<Rightarrow> u32 option" where
  "sleep_holder s = (if slocked (snd s) = 0 then None else Some (spid (snd s)))"

definition sleep_ok :: "sleep_state \<Rightarrow> bool" where
  "sleep_ok s \<longleftrightarrow> (\<forall>i. cpu_ok (fst s i)) \<and> locked (slk (snd s)) = 0"

lemma acquiresleep_eq:
  assumes "cpu_ok c" "locked (slk lk) = 0" "slocked lk = 0"
  obtains c' l' where "acquiresleep stk me pid c lk = Inr (Done (c', lk\<lparr>slk := l', slocked := 1, spid := pid\<rparr>))"
    "cpu_ok c'" "locked l' = 0"
proof (rule acquire_release[OF assms(1,2), of me stk])
  fix c' assume "release me (pushcli c) ((slk lk)\<lparr>locked := 1, lk_cpu := Some me, pcs := stk\<rparr>) =
    Inr (c', (slk lk)\<lparr>locked := 0, lk_cpu := None, pcs := stk[0 := 0]\<rparr>)" "cpu_ok c'"
  then show thesis
    using assms by (intro that[of c' "(slk lk)\<lparr>locked := 0, lk_cpu := None, pcs := stk[0 := 0]\<rparr>"])
      (simp_all add: acquiresleep_def acquire_eq Let_def)
qed

lemma releasesleep_eq:
  assumes "cpu_ok c" "locked (slk lk) = 0"
  obtains c' l' where "releasesleep stk me c lk = Inr (c', lk\<lparr>slk := l', slocked := 0, spid := 0\<rparr>)"
    "cpu_ok c'" "locked l' = 0"
proof (rule acquire_release[OF assms(1,2), of me stk])
  fix c' assume "release me (pushcli c) ((slk lk)\<lparr>locked := 1, lk_cpu := Some me, pcs := stk\<rparr>) =
    Inr (c', (slk lk)\<lparr>locked := 0, lk_cpu := None, pcs := stk[0 := 0]\<rparr>)" "cpu_ok c'"
  then show thesis
    using assms by (intro that[of c' "(slk lk)\<lparr>locked := 0, lk_cpu := None, pcs := stk[0 := 0]\<rparr>"])
      (simp_all add: releasesleep_def acquire_eq Let_def)
qed

lemma holdingsleep_eq:
  assumes "cpu_ok c" "locked (slk lk) = 0"
  obtains c' l' where
    "holdingsleep stk me pid c lk = Inr (slocked lk \<noteq> 0 \<and> spid lk = pid, c', lk\<lparr>slk := l'\<rparr>)"
    "cpu_ok c'" "locked l' = 0"
proof (rule acquire_release[OF assms(1,2), of me stk])
  fix c' assume "release me (pushcli c) ((slk lk)\<lparr>locked := 1, lk_cpu := Some me, pcs := stk\<rparr>) =
    Inr (c', (slk lk)\<lparr>locked := 0, lk_cpu := None, pcs := stk[0 := 0]\<rparr>)" "cpu_ok c'"
  then show thesis
    using assms by (intro that[of c' "(slk lk)\<lparr>locked := 0, lk_cpu := None, pcs := stk[0 := 0]\<rparr>"])
      (simp_all add: holdingsleep_def acquire_eq Let_def)
qed

interpretation sleep: mutex sleep_acq sleep_rel sleep_holder sleep_ok
proof unfold_locales
  fix l :: sleep_state and x :: "u32 list \<times> nat" and i :: u32
  assume ok: "sleep_ok l" and h: "sleep_holder l = None"
  then have c: "cpu_ok (fst l (snd x))" "locked (slk (snd l)) = 0" "slocked (snd l) = 0"
    by (auto simp: sleep_ok_def sleep_holder_def split: if_splits)
  show "\<exists>l'. sleep_acq x i l = Some l' \<and> sleep_ok l' \<and> sleep_holder l' = Some i"
    by (rule acquiresleep_eq[OF c, of "fst x" "snd x" i])
      (use ok in \<open>simp add: sleep_acq_def sleep_ok_def sleep_holder_def\<close>)
next
  fix l :: sleep_state and x :: "u32 list \<times> nat" and i j :: u32
  assume "sleep_ok l" and "sleep_holder l = Some j"
  then show "sleep_acq x i l = None"
    by (auto simp: sleep_acq_def sleep_ok_def sleep_holder_def acquiresleep_def acquire_eq split: if_splits)
next
  fix l :: sleep_state and x :: "u32 list \<times> nat" and i :: u32
  assume ok: "sleep_ok l" and h: "sleep_holder l = Some i"
  then obtain c l1 where 1: "holdingsleep (fst x) (snd x) i (fst l (snd x)) (snd l) = Inr (True, c, (snd l)\<lparr>slk := l1\<rparr>)"
    "cpu_ok c" "locked l1 = 0"
    using holdingsleep_eq[of "fst l (snd x)" "snd l" "fst x" "snd x" i]
    by (auto simp: sleep_ok_def sleep_holder_def split: if_splits)
  then have c: "cpu_ok c" "locked (slk ((snd l)\<lparr>slk := l1\<rparr>)) = 0" by simp_all
  show "\<exists>l'. sleep_rel x i l = Some l' \<and> sleep_ok l' \<and> sleep_holder l' = None"
    by (rule releasesleep_eq[OF c, of "fst x" "snd x"])
      (use 1 ok in \<open>simp add: sleep_rel_def sleep_ok_def sleep_holder_def\<close>)
next
  fix l :: sleep_state and x :: "u32 list \<times> nat" and i :: u32
  assume "sleep_ok l" and "sleep_holder l \<noteq> Some i"
  then obtain c l1 where 1: "holdingsleep (fst x) (snd x) i (fst l (snd x)) (snd l) = Inr (False, c, l1)"
    using holdingsleep_eq[of "fst l (snd x)" "snd l" "fst x" "snd x" i]
    by (auto simp: sleep_ok_def sleep_holder_def split: if_splits)
  then show "sleep_rel x i l = None" by (simp add: sleep_rel_def)
qed

text \<open>C22. Mutual exclusion of sleep locks: processes that take the lock with \<^verbatim>\<open>acquiresleep\<close> and give it back
  with \<^verbatim>\<open>releasesleep\<close> under the guard \<^verbatim>\<open>holdingsleep\<close>, on whatever CPUs, hold it one at a time, and the
  holder is the process whose pid the lock records.\<close>

theorem sleeplock_mutual_exclusion:
  assumes "\<forall>i. cpu_ok (cpus i)"
  shows "(\<exists>s. lock_run sleep_acq sleep_rel (cpus, initsleeplock lk nm) ops = Some s \<and> sleep_holder s = h)
    \<longleftrightarrow> inside None ops = Some h"
proof -
  have "sleep_ok (cpus, initsleeplock lk nm)" "sleep_holder (cpus, initsleeplock lk nm) = None"
    using assms by (simp_all add: sleep_ok_def sleep_holder_def initsleeplock_def initlock_def)
  with sleep.run_iff[of "(cpus, initsleeplock lk nm)" ops h] show ?thesis by simp
qed

theorem sleeplock_mutual_exclusion_witness:
  "(\<exists>s. lock_run sleep_acq sleep_rel
      ((\<lambda>i. \<lparr>apicid = 0, eflags = 0x202, ncli = 0, intena = 0\<rparr>),
       initsleeplock \<lparr>slocked = 0, slk = \<lparr>locked = 0, lkname = [], lk_cpu = None, pcs = replicate 10 0\<rparr>,
         sname = [], spid = 0\<rparr> ''inode'')
      [Acq ([], 0) 7, Rel ([], 1) 7, Acq ([], 0) 8] = Some s \<and> sleep_holder s = Some 8)
    \<longleftrightarrow> inside None [Acq ([] :: u32 list, 0 :: nat) 7, Rel ([], 1) 7, Acq ([], 0) 8] = Some (Some (8 :: u32))"
  by (rule sleeplock_mutual_exclusion) (simp add: cpu_ok_def)

section \<open>Nesting of critical sections\<close>



end
