(* ===== verification/Ide.thy ===== *)
theory Ide
  imports Locks
begin

text \<open>
  The disk driver: \<^verbatim>\<open>struct buf\<close> of \<^verbatim>\<open>src/src/buf.h\<close>, the interrupt driven driver \<^verbatim>\<open>src/src/ide.c\<close> and the
  memory disk \<^verbatim>\<open>src/src/memide.c\<close>. A block is a list of \<^verbatim>\<open>BSIZE\<close> = 512 bytes, a disk a function from device
  and block number to blocks. The drive itself is the documented behaviour of its task file registers:
  the command addresses the sector named by the four LBA registers; a write command takes the data
  sent after it, a read command offers the data of the sector when it interrupts.

  The theorem at the end says that the queue of outstanding requests is invisible: whatever the order of
  requests and interrupts, the outcome is that of synchronising the buffers one after the other with
  \<open>disk_sync\<close>, which is also what the memory disk does. The buffer cache is built on \<open>disk_sync\<close>.
\<close>

abbreviation BSIZE :: nat where "BSIZE \<equiv> 512"

type_synonym block = "u8 list"
type_synonym disk = "u32 \<Rightarrow> u32 \<Rightarrow> block"

definition B_VALID :: u32 where "B_VALID = 2"
definition B_DIRTY :: u32 where "B_DIRTY = 4"
definition FSSIZE :: u32 where "FSSIZE = 1000"

text \<open>A buffer; of its sleep lock only the holder is kept (see \<open>sleeplock_mutual_exclusion\<close>).\<close>

record buf =
  flags :: u32
  bdev :: u32
  blockno :: u32
  bholder :: "u32 option"
  refcnt :: u32
  bprev :: nat
  bnext :: nat
  data :: block

definition is_valid :: "buf \<Rightarrow> bool" where "is_valid b \<longleftrightarrow> flags b AND B_VALID \<noteq> 0"
definition is_dirty :: "buf \<Rightarrow> bool" where "is_dirty b \<longleftrightarrow> flags b AND B_DIRTY \<noteq> 0"

definition needs_sync :: "buf \<Rightarrow> bool" where
  "needs_sync b \<longleftrightarrow> flags b AND (B_VALID OR B_DIRTY) \<noteq> B_VALID"

text \<open>The flags after a completed request: \<^verbatim>\<open>b->flags |= B_VALID; b->flags &= ~B_DIRTY\<close>.\<close>

definition synced :: "buf \<Rightarrow> buf" where
  "synced b = b\<lparr>flags := (flags b OR B_VALID) AND NOT B_DIRTY\<rparr>"

definition disk_sync :: "buf \<Rightarrow> disk \<Rightarrow> buf \<times> disk" where
  "disk_sync b d =
     (if is_dirty b then (synced b, d(bdev b := (d (bdev b))(blockno b := data b)))
      else (synced (b\<lparr>data := d (bdev b) (blockno b)\<rparr>), d))"

section \<open>The interrupt driven driver\<close>

text \<open>The task file registers 0x1f2 to 0x1f7 after \<^verbatim>\<open>idestart\<close>, and the data sent with a write command.\<close>

record taskfile =
  nsect :: u8
  lba0 :: u8
  lba1 :: u8
  lba2 :: u8
  devsel :: u8
  command :: u8
  dout :: "block option"

definition idestart :: "buf \<Rightarrow> taskfile res" where
  "idestart b =
     (if FSSIZE \<le> blockno b then Inl (Panic ''incorrect blockno'')
      else let sector_per_block = 1; sector = blockno b * sector_per_block;
               read_cmd = (if sector_per_block = 1 then 0x20 else 0xc4);
               write_cmd = (if sector_per_block = 1 then 0x30 else 0xc5) in
        if sector_per_block > 7 then Inl (Panic ''idestart'')
        else Inr \<lparr>nsect = ucast sector_per_block,
          lba0 = ucast (sector AND 0xff),
          lba1 = ucast (drop_bit 8 sector AND 0xff),
          lba2 = ucast (drop_bit 16 sector AND 0xff),
          devsel = ucast (0xe0 OR push_bit 4 (bdev b AND 1) OR (drop_bit 24 sector AND 0x0f)),
          command = (if is_dirty b then write_cmd else read_cmd),
          dout = (if is_dirty b then Some (data b) else None)\<rparr>)"

record ide =
  ibufs :: "buf list"
  idequeue :: "nat list"
  tfile :: "taskfile option"
  dsk :: disk
  havedisk1 :: bool

text \<open>\<^verbatim>\<open>iderw\<close> up to its wait, called by process \<open>pid\<close> for buffer \<open>i\<close>; the queue through \<^verbatim>\<open>qnext\<close> is a list.\<close>

definition iderw_enqueue :: "u32 \<Rightarrow> nat \<Rightarrow> ide \<Rightarrow> ide res" where
  "iderw_enqueue pid i s =
     (let b = ibufs s ! i in
      if bholder b \<noteq> Some pid then Inl (Panic ''iderw: buf not locked'')
      else if \<not> needs_sync b then Inl (Panic ''iderw: nothing to do'')
      else if bdev b \<noteq> 0 \<and> \<not> havedisk1 s then Inl (Panic ''iderw: ide disk 1 not present'')
      else let s1 = s\<lparr>idequeue := idequeue s @ [i]\<rparr> in
        if hd (idequeue s1) = i then rbind (idestart b) (\<lambda>t. Inr (s1\<lparr>tfile := Some t\<rparr>)) else Inr s1)"

text \<open>The drive: what a command reads, and what it leaves on the medium.\<close>

definition tf_sector :: "taskfile \<Rightarrow> u32" where
  "tf_sector t = ucast (lba0 t) OR push_bit 8 (ucast (lba1 t)) OR push_bit 16 (ucast (lba2 t))
     OR push_bit 24 (ucast (devsel t AND 0x0f))"

definition tf_dev :: "taskfile \<Rightarrow> u32" where
  "tf_dev t = (if devsel t AND 0x10 \<noteq> 0 then 1 else 0)"

definition drive :: "taskfile \<Rightarrow> disk \<Rightarrow> disk" where
  "drive t d =
     (case dout t of None \<Rightarrow> d
      | Some x \<Rightarrow> if command t = 0x30 then d(tf_dev t := (d (tf_dev t))(tf_sector t := x)) else d)"

text \<open>\<^verbatim>\<open>ideintr\<close>, when the drive has finished the command; \<open>err\<close> is the error bit that \<^verbatim>\<open>idewait(1)\<close> sees.\<close>

definition ideintr :: "bool \<Rightarrow> ide \<Rightarrow> ide res" where
  "ideintr err s =
     (case idequeue s of
        [] \<Rightarrow> Inr s
      | i # q \<Rightarrow>
         let t = the (tfile s);
             d = drive t (dsk s);
             b = ibufs s ! i;
             b1 = (if \<not> is_dirty b \<and> \<not> err then b\<lparr>data := d (tf_dev t) (tf_sector t)\<rparr> else b);
             s1 = s\<lparr>idequeue := q, ibufs := (ibufs s)[i := synced b1], dsk := d, tfile := None\<rparr> in
         (case q of [] \<Rightarrow> Inr s1
          | j # q' \<Rightarrow> rbind (idestart (ibufs s1 ! j)) (\<lambda>t1. Inr (s1\<lparr>tfile := Some t1\<rparr>))))"

section \<open>The memory disk\<close>

definition memide_iderw :: "u32 \<Rightarrow> u32 \<Rightarrow> buf \<Rightarrow> disk \<Rightarrow> (buf \<times> disk) res" where
  "memide_iderw disksize pid b d =
     (if bholder b \<noteq> Some pid then Inl (Panic ''iderw: buf not locked'')
      else if \<not> needs_sync b then Inl (Panic ''iderw: nothing to do'')
      else if bdev b \<noteq> 1 then Inl (Panic ''iderw: request not for disk 1'')
      else if disksize \<le> blockno b then Inl (Panic ''iderw: block out of range'')
      else let (b1, d1) =
          (if is_dirty b
           then let b' = b\<lparr>flags := flags b AND NOT B_DIRTY\<rparr> in (b', d(1 := (d 1)(blockno b' := data b')))
           else (b\<lparr>data := d 1 (blockno b)\<rparr>, d)) in
        Inr (b1\<lparr>flags := flags b1 OR B_VALID\<rparr>, d1))"

section \<open>Correctness\<close>

lemma flag_bits: "flags b AND B_VALID = 0 \<longleftrightarrow> \<not> bit (flags b) 1" "flags b AND B_DIRTY = 0 \<longleftrightarrow> \<not> bit (flags b) 2"
  using and_exp_eq_0_iff_not_bit[of "flags b" 1] and_exp_eq_0_iff_not_bit[of "flags b" 2]
  by (simp_all add: B_VALID_def B_DIRTY_def)

lemma bit_flag: "bit B_VALID n \<longleftrightarrow> n = 1" "bit B_DIRTY n \<longleftrightarrow> n = 2"
proof -
  have e: "B_VALID = 2 ^ 1" "B_DIRTY = 2 ^ 2" by (simp_all add: B_VALID_def B_DIRTY_def)
  show "bit B_VALID n \<longleftrightarrow> n = 1" unfolding e(1) bit_exp_iff by auto
  show "bit B_DIRTY n \<longleftrightarrow> n = 2" unfolding e(2) bit_exp_iff by auto
qed

lemma valid_dirty_bits: "is_valid b \<longleftrightarrow> bit (flags b) 1" "is_dirty b \<longleftrightarrow> bit (flags b) 2"
  by (simp_all add: is_valid_def is_dirty_def flag_bits)

lemma needs_sync_iff: "needs_sync b \<longleftrightarrow> \<not> is_valid b \<or> is_dirty b"
proof -
  have "flags b AND (B_VALID OR B_DIRTY) = B_VALID \<longleftrightarrow> bit (flags b) 1 \<and> \<not> bit (flags b) 2"
  proof
    assume e: "flags b AND (B_VALID OR B_DIRTY) = B_VALID"
    from arg_cong[OF e, of "\<lambda>x. bit x 1"] arg_cong[OF e, of "\<lambda>x. bit x 2"]
    show "bit (flags b) 1 \<and> \<not> bit (flags b) 2" by (simp add: bit_and_iff bit_or_iff bit_flag)
  next
    assume "bit (flags b) 1 \<and> \<not> bit (flags b) 2"
    then show "flags b AND (B_VALID OR B_DIRTY) = B_VALID"
      by (intro bit_word_eqI) (auto simp: bit_and_iff bit_or_iff bit_flag)
  qed
  then show ?thesis by (auto simp: needs_sync_def valid_dirty_bits)
qed

lemma synced_flags [simp]: "is_valid (synced b)" "\<not> is_dirty (synced b)"
  by (simp_all add: valid_dirty_bits synced_def bit_and_iff bit_or_iff bit_not_iff bit_flag)

text \<open>The registers name the block and the device, so the drive does what \<open>disk_sync\<close> does.\<close>

lemma idestart_addresses:
  assumes "idestart b = Inr t" "bdev b = 0 \<or> bdev b = 1"
  shows "tf_sector t = blockno b" "tf_dev t = bdev b" "command t = 0x30 \<longleftrightarrow> is_dirty b"
    "dout t = (if is_dirty b then Some (data b) else None)"
proof -
  have t: "lba0 t = ucast (blockno b AND 0xff)" "lba1 t = ucast (drop_bit 8 (blockno b) AND 0xff)"
    "lba2 t = ucast (drop_bit 16 (blockno b) AND 0xff)"
    "devsel t = ucast (0xe0 OR push_bit 4 (bdev b AND 1) OR (drop_bit 24 (blockno b) AND 0x0f))"
    and n: "blockno b < 1000"
    using assms(1) by (auto simp: idestart_def FSSIZE_def not_le Let_def split: if_splits)
  have d: "drop_bit 24 (blockno b) = 0" "drop_bit 16 (blockno b) = 0"
    using n by (simp_all add: drop_bit_eq_div word_less_nat_alt unat_div flip: unat_eq_zero)
  show "tf_dev t = bdev b"
    using assms(2) by (auto simp: tf_dev_def t d)
  have "devsel t AND 0x0f = 0" using assms(2) by (auto simp: t d)
  then have s: "tf_sector t = ucast (lba0 t) OR push_bit 8 (ucast (lba1 t))"
    by (simp add: tf_sector_def t(3) d)
  have hi: "\<not> bit (blockno b) n" if "16 \<le> n" for n
    using arg_cong[OF d(2), of "\<lambda>x. bit x (n - 16)"] that by (simp add: bit_drop_bit_eq)
  show "tf_sector t = blockno b"
  proof (rule bit_word_eqI)
    fix n :: nat
    consider "n < 8" | "8 \<le> n \<and> n < 16" | "16 \<le> n" by linarith
    then show "bit (tf_sector t) n = bit (blockno b) n"
      by cases (auto simp: s t(1,2) bit_or_iff bit_push_bit_iff bit_ucast_iff and_255_bit bit_drop_bit_eq hi)
  qed
  show "command t = 0x30 \<longleftrightarrow> is_dirty b" "dout t = (if is_dirty b then Some (data b) else None)"
    using assms(1) by (auto simp: idestart_def Let_def split: if_splits)
qed

subsection \<open>The queue refines synchronous requests\<close>

definition sync_at :: "nat \<Rightarrow> buf list \<times> disk \<Rightarrow> buf list \<times> disk" where
  "sync_at i x = (let (b, d) = disk_sync (fst x ! i) (snd x) in ((fst x)[i := b], d))"

text \<open>What the state will be when the outstanding requests have been served.\<close>

definition settled :: "ide \<Rightarrow> buf list \<times> disk" where
  "settled s = fold sync_at (idequeue s) (ibufs s, dsk s)"

definition ide_ok :: "ide \<Rightarrow> bool" where
  "ide_ok s \<longleftrightarrow> distinct (idequeue s) \<and>
     (\<forall>i \<in> set (idequeue s). i < length (ibufs s) \<and> bdev (ibufs s ! i) \<in> {0, 1} \<and> blockno (ibufs s ! i) < FSSIZE) \<and>
     (idequeue s \<noteq> [] \<longrightarrow> (\<exists>t. tfile s = Some t \<and> idestart (ibufs s ! hd (idequeue s)) = Inr t))"

lemma idestart_ok: "blockno b < FSSIZE \<Longrightarrow> \<exists>t. idestart b = Inr t"
  by (simp add: idestart_def Let_def)

lemma drive_sync:
  assumes "idestart b = Inr t" "bdev b \<in> {0, 1}"
  shows "(synced (if \<not> is_dirty b then b\<lparr>data := drive t d (tf_dev t) (tf_sector t)\<rparr> else b), drive t d) = disk_sync b d"
  using idestart_addresses[OF assms(1)] assms(2) by (auto simp: drive_def disk_sync_def)

lemma ideintr_step:
  assumes "ide_ok s" "idequeue s = i # q"
  obtains s' where "ideintr False s = Inr s'" "ide_ok s'" "settled s' = settled s" "idequeue s' = q"
proof -
  define b where "b = ibufs s ! i"
  obtain t where t: "tfile s = Some t" "idestart b = Inr t" using assms by (auto simp: ide_ok_def b_def)
  have dev: "bdev b \<in> {0, 1}" using assms by (auto simp: ide_ok_def b_def)
  obtain b' d' where bd: "disk_sync b (dsk s) = (b', d')" by fastforce
  define s1 where "s1 = s\<lparr>idequeue := q, ibufs := (ibufs s)[i := b'], dsk := d', tfile := None\<rparr>"
  have b': "(b', d') = (synced (if \<not> is_dirty b then b\<lparr>data := drive t (dsk s) (tf_dev t) (tf_sector t)\<rparr> else b), drive t (dsk s))"
    using drive_sync[OF t(2) dev, of "dsk s"] bd by simp
  have eq: "ideintr False s = (case q of [] \<Rightarrow> Inr s1
      | j # q' \<Rightarrow> rbind (idestart (ibufs s1 ! j)) (\<lambda>t1. Inr (s1\<lparr>tfile := Some t1\<rparr>)))"
    using b' by (simp add: ideintr_def assms(2) t(1) Let_def s1_def b_def cong: list.case_cong)
  have set: "settled s = fold sync_at q ((ibufs s)[i := b'], d')"
    by (simp add: settled_def assms(2) sync_at_def bd b_def[symmetric])
  have keep: "j \<in> set q \<Longrightarrow> ibufs s1 ! j = ibufs s ! j" for j
    using assms by (cases "i = j") (auto simp: s1_def ide_ok_def)
  show ?thesis
  proof (cases q)
    case Nil
    then show ?thesis using eq that[of s1] set by (simp add: ide_ok_def s1_def settled_def)
  next
    case (Cons j q')
    then have "j \<in> set q" by simp
    then have "blockno (ibufs s1 ! j) < FSSIZE" using assms keep by (auto simp: ide_ok_def)
    then obtain t1 where t1: "idestart (ibufs s1 ! j) = Inr t1" using idestart_ok by blast
    have "ide_ok (s1\<lparr>tfile := Some t1\<rparr>)"
      using assms Cons t1 keep by (auto simp: ide_ok_def s1_def)
    then show ?thesis using eq that[of "s1\<lparr>tfile := Some t1\<rparr>"] t1 Cons set
      by (simp add: settled_def s1_def)
  qed
qed

lemma enqueue_step:
  assumes "ide_ok s" "iderw_enqueue pid i s = Inr s'" "i < length (ibufs s)" "i \<notin> set (idequeue s)"
    and "bdev (ibufs s ! i) \<in> {0, 1}" "blockno (ibufs s ! i) < FSSIZE"
  shows "ide_ok s' \<and> settled s' = sync_at i (settled s)"
proof -
  have s': "ibufs s' = ibufs s" "dsk s' = dsk s" "idequeue s' = idequeue s @ [i]"
    "idequeue s = [] \<Longrightarrow> \<exists>t. tfile s' = Some t \<and> idestart (ibufs s ! i) = Inr t"
    "idequeue s \<noteq> [] \<Longrightarrow> tfile s' = tfile s"
    using assms(2,4)
    by (auto simp: iderw_enqueue_def Let_def hd_append rbind_eq_Inr split: if_splits)
  then have "ide_ok s'" using assms(1,3-6) by (cases "idequeue s") (auto simp: ide_ok_def)
  then show ?thesis using s'(1-3) by (simp add: settled_def)
qed

text \<open>All interleavings of requests and interrupts; the second argument lists the requests so far. A
  process requests a transfer only for a buffer whose lock it holds, so it is not in the queue.\<close>

inductive ide_steps :: "ide \<Rightarrow> nat list \<Rightarrow> ide \<Rightarrow> bool" for s where
  start: "ide_steps s [] s"
| request: "ide_steps s rs s1 \<Longrightarrow> i < length (ibufs s1) \<Longrightarrow> i \<notin> set (idequeue s1) \<Longrightarrow>
    bdev (ibufs s1 ! i) \<in> {0, 1} \<Longrightarrow> blockno (ibufs s1 ! i) < FSSIZE \<Longrightarrow>
    iderw_enqueue pid i s1 = Inr s2 \<Longrightarrow> ide_steps s (rs @ [i]) s2"
| interrupt: "ide_steps s rs s1 \<Longrightarrow> ideintr False s1 = Inr s2 \<Longrightarrow> ide_steps s rs s2"

lemma ide_steps_settled:
  assumes "ide_steps s rs s'" "ide_ok s" "idequeue s = []"
  shows "ide_ok s' \<and> settled s' = fold sync_at rs (ibufs s, dsk s)"
  using assms
proof (induction rule: ide_steps.induct)
  case start
  then show ?case by (simp add: settled_def)
next
  case (request rs s1 i pid s2)
  then show ?case using enqueue_step[of s1 pid i s2] by simp
next
  case (interrupt rs s1 s2)
  then show ?case
    by (cases "idequeue s1") (auto simp: ideintr_def elim: ideintr_step[of s1])
qed

text \<open>C15. The disk driver is correct under every interleaving of requests and completion interrupts: once the
  queue is empty, the buffers and the disk are what they would be if each request had been served at
  once, in the order of the requests; and while the queue is not empty an interrupt is served without a
  panic and shortens it.\<close>

theorem ide_refines_synchronous_disk:
  assumes "ide_steps s rs s'" "ide_ok s" "idequeue s = []"
  shows "(idequeue s' = [] \<longrightarrow> (ibufs s', dsk s') = fold sync_at rs (ibufs s, dsk s)) \<and>
    (idequeue s' \<noteq> [] \<longrightarrow> (\<exists>s''. ideintr False s' = Inr s'' \<and> idequeue s'' = tl (idequeue s')))"
proof -
  have "ide_ok s'" "settled s' = fold sync_at rs (ibufs s, dsk s)"
    using ide_steps_settled[OF assms] by simp_all
  then show ?thesis
    by (cases "idequeue s'") (auto simp: settled_def elim: ideintr_step)
qed

definition demo_ide :: ide where
  "demo_ide = \<lparr>ibufs = [\<lparr>flags = 0, bdev = 1, blockno = 7, bholder = Some 3, refcnt = 1, bprev = 0, bnext = 0,
      data = []\<rparr>], idequeue = [], tfile = None, dsk = (\<lambda>d b. [9]), havedisk1 = True\<rparr>"

theorem ide_refines_synchronous_disk_witness:
  "\<exists>s1 s2. iderw_enqueue 3 0 demo_ide = Inr s1 \<and> ideintr False s1 = Inr s2 \<and>
     (ibufs s2, dsk s2) = fold sync_at [0] (ibufs demo_ide, dsk demo_ide)"
proof -
  have ok: "ide_ok demo_ide" "idequeue demo_ide = []" by (simp_all add: ide_ok_def demo_ide_def)
  obtain s1 where s1: "iderw_enqueue 3 0 demo_ide = Inr s1" "idequeue s1 = [0]"
    by (simp add: iderw_enqueue_def demo_ide_def needs_sync_def B_VALID_def B_DIRTY_def idestart_def FSSIZE_def Let_def)
  have st1: "ide_steps demo_ide ([] @ [0]) s1"
    by (rule ide_steps.request[OF ide_steps.start _ _ _ _ s1(1)]) (simp_all add: demo_ide_def FSSIZE_def)
  then obtain s2 where s2: "ideintr False s1 = Inr s2" "idequeue s2 = []"
    using ide_refines_synchronous_disk[OF st1 ok] s1(2) by auto
  have st2: "ide_steps demo_ide [0] s2" using ide_steps.interrupt[OF st1 s2(1)] by simp
  show ?thesis using ide_refines_synchronous_disk[OF st2 ok] s1(1) s2 by auto
qed

text \<open>The memory disk performs the same synchronisation at once.\<close>

lemma memide_sync:
  assumes "bholder b = Some pid" "needs_sync b" "bdev b = 1" "blockno b < disksize"
  shows "memide_iderw disksize pid b d = Inr (disk_sync b d)"
proof -
  have "(flags b AND NOT B_DIRTY) OR B_VALID = (flags b OR B_VALID) AND NOT B_DIRTY"
    by (rule bit_word_eqI) (auto simp: bit_and_iff bit_or_iff bit_not_iff bit_flag)
  moreover have "flags b OR B_VALID = (flags b OR B_VALID) AND NOT B_DIRTY" if "\<not> is_dirty b"
    using that by (intro bit_word_eqI) (auto simp: bit_and_iff bit_or_iff bit_not_iff bit_flag valid_dirty_bits)
  ultimately show ?thesis using assms
    by (auto simp: memide_iderw_def disk_sync_def synced_def Let_def not_le)
qed

text \<open>C39. A read error is not reported: when the drive signals an error, \<^verbatim>\<open>ideintr\<close> leaves the old bytes in the
  buffer and marks it valid all the same, so the process that waits in \<^verbatim>\<open>iderw\<close> takes them for the block.\<close>

theorem ideintr_read_error_marks_valid:
  assumes "idequeue s = [i]" "i < length (ibufs s)" "\<not> is_dirty (ibufs s ! i)"
  shows "\<exists>s'. ideintr True s = Inr s' \<and> data (ibufs s' ! i) = data (ibufs s ! i) \<and> is_valid (ibufs s' ! i)
    \<and> \<not> needs_sync (ibufs s' ! i)"
proof -
  have "data (synced b) = data b" for b by (simp add: synced_def)
  then show ?thesis using assms by (simp add: ideintr_def Let_def needs_sync_iff)
qed

theorem ideintr_read_error_marks_valid_witness:
  "\<exists>s'. ideintr True (demo_ide\<lparr>idequeue := [0]\<rparr>) = Inr s' \<and> data (ibufs s' ! 0) = data (ibufs (demo_ide\<lparr>idequeue := [0]\<rparr>) ! 0)
    \<and> is_valid (ibufs s' ! 0) \<and> \<not> needs_sync (ibufs s' ! 0)"
  by (rule ideintr_read_error_marks_valid) (simp_all add: demo_ide_def is_dirty_def)

end
