(* ===== verification/Bio.thy ===== *)
theory Bio
  imports Ide
begin

text \<open>
  The buffer cache, \<^verbatim>\<open>src/src/bio.c\<close>: 30 buffers on a doubly linked list in order of their last use, with
  the list head as element 30 of the array. Pointers between buffers are indices. \<open>wtrace\<close> records the
  writes that have reached the disk, in order; it is what a crash leaves a prefix of.

  A routine runs for process \<open>pid\<close>. When a buffer is locked by another process, \<^verbatim>\<open>acquiresleep\<close> waits: the
  outcome is \<open>Blocks\<close>. \<open>bio_ok H s\<close> is the invariant of the cache while the buffers \<open>H\<close> are held by the
  running process; \<open>view s\<close> is the content of the blocks as the callers of the cache see it.
\<close>

section \<open>The code\<close>

abbreviation NBUF :: nat where "NBUF \<equiv> 30"
abbreviation HEAD :: nat where "HEAD \<equiv> 30"

record bio =
  bufs :: "buf list"
  disk :: disk
  wtrace :: "(u32 \<times> u32 \<times> block) list"
  havedisk :: bool

definition set_next :: "nat \<Rightarrow> nat \<Rightarrow> buf list \<Rightarrow> buf list" where
  "set_next i j bs = bs[i := (bs ! i)\<lparr>bnext := j\<rparr>]"

definition set_prev :: "nat \<Rightarrow> nat \<Rightarrow> buf list \<Rightarrow> buf list" where
  "set_prev i j bs = bs[i := (bs ! i)\<lparr>bprev := j\<rparr>]"

text \<open>The four assignments that insert \<open>b\<close> behind the head, in \<^verbatim>\<open>binit\<close> and in \<^verbatim>\<open>brelse\<close>.\<close>

definition push_front :: "nat \<Rightarrow> buf list \<Rightarrow> buf list" where
  "push_front b bs =
     (let bs1 = set_next b (bnext (bs ! HEAD)) bs;
          bs2 = set_prev b HEAD bs1;
          bs3 = set_prev (bnext (bs2 ! HEAD)) b bs2 in
      set_next HEAD b bs3)"

definition unlink :: "nat \<Rightarrow> buf list \<Rightarrow> buf list" where
  "unlink b bs =
     (let bs1 = set_prev (bnext (bs ! b)) (bprev (bs ! b)) bs in
      set_next (bprev (bs1 ! b)) (bnext (bs1 ! b)) bs1)"

definition binit :: "bio \<Rightarrow> bio" where
  "binit s =
     (let bs0 = set_next HEAD HEAD (set_prev HEAD HEAD (bufs s)) in
      s\<lparr>bufs := fold (\<lambda>b bs. push_front b (bs[b := (bs ! b)\<lparr>bholder := None\<rparr>])) [0..<NBUF] bs0\<rparr>)"

text \<open>The two loops of \<^verbatim>\<open>bget\<close> follow the links until they are back at the head.\<close>

fun scan :: "(buf \<Rightarrow> nat) \<Rightarrow> (buf \<Rightarrow> bool) \<Rightarrow> buf list \<Rightarrow> nat \<Rightarrow> nat \<Rightarrow> nat option res" where
  "scan link P bs 0 b = Inl Spins"
| "scan link P bs (Suc n) b =
     (if b = HEAD then Inr None
      else if P (bs ! b) then Inr (Some b)
      else scan link P bs n (link (bs ! b)))"

definition upd_buf :: "nat \<Rightarrow> (buf \<Rightarrow> buf) \<Rightarrow> bio \<Rightarrow> bio" where
  "upd_buf i f s = s\<lparr>bufs := (bufs s)[i := f (bufs s ! i)]\<rparr>"

definition buf_acquiresleep :: "u32 \<Rightarrow> nat \<Rightarrow> bio \<Rightarrow> bio res" where
  "buf_acquiresleep pid i s =
     (if bholder (bufs s ! i) \<noteq> None then Inl Blocks
      else Inr (upd_buf i (\<lambda>b. b\<lparr>bholder := Some pid\<rparr>) s))"

definition bget :: "u32 \<Rightarrow> u32 \<Rightarrow> u32 \<Rightarrow> bio \<Rightarrow> (nat \<times> bio) res" where
  "bget pid dev bno s =
     rbind (scan bnext (\<lambda>b. bdev b = dev \<and> blockno b = bno) (bufs s) (Suc NBUF) (bnext (bufs s ! HEAD))) (\<lambda>r.
       case r of
         Some i \<Rightarrow>
           let s1 = upd_buf i (\<lambda>b. b\<lparr>refcnt := refcnt b + 1\<rparr>) s in
           rbind (buf_acquiresleep pid i s1) (\<lambda>s2. Inr (i, s2))
       | None \<Rightarrow>
           rbind (scan bprev (\<lambda>b. refcnt b = 0 \<and> \<not> is_dirty b) (bufs s) (Suc NBUF) (bprev (bufs s ! HEAD))) (\<lambda>r2.
             case r2 of
               None \<Rightarrow> Inl (Panic ''bget: no buffers'')
             | Some i \<Rightarrow>
                 let s1 = upd_buf i (\<lambda>b. b\<lparr>bdev := dev, blockno := bno, flags := 0, refcnt := 1\<rparr>) s in
                 rbind (buf_acquiresleep pid i s1) (\<lambda>s2. Inr (i, s2))))"

text \<open>\<^verbatim>\<open>iderw\<close> as its callers see it: the request has been served (theory \<open>Ide\<close>).\<close>

definition iderw :: "u32 \<Rightarrow> nat \<Rightarrow> bio \<Rightarrow> bio res" where
  "iderw pid i s =
     (let b = bufs s ! i in
      if bholder b \<noteq> Some pid then Inl (Panic ''iderw: buf not locked'')
      else if \<not> needs_sync b then Inl (Panic ''iderw: nothing to do'')
      else if bdev b \<noteq> 0 \<and> \<not> havedisk s then Inl (Panic ''iderw: ide disk 1 not present'')
      else if FSSIZE \<le> blockno b then Inl (Panic ''incorrect blockno'')
      else let (b1, d1) = disk_sync b (disk s) in
        Inr (s\<lparr>bufs := (bufs s)[i := b1], disk := d1,
               wtrace := wtrace s @ (if is_dirty b then [(bdev b, blockno b, data b)] else [])\<rparr>))"

definition bread :: "u32 \<Rightarrow> u32 \<Rightarrow> u32 \<Rightarrow> bio \<Rightarrow> (nat \<times> bio) res" where
  "bread pid dev bno s =
     rbind (bget pid dev bno s) (\<lambda>(i, s1).
       if flags (bufs s1 ! i) AND B_VALID = 0 then rbind (iderw pid i s1) (\<lambda>s2. Inr (i, s2))
       else Inr (i, s1))"

definition bwrite :: "u32 \<Rightarrow> nat \<Rightarrow> bio \<Rightarrow> bio res" where
  "bwrite pid i s =
     (if bholder (bufs s ! i) \<noteq> Some pid then Inl (Panic ''bwrite'')
      else iderw pid i (upd_buf i (\<lambda>b. b\<lparr>flags := flags b OR B_DIRTY\<rparr>) s))"

definition brelse :: "u32 \<Rightarrow> nat \<Rightarrow> bio \<Rightarrow> bio res" where
  "brelse pid i s =
     (if bholder (bufs s ! i) \<noteq> Some pid then Inl (Panic ''brelse'')
      else let s1 = upd_buf i (\<lambda>b. b\<lparr>bholder := None\<rparr>) s;
               s2 = upd_buf i (\<lambda>b. b\<lparr>refcnt := refcnt b - 1\<rparr>) s1 in
        if refcnt (bufs s2 ! i) = 0
        then Inr (s2\<lparr>bufs := push_front i (unlink i (bufs s2))\<rparr>)
        else Inr s2)"

section \<open>The list of buffers\<close>

fun seg :: "buf list \<Rightarrow> nat \<Rightarrow> nat list \<Rightarrow> nat \<Rightarrow> bool" where
  "seg bs a [] z \<longleftrightarrow> bnext (bs ! a) = z \<and> bprev (bs ! z) = a"
| "seg bs a (x # xs) z \<longleftrightarrow> bnext (bs ! a) = x \<and> bprev (bs ! x) = a \<and> seg bs x xs z"

definition lru :: "buf list \<Rightarrow> nat list \<Rightarrow> bool" where
  "lru bs xs \<longleftrightarrow> length bs = Suc NBUF \<and> distinct xs \<and> set xs \<subseteq> {0..<NBUF} \<and> seg bs HEAD xs HEAD"

lemma seg_append: "seg bs a (xs @ y # ys) z \<longleftrightarrow> seg bs a xs y \<and> seg bs y ys z"
  by (induction xs arbitrary: a) auto

lemma seg_cong:
  assumes "\<And>x. x \<in> insert a (set xs) \<Longrightarrow> bnext (bs' ! x) = bnext (bs ! x)"
    and "\<And>x. x \<in> insert z (set xs) \<Longrightarrow> bprev (bs' ! x) = bprev (bs ! x)"
  shows "seg bs' a xs z = seg bs a xs z"
  using assms by (induction xs arbitrary: a) auto

lemma seg_next_last: "seg bs a xs z \<Longrightarrow> bprev (bs ! z) = last (a # xs)"
  by (induction xs arbitrary: a) auto

lemma seg_next_hd: "seg bs a xs z \<Longrightarrow> bnext (bs ! a) = hd (xs @ [z])"
  by (cases xs) auto

lemma scan_next:
  assumes "seg bs a xs HEAD" "HEAD \<notin> set xs" "length xs < n"
  shows "scan bnext P bs n (bnext (bs ! a)) = Inr (find (\<lambda>i. P (bs ! i)) xs)"
  using assms
proof (induction xs arbitrary: a n)
  case Nil
  then show ?case by (cases n) auto
next
  case (Cons x xs)
  then obtain k where "n = Suc k" "length xs < k" by (cases n) auto
  with Cons show ?case by auto
qed

lemma scan_prev:
  assumes "seg bs HEAD xs z" "HEAD \<notin> set xs" "length xs < n"
  shows "scan bprev P bs n (bprev (bs ! z)) = Inr (find (\<lambda>i. P (bs ! i)) (rev xs))"
  using assms
proof (induction xs arbitrary: z n rule: rev_induct)
  case Nil
  then show ?case by (cases n) auto
next
  case (snoc x xs)
  then obtain k where "n = Suc k" "length xs < k" by (cases n) auto
  with snoc show ?case by (auto simp: seg_append)
qed

lemma nth_set_next: "i < length bs \<Longrightarrow> bnext (set_next i j bs ! k) = (if k = i then j else bnext (bs ! k))"
  "bprev (set_next i j bs ! k) = bprev (bs ! k)"
  by (simp add: set_next_def nth_list_update)
    (cases "i < length bs", auto simp: set_next_def nth_list_update list_update_beyond)

lemma nth_set_prev: "i < length bs \<Longrightarrow> bprev (set_prev i j bs ! k) = (if k = i then j else bprev (bs ! k))"
  "bnext (set_prev i j bs ! k) = bnext (bs ! k)"
  by (simp add: set_prev_def nth_list_update)
    (cases "i < length bs", auto simp: set_prev_def nth_list_update list_update_beyond)

lemma length_links [simp]: "length (set_next i j bs) = length bs" "length (set_prev i j bs) = length bs"
  by (simp_all add: set_next_def set_prev_def)

lemma push_front_links:
  assumes "b < HEAD" "length bs = Suc HEAD" "bnext (bs ! HEAD) < length bs" "bnext (bs ! HEAD) \<noteq> b"
  shows "bnext (push_front b bs ! k) =
      (if k = HEAD then b else if k = b then bnext (bs ! HEAD) else bnext (bs ! k))"
    and "bprev (push_front b bs ! k) =
      (if k = bnext (bs ! HEAD) then b else if k = b then HEAD else bprev (bs ! k))"
  using assms by (simp_all add: push_front_def Let_def nth_set_next nth_set_prev)

lemma unlink_links:
  assumes "bnext (bs ! b) < length bs" "bprev (bs ! b) < length bs" "bnext (bs ! b) \<noteq> b"
  shows "bnext (unlink b bs ! k) = (if k = bprev (bs ! b) then bnext (bs ! b) else bnext (bs ! k))"
    and "bprev (unlink b bs ! k) = (if k = bnext (bs ! b) then bprev (bs ! b) else bprev (bs ! k))"
  using assms by (simp_all add: unlink_def Let_def nth_set_next nth_set_prev)

lemma seg_push_front:
  assumes "seg bs HEAD xs HEAD" "distinct xs" "set xs \<subseteq> {0..<HEAD}" "length bs = Suc HEAD" "b < HEAD" "b \<notin> set xs"
  shows "seg (push_front b bs) HEAD (b # xs) HEAD"
proof (cases xs)
  case Nil
  then have "bnext (bs ! HEAD) = HEAD" using assms(1) by simp
  with assms Nil show ?thesis by (simp add: push_front_links)
next
  case (Cons x ys)
  then have n: "bnext (bs ! HEAD) = x" "x < HEAD" "x \<noteq> b" using assms by auto
  note l = push_front_links[of b bs, unfolded n(1)]
  have "seg (push_front b bs) x ys HEAD = seg bs x ys HEAD"
    using assms Cons n by (intro seg_cong) (auto simp: l)
  then show ?thesis using assms Cons n by (simp add: l)
qed

lemma seg_unlink:
  assumes "seg bs HEAD (us @ b # vs) HEAD" "distinct (us @ b # vs)" "set (us @ b # vs) \<subseteq> {0..<HEAD}"
    "length bs = Suc HEAD"
  shows "seg (unlink b bs) HEAD (us @ vs) HEAD"
proof -
  have s: "seg bs HEAD us b" "seg bs b vs HEAD" using assms(1) by (simp_all add: seg_append)
  have p: "bprev (bs ! b) = last (HEAD # us)" and n: "bnext (bs ! b) = hd (vs @ [HEAD])"
    using seg_next_last[OF s(1)] seg_next_hd[OF s(2)] by simp_all
  have pn: "bprev (bs ! b) < Suc HEAD" "bnext (bs ! b) < Suc HEAD" "bnext (bs ! b) \<noteq> b"
    using assms(2,3) by (cases us rule: rev_cases; cases vs; auto simp: p n)+
  note l = unlink_links[of bs b, unfolded assms(4), OF pn(2,1,3)]
  have head: "seg (unlink b bs) HEAD us z" if "z = bnext (bs ! b)" for z
  proof (cases us rule: rev_cases)
    case Nil
    then show ?thesis using that p by (simp add: l)
  next
    case (snoc us' q)
    then have "seg (unlink b bs) HEAD us' q = seg bs HEAD us' q"
      using assms(2,3) p n by (intro seg_cong) (cases vs; auto simp: l)+
    then show ?thesis using snoc s(1) that p by (simp add: seg_append l)
  qed
  show ?thesis
  proof (cases vs)
    case Nil
    then show ?thesis using head n by simp
  next
    case (Cons m vs')
    then have "seg (unlink b bs) m vs' HEAD = seg bs m vs' HEAD"
      using assms(2,3) p n by (intro seg_cong) (cases us rule: rev_cases; auto simp: l)+
    then show ?thesis using Cons s(2) head n by (simp add: seg_append)
  qed
qed

text \<open>The links are the only thing these two change.\<close>

definition same_buf :: "buf \<Rightarrow> buf \<Rightarrow> bool" where
  "same_buf b c \<longleftrightarrow> flags b = flags c \<and> bdev b = bdev c \<and> blockno b = blockno c \<and> bholder b = bholder c
     \<and> refcnt b = refcnt c \<and> data b = data c"

lemma same_buf_refl [simp]: "same_buf b b"
  by (simp add: same_buf_def)

lemma same_buf_trans: "same_buf a b \<Longrightarrow> same_buf b c \<Longrightarrow> same_buf a c"
  by (simp add: same_buf_def)

lemma same_set_next: "same_buf (set_next i j bs ! k) (bs ! k)"
  by (cases "i < length bs"; cases "k = i"; simp add: set_next_def same_buf_def list_update_beyond not_less)

lemma same_set_prev: "same_buf (set_prev i j bs ! k) (bs ! k)"
  by (cases "i < length bs"; cases "k = i"; simp add: set_prev_def same_buf_def list_update_beyond not_less)

lemma same_push_front: "same_buf (push_front b bs ! k) (bs ! k)"
  unfolding push_front_def Let_def
  by (rule same_buf_trans[OF same_set_next same_buf_trans[OF same_set_prev same_buf_trans[OF same_set_prev same_set_next]]])

lemma same_unlink: "same_buf (unlink b bs ! k) (bs ! k)"
  unfolding unlink_def Let_def by (rule same_buf_trans[OF same_set_next same_set_prev])

lemma length_push_front [simp]: "length (push_front b bs) = length bs" "length (unlink b bs) = length bs"
  by (simp_all add: push_front_def unlink_def Let_def)

lemma lru_move_front:
  assumes "lru bs xs" "b \<in> set xs"
  shows "lru (push_front b (unlink b bs)) (b # remove1 b xs)"
proof -
  obtain us vs where xs: "xs = us @ b # vs" "b \<notin> set us" using assms(2) by (metis split_list_first)
  have "seg (unlink b bs) HEAD (us @ vs) HEAD"
    using assms(1) xs by (intro seg_unlink) (auto simp: lru_def)
  then have "seg (push_front b (unlink b bs)) HEAD (b # us @ vs) HEAD"
    using assms(1) xs by (intro seg_push_front) (auto simp: lru_def)
  moreover have "remove1 b xs = us @ vs" using xs by (simp add: remove1_append)
  ultimately show ?thesis using assms(1) xs by (auto simp: lru_def simp del: seg.simps)
qed

section \<open>The invariant and what the callers see\<close>

definition has_key :: "u32 \<Rightarrow> u32 \<Rightarrow> buf \<Rightarrow> bool" where
  "has_key dev bno b \<longleftrightarrow> bdev b = dev \<and> blockno b = bno"

definition view :: "bio \<Rightarrow> u32 \<Rightarrow> u32 \<Rightarrow> block" where
  "view s dev bno =
     (case find (\<lambda>i. has_key dev bno (bufs s ! i) \<and> is_valid (bufs s ! i)) [0..<NBUF] of
        Some i \<Rightarrow> data (bufs s ! i) | None \<Rightarrow> disk s dev bno)"

text \<open>\<open>buf_ok pid held b\<close>: a buffer that is held, respectively not held, by the running process.\<close>

definition buf_ok :: "u32 \<Rightarrow> bool \<Rightarrow> buf \<Rightarrow> bool" where
  "buf_ok pid held b \<longleftrightarrow> refcnt b = (if held then 1 else 0) \<and> bholder b = (if held then Some pid else None)
     \<and> (is_dirty b \<longrightarrow> is_valid b \<and> bdev b \<noteq> 0)"

definition coherent :: "disk \<Rightarrow> buf \<Rightarrow> bool" where
  "coherent d b \<longleftrightarrow> (is_valid b \<and> \<not> is_dirty b \<longrightarrow> data b = d (bdev b) (blockno b))"

definition bio_ok :: "u32 \<Rightarrow> nat set \<Rightarrow> bio \<Rightarrow> bool" where
  "bio_ok pid H s \<longleftrightarrow> H \<subseteq> {0..<NBUF} \<and> havedisk s
     \<and> (\<exists>xs. lru (bufs s) xs \<and> set xs = {0..<NBUF})
     \<and> (\<forall>i < NBUF. \<forall>j < NBUF. \<forall>d b. d \<noteq> 0 \<longrightarrow> has_key d b (bufs s ! i) \<longrightarrow> has_key d b (bufs s ! j) \<longrightarrow> i = j)
     \<and> (\<forall>i < NBUF. buf_ok pid (i \<in> H) (bufs s ! i))
     \<and> (\<forall>i < NBUF. i \<notin> H \<longrightarrow> coherent (disk s) (bufs s ! i))"

lemma bio_okD:
  assumes "bio_ok pid H s"
  shows "length (bufs s) = Suc NBUF" "havedisk s" "H \<subseteq> {0..<NBUF}"
    "\<And>i. i < NBUF \<Longrightarrow> buf_ok pid (i \<in> H) (bufs s ! i)"
    "\<And>i. i < NBUF \<Longrightarrow> i \<notin> H \<Longrightarrow> coherent (disk s) (bufs s ! i)"
    "\<And>i j d b. i < NBUF \<Longrightarrow> j < NBUF \<Longrightarrow> d \<noteq> 0 \<Longrightarrow> has_key d b (bufs s ! i) \<Longrightarrow> has_key d b (bufs s ! j) \<Longrightarrow> i = j"
  using assms by (auto simp: bio_ok_def lru_def)

lemma view_valid:
  assumes "bio_ok pid H s" "i < NBUF" "d \<noteq> 0" "has_key d b (bufs s ! i)" "is_valid (bufs s ! i)"
  shows "view s d b = data (bufs s ! i)"
proof (cases "find (\<lambda>i. has_key d b (bufs s ! i) \<and> is_valid (bufs s ! i)) [0..<NBUF]")
  case None
  then show ?thesis using assms by (simp add: find_None_iff)
next
  case (Some j)
  then have "j < NBUF" "has_key d b (bufs s ! j)" by (auto simp: find_Some_iff simp del: upt_Suc)
  then have "j = i" using bio_okD(6)[OF assms(1)] assms by blast
  with Some show ?thesis by (simp add: view_def)
qed

lemma view_disk:
  assumes "\<And>i. i < NBUF \<Longrightarrow> has_key d b (bufs s ! i) \<Longrightarrow> \<not> is_valid (bufs s ! i)"
  shows "view s d b = disk s d b"
proof -
  have "find (\<lambda>i. has_key d b (bufs s ! i) \<and> is_valid (bufs s ! i)) [0..<NBUF] = None"
    using assms by (auto simp: find_None_iff)
  then show ?thesis by (simp add: view_def)
qed

lemma lru_upd:
  assumes "lru bs xs" "bnext c = bnext (bs ! i)" "bprev c = bprev (bs ! i)"
  shows "lru (bs[i := c]) xs"
proof -
  have "seg (bs[i := c]) HEAD xs HEAD = seg bs HEAD xs HEAD"
    using assms(2,3) by (intro seg_cong) (metis nth_list_update_eq nth_list_update_neq list_update_beyond not_le)+
  then show ?thesis using assms(1) by (simp add: lru_def)
qed

text \<open>Taking a buffer: the buffer \<open>i\<close>, which is not held, becomes the held buffer \<open>c\<close> of block \<open>(d, b)\<close>.\<close>

lemma bio_ok_take:
  assumes ok: "bio_ok pid H s" and i: "i < NBUF" "i \<notin> H" and d: "d \<noteq> 0"
    and c: "has_key d b c" "buf_ok pid True c" "bnext c = bnext (bufs s ! i)" "bprev c = bprev (bufs s ! i)"
    and free: "has_key d b (bufs s ! i) \<or>
      (\<not> is_dirty (bufs s ! i) \<and> (\<forall>j < NBUF. \<not> has_key d b (bufs s ! j)))"
  shows "bio_ok pid (insert i H) (s\<lparr>bufs := (bufs s)[i := c]\<rparr>)"
proof -
  obtain xs where xs: "lru (bufs s) xs" "set xs = {0..<NBUF}" using ok by (auto simp: bio_ok_def)
  have len: "i < length (bufs s)" using bio_okD(1)[OF ok] i by simp
  have key: "has_key e f c \<longleftrightarrow> e = d \<and> f = b" for e f using c(1) by (auto simp: has_key_def)
  have other: "j < NBUF \<Longrightarrow> has_key d b (bufs s ! j) \<Longrightarrow> j = i" for j
    using free bio_okD(6)[OF ok _ i(1) d] by blast
  have nth: "bufs (s\<lparr>bufs := (bufs s)[i := c]\<rparr>) ! j = (if j = i then c else bufs s ! j)" for j
    using len by (simp add: nth_list_update)
  show ?thesis unfolding bio_ok_def
  proof (intro conjI allI impI)
    show "\<exists>xs. lru (bufs (s\<lparr>bufs := (bufs s)[i := c]\<rparr>)) xs \<and> set xs = {0..<NBUF}"
      using lru_upd[OF xs(1) c(3,4)] xs(2) by auto
  next
    fix j k e f
    assume "j < NBUF" "k < NBUF" "e \<noteq> 0" "has_key e f (bufs (s\<lparr>bufs := (bufs s)[i := c]\<rparr>) ! j)"
      "has_key e f (bufs (s\<lparr>bufs := (bufs s)[i := c]\<rparr>) ! k)"
    then have jk: "j < NBUF" "k < NBUF" "e \<noteq> 0" "has_key e f (if j = i then c else bufs s ! j)"
      "has_key e f (if k = i then c else bufs s ! k)" unfolding nth by -
    show "j = k"
    proof (cases "j = i \<or> k = i")
      case True
      with jk key have "e = d" "f = b" by (auto split: if_splits)
      with jk other show ?thesis by (metis (full_types))
    next
      case False
      with jk bio_okD(6)[OF ok jk(1-3)] show ?thesis by simp
    qed
  next
    fix j
    assume "j < NBUF"
    then show "buf_ok pid (j \<in> insert i H) (bufs (s\<lparr>bufs := (bufs s)[i := c]\<rparr>) ! j)"
      using len c(2) bio_okD(4)[OF ok] by (auto simp: nth_list_update)
  next
    fix j
    assume "j < NBUF" "j \<notin> insert i H"
    then show "coherent (disk (s\<lparr>bufs := (bufs s)[i := c]\<rparr>)) (bufs (s\<lparr>bufs := (bufs s)[i := c]\<rparr>) ! j)"
      using bio_okD(5)[OF ok] by auto
  qed (use ok i in \<open>auto simp: bio_ok_def\<close>)
qed

lemma view_take:
  assumes ok: "bio_ok pid H s" and i: "i < NBUF" "i \<notin> H" and d: "d \<noteq> 0" "e \<noteq> 0"
    and c: "has_key d b c" "is_valid c" "data c = view s d b" "bnext c = bnext (bufs s ! i)" "bprev c = bprev (bufs s ! i)"
      "buf_ok pid True c"
    and free: "has_key d b (bufs s ! i) \<or>
      (\<not> is_dirty (bufs s ! i) \<and> (\<forall>j < NBUF. \<not> has_key d b (bufs s ! j)))"
  shows "view (s\<lparr>bufs := (bufs s)[i := c]\<rparr>) e f = view s e f"
proof -
  let ?s = "s\<lparr>bufs := (bufs s)[i := c]\<rparr>"
  have ok': "bio_ok pid (insert i H) ?s" using bio_ok_take[OF ok i d(1) c(1,6,4,5) free] .
  have len: "i < length (bufs s)" using bio_okD(1)[OF ok] i by simp
  show ?thesis
  proof (cases "e = d \<and> f = b")
    case True
    then show ?thesis using view_valid[OF ok' i(1) d(1), of b] c len by simp
  next
    case False
    then have nk: "\<not> has_key e f c" using c(1) by (auto simp: has_key_def)
    show ?thesis
    proof (cases "\<exists>j < NBUF. has_key e f (bufs s ! j) \<and> is_valid (bufs s ! j)")
      case True
      then obtain j where j: "j < NBUF" "has_key e f (bufs s ! j)" "is_valid (bufs s ! j)" by blast
      note v = view_valid[OF ok j(1) d(2) j(2,3)]
      show ?thesis
      proof (cases "j = i")
        case True
        with free j False have "\<not> is_dirty (bufs s ! i)" by (auto simp: has_key_def)
        with bio_okD(5)[OF ok i] j True have "view s e f = disk s e f"
          using v by (auto simp: coherent_def has_key_def)
        moreover have "view ?s e f = disk s e f"
        proof -
          have "\<And>k. k < NBUF \<Longrightarrow> \<not> has_key e f (bufs ?s ! k)"
            using nk j True bio_okD(6)[OF ok _ j(1) d(2) _ j(2)] len by (auto simp: nth_list_update)
          then show ?thesis using view_disk[of e f ?s] by simp
        qed
        ultimately show ?thesis by simp
      next
        case False
        then show ?thesis using view_valid[OF ok' j(1) d(2), of f] j v by simp
      qed
    next
      case none: False
      then have "view s e f = disk s e f" by (intro view_disk) blast
      moreover have "view ?s e f = disk s e f"
        using none nk len by (subst view_disk) (auto simp: nth_list_update split: if_splits)
      ultimately show ?thesis by simp
    qed
  qed
qed

section \<open>Reading, writing and releasing\<close>

definition room :: "nat set \<Rightarrow> bio \<Rightarrow> bool" where
  "room H s \<longleftrightarrow> (\<exists>i < NBUF. i \<notin> H \<and> \<not> is_dirty (bufs s ! i))"

definition dirty_key :: "bio \<Rightarrow> u32 \<Rightarrow> u32 \<Rightarrow> bool" where
  "dirty_key s d b \<longleftrightarrow> (\<exists>i < NBUF. has_key d b (bufs s ! i) \<and> is_dirty (bufs s ! i))"

lemma bget_spec:
  assumes ok: "bio_ok pid H s" and d: "d \<noteq> 0" and nokey: "\<forall>i \<in> H. \<not> has_key d b (bufs s ! i)"
    and rm: "room H s \<or> (\<exists>i < NBUF. has_key d b (bufs s ! i))"
  obtains i c where "bget pid d b s = Inr (i, s\<lparr>bufs := (bufs s)[i := c]\<rparr>)" "i < NBUF" "i \<notin> H"
    "has_key d b c" "refcnt c = 1" "bholder c = Some pid" "bnext c = bnext (bufs s ! i)" "bprev c = bprev (bufs s ! i)"
    "has_key d b (bufs s ! i) \<and> flags c = flags (bufs s ! i) \<and> data c = data (bufs s ! i) \<or>
     \<not> is_dirty (bufs s ! i) \<and> (\<forall>j < NBUF. \<not> has_key d b (bufs s ! j)) \<and> flags c = 0"
proof -
  obtain xs where xs: "lru (bufs s) xs" "set xs = {0..<NBUF}" using ok by (auto simp: bio_ok_def)
  have len: "length xs < Suc NBUF" using xs distinct_card[of xs] by (simp add: lru_def)
  have sg: "seg (bufs s) HEAD xs HEAD" "HEAD \<notin> set xs" using xs by (auto simp: lru_def)
  let ?P = "\<lambda>c. bdev c = d \<and> blockno c = b" and ?Q = "\<lambda>c. refcnt c = 0 \<and> \<not> is_dirty c"
  note f = scan_next[OF sg len, of ?P] and r = scan_prev[OF sg len, of ?Q]
  have L: "\<And>i. i < NBUF \<Longrightarrow> i < length (bufs s)" using bio_okD(1)[OF ok] by simp
  have free: "\<And>i. i < NBUF \<Longrightarrow> i \<notin> H \<Longrightarrow> bholder (bufs s ! i) = None \<and> refcnt (bufs s ! i) = 0"
    using bio_okD(4)[OF ok] by (auto simp: buf_ok_def)
  show ?thesis
  proof (cases "find (\<lambda>i. ?P (bufs s ! i)) xs")
    case (Some i)
    then have i: "i < NBUF" "has_key d b (bufs s ! i)"
      using xs(2) by (auto simp: find_Some_iff has_key_def dest: nth_mem)
    then have iH: "i \<notin> H" using nokey by blast
    let ?c = "(bufs s ! i)\<lparr>refcnt := 1, bholder := Some pid\<rparr>"
    have "bget pid d b s = Inr (i, s\<lparr>bufs := (bufs s)[i := ?c]\<rparr>)"
      using Some f free[OF i(1) iH] L[OF i(1)] by (simp add: bget_def upd_buf_def buf_acquiresleep_def)
    then show ?thesis using i iH by (intro that[of i ?c]) (simp_all add: has_key_def)
  next
    case None
    then have none: "\<forall>j < NBUF. \<not> has_key d b (bufs s ! j)" using xs(2) by (auto simp: find_None_iff has_key_def)
    obtain k where "k < NBUF" "k \<notin> H" "\<not> is_dirty (bufs s ! k)" using rm none by (auto simp: room_def)
    then have "find (\<lambda>i. ?Q (bufs s ! i)) (rev xs) \<noteq> None" using xs(2) free by (auto simp: find_None_iff)
    then obtain i where fi: "find (\<lambda>i. ?Q (bufs s ! i)) (rev xs) = Some i" by blast
    then have "i \<in> set (rev xs)" "?Q (bufs s ! i)" by (auto simp: find_Some_iff dest: nth_mem simp del: set_rev)
    then have i: "i < NBUF" "refcnt (bufs s ! i) = 0" "\<not> is_dirty (bufs s ! i)" using xs(2) by auto
    then have iH: "i \<notin> H" using bio_okD(4)[OF ok i(1)] by (auto simp: buf_ok_def split: if_splits)
    let ?c = "(bufs s ! i)\<lparr>bdev := d, blockno := b, flags := 0, refcnt := 1, bholder := Some pid\<rparr>"
    have "bget pid d b s = Inr (i, s\<lparr>bufs := (bufs s)[i := ?c]\<rparr>)"
      using None f r fi free[OF i(1) iH] L[OF i(1)] by (simp add: bget_def upd_buf_def buf_acquiresleep_def)
    then show ?thesis using i iH none by (intro that[of i ?c]) (simp_all add: has_key_def)
  qed
qed

lemma bread_spec:
  assumes ok: "bio_ok pid H s" and d: "d \<noteq> 0" and b: "b < FSSIZE"
    and nokey: "\<forall>i \<in> H. \<not> has_key d b (bufs s ! i)"
    and rm: "room H s \<or> (\<exists>i < NBUF. has_key d b (bufs s ! i))"
  obtains i c where "bread pid d b s = Inr (i, s\<lparr>bufs := (bufs s)[i := c]\<rparr>)" "i < NBUF" "i \<notin> H"
    "bio_ok pid (insert i H) (s\<lparr>bufs := (bufs s)[i := c]\<rparr>)" "has_key d b c" "is_valid c"
    "data c = view s d b" "coherent (disk s) c" "is_dirty c \<longleftrightarrow> dirty_key s d b"
    "\<And>e f. e \<noteq> 0 \<Longrightarrow> view (s\<lparr>bufs := (bufs s)[i := c]\<rparr>) e f = view s e f"
    "\<And>e f. e \<noteq> 0 \<Longrightarrow> dirty_key (s\<lparr>bufs := (bufs s)[i := c]\<rparr>) e f \<longleftrightarrow> dirty_key s e f"
proof -
  obtain i c where g: "bget pid d b s = Inr (i, s\<lparr>bufs := (bufs s)[i := c]\<rparr>)" and i: "i < NBUF" "i \<notin> H"
    and c: "has_key d b c" "refcnt c = 1" "bholder c = Some pid" "bnext c = bnext (bufs s ! i)" "bprev c = bprev (bufs s ! i)"
    and k: "has_key d b (bufs s ! i) \<and> flags c = flags (bufs s ! i) \<and> data c = data (bufs s ! i) \<or>
     \<not> is_dirty (bufs s ! i) \<and> (\<forall>j < NBUF. \<not> has_key d b (bufs s ! j)) \<and> flags c = 0"
    by (rule bget_spec[OF ok d nokey rm])
  have L: "i < length (bufs s)" using bio_okD(1)[OF ok] i by simp
  define c' where "c' = (if is_valid c then c else synced (c\<lparr>data := disk s d b\<rparr>))"
  have dv: "is_dirty c \<Longrightarrow> is_valid c"
    using k bio_okD(4)[OF ok i(1)] by (auto simp: buf_ok_def is_dirty_def is_valid_def)
  have rd: "bread pid d b s = Inr (i, s\<lparr>bufs := (bufs s)[i := c']\<rparr>)"
    using g L c dv b bio_okD(2)[OF ok]
    by (auto simp: bread_def iderw_def disk_sync_def c'_def needs_sync_iff has_key_def is_valid_def[of c] not_le)
  have c'k: "has_key d b c'" "is_valid c'" "bnext c' = bnext (bufs s ! i)" "bprev c' = bprev (bufs s ! i)"
    "buf_ok pid True c'" "is_dirty c' \<longleftrightarrow> is_dirty c"
    using c dv d by (auto simp: c'_def has_key_def synced_def buf_ok_def) (auto simp: valid_dirty_bits bit_and_iff bit_or_iff bit_not_iff bit_flag)
  have free: "has_key d b (bufs s ! i) \<or> (\<not> is_dirty (bufs s ! i) \<and> (\<forall>j < NBUF. \<not> has_key d b (bufs s ! j)))"
    using k by blast
  have dat: "data c' = view s d b"
  proof (cases "is_valid c")
    case True
    then have "has_key d b (bufs s ! i)" "is_valid (bufs s ! i)" "data c = data (bufs s ! i)"
      using k by (auto simp: is_valid_def)
    then show ?thesis using view_valid[OF ok i(1) d] True by (simp add: c'_def)
  next
    case False
    then have "view s d b = disk s d b"
      using k bio_okD(6)[OF ok _ i(1) d] by (intro view_disk) (metis is_valid_def)
    then show ?thesis using False by (simp add: c'_def synced_def)
  qed
  have dk: "is_dirty c' \<longleftrightarrow> dirty_key s d b"
    using k bio_okD(6)[OF ok _ i(1) d] i(1) unfolding c'k(6) dirty_key_def
    by (metis (no_types, lifting) and_zero_eq is_dirty_def zero_and_eq)
  have coh: "coherent (disk s) c'"
  proof (cases "is_valid c")
    case True
    then have "has_key d b (bufs s ! i)" "flags c = flags (bufs s ! i)" "data c = data (bufs s ! i)"
      using k by (auto simp: is_valid_def)
    then show ?thesis using True bio_okD(5)[OF ok i] c(1)
      by (simp add: c'_def coherent_def has_key_def is_valid_def is_dirty_def)
  next
    case False
    then show ?thesis using c(1) by (simp add: c'_def coherent_def synced_def has_key_def)
  qed
  show ?thesis
  proof (rule that[OF rd i])
    show "bio_ok pid (insert i H) (s\<lparr>bufs := (bufs s)[i := c']\<rparr>)"
      by (rule bio_ok_take[OF ok i d c'k(1,5,3,4) free])
    show "view (s\<lparr>bufs := (bufs s)[i := c']\<rparr>) e f = view s e f" if "e \<noteq> 0" for e f
      by (rule view_take[OF ok i d that c'k(1,2) dat c'k(3,4,5) free])
    show "dirty_key (s\<lparr>bufs := (bufs s)[i := c']\<rparr>) e f \<longleftrightarrow> dirty_key s e f" if e: "e \<noteq> 0" for e f
    proof (cases "e = d \<and> f = b")
      case True
      have "dirty_key (s\<lparr>bufs := (bufs s)[i := c']\<rparr>) d b \<longleftrightarrow> is_dirty c'"
        using i(1) L c'k(1) free bio_okD(6)[OF ok _ i(1) d]
        by (auto simp: dirty_key_def nth_list_update split: if_splits)
      then show ?thesis using True dk by simp
    next
      case False
      then have nk: "\<not> has_key e f c'" "has_key e f (bufs s ! i) \<Longrightarrow> \<not> is_dirty (bufs s ! i)"
        using c'k(1) free by (auto simp: has_key_def)
      then show ?thesis unfolding dirty_key_def using L by (simp add: nth_list_update) (metis nk)
    qed
  qed (use c'k dat dk coh in auto)
qed

definition same_content :: "buf \<Rightarrow> buf \<Rightarrow> bool" where
  "same_content b c \<longleftrightarrow> flags b = flags c \<and> bdev b = bdev c \<and> blockno b = blockno c \<and> data b = data c"

lemma same_contentD:
  assumes "same_content b c"
  shows "has_key d n b = has_key d n c" "is_valid b = is_valid c" "is_dirty b = is_dirty c" "data b = data c"
    "coherent dk b = coherent dk c"
  using assms by (simp_all add: same_content_def has_key_def is_valid_def is_dirty_def coherent_def)

lemma view_cong:
  assumes "\<And>j. j < NBUF \<Longrightarrow> same_content (bufs s' ! j) (bufs s ! j)" "disk s' = disk s"
  shows "view s' = view s" "dirty_key s' = dirty_key s"
proof -
  have "find (\<lambda>i. has_key d b (bufs s' ! i) \<and> is_valid (bufs s' ! i)) [0..<NBUF] =
      find (\<lambda>i. has_key d b (bufs s ! i) \<and> is_valid (bufs s ! i)) [0..<NBUF]" for d b
    by (intro find_cong refl) (simp add: same_contentD[OF assms(1)])
  moreover have "find P [0..<NBUF] = Some i \<Longrightarrow> data (bufs s' ! i) = data (bufs s ! i)" for P i
    using same_contentD(4)[OF assms(1), of i] by (auto simp: find_Some_iff simp del: upt_Suc)
  ultimately show "view s' = view s"
    using assms(2) unfolding view_def fun_eq_iff by (simp split: option.splits)
  show "dirty_key s' = dirty_key s"
    using same_contentD[OF assms(1)] by (auto simp: dirty_key_def fun_eq_iff)
qed

lemma brelse_spec:
  assumes ok: "bio_ok pid H s" and i: "i \<in> H" and coh: "coherent (disk s) (bufs s ! i)"
  obtains bs where "brelse pid i s = Inr (s\<lparr>bufs := bs\<rparr>)" "bio_ok pid (H - {i}) (s\<lparr>bufs := bs\<rparr>)"
    "view (s\<lparr>bufs := bs\<rparr>) = view s" "dirty_key (s\<lparr>bufs := bs\<rparr>) = dirty_key s"
    "\<And>j. j < NBUF \<Longrightarrow> same_content (bs ! j) (bufs s ! j)"
proof -
  obtain xs where xs: "lru (bufs s) xs" "set xs = {0..<NBUF}" using ok by (auto simp: bio_ok_def)
  have iN: "i < NBUF" and L: "i < length (bufs s)" using i bio_okD(1,3)[OF ok] by auto
  define b0 where "b0 = (bufs s)[i := (bufs s ! i)\<lparr>bholder := None, refcnt := 0\<rparr>]"
  define bs where "bs = push_front i (unlink i b0)"
  have "brelse pid i s = Inr (s\<lparr>bufs := bs\<rparr>)"
    using bio_okD(4)[OF ok iN] i L by (simp add: brelse_def upd_buf_def buf_ok_def bs_def b0_def Let_def)
  moreover have same: "same_buf (bs ! j) (b0 ! j)" for j
    unfolding bs_def by (rule same_buf_trans[OF same_push_front same_unlink])
  have con: "same_content (bs ! j) (bufs s ! j)" for j
    using same[of j] L by (cases "j = i") (simp_all add: same_content_def same_buf_def b0_def)
  have "lru b0 xs" unfolding b0_def using xs(1) by (rule lru_upd) simp_all
  then have lru: "lru bs (i # remove1 i xs)"
    unfolding bs_def using xs iN by (intro lru_move_front) auto
  moreover have "bio_ok pid (H - {i}) (s\<lparr>bufs := bs\<rparr>)" unfolding bio_ok_def
  proof (intro conjI allI impI)
    show "\<exists>xs. lru (bufs (s\<lparr>bufs := bs\<rparr>)) xs \<and> set xs = {0..<NBUF}"
    proof (intro exI conjI)
      show "lru (bufs (s\<lparr>bufs := bs\<rparr>)) (i # remove1 i xs)" using lru by simp
      have "set (i # remove1 i xs) = insert i (set xs)" using xs(1) by (simp add: lru_def insert_absorb)
      then show "set (i # remove1 i xs) = {0..<NBUF}" using xs(2) iN by (simp add: insert_absorb)
    qed
  next
    fix j k e f
    assume "j < NBUF" "k < NBUF" "e \<noteq> 0" "has_key e f (bufs (s\<lparr>bufs := bs\<rparr>) ! j)" "has_key e f (bufs (s\<lparr>bufs := bs\<rparr>) ! k)"
    then show "j = k" using bio_okD(6)[OF ok, of j k e f] same_contentD(1)[OF con] by simp
  next
    fix j
    assume "j < NBUF"
    then show "buf_ok pid (j \<in> H - {i}) (bufs (s\<lparr>bufs := bs\<rparr>) ! j)"
      using bio_okD(4)[OF ok, of j] same[of j] L
      by (cases "j = i") (simp_all add: buf_ok_def same_buf_def b0_def is_dirty_def is_valid_def)
  next
    fix j
    assume "j < NBUF" "j \<notin> H - {i}"
    then show "coherent (disk (s\<lparr>bufs := bs\<rparr>)) (bufs (s\<lparr>bufs := bs\<rparr>) ! j)"
      using bio_okD(5)[OF ok, of j] coh same_contentD(5)[OF con] by (cases "j = i") simp_all
  qed (use ok in \<open>auto simp: bio_ok_def\<close>)
  moreover have "view (s\<lparr>bufs := bs\<rparr>) = view s" "dirty_key (s\<lparr>bufs := bs\<rparr>) = dirty_key s"
    by (rule view_cong; simp add: con)+
  ultimately show ?thesis using that con by blast
qed

text \<open>Changing a held buffer of block \<open>(d, b)\<close>, and possibly the disk at that block.\<close>

lemma held_upd:
  assumes ok: "bio_ok pid H s" and i: "i \<in> H" and d: "d \<noteq> 0" and key: "has_key d b (bufs s ! i)"
    and c: "has_key d b c" "buf_ok pid True c" "bnext c = bnext (bufs s ! i)" "bprev c = bprev (bufs s ! i)" "is_valid c"
    and dk: "\<And>e f. (e, f) \<noteq> (d, b) \<Longrightarrow> dk e f = disk s e f"
    and s': "s' = s\<lparr>bufs := (bufs s)[i := c], disk := dk, wtrace := w\<rparr>"
  shows "bio_ok pid H s'"
    and "e \<noteq> 0 \<Longrightarrow> view s' e f = (if (e, f) = (d, b) then data c else view s e f)"
    and "e \<noteq> 0 \<Longrightarrow> dirty_key s' e f = (if (e, f) = (d, b) then is_dirty c else dirty_key s e f)"
proof -
  let ?s = s'
  have iN: "i < NBUF" and L: "i < length (bufs s)" using i bio_okD(1,3)[OF ok] by auto
  obtain xs where xs: "lru (bufs s) xs" "set xs = {0..<NBUF}" using ok by (auto simp: bio_ok_def)
  have nth: "bufs ?s ! j = (if j = i then c else bufs s ! j)" for j using L by (simp add: s' nth_list_update)
  have hk: "has_key e f (bufs ?s ! j) \<longleftrightarrow> has_key e f (bufs s ! j)" for e f j
    using key c(1) by (auto simp: nth has_key_def)
  have other: "j < NBUF \<Longrightarrow> j \<noteq> i \<Longrightarrow> \<not> has_key d b (bufs s ! j)" for j
    using bio_okD(6)[OF ok _ iN d _ key] by blast
  show ok': "bio_ok pid H ?s" unfolding bio_ok_def
  proof (intro conjI allI impI)
    show "\<exists>xs. lru (bufs ?s) xs \<and> set xs = {0..<NBUF}" using lru_upd[OF xs(1) c(3,4)] xs(2) by (auto simp: s')
  next
    fix j k e f
    assume "j < NBUF" "k < NBUF" "e \<noteq> 0" "has_key e f (bufs ?s ! j)" "has_key e f (bufs ?s ! k)"
    then show "j = k" unfolding hk using bio_okD(6)[OF ok] by blast
  next
    fix j
    assume "j < NBUF"
    then show "buf_ok pid (j \<in> H) (bufs ?s ! j)" using bio_okD(4)[OF ok] c(2) i by (simp add: nth)
  next
    fix j
    assume j: "j < NBUF" "j \<notin> H"
    then have "j \<noteq> i" using i by auto
    then have "coherent (disk s) (bufs s ! j)" "\<not> has_key d b (bufs s ! j)" using bio_okD(5)[OF ok j] other j by auto
    then show "coherent (disk ?s) (bufs ?s ! j)" using dk \<open>j \<noteq> i\<close> by (auto simp: coherent_def has_key_def s')
  qed (use ok s' in \<open>auto simp: bio_ok_def\<close>)
  show "view ?s e f = (if (e, f) = (d, b) then data c else view s e f)" if e: "e \<noteq> 0"
  proof (cases "(e, f) = (d, b)")
    case True
    then show ?thesis using view_valid[OF ok' iN d, of b] c(1,5) by (simp add: nth)
  next
    case False
    show ?thesis
    proof (cases "\<exists>j < NBUF. has_key e f (bufs s ! j) \<and> is_valid (bufs s ! j)")
      case True
      then obtain j where j: "j < NBUF" "has_key e f (bufs s ! j)" "is_valid (bufs s ! j)" by blast
      then have "j \<noteq> i" using key False by (auto simp: has_key_def)
      then show ?thesis using view_valid[OF ok' j(1) e, of f] view_valid[OF ok j(1) e j(2,3)] j False by (auto simp: nth)
    next
      case none: False
      then have "view s e f = disk s e f" by (intro view_disk) blast
      moreover have "\<And>j. j < NBUF \<Longrightarrow> has_key e f (bufs ?s ! j) \<Longrightarrow> \<not> is_valid (bufs ?s ! j)"
        using none c(1) False by (auto simp: nth has_key_def split: if_splits)
      then have "view ?s e f = dk e f" by (subst view_disk) (simp_all add: s')
      ultimately show ?thesis using dk False by auto
    qed
  qed
  show "dirty_key ?s e f = (if (e, f) = (d, b) then is_dirty c else dirty_key s e f)" if "e \<noteq> 0"
  proof (cases "(e, f) = (d, b)")
    case True
    then show ?thesis unfolding dirty_key_def hk using other key iN by (auto simp: nth split: if_splits)
  next
    case False
    then have "\<not> has_key e f (bufs s ! i)" using key by (auto simp: has_key_def)
    then show ?thesis unfolding dirty_key_def hk using False by (auto simp: nth split: if_splits)
  qed
qed

lemma dirty_key_unique:
  assumes "bio_ok pid H s" "i < NBUF" "d \<noteq> 0" "has_key d b (bufs s ! i)"
  shows "dirty_key s d b \<longleftrightarrow> is_dirty (bufs s ! i)"
  unfolding dirty_key_def using bio_okD(6)[OF assms(1) _ assms(2,3) _ assms(4)] assms(2,4) by blast

definition set_data :: "nat \<Rightarrow> block \<Rightarrow> bio \<Rightarrow> bio" where
  "set_data i x s = upd_buf i (\<lambda>b. b\<lparr>data := x\<rparr>) s"

lemma upd_buf_eq: "upd_buf i f s = s\<lparr>bufs := (bufs s)[i := f (bufs s ! i)], disk := disk s, wtrace := wtrace s\<rparr>"
  by (simp add: upd_buf_def)

lemma set_data_spec:
  assumes ok: "bio_ok pid H s" and i: "i \<in> H" and d: "d \<noteq> 0" and key: "has_key d b (bufs s ! i)"
    and v: "is_valid (bufs s ! i)"
  shows "bio_ok pid H (set_data i x s)"
    and "e \<noteq> 0 \<Longrightarrow> view (set_data i x s) e f = (if (e, f) = (d, b) then x else view s e f)"
    and "e \<noteq> 0 \<Longrightarrow> dirty_key (set_data i x s) e f = dirty_key s e f"
    and "bufs (set_data i x s) ! i = (bufs s ! i)\<lparr>data := x\<rparr>"
    and "disk (set_data i x s) = disk s" "wtrace (set_data i x s) = wtrace s"
proof -
  have iN: "i < NBUF" "i < length (bufs s)" using i bio_okD(1,3)[OF ok] by auto
  let ?c = "(bufs s ! i)\<lparr>data := x\<rparr>"
  have c: "has_key d b ?c" "buf_ok pid True ?c" "bnext ?c = bnext (bufs s ! i)" "bprev ?c = bprev (bufs s ! i)" "is_valid ?c"
    using key v bio_okD(4)[OF ok iN(1)] i by (simp_all add: has_key_def buf_ok_def is_valid_def is_dirty_def)
  have eq: "set_data i x s = s\<lparr>bufs := (bufs s)[i := ?c], disk := disk s, wtrace := wtrace s\<rparr>"
    by (simp add: set_data_def upd_buf_eq)
  note h = held_upd[OF ok i d key c _ eq]
  show "bio_ok pid H (set_data i x s)" by (rule h) simp
  show "e \<noteq> 0 \<Longrightarrow> view (set_data i x s) e f = (if (e, f) = (d, b) then x else view s e f)"
    using h(2)[of e f] by simp
  have "is_dirty ?c \<longleftrightarrow> dirty_key s d b"
    unfolding dirty_key_unique[OF ok iN(1) d key] by (simp add: is_dirty_def)
  then show "e \<noteq> 0 \<Longrightarrow> dirty_key (set_data i x s) e f = dirty_key s e f"
    using h(3)[of e f] by simp
qed (use i bio_okD(1,3)[OF ok] in \<open>auto simp: set_data_def upd_buf_def\<close>)

lemma bwrite_spec:
  assumes ok: "bio_ok pid H s" and i: "i \<in> H" and d: "d \<noteq> 0" and key: "has_key d b (bufs s ! i)"
    and v: "is_valid (bufs s ! i)" and b: "b < FSSIZE"
  obtains s' where "bwrite pid i s = Inr s'" "bio_ok pid H s'"
    "disk s' = (disk s)(d := (disk s d)(b := data (bufs s ! i)))"
    "wtrace s' = wtrace s @ [(d, b, data (bufs s ! i))]"
    "\<And>e f. e \<noteq> 0 \<Longrightarrow> view s' e f = view s e f"
    "\<And>e f. e \<noteq> 0 \<Longrightarrow> dirty_key s' e f \<longleftrightarrow> dirty_key s e f \<and> (e, f) \<noteq> (d, b)"
    "has_key d b (bufs s' ! i)" "is_valid (bufs s' ! i)" "coherent (disk s') (bufs s' ! i)"
    "\<And>j. j \<noteq> i \<Longrightarrow> bufs s' ! j = bufs s ! j"
proof -
  have iN: "i < NBUF" and L: "i < length (bufs s)" using i bio_okD(1,3)[OF ok] by auto
  define c0 where "c0 = (bufs s ! i)\<lparr>flags := flags (bufs s ! i) OR B_DIRTY\<rparr>"
  have c0: "is_dirty c0" "bdev c0 = d" "blockno c0 = b" "bholder c0 = Some pid" "data c0 = data (bufs s ! i)"
    using key bio_okD(4)[OF ok iN] i
    by (simp_all add: c0_def valid_dirty_bits bit_or_iff bit_flag has_key_def buf_ok_def)
  define dk where "dk = (disk s)(d := (disk s d)(b := data (bufs s ! i)))"
  define s' where "s' = s\<lparr>bufs := (bufs s)[i := synced c0], disk := dk, wtrace := wtrace s @ [(d, b, data (bufs s ! i))]\<rparr>"
  have w: "bwrite pid i s = Inr s'"
    using c0 L b bio_okD(2)[OF ok] bio_okD(4)[OF ok iN] i
    by (simp add: bwrite_def upd_buf_def iderw_def needs_sync_iff disk_sync_def buf_ok_def s'_def dk_def
        flip: c0_def)
  have c: "has_key d b (synced c0)" "buf_ok pid True (synced c0)" "bnext (synced c0) = bnext (bufs s ! i)"
    "bprev (synced c0) = bprev (bufs s ! i)" "is_valid (synced c0)"
    using c0 bio_okD(4)[OF ok iN] i
    by (simp_all add: has_key_def buf_ok_def) (simp_all add: synced_def c0_def)
  note h = held_upd[OF ok i d key c _ s'_def]
  have dk: "\<And>e f. (e, f) \<noteq> (d, b) \<Longrightarrow> dk e f = disk s e f" by (auto simp: dk_def)
  have dat: "data (synced c0) = view s d b"
    using view_valid[OF ok iN d key v] c0 by (simp add: synced_def)
  show ?thesis
  proof (rule that[OF w h(1)])
    show "view s' e f = view s e f" if "e \<noteq> 0" for e f using h(2)[of e f] dk that dat by auto
    show "dirty_key s' e f \<longleftrightarrow> dirty_key s e f \<and> (e, f) \<noteq> (d, b)" if "e \<noteq> 0" for e f
      using h(3)[of e f] dk that by auto
    show "coherent (disk s') (bufs s' ! i)"
      using L c0 by (simp add: s'_def coherent_def synced_def dk_def)
  qed (use dk c L in \<open>auto simp: s'_def dk_def\<close>)
qed

text \<open>The same facts as predicates, for the clients.\<close>

definition bread_post :: "u32 \<Rightarrow> nat set \<Rightarrow> u32 \<Rightarrow> u32 \<Rightarrow> bio \<Rightarrow> nat \<Rightarrow> bio \<Rightarrow> bool" where
  "bread_post pid H d b s i s' \<longleftrightarrow> i < NBUF \<and> i \<notin> H \<and> bio_ok pid (insert i H) s' \<and> has_key d b (bufs s' ! i)
     \<and> is_valid (bufs s' ! i) \<and> data (bufs s' ! i) = view s d b \<and> coherent (disk s') (bufs s' ! i)
     \<and> disk s' = disk s \<and> wtrace s' = wtrace s \<and> (\<forall>j. j \<noteq> i \<longrightarrow> bufs s' ! j = bufs s ! j)
     \<and> (\<forall>e f. e \<noteq> 0 \<longrightarrow> view s' e f = view s e f) \<and> (\<forall>e f. e \<noteq> 0 \<longrightarrow> dirty_key s' e f = dirty_key s e f)"

definition bwrite_post :: "u32 \<Rightarrow> nat set \<Rightarrow> u32 \<Rightarrow> u32 \<Rightarrow> nat \<Rightarrow> bio \<Rightarrow> bio \<Rightarrow> bool" where
  "bwrite_post pid H d b i s s' \<longleftrightarrow> bio_ok pid H s'
     \<and> disk s' = (disk s)(d := (disk s d)(b := data (bufs s ! i)))
     \<and> wtrace s' = wtrace s @ [(d, b, data (bufs s ! i))] \<and> coherent (disk s') (bufs s' ! i)
     \<and> (\<forall>j. j \<noteq> i \<longrightarrow> bufs s' ! j = bufs s ! j)
     \<and> (\<forall>e f. e \<noteq> 0 \<longrightarrow> view s' e f = view s e f)
     \<and> (\<forall>e f. e \<noteq> 0 \<longrightarrow> dirty_key s' e f = (dirty_key s e f \<and> (e, f) \<noteq> (d, b)))"

definition brelse_post :: "u32 \<Rightarrow> nat set \<Rightarrow> nat \<Rightarrow> bio \<Rightarrow> bio \<Rightarrow> bool" where
  "brelse_post pid H i s s' \<longleftrightarrow> bio_ok pid (H - {i}) s' \<and> disk s' = disk s \<and> wtrace s' = wtrace s
     \<and> view s' = view s \<and> dirty_key s' = dirty_key s \<and> (\<forall>j < NBUF. same_content (bufs s' ! j) (bufs s ! j))"

lemmas post_defs = bread_post_def bwrite_post_def brelse_post_def

lemma bread_ok:
  assumes ok: "bio_ok pid H s" and d: "d \<noteq> 0" and b: "b < FSSIZE"
    and nokey: "\<forall>i \<in> H. \<not> has_key d b (bufs s ! i)"
    and rm: "room H s \<or> (\<exists>i < NBUF. has_key d b (bufs s ! i))"
  obtains i s' where "bread pid d b s = Inr (i, s')" "bread_post pid H d b s i s'"
proof (rule bread_spec[OF assms])
  fix i c
  assume r: "bread pid d b s = Inr (i, s\<lparr>bufs := (bufs s)[i := c]\<rparr>)" "i < NBUF" "i \<notin> H"
    "bio_ok pid (insert i H) (s\<lparr>bufs := (bufs s)[i := c]\<rparr>)" "has_key d b c" "is_valid c"
    "data c = view s d b" "coherent (disk s) c"
    "\<And>e f. e \<noteq> 0 \<Longrightarrow> view (s\<lparr>bufs := (bufs s)[i := c]\<rparr>) e f = view s e f"
    "\<And>e f. e \<noteq> 0 \<Longrightarrow> dirty_key (s\<lparr>bufs := (bufs s)[i := c]\<rparr>) e f = dirty_key s e f"
  have L: "i < length (bufs s)" using bio_okD(1)[OF ok] r(2) by simp
  show thesis by (rule that[OF r(1)]) (use r L in \<open>simp add: bread_post_def\<close>)
qed

lemma bwrite_ok:
  assumes "bio_ok pid H s" "i \<in> H" "d \<noteq> 0" "has_key d b (bufs s ! i)" "is_valid (bufs s ! i)" "b < FSSIZE"
  obtains s' where "bwrite pid i s = Inr s'" "bwrite_post pid H d b i s s'"
proof (rule bwrite_spec[OF assms])
  fix s'
  assume r: "bwrite pid i s = Inr s'" "bio_ok pid H s'" "disk s' = (disk s)(d := (disk s d)(b := data (bufs s ! i)))"
    "wtrace s' = wtrace s @ [(d, b, data (bufs s ! i))]" "\<And>e f. e \<noteq> 0 \<Longrightarrow> view s' e f = view s e f"
    "\<And>e f. e \<noteq> 0 \<Longrightarrow> dirty_key s' e f \<longleftrightarrow> dirty_key s e f \<and> (e, f) \<noteq> (d, b)"
    "coherent (disk s') (bufs s' ! i)" "\<And>j. j \<noteq> i \<Longrightarrow> bufs s' ! j = bufs s ! j"
  show thesis by (rule that[OF r(1)]) (use r in \<open>auto simp: bwrite_post_def\<close>)
qed

lemma brelse_ok:
  assumes "bio_ok pid H s" "i \<in> H" "coherent (disk s) (bufs s ! i)"
  obtains s' where "brelse pid i s = Inr s'" "brelse_post pid H i s s'"
proof (rule brelse_spec[OF assms])
  fix bs
  assume r: "brelse pid i s = Inr (s\<lparr>bufs := bs\<rparr>)" "bio_ok pid (H - {i}) (s\<lparr>bufs := bs\<rparr>)"
    "view (s\<lparr>bufs := bs\<rparr>) = view s" "dirty_key (s\<lparr>bufs := bs\<rparr>) = dirty_key s"
    "\<And>j. j < NBUF \<Longrightarrow> same_content (bs ! j) (bufs s ! j)"
  show thesis by (rule that[OF r(1)]) (use r in \<open>simp add: brelse_post_def\<close>)
qed

lemma room_free:
  assumes "bio_ok pid H s" "finite H" "card H + card {i. i < NBUF \<and> is_dirty (bufs s ! i)} < NBUF"
  shows "room H s"
proof (rule ccontr)
  assume "\<not> room H s"
  then have "{0..<NBUF} \<subseteq> H \<union> {i. i < NBUF \<and> is_dirty (bufs s ! i)}" by (auto simp: room_def)
  then have "card {0..<NBUF} \<le> card (H \<union> {i. i < NBUF \<and> is_dirty (bufs s ! i)})"
    using assms(2) by (intro card_mono) auto
  also have "\<dots> \<le> card H + card {i. i < NBUF \<and> is_dirty (bufs s ! i)}" by (rule card_Un_le)
  finally show False using assms(3) by simp
qed

section \<open>Initialisation\<close>

definition zero_buf :: buf where
  "zero_buf = \<lparr>flags = 0, bdev = 0, blockno = 0, bholder = None, refcnt = 0, bprev = 0, bnext = 0,
     data = replicate BSIZE 0\<rparr>"

definition boot_bio :: "disk \<Rightarrow> bio" where
  "boot_bio d = binit \<lparr>bufs = replicate (Suc NBUF) zero_buf, disk = d, wtrace = [], havedisk = True\<rparr>"

lemma binit_fold:
  assumes "k \<le> NBUF" "length bs0 = Suc NBUF" "seg bs0 HEAD [] HEAD" "\<And>j. j < NBUF \<Longrightarrow> same_buf (bs0 ! j) zero_buf"
  shows "let bs = fold (\<lambda>b bs. push_front b (bs[b := (bs ! b)\<lparr>bholder := None\<rparr>])) [0..<k] bs0 in
    lru bs (rev [0..<k]) \<and> (\<forall>j < NBUF. same_buf (bs ! j) zero_buf)"
  using assms(1)
proof (induction k)
  case 0
  then show ?case using assms by (simp add: lru_def)
next
  case (Suc k)
  define bs where "bs = fold (\<lambda>b bs. push_front b (bs[b := (bs ! b)\<lparr>bholder := None\<rparr>])) [0..<k] bs0"
  define c where "c = (bs ! k)\<lparr>bholder := None\<rparr>"
  have bs: "lru bs (rev [0..<k])" "\<forall>j < NBUF. same_buf (bs ! j) zero_buf"
    using Suc by (simp_all add: bs_def Let_def)
  have l: "lru (bs[k := c]) (rev [0..<k])" using bs(1) by (rule lru_upd) (simp_all add: c_def)
  have "seg (push_front k (bs[k := c])) HEAD (k # rev [0..<k]) HEAD"
    using l Suc.prems by (intro seg_push_front) (auto simp: lru_def)
  then have "lru (push_front k (bs[k := c])) (rev [0..<Suc k])"
    using l Suc.prems by (auto simp: lru_def simp del: seg.simps)
  moreover have "same_buf (push_front k (bs[k := c]) ! j) zero_buf" if "j < NBUF" for j
  proof (rule same_buf_trans[OF same_push_front])
    show "same_buf (bs[k := c] ! j) zero_buf"
      using bs(2) that l by (cases "j = k") (auto simp: c_def same_buf_def zero_buf_def lru_def)
  qed
  ultimately show ?case by (simp add: bs_def c_def Let_def)
qed

lemma boot_bio_ok: "bio_ok pid {} (boot_bio d)" "disk (boot_bio d) = d" "wtrace (boot_bio d) = []"
  "\<And>e f. \<not> dirty_key (boot_bio d) e f" "\<And>e f. view (boot_bio d) e f = d e f"
  "\<And>j. j < NBUF \<Longrightarrow> \<not> is_dirty (bufs (boot_bio d) ! j)"
proof -
  define bs0 where "bs0 = set_next HEAD HEAD (set_prev HEAD HEAD (replicate (Suc NBUF) zero_buf))"
  have l: "length bs0 = Suc NBUF" by (simp add: bs0_def)
  have z: "j < NBUF \<Longrightarrow> same_buf (bs0 ! j) zero_buf" for j
    unfolding bs0_def
    by (rule same_buf_trans[OF same_set_next same_buf_trans[OF same_set_prev]]) (simp del: replicate_Suc)
  have sg: "seg bs0 HEAD [] HEAD" by (simp add: bs0_def nth_set_next nth_set_prev)
  have e: "bufs (boot_bio d) = fold (\<lambda>b bs. push_front b (bs[b := (bs ! b)\<lparr>bholder := None\<rparr>])) [0..<NBUF] bs0"
    unfolding boot_bio_def binit_def Let_def bs0_def by simp
  have b: "lru (bufs (boot_bio d)) (rev [0..<NBUF])" "\<forall>j < NBUF. same_buf (bufs (boot_bio d) ! j) zero_buf"
    using binit_fold[OF order.refl l sg z] unfolding e Let_def by simp_all
  have z: "flags (bufs (boot_bio d) ! j) = 0" "bdev (bufs (boot_bio d) ! j) = 0" "bholder (bufs (boot_bio d) ! j) = None"
    "refcnt (bufs (boot_bio d) ! j) = 0" if "j < NBUF" for j
    using b(2) that by (auto simp: same_buf_def zero_buf_def)
  show "disk (boot_bio d) = d" "wtrace (boot_bio d) = []" by (simp_all add: boot_bio_def binit_def Let_def)
  have hd: "havedisk (boot_bio d)" by (simp add: boot_bio_def binit_def Let_def)
  have nv: "\<not> is_valid (bufs (boot_bio d) ! j)" "\<not> is_dirty (bufs (boot_bio d) ! j)" if "j < NBUF" for j
    using z(1)[OF that] by (simp_all add: is_valid_def is_dirty_def)
  show "bio_ok pid {} (boot_bio d)" unfolding bio_ok_def
  proof (intro conjI allI impI)
    show "\<exists>xs. lru (bufs (boot_bio d)) xs \<and> set xs = {0..<NBUF}"
    proof (intro exI conjI)
      show "lru (bufs (boot_bio d)) (rev [0..<NBUF])" by (rule b)
      show "set (rev [0..<NBUF]) = {0..<NBUF}" by (simp del: upt_Suc)
    qed
  qed (use hd z nv in \<open>auto simp: has_key_def buf_ok_def coherent_def\<close>)
  show "j < NBUF \<Longrightarrow> \<not> is_dirty (bufs (boot_bio d) ! j)" for j by (rule nv)
  show "\<not> dirty_key (boot_bio d) e f" for e f using nv by (auto simp: dirty_key_def)
  show "view (boot_bio d) e f = d e f" for e f
    using nv by (subst view_disk) (auto simp: boot_bio_def binit_def Let_def)
qed

section \<open>The cache is transparent\<close>

text \<open>The two idioms of the callers: read a block and release it; read a block, overwrite it, write it
  through and release it.\<close>

datatype bop = BRead u32 | BWrite u32 block

fun bop_cache :: "u32 \<Rightarrow> u32 \<Rightarrow> bop \<Rightarrow> bio \<Rightarrow> (block list \<times> bio) res" where
  "bop_cache pid dev (BRead b) s =
     rbind (bread pid dev b s) (\<lambda>(i, s1). rbind (brelse pid i s1) (\<lambda>s2. Inr ([data (bufs s1 ! i)], s2)))"
| "bop_cache pid dev (BWrite b x) s =
     rbind (bread pid dev b s) (\<lambda>(i, s1). rbind (bwrite pid i (set_data i x s1)) (\<lambda>s2.
       rbind (brelse pid i s2) (\<lambda>s3. Inr ([], s3))))"

fun run_cache :: "u32 \<Rightarrow> u32 \<Rightarrow> bop list \<Rightarrow> bio \<Rightarrow> (block list \<times> bio) res" where
  "run_cache pid dev [] s = Inr ([], s)"
| "run_cache pid dev (p # ps) s =
     rbind (bop_cache pid dev p s) (\<lambda>(xs, s1). rbind (run_cache pid dev ps s1) (\<lambda>(ys, s2). Inr (xs @ ys, s2)))"

fun run_disk :: "bop list \<Rightarrow> (u32 \<Rightarrow> block) \<Rightarrow> block list \<times> (u32 \<Rightarrow> block)" where
  "run_disk [] d = ([], d)"
| "run_disk (BRead b # ps) d = (let (xs, d1) = run_disk ps d in (d b # xs, d1))"
| "run_disk (BWrite b x # ps) d = run_disk ps (d(b := x))"

fun bop_block :: "bop \<Rightarrow> u32" where
  "bop_block (BRead b) = b"
| "bop_block (BWrite b x) = b"

text \<open>No buffer waits to be written.\<close>

definition clean :: "u32 \<Rightarrow> bio \<Rightarrow> bool" where
  "clean pid s \<longleftrightarrow> bio_ok pid {} s \<and> (\<forall>i < NBUF. \<not> is_dirty (bufs s ! i))"

lemma clean_view: "clean pid s \<Longrightarrow> view s e f = disk s e f"
  unfolding view_def clean_def
  by (auto split: option.splits simp: find_Some_iff has_key_def coherent_def bio_ok_def simp del: upt_Suc)

lemma clean_room: "clean pid s \<Longrightarrow> room {} s"
  unfolding clean_def room_def by (rule exI[of _ 0]) simp

lemma clean_dirty_key: "clean pid s \<Longrightarrow> \<not> dirty_key s e f"
  by (auto simp: clean_def dirty_key_def)

lemma clean_bread:
  assumes "clean pid s" "d \<noteq> 0" "b < FSSIZE"
  obtains i s1 where "bread pid d b s = Inr (i, s1)" "bio_ok pid {i} s1" "i < NBUF" "has_key d b (bufs s1 ! i)"
    "is_valid (bufs s1 ! i)" "data (bufs s1 ! i) = disk s d b" "disk s1 = disk s"
    "coherent (disk s1) (bufs s1 ! i)" "\<And>j. j < NBUF \<Longrightarrow> \<not> is_dirty (bufs s1 ! j)"
proof -
  have ok: "bio_ok pid {} s" using assms(1) by (simp add: clean_def)
  obtain i c where r: "bread pid d b s = Inr (i, s\<lparr>bufs := (bufs s)[i := c]\<rparr>)" "i < NBUF"
    "bio_ok pid {i} (s\<lparr>bufs := (bufs s)[i := c]\<rparr>)" "has_key d b c" "is_valid c" "data c = view s d b"
    "coherent (disk s) c" "is_dirty c \<longleftrightarrow> dirty_key s d b"
    using clean_room[OF assms(1)] by (auto intro: bread_spec[OF ok assms(2,3)])
  have L: "i < length (bufs s)" using bio_okD(1)[OF ok] r(2) by simp
  have "\<not> is_dirty ((bufs s)[i := c] ! j)" if "j < NBUF" for j
    using that r(8) clean_dirty_key[OF assms(1)] assms(1) L by (cases "j = i") (simp_all add: clean_def)
  with r L show ?thesis using clean_view[OF assms(1)] by (intro that[OF r(1,3)]) simp_all
qed

lemma clean_brelse:
  assumes "bio_ok pid {i} s" "coherent (disk s) (bufs s ! i)" "\<And>j. j < NBUF \<Longrightarrow> \<not> is_dirty (bufs s ! j)"
  obtains s1 where "brelse pid i s = Inr s1" "clean pid s1" "disk s1 = disk s"
proof -
  obtain bs where b: "brelse pid i s = Inr (s\<lparr>bufs := bs\<rparr>)" "bio_ok pid {} (s\<lparr>bufs := bs\<rparr>)"
    "\<And>j. j < NBUF \<Longrightarrow> same_content (bs ! j) (bufs s ! j)"
    by (rule brelse_spec[OF assms(1) _ assms(2)]) auto
  then have "clean pid (s\<lparr>bufs := bs\<rparr>)"
    using assms(3) same_contentD(3)[OF b(3)] by (simp add: clean_def)
  with b(1) show ?thesis by (intro that[of "s\<lparr>bufs := bs\<rparr>"]) simp_all
qed

lemma bop_cache_disk:
  assumes c: "clean pid s" and d: "d \<noteq> 0" and b: "bop_block p < FSSIZE"
  shows "\<exists>s1. bop_cache pid d p s = Inr (fst (run_disk [p] (disk s d)), s1) \<and> clean pid s1
    \<and> disk s1 = (disk s)(d := snd (run_disk [p] (disk s d)))"
proof (cases p)
  case (BRead n)
  have n: "n < FSSIZE" using b BRead by simp
  obtain i s1 where r: "bread pid d n s = Inr (i, s1)" "bio_ok pid {i} s1" "data (bufs s1 ! i) = disk s d n"
    "disk s1 = disk s" "coherent (disk s1) (bufs s1 ! i)" "\<And>j. j < NBUF \<Longrightarrow> \<not> is_dirty (bufs s1 ! j)"
    by (rule clean_bread[OF c d n]) auto
  obtain s2 where "brelse pid i s1 = Inr s2" "clean pid s2" "disk s2 = disk s1"
    using clean_brelse[OF r(2,5,6)] by blast
  with r BRead show ?thesis by simp
next
  case (BWrite n x)
  have n: "n < FSSIZE" using b BWrite by simp
  obtain i s1 where r: "bread pid d n s = Inr (i, s1)" "bio_ok pid {i} s1" "i < NBUF" "has_key d n (bufs s1 ! i)"
    "is_valid (bufs s1 ! i)" "disk s1 = disk s" "\<And>j. j < NBUF \<Longrightarrow> \<not> is_dirty (bufs s1 ! j)"
    by (rule clean_bread[OF c d n]) auto
  let ?s2 = "set_data i x s1"
  have ok2: "bio_ok pid {i} ?s2" and b2: "bufs ?s2 ! i = (bufs s1 ! i)\<lparr>data := x\<rparr>" and d2: "disk ?s2 = disk s1"
    using set_data_spec[OF r(2) _ d r(4,5)] by simp_all
  have k2: "has_key d n (bufs ?s2 ! i)" "is_valid (bufs ?s2 ! i)"
    using r(4,5) by (simp_all add: b2 has_key_def is_valid_def)
  have nd2: "\<not> is_dirty (bufs ?s2 ! j)" if "j < NBUF" for j
    using r(7)[OF that] b2 by (cases "j = i") (auto simp: set_data_def upd_buf_def is_dirty_def)
  obtain s3 where s3: "bwrite pid i ?s2 = Inr s3" "bio_ok pid {i} s3" "disk s3 = (disk s)(d := (disk s d)(n := x))"
    "\<And>e f. e \<noteq> 0 \<Longrightarrow> dirty_key s3 e f \<longleftrightarrow> dirty_key ?s2 e f \<and> (e, f) \<noteq> (d, n)" "has_key d n (bufs s3 ! i)"
    "coherent (disk s3) (bufs s3 ! i)" "\<And>j. j \<noteq> i \<Longrightarrow> bufs s3 ! j = bufs ?s2 ! j"
    by (rule bwrite_spec[OF ok2 _ d k2 n]) (auto simp: b2 d2 r(6))
  have nd3: "\<not> is_dirty (bufs s3 ! j)" if "j < NBUF" for j
  proof (cases "j = i")
    case True
    then show ?thesis using dirty_key_unique[OF s3(2) r(3) d s3(5)] s3(4)[OF d, of n] by simp
  qed (use nd2[OF that] s3(7) in simp)
  obtain s4 where "brelse pid i s3 = Inr s4" "clean pid s4" "disk s4 = disk s3"
    using clean_brelse[OF s3(2,6) nd3] by blast
  with r s3 BWrite show ?thesis by simp
qed

lemma run_disk_Cons: "run_disk (p # ps) d =
    (fst (run_disk [p] d) @ fst (run_disk ps (snd (run_disk [p] d))), snd (run_disk ps (snd (run_disk [p] d))))"
  by (cases p) (simp_all add: case_prod_beta)

lemma run_cache_disk:
  assumes "clean pid s" "d \<noteq> 0" "\<forall>p \<in> set ps. bop_block p < FSSIZE"
  shows "\<exists>s1. run_cache pid d ps s = Inr (fst (run_disk ps (disk s d)), s1) \<and> clean pid s1
    \<and> disk s1 = (disk s)(d := snd (run_disk ps (disk s d)))"
  using assms
proof (induction ps arbitrary: s)
  case (Cons p ps)
  then obtain s1 where s1: "bop_cache pid d p s = Inr (fst (run_disk [p] (disk s d)), s1)" "clean pid s1"
    "disk s1 = (disk s)(d := snd (run_disk [p] (disk s d)))"
    using bop_cache_disk[of pid s d p] by auto
  have "\<forall>p \<in> set ps. bop_block p < FSSIZE" using Cons.prems(3) by simp
  from Cons.IH[OF s1(2) Cons.prems(2) this]
  obtain s2 where "run_cache pid d ps s1 = Inr (fst (run_disk ps (disk s1 d)), s2)" "clean pid s2"
    "disk s2 = (disk s1)(d := snd (run_disk ps (disk s1 d)))" by blast
  with s1 show ?case by (subst run_disk_Cons) (simp add: run_disk_Cons[of p ps])
qed simp

text \<open>C5. The buffer cache refines the disk: from the state that \<^verbatim>\<open>binit\<close> leaves, any sequence of block reads and
  writes through \<^verbatim>\<open>bread\<close>, \<^verbatim>\<open>bwrite\<close> and \<^verbatim>\<open>brelse\<close>, however it hits, misses and recycles the 30 buffers of the
  least-recently-used list, runs without a panic or a wait, returns what the same reads of a bare disk
  would return, and leaves the disk as the writes alone would.\<close>

theorem buffer_cache_transparent:
  assumes "d \<noteq> 0" "\<forall>p \<in> set ps. bop_block p < FSSIZE"
  shows "\<exists>s. run_cache pid d ps (boot_bio dk) = Inr (fst (run_disk ps (dk d)), s) \<and>
    disk s = dk(d := snd (run_disk ps (dk d)))"
proof -
  have "clean pid (boot_bio dk)"
    using boot_bio_ok(1)[of pid dk] boot_bio_ok(6)[of _ dk] by (simp add: clean_def)
  from run_cache_disk[OF this assms] show ?thesis by (auto simp: boot_bio_ok)
qed

theorem buffer_cache_transparent_witness:
  "\<exists>s. run_cache 7 1 [BWrite 5 [1], BRead 6, BRead 5] (boot_bio (\<lambda>d b. [0])) =
      Inr (fst (run_disk [BWrite 5 [1], BRead 6, BRead 5] (\<lambda>b. [0])), s) \<and>
    disk s = (\<lambda>d b. [0])(1 := snd (run_disk [BWrite 5 [1], BRead 6, BRead 5] (\<lambda>b. [0])))"
  by (rule buffer_cache_transparent) (simp_all add: FSSIZE_def)

end
