(* ===== verification/Bytes.thy ===== *)
theory Bytes
  imports Prelude
begin

text \<open>
  Little-endian 16-bit and 32-bit fields of a byte array. The kernel reads and writes structures on disk
  blocks by casting the block to a structure; here a field is read with \<open>get32\<close> and written with
  \<open>put32\<close> at its byte offset.
\<close>

definition get16 :: "u8 list \<Rightarrow> nat \<Rightarrow> u16" where
  "get16 x k = ucast (x ! k) OR push_bit 8 (ucast (x ! (k + 1)))"

definition put16 :: "u8 list \<Rightarrow> nat \<Rightarrow> u16 \<Rightarrow> u8 list" where
  "put16 x k v = x[k := ucast v, k + 1 := ucast (drop_bit 8 v)]"

definition get32 :: "u8 list \<Rightarrow> nat \<Rightarrow> u32" where
  "get32 x k = ucast (x ! k) OR push_bit 8 (ucast (x ! (k + 1)))
     OR push_bit 16 (ucast (x ! (k + 2))) OR push_bit 24 (ucast (x ! (k + 3)))"

definition put32 :: "u8 list \<Rightarrow> nat \<Rightarrow> u32 \<Rightarrow> u8 list" where
  "put32 x k v = x[k := ucast v, k + 1 := ucast (drop_bit 8 v),
     k + 2 := ucast (drop_bit 16 v), k + 3 := ucast (drop_bit 24 v)]"

lemma length_put [simp]: "length (put16 x k v16) = length x" "length (put32 x k v) = length x"
  by (simp_all add: put16_def put32_def)

lemma get16_put16 [simp]: "k + 1 < length x \<Longrightarrow> get16 (put16 x k v) k = v"
proof (rule bit_word_eqI)
  fix n
  assume k: "k + 1 < length x" and "n < LENGTH(16)"
  then consider "n < 8" | "8 \<le> n \<and> n < 16" by fastforce
  then show "bit (get16 (put16 x k v) k) n = bit v n"
    using k by cases (auto simp: get16_def put16_def bit_or_iff bit_push_bit_iff bit_ucast_iff bit_drop_bit_eq)
qed

lemma get32_put32 [simp]: "k + 3 < length x \<Longrightarrow> get32 (put32 x k v) k = v"
proof (rule bit_word_eqI)
  fix n
  assume k: "k + 3 < length x" and "n < LENGTH(32)"
  then consider "n < 8" | "8 \<le> n \<and> n < 16" | "16 \<le> n \<and> n < 24" | "24 \<le> n \<and> n < 32" by fastforce
  then show "bit (get32 (put32 x k v) k) n = bit v n"
    using k by cases (auto simp: get32_def put32_def bit_or_iff bit_push_bit_iff bit_ucast_iff bit_drop_bit_eq)
qed

lemma nth_put16: "j \<noteq> k \<Longrightarrow> j \<noteq> k + 1 \<Longrightarrow> put16 x k v ! j = x ! j"
  by (simp add: put16_def)

lemma nth_put32: "j < k \<or> k + 3 < j \<Longrightarrow> put32 x k v ! j = x ! j"
  by (auto simp: put32_def)

lemma get32_put32_other [simp]: "j + 3 < k \<or> k + 3 < j \<Longrightarrow> get32 (put32 x k v) j = get32 x j"
  by (auto simp: get32_def nth_put32)

lemma get32_put16_other [simp]: "j + 3 < k \<or> k + 1 < j \<Longrightarrow> get32 (put16 x k v) j = get32 x j"
  by (auto simp: get32_def nth_put16)

lemma get16_put16_other [simp]: "j + 1 < k \<or> k + 1 < j \<Longrightarrow> get16 (put16 x k v) j = get16 x j"
  by (auto simp: get16_def nth_put16)

lemma get16_put32_other [simp]: "j + 1 < k \<or> k + 3 < j \<Longrightarrow> get16 (put32 x k v) j = get16 x j"
  by (auto simp: get16_def nth_put32)

lemma get32_cong:
  assumes "\<And>i. i < 4 \<Longrightarrow> x ! (k + i) = y ! (k + i)"
  shows "get32 x k = get32 y k"
  using assms[of 0] assms[of 1] assms[of 2] assms[of 3] by (simp add: get32_def)

text \<open>An array of words behind a byte offset.\<close>

fun put32s :: "u8 list \<Rightarrow> nat \<Rightarrow> u32 list \<Rightarrow> u8 list" where
  "put32s x k [] = x"
| "put32s x k (v # vs) = put32s (put32 x k v) (k + 4) vs"

lemma length_put32s [simp]: "length (put32s x k vs) = length x"
  by (induction vs arbitrary: x k) simp_all

lemma get32_put32s_before: "j + 3 < k \<Longrightarrow> get32 (put32s x k vs) j = get32 x j"
  by (induction vs arbitrary: x k) simp_all

lemma get32_put32s:
  "i < length vs \<Longrightarrow> k + 4 * length vs \<le> length x \<Longrightarrow> get32 (put32s x k vs) (k + 4 * i) = vs ! i"
proof (induction vs arbitrary: x k i)
  case (Cons v vs)
  show ?case
  proof (cases i)
    case 0
    then show ?thesis using Cons.prems by (simp add: get32_put32s_before)
  next
    case (Suc j)
    then show ?thesis using Cons.IH[of j "k + 4" "put32 x k v"] Cons.prems by (simp add: algebra_simps)
  qed
qed simp

end
