(* ===== verification/Log.thy ===== *)
theory Log
  imports Bio Bytes
begin

text \<open>
  The write-ahead log, \<^verbatim>\<open>src/src/log.c\<close>, on top of the buffer cache, and \<^verbatim>\<open>readsb\<close> of \<^verbatim>\<open>src/src/fs.c\<close>. The
  state \<open>fsys\<close> is the buffer cache with the disk, and the in-memory log. A routine that \<^verbatim>\<open>sleep\<close>s on the log
  has the outcome \<open>Blocks\<close>.

  The main theorem is crash safety: a commit performs its block writes in an order such that, whatever
  prefix of them has reached the disk when the machine stops, \<^verbatim>\<open>initlog\<close> after the reboot finds either
  none or all of the blocks of the transaction.
\<close>

section \<open>The code\<close>

abbreviation MAXOPBLOCKS :: nat where "MAXOPBLOCKS \<equiv> 10"
abbreviation LOGSIZE :: nat where "LOGSIZE \<equiv> 30"

record superblock =
  sb_size :: u32
  sb_nblocks :: u32
  sb_ninodes :: u32
  sb_nlog :: u32
  sb_logstart :: u32
  sb_inodestart :: u32
  sb_bmapstart :: u32

record log =
  lstart :: u32
  lsize :: u32
  outstanding :: int
  committing :: bool
  ldev :: u32
  lhn :: int
  lhblock :: "u32 list"

record fsys =
  bc :: bio
  lg :: log

definition decode_sb :: "block \<Rightarrow> superblock" where
  "decode_sb x = \<lparr>sb_size = get32 x 0, sb_nblocks = get32 x 4, sb_ninodes = get32 x 8, sb_nlog = get32 x 12,
     sb_logstart = get32 x 16, sb_inodestart = get32 x 20, sb_bmapstart = get32 x 24\<rparr>"

definition readsb :: "u32 \<Rightarrow> u32 \<Rightarrow> bio \<Rightarrow> (superblock \<times> bio) res" where
  "readsb pid dev b =
     rbind (bread pid dev 1 b) (\<lambda>(i, b1).
       rbind (brelse pid i b1) (\<lambda>b2. Inr (decode_sb (data (bufs b1 ! i)), b2)))"

text \<open>The loop of \<^verbatim>\<open>install_trans\<close> over the given values of \<^verbatim>\<open>tail\<close>.\<close>

fun install_tails :: "u32 \<Rightarrow> log \<Rightarrow> nat list \<Rightarrow> bio \<Rightarrow> bio res" where
  "install_tails pid l [] b = Inr b"
| "install_tails pid l (t # ts) b =
     rbind (bread pid (ldev l) (lstart l + of_nat t + 1) b) (\<lambda>(lbuf, b1).
     rbind (bread pid (ldev l) (lhblock l ! t) b1) (\<lambda>(dbuf, b2).
     rbind (bwrite pid dbuf (set_data dbuf (data (bufs b2 ! lbuf)) b2)) (\<lambda>b3.
     rbind (brelse pid lbuf b3) (\<lambda>b4.
     rbind (brelse pid dbuf b4) (\<lambda>b5. install_tails pid l ts b5)))))"

definition install_trans :: "u32 \<Rightarrow> fsys \<Rightarrow> fsys res" where
  "install_trans pid s =
     rbind (install_tails pid (lg s) [0..<nat (lhn (lg s))] (bc s)) (\<lambda>b. Inr (s\<lparr>bc := b\<rparr>))"

text \<open>A header that names more than \<^verbatim>\<open>LOGSIZE\<close> blocks is copied beyond the end of the array.\<close>

definition read_head :: "u32 \<Rightarrow> fsys \<Rightarrow> fsys res" where
  "read_head pid s =
     rbind (bread pid (ldev (lg s)) (lstart (lg s)) (bc s)) (\<lambda>(i, b1).
       let x = data (bufs b1 ! i); n = sint (get32 x 0) in
       if int LOGSIZE < n then Inl (Fault ''log.lh.block'')
       else let l = (lg s)\<lparr>lhn := n,
              lhblock := map (\<lambda>k. get32 x (4 + 4 * k)) [0..<nat n] @ drop (nat n) (lhblock (lg s))\<rparr> in
         rbind (brelse pid i b1) (\<lambda>b2. Inr (s\<lparr>bc := b2, lg := l\<rparr>)))"

definition head_block :: "log \<Rightarrow> block \<Rightarrow> block" where
  "head_block l x = put32s (put32 x 0 (of_int (lhn l))) 4 (take (nat (lhn l)) (lhblock l))"

definition write_head :: "u32 \<Rightarrow> fsys \<Rightarrow> fsys res" where
  "write_head pid s =
     rbind (bread pid (ldev (lg s)) (lstart (lg s)) (bc s)) (\<lambda>(i, b1).
     rbind (bwrite pid i (set_data i (head_block (lg s) (data (bufs b1 ! i))) b1)) (\<lambda>b2.
     rbind (brelse pid i b2) (\<lambda>b3. Inr (s\<lparr>bc := b3\<rparr>))))"

definition set_lhn :: "int \<Rightarrow> fsys \<Rightarrow> fsys" where
  "set_lhn n s = s\<lparr>lg := (lg s)\<lparr>lhn := n\<rparr>\<rparr>"

definition recover_from_log :: "u32 \<Rightarrow> fsys \<Rightarrow> fsys res" where
  "recover_from_log pid s =
     rbind (read_head pid s) (\<lambda>s1. rbind (install_trans pid s1) (\<lambda>s2. write_head pid (set_lhn 0 s2)))"

definition initlog :: "u32 \<Rightarrow> u32 \<Rightarrow> fsys \<Rightarrow> fsys res" where
  "initlog pid dev s =
     (if 4 + 4 * LOGSIZE \<ge> BSIZE then Inl (Panic ''initlog: too big logheader'')
      else rbind (readsb pid dev (bc s)) (\<lambda>(sb, b1).
        recover_from_log pid (s\<lparr>bc := b1,
          lg := (lg s)\<lparr>lstart := sb_logstart sb, lsize := sb_nlog sb, ldev := dev\<rparr>\<rparr>)))"

definition begin_op :: "fsys \<Rightarrow> fsys res" where
  "begin_op s =
     (if committing (lg s) then Inl Blocks
      else if lhn (lg s) + (outstanding (lg s) + 1) * int MAXOPBLOCKS > int LOGSIZE then Inl Blocks
      else Inr (s\<lparr>lg := (lg s)\<lparr>outstanding := outstanding (lg s) + 1\<rparr>\<rparr>))"

fun write_log_tails :: "u32 \<Rightarrow> log \<Rightarrow> nat list \<Rightarrow> bio \<Rightarrow> bio res" where
  "write_log_tails pid l [] b = Inr b"
| "write_log_tails pid l (t # ts) b =
     rbind (bread pid (ldev l) (lstart l + of_nat t + 1) b) (\<lambda>(tobuf, b1).
     rbind (bread pid (ldev l) (lhblock l ! t) b1) (\<lambda>(frombuf, b2).
     rbind (bwrite pid tobuf (set_data tobuf (data (bufs b2 ! frombuf)) b2)) (\<lambda>b3.
     rbind (brelse pid frombuf b3) (\<lambda>b4.
     rbind (brelse pid tobuf b4) (\<lambda>b5. write_log_tails pid l ts b5)))))"

definition write_log :: "u32 \<Rightarrow> fsys \<Rightarrow> fsys res" where
  "write_log pid s =
     rbind (write_log_tails pid (lg s) [0..<nat (lhn (lg s))] (bc s)) (\<lambda>b. Inr (s\<lparr>bc := b\<rparr>))"

definition commit :: "u32 \<Rightarrow> fsys \<Rightarrow> fsys res" where
  "commit pid s =
     (if lhn (lg s) > 0
      then rbind (write_log pid s) (\<lambda>s1.
           rbind (write_head pid s1) (\<lambda>s2.
           rbind (install_trans pid s2) (\<lambda>s3. write_head pid (set_lhn 0 s3))))
      else Inr s)"

definition end_op :: "u32 \<Rightarrow> fsys \<Rightarrow> fsys res" where
  "end_op pid s =
     (let s1 = s\<lparr>lg := (lg s)\<lparr>outstanding := outstanding (lg s) - 1\<rparr>\<rparr> in
      if committing (lg s1) then Inl (Panic ''log.committing'')
      else if outstanding (lg s1) = 0
      then rbind (commit pid (s1\<lparr>lg := (lg s1)\<lparr>committing := True\<rparr>\<rparr>)) (\<lambda>s2.
             Inr (s2\<lparr>lg := (lg s2)\<lparr>committing := False\<rparr>\<rparr>))
      else Inr s1)"

text \<open>\<^verbatim>\<open>log_write\<close> of the buffer \<open>i\<close>; a block already in the log is absorbed.\<close>

definition log_write :: "nat \<Rightarrow> fsys \<Rightarrow> fsys res" where
  "log_write i s =
     (let l = lg s; bno = blockno (bufs (bc s) ! i) in
      if lhn l \<ge> int LOGSIZE \<or> lhn l \<ge> sint (lsize l - 1) then Inl (Panic ''too big a transaction'')
      else if outstanding l < 1 then Inl (Panic ''log_write outside of trans'')
      else let k = (case find_index (\<lambda>b. b = bno) (take (nat (lhn l)) (lhblock l)) of
                      Some k \<Rightarrow> k | None \<Rightarrow> nat (lhn l));
               l1 = l\<lparr>lhblock := (lhblock l)[k := bno]\<rparr>;
               l2 = (if int k = lhn l then l1\<lparr>lhn := lhn l + 1\<rparr> else l1) in
        Inr (s\<lparr>lg := l2, bc := upd_buf i (\<lambda>b. b\<lparr>flags := flags b OR B_DIRTY\<rparr>) (bc s)\<rparr>))"

text \<open>The use of \<^verbatim>\<open>log_write\<close> that its comment describes: read a block, modify it, \<^verbatim>\<open>log_write\<close> it and release it.\<close>

definition log_update :: "u32 \<Rightarrow> u32 \<Rightarrow> u32 \<Rightarrow> (block \<Rightarrow> block) \<Rightarrow> fsys \<Rightarrow> fsys res" where
  "log_update pid dev bno g s =
     rbind (bread pid dev bno (bc s)) (\<lambda>(i, b1).
     rbind (log_write i (s\<lparr>bc := set_data i (g (data (bufs b1 ! i))) b1\<rparr>)) (\<lambda>s2.
     rbind (brelse pid i (bc s2)) (\<lambda>b3. Inr (s2\<lparr>bc := b3\<rparr>))))"

section \<open>Block updates through the cache\<close>

text \<open>\<open>wrote pid d n x b b'\<close>: the block \<open>n\<close> has been written through the cache with content \<open>x\<close>.\<close>

definition wrote :: "u32 \<Rightarrow> u32 \<Rightarrow> u32 \<Rightarrow> block \<Rightarrow> bio \<Rightarrow> bio \<Rightarrow> bool" where
  "wrote pid d n x b b' \<longleftrightarrow> bio_ok pid {} b' \<and> disk b' = (disk b)(d := (disk b d)(n := x))
     \<and> wtrace b' = wtrace b @ [(d, n, x)]
     \<and> (\<forall>e f. e \<noteq> 0 \<longrightarrow> view b' e f = (if (e, f) = (d, n) then x else view b e f))
     \<and> (\<forall>e f. e \<noteq> 0 \<longrightarrow> (dirty_key b' e f \<longleftrightarrow> dirty_key b e f \<and> (e, f) \<noteq> (d, n)))"

definition dirty_in :: "u32 \<Rightarrow> u32 set \<Rightarrow> bio \<Rightarrow> bool" where
  "dirty_in d B b \<longleftrightarrow> (\<forall>e f. e \<noteq> 0 \<longrightarrow> dirty_key b e f \<longrightarrow> e = d \<and> f \<in> B)"

lemma room_keys:
  assumes ok: "bio_ok pid H b" and dirty: "dirty_in d B b" and fin: "finite B" "finite H"
    and c: "card H + card B < NBUF"
  shows "room H b"
proof -
  let ?D = "{i. i < NBUF \<and> is_dirty (bufs b ! i)}"
  have key: "bdev (bufs b ! i) = d \<and> d \<noteq> 0 \<and> blockno (bufs b ! i) \<in> B" if "i \<in> ?D" for i
  proof -
    have "bdev (bufs b ! i) \<noteq> 0" using bio_okD(4)[OF ok] that by (auto simp: buf_ok_def)
    moreover have "dirty_key b (bdev (bufs b ! i)) (blockno (bufs b ! i))"
      using that by (auto simp: dirty_key_def has_key_def)
    ultimately show ?thesis using dirty by (auto simp: dirty_in_def)
  qed
  have "inj_on (\<lambda>i. blockno (bufs b ! i)) ?D"
  proof (rule inj_onI)
    fix i j
    assume ij: "i \<in> ?D" "j \<in> ?D" "blockno (bufs b ! i) = blockno (bufs b ! j)"
    then show "i = j" using bio_okD(6)[OF ok, of i j d "blockno (bufs b ! i)"] key[OF ij(1)] key[OF ij(2)]
      by (simp add: has_key_def)
  qed
  moreover have "(\<lambda>i. blockno (bufs b ! i)) ` ?D \<subseteq> B" using key by auto
  ultimately have "card ?D \<le> card B" using fin(1) by (metis card_image card_mono)
  then show ?thesis using room_free[OF ok fin(2)] c by simp
qed

lemma write_one:
  assumes ok: "bio_ok pid {} b" and d: "d \<noteq> 0" and n: "n < FSSIZE" and rm: "room {} b"
  obtains b' where "\<forall>K :: bio \<Rightarrow> 'a res. rbind (bread pid d n b) (\<lambda>(i, b1).
       rbind (bwrite pid i (set_data i (g (data (bufs b1 ! i))) b1)) (\<lambda>b2. rbind (brelse pid i b2) K)) = K b'"
    "wrote pid d n (g (view b d n)) b b'"
proof -
  have rm': "room {} b \<or> (\<exists>i < NBUF. has_key d n (bufs b ! i))" using rm by simp
  obtain i b1 where r: "bread pid d n b = Inr (i, b1)" "bread_post pid {} d n b i b1"
    by (rule bread_ok[OF ok d n _ rm']) simp_all
  note p1 = r(2)[unfolded bread_post_def]
  have ok1: "bio_ok pid {i} b1" and k1: "has_key d n (bufs b1 ! i)" "is_valid (bufs b1 ! i)"
    and x: "data (bufs b1 ! i) = view b d n" using p1 by simp_all
  define b2 where "b2 = set_data i (g (view b d n)) b1"
  note sd = set_data_spec[OF ok1 insertI1 d k1, where x = "g (view b d n)", folded b2_def]
  have k2: "has_key d n (bufs b2 ! i)" "is_valid (bufs b2 ! i)" "data (bufs b2 ! i) = g (view b d n)"
    using k1 by (simp_all add: sd(4) has_key_def is_valid_def)
  obtain b3 where b3: "bwrite pid i b2 = Inr b3" "bwrite_post pid {i} d n i b2 b3"
    by (rule bwrite_ok[OF sd(1) insertI1 d k2(1,2) n])
  note p3 = b3(2)[unfolded bwrite_post_def k2(3)]
  have ok3: "bio_ok pid {i} b3" "coherent (disk b3) (bufs b3 ! i)" using p3 by blast+
  obtain b4 where b4: "brelse pid i b3 = Inr b4" "brelse_post pid {i} i b3 b4"
    by (rule brelse_ok[OF ok3(1) insertI1 ok3(2)])
  note p4 = b4(2)[unfolded brelse_post_def]
  have "wrote pid d n (g (view b d n)) b b4"
    using p1 sd p3 p4 unfolding wrote_def by simp
  moreover have "rbind (bread pid d n b) (\<lambda>(i, b1).
       rbind (bwrite pid i (set_data i (g (data (bufs b1 ! i))) b1)) (\<lambda>b2. rbind (brelse pid i b2) K)) = K b4" for K
    using r(1) b3(1) b4(1) x by (simp add: b2_def)
  ultimately show ?thesis using that by blast
qed

lemma write_two:
  assumes ok: "bio_ok pid {u, t} b" and ut: "u \<noteq> t" and d: "d \<noteq> 0" and pq: "p \<noteq> q" and p: "p < FSSIZE"
    and t: "has_key d p (bufs b ! t)" "is_valid (bufs b ! t)"
    and u: "has_key d q (bufs b ! u)" "is_valid (bufs b ! u)" "coherent (disk b) (bufs b ! u)"
  obtains b' where "\<forall>K :: bio \<Rightarrow> 'a res. rbind (bwrite pid t (set_data t (data (bufs b ! u)) b)) (\<lambda>b3.
      rbind (brelse pid u b3) (\<lambda>b4. rbind (brelse pid t b4) K)) = K b'"
    "wrote pid d p (view b d q) b b'"
proof -
  have uN: "u < NBUF" "t < NBUF" using bio_okD(3)[OF ok] by simp_all
  have x: "data (bufs b ! u) = view b d q" using view_valid[OF ok uN(1) d u(1,2)] by simp
  define b2 where "b2 = set_data t (view b d q) b"
  have tin: "t \<in> {u, t}" by simp
  note sd = set_data_spec[OF ok tin d t, where x = "view b d q", folded b2_def]
  have k2: "has_key d p (bufs b2 ! t)" "is_valid (bufs b2 ! t)" "data (bufs b2 ! t) = view b d q"
    using t by (simp_all add: sd(4) has_key_def is_valid_def)
  have u2: "bufs b2 ! u = bufs b ! u" using ut by (simp add: b2_def set_data_def upd_buf_def)
  obtain b3 where b3: "bwrite pid t b2 = Inr b3" "bwrite_post pid {u, t} d p t b2 b3"
    by (rule bwrite_ok[OF sd(1) tin d k2(1,2) p])
  note p3 = b3(2)[unfolded bwrite_post_def k2(3)]
  have ok3: "bio_ok pid {u, t} b3" "coherent (disk b3) (bufs b3 ! t)" using p3 by blast+
  have "disk b3 = (disk b)(d := (disk b d)(p := view b d q))" "bufs b3 ! u = bufs b ! u"
    using p3 sd(5) u2 ut by simp_all
  then have cu: "coherent (disk b3) (bufs b3 ! u)"
    using u(1,3) pq by (auto simp: coherent_def has_key_def)
  obtain b4 where b4: "brelse pid u b3 = Inr b4" "brelse_post pid {u, t} u b3 b4"
    by (rule brelse_ok[OF ok3(1) insertI1 cu])
  note p4 = b4(2)[unfolded brelse_post_def]
  have ok4: "bio_ok pid {t} b4" using p4 ut by (simp add: insert_Diff_if)
  have "same_content (bufs b4 ! t) (bufs b3 ! t)" using p4 uN(2) by simp
  then have ct: "coherent (disk b4) (bufs b4 ! t)"
    using ok3(2) p4 by (simp add: same_contentD(5))
  obtain b5 where b5: "brelse pid t b4 = Inr b5" "brelse_post pid {t} t b4 b5"
    by (rule brelse_ok[OF ok4 insertI1 ct])
  note p5 = b5(2)[unfolded brelse_post_def]
  have "wrote pid d p (view b d q) b b5"
    using sd p3 p4 p5 unfolding wrote_def by simp
  moreover have "rbind (bwrite pid t (set_data t (data (bufs b ! u)) b)) (\<lambda>b3.
      rbind (brelse pid u b3) (\<lambda>b4. rbind (brelse pid t b4) K)) = K b5" for K
    using b3(1) b4(1) b5(1) by (simp add: x b2_def)
  ultimately show ?thesis using that by blast
qed

text \<open>Two blocks of the same device held at once.\<close>

definition two_held :: "u32 \<Rightarrow> u32 \<Rightarrow> u32 \<Rightarrow> u32 \<Rightarrow> bio \<Rightarrow> nat \<Rightarrow> nat \<Rightarrow> bio \<Rightarrow> bool" where
  "two_held pid d p q b i j b' \<longleftrightarrow> bio_ok pid {i, j} b' \<and> i \<noteq> j \<and> disk b' = disk b \<and> wtrace b' = wtrace b
     \<and> has_key d p (bufs b' ! i) \<and> is_valid (bufs b' ! i) \<and> coherent (disk b') (bufs b' ! i)
     \<and> has_key d q (bufs b' ! j) \<and> is_valid (bufs b' ! j) \<and> coherent (disk b') (bufs b' ! j)
     \<and> (\<forall>e f. e \<noteq> 0 \<longrightarrow> view b' e f = view b e f) \<and> (\<forall>e f. e \<noteq> 0 \<longrightarrow> dirty_key b' e f = dirty_key b e f)"

lemma two_reads:
  assumes ok: "bio_ok pid {} b" and d: "d \<noteq> 0" and pq: "p \<noteq> q" "p < FSSIZE" "q < FSSIZE"
    and dirty: "dirty_in d B b" "finite B" "card B < NBUF" and rm: "dirty_key b d q \<or> Suc (card B) < NBUF"
  obtains i b1 j b2 where "bread pid d p b = Inr (i, b1)" "bread pid d q b1 = Inr (j, b2)"
    "two_held pid d p q b i j b2"
proof -
  have "room {} b" using room_keys[OF ok dirty(1,2)] dirty(3) by simp
  then have rm1: "room {} b \<or> (\<exists>i < NBUF. has_key d p (bufs b ! i))" by simp
  obtain i b1 where r1: "bread pid d p b = Inr (i, b1)" "bread_post pid {} d p b i b1"
    by (rule bread_ok[OF ok d pq(2) _ rm1]) simp_all
  note p1 = r1(2)[unfolded bread_post_def]
  have ok1: "bio_ok pid {i} b1" and k1: "has_key d p (bufs b1 ! i)" using p1 by blast+
  have dk1: "dirty_key b1 e f = dirty_key b e f" if "e \<noteq> 0" for e f using p1 that by blast
  have nokey: "\<forall>k \<in> {i}. \<not> has_key d q (bufs b1 ! k)" using k1 pq(1) by (auto simp: has_key_def)
  have rm2: "room {i} b1 \<or> (\<exists>k < NBUF. has_key d q (bufs b1 ! k))"
  proof (cases "dirty_key b d q")
    case True
    then show ?thesis using dk1[OF d, of q] by (auto simp: dirty_key_def)
  next
    case False
    have "dirty_in d B b1" using dirty(1) dk1 by (simp add: dirty_in_def)
    then show ?thesis using room_keys[OF ok1 _ dirty(2)] rm False by simp
  qed
  obtain j b2 where r2: "bread pid d q b1 = Inr (j, b2)" "bread_post pid {i} d q b1 j b2"
    by (rule bread_ok[OF ok1 d pq(3) nokey rm2])
  note p2 = r2(2)[unfolded bread_post_def]
  have ij: "j \<noteq> i" and ok2: "bio_ok pid {j, i} b2" using p2 by blast+
  have bi: "bufs b2 ! i = bufs b1 ! i" using p2 ij by metis
  have "bio_ok pid {i, j} b2" using ok2 by (simp add: insert_commute)
  moreover have "disk b2 = disk b" "wtrace b2 = wtrace b" using p1 p2 by simp_all
  moreover have "is_valid (bufs b1 ! i)" "coherent (disk b1) (bufs b1 ! i)" "disk b2 = disk b1"
    using p1 p2 by blast+
  then have "is_valid (bufs b2 ! i)" "coherent (disk b2) (bufs b2 ! i)" "has_key d p (bufs b2 ! i)"
    using k1 bi by simp_all
  moreover have "has_key d q (bufs b2 ! j)" "is_valid (bufs b2 ! j)" "coherent (disk b2) (bufs b2 ! j)"
    using p2 by blast+
  ultimately have "two_held pid d p q b i j b2"
    using p1 p2 ij unfolding two_held_def by simp
  with r1(1) r2(1) show ?thesis by (rule that)
qed

lemma copy_to_first:
  assumes "bio_ok pid {} b" "d \<noteq> 0" "p \<noteq> q" "p < FSSIZE" "q < FSSIZE"
    "dirty_in d B b" "finite B" "card B < NBUF" "dirty_key b d q \<or> Suc (card B) < NBUF"
  obtains b' where "\<forall>K :: bio \<Rightarrow> 'a res. rbind (bread pid d p b) (\<lambda>(i, b1). rbind (bread pid d q b1) (\<lambda>(j, b2).
      rbind (bwrite pid i (set_data i (data (bufs b2 ! j)) b2)) (\<lambda>b3.
      rbind (brelse pid j b3) (\<lambda>b4. rbind (brelse pid i b4) K)))) = K b'"
    "wrote pid d p (view b d q) b b'"
proof -
  obtain i b1 j b2 where r: "bread pid d p b = Inr (i, b1)" "bread pid d q b1 = Inr (j, b2)"
    "two_held pid d p q b i j b2" by (rule two_reads[OF assms])
  note t = r(3)[unfolded two_held_def]
  have ok: "bio_ok pid {j, i} b2" and ne: "j \<noteq> i" using t by (simp_all add: insert_commute)
  obtain b' where w: "\<forall>K :: bio \<Rightarrow> 'a res. rbind (bwrite pid i (set_data i (data (bufs b2 ! j)) b2)) (\<lambda>b3.
      rbind (brelse pid j b3) (\<lambda>b4. rbind (brelse pid i b4) K)) = K b'" "wrote pid d p (view b2 d q) b2 b'"
    by (rule write_two[OF ok ne assms(2,3,4)]) (use t in auto)
  have "wrote pid d p (view b d q) b b'" using w(2) t assms(2) unfolding wrote_def by simp
  then show ?thesis using r(1,2) w(1) by (intro that[of b']) simp_all
qed

lemma copy_to_second:
  assumes "bio_ok pid {} b" "d \<noteq> 0" "p \<noteq> q" "p < FSSIZE" "q < FSSIZE"
    "dirty_in d B b" "finite B" "card B < NBUF" "dirty_key b d q \<or> Suc (card B) < NBUF"
  obtains b' where "\<forall>K :: bio \<Rightarrow> 'a res. rbind (bread pid d p b) (\<lambda>(i, b1). rbind (bread pid d q b1) (\<lambda>(j, b2).
      rbind (bwrite pid j (set_data j (data (bufs b2 ! i)) b2)) (\<lambda>b3.
      rbind (brelse pid i b3) (\<lambda>b4. rbind (brelse pid j b4) K)))) = K b'"
    "wrote pid d q (view b d p) b b'"
proof -
  obtain i b1 j b2 where r: "bread pid d p b = Inr (i, b1)" "bread pid d q b1 = Inr (j, b2)"
    "two_held pid d p q b i j b2" by (rule two_reads[OF assms])
  note t = r(3)[unfolded two_held_def]
  have ok: "bio_ok pid {i, j} b2" and ne: "i \<noteq> j" "q \<noteq> p" using t assms(3) by simp_all
  obtain b' where w: "\<forall>K :: bio \<Rightarrow> 'a res. rbind (bwrite pid j (set_data j (data (bufs b2 ! i)) b2)) (\<lambda>b3.
      rbind (brelse pid i b3) (\<lambda>b4. rbind (brelse pid j b4) K)) = K b'" "wrote pid d q (view b2 d p) b2 b'"
    by (rule write_two[OF ok ne(1) assms(2) ne(2) assms(5)]) (use t in auto)
  have "wrote pid d q (view b d p) b b'" using w(2) t assms(2) unfolding wrote_def by simp
  then show ?thesis using r(1,2) w(1) by (intro that[of b']) simp_all
qed

section \<open>The block writes of the loops\<close>

definition write_block :: "u32 \<times> u32 \<times> block \<Rightarrow> disk \<Rightarrow> disk" where
  "write_block w d = d(fst w := (d (fst w))(fst (snd w) := snd (snd w)))"

definition apply_writes :: "(u32 \<times> u32 \<times> block) list \<Rightarrow> disk \<Rightarrow> disk" where
  "apply_writes ws d = fold write_block ws d"

lemma apply_writes_simps [simp]:
  "apply_writes [] d = d" "apply_writes (w # ws) d = apply_writes ws (write_block w d)"
  by (simp_all add: apply_writes_def)

lemma apply_writes_append [simp]: "apply_writes (us @ vs) d = apply_writes vs (apply_writes us d)"
  by (simp add: apply_writes_def)

lemma apply_writes_other: "(\<And>x. (e, f, x) \<notin> set ws) \<Longrightarrow> apply_writes ws d e f = d e f"
proof (induction ws arbitrary: d)
  case (Cons w ws)
  obtain g n x where w: "w = (g, n, x)" by (cases w)
  with Cons.prems have "(e, f) \<noteq> (g, n)" "\<And>y. (e, f, y) \<notin> set ws" by auto
  with Cons.IH w show ?case by (auto simp: write_block_def)
qed simp

lemma apply_writes_map:
  assumes "distinct ts" "inj_on g (set ts)" "t \<in> set ts"
  shows "apply_writes (map (\<lambda>t. (e, g t, h t)) ts) d e (g t) = h t"
  using assms
proof (induction ts arbitrary: d)
  case (Cons u ts)
  show ?case
  proof (cases "t = u")
    case True
    then have "\<And>x. (e, g t, x) \<notin> set (map (\<lambda>t. (e, g t, h t)) ts)"
      using Cons.prems by (auto simp: inj_on_def)
    then show ?thesis using True by (simp add: apply_writes_other write_block_def)
  next
    case False
    then show ?thesis using Cons by (simp add: inj_on_def)
  qed
qed simp

text \<open>Blocks of the log: the header and one block per entry.\<close>

definition log_block :: "log \<Rightarrow> nat \<Rightarrow> u32" where
  "log_block l t = lstart l + of_nat t + 1"

definition home :: "log \<Rightarrow> u32 \<Rightarrow> bool" where
  "home l f \<longleftrightarrow> f < FSSIZE \<and> (unat f < unat (lstart l) \<or> unat (lstart l) + LOGSIZE \<le> unat f)"

definition log_wf :: "log \<Rightarrow> bool" where
  "log_wf l \<longleftrightarrow> ldev l \<noteq> 0 \<and> unat (lstart l) + LOGSIZE < 1000 \<and> 0 \<le> lhn l \<and> lhn l < int LOGSIZE
     \<and> length (lhblock l) = LOGSIZE \<and> distinct (take (nat (lhn l)) (lhblock l))
     \<and> (\<forall>f \<in> set (take (nat (lhn l)) (lhblock l)). home l f)"

abbreviation logged :: "log \<Rightarrow> u32 list" where "logged l \<equiv> take (nat (lhn l)) (lhblock l)"

lemma unat_log_block:
  assumes "log_wf l" "t < LOGSIZE"
  shows "unat (log_block l t) = unat (lstart l) + t + 1"
proof -
  have s: "unat (lstart l) + LOGSIZE < 1000" using assms(1) by (simp add: log_wf_def)
  have t: "unat (of_nat t :: u32) = t" using assms(2) by (intro unat_of_nat_u32) simp
  have 1: "unat (lstart l + of_nat t) = unat (lstart l) + t"
    using unat_add_noof[of "lstart l" "of_nat t"] s t assms(2) by simp
  show ?thesis unfolding log_block_def
    using unat_add_noof[of "lstart l + of_nat t" 1] 1 s assms(2) by simp
qed

lemma FSSIZE_unat: "f < FSSIZE \<longleftrightarrow> unat f < 1000"
  by (simp add: FSSIZE_def word_less_nat_alt)

lemma log_block_facts:
  assumes "log_wf l" "Suc t < LOGSIZE"
  shows "log_block l t < FSSIZE" "log_block l t \<noteq> lstart l" "lstart l < FSSIZE"
    "home l f \<Longrightarrow> f \<noteq> log_block l t \<and> f \<noteq> lstart l"
    "Suc t' < LOGSIZE \<Longrightarrow> log_block l t = log_block l t' \<longleftrightarrow> t = t'"
proof -
  have u: "unat (log_block l t) = unat (lstart l) + t + 1" using unat_log_block[OF assms(1)] assms(2) by simp
  have s: "unat (lstart l) + LOGSIZE < 1000" using assms(1) by (simp add: log_wf_def)
  show "log_block l t < FSSIZE" "lstart l < FSSIZE" using u s assms(2) unfolding FSSIZE_unat by linarith+
  show "log_block l t \<noteq> lstart l" using u by (metis Suc_eq_plus1 add_Suc_right less_add_Suc1 less_irrefl)
  show "f \<noteq> log_block l t \<and> f \<noteq> lstart l" if "home l f"
  proof -
    have "unat f < unat (lstart l) \<or> unat (lstart l) + LOGSIZE \<le> unat f" using that by (simp add: home_def)
    then have "unat f \<noteq> unat (log_block l t)" "unat f \<noteq> unat (lstart l)" using u assms(2) by linarith+
    then show ?thesis by blast
  qed
  show "log_block l t = log_block l t' \<longleftrightarrow> t = t'" if "Suc t' < LOGSIZE"
    using u unat_log_block[OF assms(1) Suc_lessD[OF that]] by (metis add_right_cancel add_left_cancel)
qed

lemma logged_nth:
  assumes "log_wf l" "t < nat (lhn l)"
  shows "lhblock l ! t \<in> set (logged l)" "home l (lhblock l ! t)" "Suc t < LOGSIZE"
    "t' < nat (lhn l) \<Longrightarrow> lhblock l ! t = lhblock l ! t' \<longleftrightarrow> t = t'"
proof -
  have n: "nat (lhn l) < LOGSIZE" "length (lhblock l) = LOGSIZE" using assms(1) by (auto simp: log_wf_def)
  show m: "lhblock l ! t \<in> set (logged l)" "Suc t < LOGSIZE" using assms(2) n by (auto simp: in_set_conv_nth)
  then show "home l (lhblock l ! t)" using assms(1) by (auto simp: log_wf_def)
  show "t' < nat (lhn l) \<Longrightarrow> lhblock l ! t = lhblock l ! t' \<longleftrightarrow> t = t'"
    using assms n nth_eq_iff_index_eq[of "logged l" t t'] by (simp add: log_wf_def)
qed

lemma card_logged: "log_wf l \<Longrightarrow> card (set (logged l)) < LOGSIZE"
  by (auto simp: distinct_card log_wf_def min_def)

text \<open>Copying the logged blocks into the log.\<close>

lemma write_log_tails_spec:
  assumes wf: "log_wf l" and ts: "set ts \<subseteq> {..<nat (lhn l)}" "distinct ts"
    and ok: "bio_ok pid {} b" and dirty: "dirty_in (ldev l) (set (logged l)) b"
    and dk: "\<forall>t \<in> set ts. dirty_key b (ldev l) (lhblock l ! t)"
  shows "\<exists>b'. write_log_tails pid l ts b = Inr b' \<and> bio_ok pid {} b'
    \<and> wtrace b' = wtrace b @ map (\<lambda>t. (ldev l, log_block l t, view b (ldev l) (lhblock l ! t))) ts
    \<and> disk b' = apply_writes (map (\<lambda>t. (ldev l, log_block l t, view b (ldev l) (lhblock l ! t))) ts) (disk b)
    \<and> (\<forall>e f. e \<noteq> 0 \<longrightarrow> dirty_key b' e f = dirty_key b e f)
    \<and> (\<forall>f. f \<notin> log_block l ` set ts \<longrightarrow> view b' (ldev l) f = view b (ldev l) f)
    \<and> (\<forall>t \<in> set ts. view b' (ldev l) (log_block l t) = view b (ldev l) (lhblock l ! t))"
  using ts ok dirty dk
proof (induction ts arbitrary: b)
  case (Cons t ts)
  let ?d = "ldev l" and ?p = "log_block l t" and ?q = "lhblock l ! t"
  have d: "?d \<noteq> 0" using wf by (simp add: log_wf_def)
  have t: "t < nat (lhn l)" using Cons.prems(1) by simp
  note q = logged_nth[OF wf t]
  note p = log_block_facts[OF wf q(3)]
  have pq: "?p \<noteq> ?q" "?q < FSSIZE" using p(4)[OF q(2)] q(2) by (auto simp: home_def)
  have dkt: "dirty_key b ?d ?q \<or> Suc (card (set (logged l))) < NBUF" using Cons.prems(5) by simp
  obtain b1 where b1: "\<forall>K :: bio \<Rightarrow> bio res. rbind (bread pid ?d ?p b) (\<lambda>(i, b1). rbind (bread pid ?d ?q b1) (\<lambda>(j, b2).
      rbind (bwrite pid i (set_data i (data (bufs b2 ! j)) b2)) (\<lambda>b3.
      rbind (brelse pid j b3) (\<lambda>b4. rbind (brelse pid i b4) K)))) = K b1"
    and w: "wrote pid ?d ?p (view b ?d ?q) b b1"
    by (rule copy_to_first[OF Cons.prems(3) d pq(1) p(1) pq(2) Cons.prems(4) finite_set card_logged[OF wf] dkt])
  note w = w[unfolded wrote_def]
  have ok1: "bio_ok pid {} b1" using w by blast
  have npd: "\<not> dirty_key b ?d ?p"
    using Cons.prems(4) d p(4) wf unfolding dirty_in_def log_wf_def by blast
  have dk1: "dirty_key b1 e f = dirty_key b e f" if "e \<noteq> 0" for e f using w npd that by auto
  have v1: "view b1 ?d f = (if f = ?p then view b ?d ?q else view b ?d f)" for f using w d by simp
  have vq: "view b1 ?d (lhblock l ! u) = view b ?d (lhblock l ! u)" if "u \<in> set ts" for u
    using v1 p(4)[OF logged_nth(2)[OF wf, of u]] Cons.prems(1) that by auto
  have "\<exists>b'. write_log_tails pid l ts b1 = Inr b' \<and> bio_ok pid {} b'
    \<and> wtrace b' = wtrace b1 @ map (\<lambda>t. (ldev l, log_block l t, view b1 (ldev l) (lhblock l ! t))) ts
    \<and> disk b' = apply_writes (map (\<lambda>t. (ldev l, log_block l t, view b1 (ldev l) (lhblock l ! t))) ts) (disk b1)
    \<and> (\<forall>e f. e \<noteq> 0 \<longrightarrow> dirty_key b' e f = dirty_key b1 e f)
    \<and> (\<forall>f. f \<notin> log_block l ` set ts \<longrightarrow> view b' (ldev l) f = view b1 (ldev l) f)
    \<and> (\<forall>t \<in> set ts. view b' (ldev l) (log_block l t) = view b1 (ldev l) (lhblock l ! t))"
    using Cons.prems dk1 d by (intro Cons.IH[OF _ _ ok1]) (auto simp: dirty_in_def)
  then obtain b' where b': "write_log_tails pid l ts b1 = Inr b'" "bio_ok pid {} b'"
    "wtrace b' = wtrace b1 @ map (\<lambda>t. (?d, log_block l t, view b ?d (lhblock l ! t))) ts"
    "disk b' = apply_writes (map (\<lambda>t. (?d, log_block l t, view b ?d (lhblock l ! t))) ts) (disk b1)"
    "\<And>e f. e \<noteq> 0 \<Longrightarrow> dirty_key b' e f = dirty_key b1 e f"
    "\<And>f. f \<notin> log_block l ` set ts \<Longrightarrow> view b' ?d f = view b1 ?d f"
    "\<And>t. t \<in> set ts \<Longrightarrow> view b' ?d (log_block l t) = view b ?d (lhblock l ! t)"
    using vq by (auto cong: map_cong)
  have notin: "?p \<notin> log_block l ` set ts"
    using Cons.prems(1,2) p(5) logged_nth(3)[OF wf] by auto
  have run: "write_log_tails pid l (t # ts) b = Inr b'" using b1 b'(1) by (simp add: log_block_def)
  have "wtrace b1 = wtrace b @ [(?d, ?p, view b ?d ?q)]" "disk b1 = (disk b)(?d := (disk b ?d)(?p := view b ?d ?q))"
    using w by blast+
  then show ?case
    using b' notin run v1 dk1 by (intro exI[of _ b']) (auto simp: write_block_def)
qed simp

text \<open>Copying the log blocks to their home locations.\<close>

lemma install_tails_spec:
  assumes wf: "log_wf l" and ts: "set ts \<subseteq> {..<nat (lhn l)}" "distinct ts"
    and ok: "bio_ok pid {} b" and dirty: "dirty_in (ldev l) B b" "finite B" "card B < NBUF"
    and dk: "\<forall>t \<in> set ts. dirty_key b (ldev l) (lhblock l ! t) \<or> Suc (card B) < NBUF"
  shows "\<exists>b'. install_tails pid l ts b = Inr b' \<and> bio_ok pid {} b'
    \<and> wtrace b' = wtrace b @ map (\<lambda>t. (ldev l, lhblock l ! t, view b (ldev l) (log_block l t))) ts
    \<and> disk b' = apply_writes (map (\<lambda>t. (ldev l, lhblock l ! t, view b (ldev l) (log_block l t))) ts) (disk b)
    \<and> (\<forall>e f. e \<noteq> 0 \<longrightarrow> dirty_key b' e f = (dirty_key b e f \<and> \<not> (e = ldev l \<and> f \<in> (!) (lhblock l) ` set ts)))
    \<and> (\<forall>f. f \<notin> (!) (lhblock l) ` set ts \<longrightarrow> view b' (ldev l) f = view b (ldev l) f)
    \<and> (\<forall>t \<in> set ts. view b' (ldev l) (lhblock l ! t) = view b (ldev l) (log_block l t))"
  using ts ok dirty(1) dk
proof (induction ts arbitrary: b)
  case (Cons t ts)
  let ?d = "ldev l" and ?p = "log_block l t" and ?q = "lhblock l ! t"
  have d: "?d \<noteq> 0" using wf by (simp add: log_wf_def)
  have t: "t < nat (lhn l)" using Cons.prems(1) by simp
  note q = logged_nth[OF wf t]
  note p = log_block_facts[OF wf q(3)]
  have pq: "?p \<noteq> ?q" "?q < FSSIZE" using p(4)[OF q(2)] q(2) by (auto simp: home_def)
  have dkt: "dirty_key b ?d ?q \<or> Suc (card B) < NBUF" using Cons.prems(5) by auto
  obtain b1 where b1: "\<forall>K :: bio \<Rightarrow> bio res. rbind (bread pid ?d ?p b) (\<lambda>(i, b1). rbind (bread pid ?d ?q b1) (\<lambda>(j, b2).
      rbind (bwrite pid j (set_data j (data (bufs b2 ! i)) b2)) (\<lambda>b3.
      rbind (brelse pid i b3) (\<lambda>b4. rbind (brelse pid j b4) K)))) = K b1"
    and w: "wrote pid ?d ?q (view b ?d ?p) b b1"
    by (rule copy_to_second[OF Cons.prems(3) d pq(1) p(1) pq(2) Cons.prems(4) dirty(2,3) dkt])
  note w = w[unfolded wrote_def]
  have ok1: "bio_ok pid {} b1" using w by blast
  have dk1: "dirty_key b1 e f = (dirty_key b e f \<and> (e, f) \<noteq> (?d, ?q))" if "e \<noteq> 0" for e f using w that by blast
  have v1: "view b1 ?d f = (if f = ?q then view b ?d ?p else view b ?d f)" for f using w d by simp
  have tl: "u < nat (lhn l)" "u \<noteq> t" if "u \<in> set ts" for u using that Cons.prems(1,2) by auto
  have neq: "lhblock l ! u \<noteq> ?q" if "u \<in> set ts" for u using tl[OF that] logged_nth(4)[OF wf, of u t] t by auto
  have vp: "view b1 ?d (log_block l u) = view b ?d (log_block l u)" if "u \<in> set ts" for u
    using v1 log_block_facts(4)[OF wf logged_nth(3)[OF wf tl(1)[OF that]] q(2)] by auto
  have "\<exists>b'. install_tails pid l ts b1 = Inr b' \<and> bio_ok pid {} b'
    \<and> wtrace b' = wtrace b1 @ map (\<lambda>t. (ldev l, lhblock l ! t, view b1 (ldev l) (log_block l t))) ts
    \<and> disk b' = apply_writes (map (\<lambda>t. (ldev l, lhblock l ! t, view b1 (ldev l) (log_block l t))) ts) (disk b1)
    \<and> (\<forall>e f. e \<noteq> 0 \<longrightarrow> dirty_key b' e f = (dirty_key b1 e f \<and> \<not> (e = ldev l \<and> f \<in> (!) (lhblock l) ` set ts)))
    \<and> (\<forall>f. f \<notin> (!) (lhblock l) ` set ts \<longrightarrow> view b' (ldev l) f = view b1 (ldev l) f)
    \<and> (\<forall>t \<in> set ts. view b' (ldev l) (lhblock l ! t) = view b1 (ldev l) (log_block l t))"
    using Cons.prems dk1 d neq by (intro Cons.IH[OF _ _ ok1]) (auto simp: dirty_in_def)
  then obtain b' where b': "install_tails pid l ts b1 = Inr b'" "bio_ok pid {} b'"
    "wtrace b' = wtrace b1 @ map (\<lambda>t. (?d, lhblock l ! t, view b ?d (log_block l t))) ts"
    "disk b' = apply_writes (map (\<lambda>t. (?d, lhblock l ! t, view b ?d (log_block l t))) ts) (disk b1)"
    "\<And>e f. e \<noteq> 0 \<Longrightarrow> dirty_key b' e f = (dirty_key b1 e f \<and> \<not> (e = ?d \<and> f \<in> (!) (lhblock l) ` set ts))"
    "\<And>f. f \<notin> (!) (lhblock l) ` set ts \<Longrightarrow> view b' ?d f = view b1 ?d f"
    "\<And>t. t \<in> set ts \<Longrightarrow> view b' ?d (lhblock l ! t) = view b ?d (log_block l t)"
    using vp by (auto cong: map_cong)
  have notin: "?q \<notin> (!) (lhblock l) ` set ts" using neq by (metis imageE)
  have run: "install_tails pid l (t # ts) b = Inr b'" using b1 b'(1) by (simp add: log_block_def)
  have "wtrace b1 = wtrace b @ [(?d, ?q, view b ?d ?p)]" "disk b1 = (disk b)(?d := (disk b ?d)(?q := view b ?d ?p))"
    using w by blast+
  then show ?case
    using b' notin run v1 dk1 by (intro exI[of _ b']) (auto simp: write_block_def)
qed simp

lemma write_head_spec:
  assumes wf: "log_wf (lg s)" and ok: "bio_ok pid {} (bc s)"
    and dirty: "dirty_in (ldev (lg s)) B (bc s)" "finite B" "card B < NBUF"
  shows "\<exists>b'. write_head pid s = Inr (s\<lparr>bc := b'\<rparr>) \<and>
    wrote pid (ldev (lg s)) (lstart (lg s)) (head_block (lg s) (view (bc s) (ldev (lg s)) (lstart (lg s)))) (bc s) b'"
proof -
  have d: "ldev (lg s) \<noteq> 0" using wf by (simp add: log_wf_def)
  have n: "lstart (lg s) < FSSIZE" using log_block_facts(3)[OF wf, of 0] by simp
  have rm: "room {} (bc s)" using room_keys[OF ok dirty(1,2)] dirty(3) by simp
  obtain b' where b': "\<forall>K :: bio \<Rightarrow> fsys res. rbind (bread pid (ldev (lg s)) (lstart (lg s)) (bc s)) (\<lambda>(i, b1).
       rbind (bwrite pid i (set_data i (head_block (lg s) (data (bufs b1 ! i))) b1)) (\<lambda>b2. rbind (brelse pid i b2) K)) = K b'"
    "wrote pid (ldev (lg s)) (lstart (lg s)) (head_block (lg s) (view (bc s) (ldev (lg s)) (lstart (lg s)))) (bc s) b'"
    by (rule write_one[OF ok d n rm, where g = "head_block (lg s)"])
  then show ?thesis by (auto simp: write_head_def)
qed

lemma head_block_decode:
  assumes "length x = BSIZE" "0 \<le> lhn l" "lhn l \<le> int LOGSIZE" "length (lhblock l) = LOGSIZE"
  shows "sint (get32 (head_block l x) 0) = lhn l"
    "k < nat (lhn l) \<Longrightarrow> get32 (head_block l x) (4 + 4 * k) = lhblock l ! k" "length (head_block l x) = BSIZE"
proof -
  have "get32 (head_block l x) 0 = of_int (lhn l)"
    using assms(1) by (simp add: head_block_def get32_put32s_before)
  moreover have "sint (of_int (lhn l) :: u32) = lhn l"
    using assms(2,3) by (simp add: sint_u32 uint_word_of_int)
  ultimately show "sint (get32 (head_block l x) 0) = lhn l" by simp
  show "k < nat (lhn l) \<Longrightarrow> get32 (head_block l x) (4 + 4 * k) = lhblock l ! k"
    using assms unfolding head_block_def by (subst get32_put32s) auto
  show "length (head_block l x) = BSIZE" using assms(1) by (simp add: head_block_def)
qed

section \<open>Commit and recovery\<close>

lemma view_not_dirty:
  assumes ok: "bio_ok pid {} b" and e: "e \<noteq> 0" and nd: "\<not> dirty_key b e f"
  shows "view b e f = disk b e f"
proof (cases "\<exists>i < NBUF. has_key e f (bufs b ! i) \<and> is_valid (bufs b ! i)")
  case True
  then obtain i where i: "i < NBUF" "has_key e f (bufs b ! i)" "is_valid (bufs b ! i)" by blast
  then have "\<not> is_dirty (bufs b ! i)" using nd by (auto simp: dirty_key_def)
  then show ?thesis using view_valid[OF ok i(1) e i(2,3)] bio_okD(5)[OF ok i(1)] i
    by (simp add: coherent_def has_key_def)
next
  case False
  then show ?thesis by (intro view_disk) blast
qed

text \<open>\<open>same_view\<close>: only the arrangement of the buffers has changed.\<close>

definition same_view :: "u32 \<Rightarrow> bio \<Rightarrow> bio \<Rightarrow> bool" where
  "same_view pid b b' \<longleftrightarrow> bio_ok pid {} b' \<and> disk b' = disk b \<and> wtrace b' = wtrace b
     \<and> (\<forall>e f. e \<noteq> 0 \<longrightarrow> view b' e f = view b e f) \<and> (\<forall>e f. e \<noteq> 0 \<longrightarrow> dirty_key b' e f = dirty_key b e f)"

lemma read_one:
  assumes ok: "bio_ok pid {} b" and d: "d \<noteq> 0" and n: "n < FSSIZE" and rm: "room {} b"
  obtains i b1 b2 where "bread pid d n b = Inr (i, b1)" "data (bufs b1 ! i) = view b d n"
    "brelse pid i b1 = Inr b2" "same_view pid b b2"
proof -
  have rm': "room {} b \<or> (\<exists>i < NBUF. has_key d n (bufs b ! i))" using rm by simp
  obtain i b1 where r: "bread pid d n b = Inr (i, b1)" "bread_post pid {} d n b i b1"
    by (rule bread_ok[OF ok d n _ rm']) simp_all
  note p1 = r(2)[unfolded bread_post_def]
  have ok1: "bio_ok pid {i} b1" "coherent (disk b1) (bufs b1 ! i)" and x: "data (bufs b1 ! i) = view b d n"
    using p1 by blast+
  obtain b2 where b2: "brelse pid i b1 = Inr b2" "brelse_post pid {i} i b1 b2"
    by (rule brelse_ok[OF ok1(1) insertI1 ok1(2)])
  have "same_view pid b b2" using p1 b2(2) by (simp add: same_view_def brelse_post_def)
  with r(1) x b2(1) show ?thesis by (rule that)
qed

text \<open>The state of the log inside a transaction: the blocks it names are exactly the ones pinned in the
  cache, and the header on the disk says that nothing is committed.\<close>

definition log_inv :: "u32 \<Rightarrow> fsys \<Rightarrow> bool" where
  "log_inv pid s \<longleftrightarrow> log_wf (lg s) \<and> bio_ok pid {} (bc s)
     \<and> (\<forall>e f. e \<noteq> 0 \<longrightarrow> dirty_key (bc s) e f = (e = ldev (lg s) \<and> f \<in> set (logged (lg s))))
     \<and> get32 (disk (bc s) (ldev (lg s)) (lstart (lg s))) 0 = 0
     \<and> length (disk (bc s) (ldev (lg s)) (lstart (lg s))) = BSIZE"

definition commit_trace :: "log \<Rightarrow> (u32 \<Rightarrow> block) \<Rightarrow> block \<Rightarrow> (u32 \<times> u32 \<times> block) list" where
  "commit_trace l v h =
     map (\<lambda>t. (ldev l, log_block l t, v (lhblock l ! t))) [0..<nat (lhn l)]
     @ [(ldev l, lstart l, head_block l h)]
     @ map (\<lambda>t. (ldev l, lhblock l ! t, v (lhblock l ! t))) [0..<nat (lhn l)]
     @ [(ldev l, lstart l, head_block (l\<lparr>lhn := 0\<rparr>) (head_block l h))]"

lemma log_wf_empty: "log_wf l \<Longrightarrow> log_wf (l\<lparr>lhn := 0\<rparr>)"
  by (simp add: log_wf_def)

lemma lhblock_image: "log_wf l \<Longrightarrow> (!) (lhblock l) ` {0..<nat (lhn l)} = set (logged l)"
  by (rule nth_image) (simp add: log_wf_def nat_le_iff)

lemma lstart_not_logged: "log_wf l \<Longrightarrow> lstart l \<notin> set (logged l)"
  using log_block_facts(4)[of l 0] by (auto simp: log_wf_def)

lemma home_not_log:
  assumes "log_wf l" "home l f"
  shows "f \<noteq> lstart l" "f \<notin> log_block l ` {0..<nat (lhn l)}"
proof -
  show "f \<noteq> lstart l" using log_block_facts(4)[OF assms(1), of 0 f] assms(2) by simp
  show "f \<notin> log_block l ` {0..<nat (lhn l)}"
  proof
    assume "f \<in> log_block l ` {0..<nat (lhn l)}"
    then obtain t where t: "f = log_block l t" "t < nat (lhn l)" by auto
    then show False using log_block_facts(4)[OF assms(1) logged_nth(3)[OF assms(1) t(2)] assms(2)] by blast
  qed
qed

lemma log_block_not_logged:
  assumes "log_wf l" "t < nat (lhn l)"
  shows "log_block l t \<notin> set (logged l)"
proof
  assume "log_block l t \<in> set (logged l)"
  then have "home l (log_block l t)" using assms(1) by (simp add: log_wf_def)
  then show False using home_not_log(2)[OF assms(1)] imageI[of t "{0..<nat (lhn l)}" "log_block l"] assms(2)
    by (metis atLeastLessThan_iff zero_le)
qed

text \<open>The phases of a commit. \<open>phase pid s tr D vw b\<close>: from the state \<open>s\<close> the writes \<open>tr\<close> have been done, the
  blocks \<open>D\<close> are pinned and the callers see \<open>vw\<close>.\<close>

definition phase :: "u32 \<Rightarrow> fsys \<Rightarrow> (u32 \<times> u32 \<times> block) list \<Rightarrow> u32 set \<Rightarrow> (u32 \<Rightarrow> block) \<Rightarrow> bio \<Rightarrow> bool" where
  "phase pid s tr D vw b \<longleftrightarrow> bio_ok pid {} b \<and> wtrace b = wtrace (bc s) @ tr \<and> disk b = apply_writes tr (disk (bc s))
     \<and> (\<forall>e f. e \<noteq> 0 \<longrightarrow> dirty_key b e f = (e = ldev (lg s) \<and> f \<in> D)) \<and> view b (ldev (lg s)) = vw"

lemma phaseD:
  assumes "phase pid s tr D vw b"
  shows "bio_ok pid {} b" "wtrace b = wtrace (bc s) @ tr" "disk b = apply_writes tr (disk (bc s))"
    "e \<noteq> 0 \<Longrightarrow> dirty_key b e f = (e = ldev (lg s) \<and> f \<in> D)" "view b (ldev (lg s)) = vw"
    "dirty_in (ldev (lg s)) D b"
  using assms by (auto simp: phase_def dirty_in_def)

lemma phase_disk:
  assumes "phase pid s tr D vw b" "ldev (lg s) \<noteq> 0" "f \<notin> D"
  shows "disk b (ldev (lg s)) f = vw f"
  using view_not_dirty[OF phaseD(1)[OF assms(1)] assms(2)] phaseD(4,5)[OF assms(1)] assms(2,3) by metis

lemma phase_write_log:
  assumes wf: "log_wf (lg s)" and ph: "phase pid s tr (set (logged (lg s))) v b"
  obtains b' v' where "write_log_tails pid (lg s) [0..<nat (lhn (lg s))] b = Inr b'"
    "phase pid s (tr @ map (\<lambda>t. (ldev (lg s), log_block (lg s) t, v (lhblock (lg s) ! t))) [0..<nat (lhn (lg s))])
      (set (logged (lg s))) v' b'"
    "\<forall>f. f \<notin> log_block (lg s) ` {0..<nat (lhn (lg s))} \<longrightarrow> v' f = v f"
    "\<forall>t < nat (lhn (lg s)). v' (log_block (lg s) t) = v (lhblock (lg s) ! t)"
proof -
  let ?l = "lg s" and ?d = "ldev (lg s)" and ?n = "nat (lhn (lg s))"
  note p = phaseD[OF ph]
  have d: "?d \<noteq> 0" using wf by (simp add: log_wf_def)
  have dk: "\<forall>t \<in> set [0..<?n]. dirty_key b ?d (lhblock ?l ! t)" using p(4)[OF d] logged_nth(1)[OF wf] by simp
  have s: "set [0..<?n] \<subseteq> {..<?n}" by auto
  from write_log_tails_spec[OF wf s distinct_upt p(1,6) dk] obtain b1 where
    b1: "write_log_tails pid ?l [0..<?n] b = Inr b1" "bio_ok pid {} b1"
    "wtrace b1 = wtrace b @ map (\<lambda>t. (?d, log_block ?l t, v (lhblock ?l ! t))) [0..<?n]"
    "disk b1 = apply_writes (map (\<lambda>t. (?d, log_block ?l t, v (lhblock ?l ! t))) [0..<?n]) (disk b)"
    "\<forall>e f. e \<noteq> 0 \<longrightarrow> dirty_key b1 e f = dirty_key b e f"
    "\<forall>f. f \<notin> log_block ?l ` set [0..<?n] \<longrightarrow> view b1 ?d f = v f"
    "\<forall>t \<in> set [0..<?n]. view b1 ?d (log_block ?l t) = v (lhblock ?l ! t)" unfolding p(5) by blast
  have "phase pid s (tr @ map (\<lambda>t. (?d, log_block ?l t, v (lhblock ?l ! t))) [0..<?n]) (set (logged ?l)) (view b1 ?d) b1"
    using b1(2-5) p(2-4) by (simp add: phase_def)
  then show ?thesis using b1(1,6,7) by (intro that[of b1 "view b1 ?d"]) simp_all
qed

lemma phase_write_head:
  assumes wf: "log_wf l" and l: "ldev l = ldev (lg s)" and ph: "phase pid s tr D v b"
    and D: "finite D" "card D < NBUF" "lstart l \<notin> D"
  obtains b' where "write_head pid \<lparr>bc = b, lg = l\<rparr> = Inr \<lparr>bc = b', lg = l\<rparr>"
    "phase pid s (tr @ [(ldev l, lstart l, head_block l (v (lstart l)))]) D (v(lstart l := head_block l (v (lstart l)))) b'"
proof -
  let ?h = "head_block l (v (lstart l))"
  note p = phaseD[OF ph, folded l]
  have d: "ldev l \<noteq> 0" using wf by (simp add: log_wf_def)
  from write_head_spec[of "\<lparr>bc = b, lg = l\<rparr>" pid D] wf p(1,5,6) D(1,2)
  obtain b' where b': "write_head pid \<lparr>bc = b, lg = l\<rparr> = Inr \<lparr>bc = b', lg = l\<rparr>"
    and w: "wrote pid (ldev l) (lstart l) ?h b b'" by auto
  note w = w[unfolded wrote_def]
  have w1: "bio_ok pid {} b'" "wtrace b' = wtrace b @ [(ldev l, lstart l, ?h)]"
    "disk b' = write_block (ldev l, lstart l, ?h) (disk b)" using w by (simp_all add: write_block_def)
  have v: "view b' (ldev l) = v(lstart l := ?h)" using w d p(5) by auto
  have dk: "dirty_key b' e f = (e = ldev l \<and> f \<in> D)" if "e \<noteq> 0" for e f using w p(4)[OF that] D(3) that by auto
  have "phase pid s (tr @ [(ldev l, lstart l, ?h)]) D (v(lstart l := ?h)) b'"
    using w1 v dk p(2,3) l by (simp add: phase_def)
  with b' show ?thesis by (rule that)
qed

lemma phase_install:
  assumes wf: "log_wf l" and l: "ldev l = ldev (lg s)" and ph: "phase pid s tr D v b"
    and D: "D = set (logged l) \<or> D = {}"
  obtains b' v' where "install_tails pid l [0..<nat (lhn l)] b = Inr b'"
    "phase pid s (tr @ map (\<lambda>t. (ldev l, lhblock l ! t, v (log_block l t))) [0..<nat (lhn l)]) {} v' b'"
    "\<forall>f. f \<notin> set (logged l) \<longrightarrow> v' f = v f" "\<forall>t < nat (lhn l). v' (lhblock l ! t) = v (log_block l t)"
proof -
  let ?d = "ldev l" and ?n = "nat (lhn l)"
  note p = phaseD[OF ph, folded l]
  have d: "?d \<noteq> 0" using wf by (simp add: log_wf_def)
  have fD: "finite D" "card D < NBUF" using D card_logged[OF wf] by auto
  have dk: "\<forall>t \<in> set [0..<?n]. dirty_key b ?d (lhblock l ! t) \<or> Suc (card D) < NBUF"
    using p(4)[OF d] D logged_nth(1)[OF wf] by auto
  have s: "set [0..<?n] \<subseteq> {..<?n}" by auto
  have im: "(!) (lhblock l) ` set [0..<?n] = set (logged l)" using lhblock_image[OF wf] by simp
  from install_tails_spec[OF wf s distinct_upt p(1,6) fD dk] obtain b1 where
    b1: "install_tails pid l [0..<?n] b = Inr b1" "bio_ok pid {} b1"
    "wtrace b1 = wtrace b @ map (\<lambda>t. (?d, lhblock l ! t, v (log_block l t))) [0..<?n]"
    "disk b1 = apply_writes (map (\<lambda>t. (?d, lhblock l ! t, v (log_block l t))) [0..<?n]) (disk b)"
    "\<forall>e f. e \<noteq> 0 \<longrightarrow> dirty_key b1 e f = (dirty_key b e f \<and> \<not> (e = ?d \<and> f \<in> set (logged l)))"
    "\<forall>f. f \<notin> set (logged l) \<longrightarrow> view b1 ?d f = v f"
    "\<forall>t \<in> set [0..<?n]. view b1 ?d (lhblock l ! t) = v (log_block l t)" unfolding p(5) im by blast
  have nd: "\<not> dirty_key b1 e f" if "e \<noteq> 0" for e f using b1(5) p(4) that D by auto
  have "phase pid s (tr @ map (\<lambda>t. (?d, lhblock l ! t, v (log_block l t))) [0..<?n]) {} (view b1 ?d) b1"
    using b1(2-4) p(2,3) nd l by (simp add: phase_def)
  then show ?thesis using b1(1,6,7) by (intro that[of b1 "view b1 ?d"]) simp_all
qed

lemma commit_spec:
  assumes inv: "log_inv pid s" and pos: "0 < lhn (lg s)"
  obtains b' v' where "commit pid s = Inr \<lparr>bc = b', lg = (lg s)\<lparr>lhn := 0\<rparr>\<rparr>"
    "phase pid s (commit_trace (lg s) (view (bc s) (ldev (lg s))) (disk (bc s) (ldev (lg s)) (lstart (lg s)))) {} v' b'"
    "\<forall>f. home (lg s) f \<longrightarrow> v' f = view (bc s) (ldev (lg s)) f"
proof -
  define l d n v where "l = lg s" "d = ldev l" "n = nat (lhn l)" "v = view (bc s) (ldev (lg s))"
  let ?z = "l\<lparr>lhn := 0\<rparr>"
  have wf: "log_wf l" "log_wf ?z" and d: "d \<noteq> 0" and ls: "ldev l = ldev (lg s)" "ldev ?z = ldev (lg s)"
    using inv log_wf_empty by (auto simp: log_inv_def log_wf_def l_d_n_v_def)
  have p0: "phase pid s [] (set (logged l)) v (bc s)"
    using inv by (simp add: phase_def log_inv_def l_d_n_v_def)
  have sl: "lstart l \<notin> log_block l ` {0..<n}" using log_block_facts(2)[OF wf(1)] logged_nth(3)[OF wf(1)]
    by (metis atLeastLessThan_iff imageE l_d_n_v_def(3))
  have h: "v (lstart l) = disk (bc s) d (lstart l)"
    using phase_disk[OF p0 _ lstart_not_logged[OF wf(1)]] d by (simp add: l_d_n_v_def)
  obtain b1 v1 where b1: "write_log_tails pid l [0..<n] (bc s) = Inr b1"
    "phase pid s ([] @ map (\<lambda>t. (d, log_block l t, v (lhblock l ! t))) [0..<n]) (set (logged l)) v1 b1"
    "\<forall>f. f \<notin> log_block l ` {0..<n} \<longrightarrow> v1 f = v f" "\<forall>t < n. v1 (log_block l t) = v (lhblock l ! t)"
    using wf(1) p0 unfolding l_d_n_v_def(1-3) by (rule phase_write_log)
  obtain b2 where b2: "write_head pid \<lparr>bc = b1, lg = l\<rparr> = Inr \<lparr>bc = b2, lg = l\<rparr>"
    "phase pid s (([] @ map (\<lambda>t. (d, log_block l t, v (lhblock l ! t))) [0..<n]) @ [(d, lstart l, head_block l (v1 (lstart l)))])
      (set (logged l)) (v1(lstart l := head_block l (v1 (lstart l)))) b2"
    using phase_write_head[OF wf(1) ls(1) b1(2) _ _ lstart_not_logged[OF wf(1)]] card_logged[OF wf(1)]
    unfolding l_d_n_v_def(2) by auto
  obtain b3 v3 where b3: "install_tails pid l [0..<n] b2 = Inr b3"
    "phase pid s ((([] @ map (\<lambda>t. (d, log_block l t, v (lhblock l ! t))) [0..<n]) @ [(d, lstart l, head_block l (v1 (lstart l)))])
      @ map (\<lambda>t. (d, lhblock l ! t, (v1(lstart l := head_block l (v1 (lstart l)))) (log_block l t))) [0..<n]) {} v3 b3"
    "\<forall>f. f \<notin> set (logged l) \<longrightarrow> v3 f = (v1(lstart l := head_block l (v1 (lstart l)))) f"
    "\<forall>t < n. v3 (lhblock l ! t) = (v1(lstart l := head_block l (v1 (lstart l)))) (log_block l t)"
    using phase_install[OF wf(1) ls(1) b2(2) disjI1[OF refl]] unfolding l_d_n_v_def(2,3) by blast
  obtain b4 where b4: "write_head pid \<lparr>bc = b3, lg = ?z\<rparr> = Inr \<lparr>bc = b4, lg = ?z\<rparr>"
    "phase pid s (((([] @ map (\<lambda>t. (d, log_block l t, v (lhblock l ! t))) [0..<n]) @ [(d, lstart l, head_block l (v1 (lstart l)))])
      @ map (\<lambda>t. (d, lhblock l ! t, (v1(lstart l := head_block l (v1 (lstart l)))) (log_block l t))) [0..<n])
      @ [(d, lstart l, head_block ?z (v3 (lstart l)))]) {} (v3(lstart l := head_block ?z (v3 (lstart l)))) b4"
    using phase_write_head[OF wf(2) ls(2) b3(2)] unfolding l_d_n_v_def(2) by auto
  have v1s: "v1 (lstart l) = v (lstart l)" using b1(3) sl by blast
  have lt: "(v1(lstart l := x)) (log_block l t) = v (lhblock l ! t)" if "t < n" for t x
  proof -
    have "log_block l t \<in> log_block l ` {0..<n}" using that by (intro imageI) simp
    then have "log_block l t \<noteq> lstart l" using sl by metis
    then show ?thesis using b1(4) that by simp
  qed
  have v3s: "v3 (lstart l) = head_block l (v (lstart l))" using b3(3) lstart_not_logged[OF wf(1)] v1s by simp
  have tr: "map (\<lambda>t. (d, lhblock l ! t, (v1(lstart l := head_block l (v1 (lstart l)))) (log_block l t))) [0..<n] =
      map (\<lambda>t. (d, lhblock l ! t, v (lhblock l ! t))) [0..<n]" using lt by (intro map_cong refl) simp
  have run: "commit pid s = Inr \<lparr>bc = b4, lg = ?z\<rparr>"
    using pos b1(1) b2(1) b3(1) b4(1)
    by (cases s) (simp add: commit_def write_log_def install_trans_def set_lhn_def l_d_n_v_def)
  have vh: "(v3(lstart l := x)) f = v f" if f: "home l f" for f x
  proof -
    have nl: "f \<noteq> lstart l" "f \<notin> log_block l ` {0..<n}"
      using home_not_log[OF wf(1) f] by (auto simp: l_d_n_v_def(3))
    show ?thesis
    proof (cases "f \<in> set (logged l)")
      case True
      then obtain t where "t < n" "f = lhblock l ! t" using lhblock_image[OF wf(1)] unfolding l_d_n_v_def(3)
        by (metis atLeastLessThan_iff imageE)
      then show ?thesis using b3(4) lt nl by simp
    qed (use b3(3) b1(3) nl in simp)
  qed
  let ?h = "head_block l (disk (bc s) d (lstart l))"
  have "phase pid s (commit_trace l v (disk (bc s) d (lstart l))) {} (v3(lstart l := head_block ?z ?h)) b4"
    using b4(2)[unfolded tr, unfolded v1s v3s, unfolded h]
    by (simp add: commit_trace_def l_d_n_v_def(2,3)[symmetric])
  then show ?thesis using run vh unfolding l_d_n_v_def(1,2,4) by (intro that) blast+
qed

text \<open>Recovery, on the buffer cache of a freshly booted kernel.\<close>

definition boot_fsys :: "disk \<Rightarrow> fsys" where
  "boot_fsys dk = \<lparr>bc = boot_bio dk, lg = \<lparr>lstart = 0, lsize = 0, outstanding = 0, committing = False, ldev = 0,
     lhn = 0, lhblock = replicate LOGSIZE 0\<rparr>\<rparr>"

definition disk_log :: "u32 \<Rightarrow> disk \<Rightarrow> log" where
  "disk_log dev dk = (let sb = decode_sb (dk dev 1); x = dk dev (sb_logstart sb); n = sint (get32 x 0) in
     \<lparr>lstart = sb_logstart sb, lsize = sb_nlog sb, outstanding = 0, committing = False, ldev = dev,
      lhn = n, lhblock = map (\<lambda>k. get32 x (4 + 4 * k)) [0..<nat n] @ replicate (LOGSIZE - nat n) 0\<rparr>)"

lemma same_view_boot:
  assumes "same_view pid (boot_bio dk) b"
  shows "bio_ok pid {} b" "disk b = dk" "\<And>e f. e \<noteq> 0 \<Longrightarrow> view b e f = dk e f"
    "\<And>e f. e \<noteq> 0 \<Longrightarrow> \<not> dirty_key b e f" "room {} b"
proof -
  show 1: "bio_ok pid {} b" "disk b = dk" "\<And>e f. e \<noteq> 0 \<Longrightarrow> view b e f = dk e f"
    and 2: "\<And>e f. e \<noteq> 0 \<Longrightarrow> \<not> dirty_key b e f"
    using assms by (simp_all add: same_view_def boot_bio_ok)
  show "room {} b" using room_keys[OF 1(1), of 0 "{}"] 2 by (simp add: dirty_in_def)
qed

lemma same_view_trans: "same_view pid a b \<Longrightarrow> same_view pid b c \<Longrightarrow> same_view pid a c"
  by (simp add: same_view_def)

lemma initlog_reads:
  assumes d: "dev \<noteq> 0" and n: "sb_logstart (decode_sb (dk dev 1)) < FSSIZE"
    and l: "sint (get32 (dk dev (sb_logstart (decode_sb (dk dev 1)))) 0) \<le> int LOGSIZE"
  obtains b where "initlog pid dev (boot_fsys dk) =
      rbind (install_trans pid \<lparr>bc = b, lg = disk_log dev dk\<rparr>) (\<lambda>s2. write_head pid (set_lhn 0 s2))"
    "same_view pid (boot_bio dk) b"
proof -
  have refl: "same_view pid (boot_bio dk) (boot_bio dk)" by (simp add: same_view_def boot_bio_ok)
  have one: "1 < FSSIZE" by (simp add: FSSIZE_def)
  obtain i b1 b2 where r1: "bread pid dev 1 (boot_bio dk) = Inr (i, b1)" "data (bufs b1 ! i) = dk dev 1"
    "brelse pid i b1 = Inr b2" "same_view pid (boot_bio dk) b2"
    using read_one[OF same_view_boot(1)[OF refl] d one same_view_boot(5)[OF refl]] by (auto simp: boot_bio_ok)
  note v2 = same_view_boot[OF r1(4)]
  obtain j b3 b4 where r2: "bread pid dev (sb_logstart (decode_sb (dk dev 1))) b2 = Inr (j, b3)"
    "data (bufs b3 ! j) = dk dev (sb_logstart (decode_sb (dk dev 1)))" "brelse pid j b3 = Inr b4" "same_view pid b2 b4"
    using read_one[OF v2(1) d n v2(5)] v2(3)[OF d] by metis
  have "initlog pid dev (boot_fsys dk) =
      rbind (install_trans pid \<lparr>bc = b4, lg = disk_log dev dk\<rparr>) (\<lambda>s2. write_head pid (set_lhn 0 s2))"
    using r1(1-3) r2(1-3) l
    by (simp add: initlog_def readsb_def boot_fsys_def recover_from_log_def read_head_def disk_log_def Let_def)
  with same_view_trans[OF r1(4) r2(4)] show ?thesis using that by blast
qed

lemma initlog_spec:
  assumes wf: "log_wf (disk_log dev dk)"
  obtains s where "initlog pid dev (boot_fsys dk) = Inr s"
    "\<forall>t < nat (lhn (disk_log dev dk)). disk (bc s) dev (lhblock (disk_log dev dk) ! t) = dk dev (log_block (disk_log dev dk) t)"
    "\<forall>f. f \<notin> set (logged (disk_log dev dk)) \<longrightarrow> f \<noteq> lstart (disk_log dev dk) \<longrightarrow> disk (bc s) dev f = dk dev f"
proof -
  define l where "l = disk_log dev dk"
  let ?z = "l\<lparr>lhn := 0\<rparr>"
  have lv: "lstart l = sb_logstart (decode_sb (dk dev 1))" "ldev l = dev"
    "lhn l = sint (get32 (dk dev (sb_logstart (decode_sb (dk dev 1)))) 0)"
    by (simp_all add: l_def disk_log_def Let_def)
  have wfl: "log_wf l" "log_wf ?z" and d: "dev \<noteq> 0" using wf log_wf_empty lv by (auto simp: l_def log_wf_def)
  have bd: "lstart l < FSSIZE" "lhn l \<le> int LOGSIZE"
    using log_block_facts(3)[OF wfl(1), of 0] wfl(1) by (simp_all add: log_wf_def)
  obtain b where b: "initlog pid dev (boot_fsys dk) =
      rbind (install_trans pid \<lparr>bc = b, lg = l\<rparr>) (\<lambda>s2. write_head pid (set_lhn 0 s2))"
    "same_view pid (boot_bio dk) b"
    using initlog_reads[of dev dk pid] d bd[unfolded lv] unfolding l_def by blast
  note sv = same_view_boot[OF b(2)]
  let ?s = "\<lparr>bc = b, lg = l\<rparr>"
  have p0: "phase pid ?s [] {} (dk dev) b" using sv(1-4) d lv(2) by (auto simp: phase_def)
  obtain b1 v1 where b1: "install_tails pid l [0..<nat (lhn l)] b = Inr b1"
    "phase pid ?s ([] @ map (\<lambda>t. (ldev l, lhblock l ! t, dk dev (log_block l t))) [0..<nat (lhn l)]) {} v1 b1"
    "\<forall>f. f \<notin> set (logged l) \<longrightarrow> v1 f = dk dev f" "\<forall>t < nat (lhn l). v1 (lhblock l ! t) = dk dev (log_block l t)"
    using phase_install[OF wfl(1) _ p0 disjI2[OF refl]] by auto
  have "\<exists>b2 tr. write_head pid \<lparr>bc = b1, lg = ?z\<rparr> = Inr \<lparr>bc = b2, lg = ?z\<rparr> \<and>
      phase pid ?s tr {} (v1(lstart l := head_block ?z (v1 (lstart l)))) b2"
    by (rule phase_write_head[OF wfl(2) _ b1(2)]) auto
  then obtain b2 tr where b2: "write_head pid \<lparr>bc = b1, lg = ?z\<rparr> = Inr \<lparr>bc = b2, lg = ?z\<rparr>"
    "phase pid ?s tr {} (v1(lstart l := head_block ?z (v1 (lstart l)))) b2" by blast
  have dk: "disk b2 dev f = (v1(lstart l := head_block ?z (v1 (lstart l)))) f" for f
    using phase_disk[OF b2(2)] d lv(2) by simp
  have run: "initlog pid dev (boot_fsys dk) = Inr \<lparr>bc = b2, lg = ?z\<rparr>"
    using b(1) b1(1) b2(1) by (simp add: install_trans_def set_lhn_def)
  have ne: "lhblock l ! t \<noteq> lstart l" if "t < nat (lhn l)" for t
    using home_not_log(1)[OF wfl(1) logged_nth(2)[OF wfl(1) that]] .
  show ?thesis by (rule that[OF run]) (use dk b1(3,4) ne in \<open>auto simp: l_def[symmetric]\<close>)
qed

text \<open>The disk after a prefix of the writes of a commit.\<close>

lemma take_commit_trace:
  fixes l v h
  defines "n \<equiv> nat (lhn l)"
  obtains "k \<le> n" "take k (commit_trace l v h) = map (\<lambda>t. (ldev l, log_block l t, v (lhblock l ! t))) [0..<k]"
  | j where "n < k" "j \<le> n" "take k (commit_trace l v h) = map (\<lambda>t. (ldev l, log_block l t, v (lhblock l ! t))) [0..<n]
       @ [(ldev l, lstart l, head_block l h)] @ map (\<lambda>t. (ldev l, lhblock l ! t, v (lhblock l ! t))) [0..<j]"
  | "n < k" "take k (commit_trace l v h) = commit_trace l v h"
proof -
  have len: "length (commit_trace l v h) = 2 * n + 2" by (simp add: commit_trace_def n_def)
  consider "k \<le> n" | "n < k" "k \<le> 2 * n + 1" | "n < k" "2 * n + 2 \<le> k" by linarith
  then show ?thesis
  proof cases
    case 1
    then have "take k (commit_trace l v h) = map (\<lambda>t. (ldev l, log_block l t, v (lhblock l ! t))) [0..<k]"
      by (simp add: commit_trace_def n_def[symmetric] take_map)
    then show ?thesis by (rule that(1)[OF 1])
  next
    case 2
    then obtain j where j: "k = n + Suc j" "j \<le> n" using less_imp_Suc_add[of n k] by auto
    have "take k (commit_trace l v h) = map (\<lambda>t. (ldev l, log_block l t, v (lhblock l ! t))) [0..<n]
       @ [(ldev l, lstart l, head_block l h)] @ map (\<lambda>t. (ldev l, lhblock l ! t, v (lhblock l ! t))) [0..<j]"
      using j by (simp add: commit_trace_def n_def[symmetric] take_map)
    then show ?thesis by (rule that(2)[OF 2(1) j(2)])
  next
    case 3
    then show ?thesis using that(3) len by simp
  qed
qed

lemma apply_log_writes:
  assumes wf: "log_wf l" and k: "k \<le> nat (lhn l)"
    and A: "A = map (\<lambda>t. (ldev l, log_block l t, v (lhblock l ! t))) [0..<k]"
  shows "home l f \<or> f = lstart l \<Longrightarrow> apply_writes A dk (ldev l) f = dk (ldev l) f"
    "t < k \<Longrightarrow> apply_writes A dk (ldev l) (log_block l t) = v (lhblock l ! t)"
proof -
  have lt: "Suc t < LOGSIZE" if "t < k" for t using logged_nth(3)[OF wf, of t] that k by simp
  have ne: "f \<noteq> log_block l t" if "t < k" "home l f \<or> f = lstart l" for t
    using that(2) log_block_facts(2,4)[OF wf lt[OF that(1)]] by metis
  show "apply_writes A dk (ldev l) f = dk (ldev l) f" if "home l f \<or> f = lstart l"
    using ne[OF _ that] unfolding A by (intro apply_writes_other) fastforce
  have "inj_on (log_block l) (set [0..<k])" using log_block_facts(5)[OF wf lt lt] by (auto simp: inj_on_def)
  from apply_writes_map[OF distinct_upt this]
  show "t < k \<Longrightarrow> apply_writes A dk (ldev l) (log_block l t) = v (lhblock l ! t)" unfolding A by auto
qed

lemma apply_home_writes:
  assumes wf: "log_wf l" and k: "k \<le> nat (lhn l)"
    and A: "A = map (\<lambda>t. (ldev l, lhblock l ! t, v (lhblock l ! t))) [0..<k]"
  shows "f \<notin> set (logged l) \<Longrightarrow> apply_writes A dk (ldev l) f = dk (ldev l) f"
    "t < k \<Longrightarrow> apply_writes A dk (ldev l) (lhblock l ! t) = v (lhblock l ! t)"
proof -
  show "apply_writes A dk (ldev l) f = dk (ldev l) f" if "f \<notin> set (logged l)"
    using that logged_nth(1)[OF wf] k unfolding A by (intro apply_writes_other) auto
  have "inj_on ((!) (lhblock l)) (set [0..<k])" using logged_nth(4)[OF wf] k by (auto simp: inj_on_def)
  from apply_writes_map[OF distinct_upt this]
  show "t < k \<Longrightarrow> apply_writes A dk (ldev l) (lhblock l ! t) = v (lhblock l ! t)" unfolding A by auto
qed
text \<open>What the recovery code finds on the disk.\<close>

lemma disk_log_zero:
  assumes wf: "log_wf l" and sb: "sb_logstart (decode_sb (dk (ldev l) 1)) = lstart l"
    and z: "sint (get32 (dk (ldev l) (lstart l)) 0) = 0"
  shows "log_wf (disk_log (ldev l) dk)" "lstart (disk_log (ldev l) dk) = lstart l" "lhn (disk_log (ldev l) dk) = 0"
  using assms by (simp_all add: disk_log_def log_wf_def Let_def)

lemma disk_log_full:
  assumes wf: "log_wf l" and sb: "sb_logstart (decode_sb (dk (ldev l) 1)) = lstart l"
    and h: "dk (ldev l) (lstart l) = head_block l x" "length x = BSIZE"
  shows "log_wf (disk_log (ldev l) dk)" "lstart (disk_log (ldev l) dk) = lstart l" "lhn (disk_log (ldev l) dk) = lhn l"
    "logged (disk_log (ldev l) dk) = logged l" "log_block (disk_log (ldev l) dk) = log_block l"
    "\<forall>t < nat (lhn l). lhblock (disk_log (ldev l) dk) ! t = lhblock l ! t"
proof -
  let ?e = "disk_log (ldev l) dk"
  have w: "0 \<le> lhn l" "lhn l \<le> int LOGSIZE" "length (lhblock l) = LOGSIZE" using wf by (simp_all add: log_wf_def)
  note hd = head_block_decode[OF h(2) w]
  have f: "lstart ?e = lstart l" "ldev ?e = ldev l" "lhn ?e = lhn l"
    "lhblock ?e = map (\<lambda>k. get32 (head_block l x) (4 + 4 * k)) [0..<nat (lhn l)] @ replicate (LOGSIZE - nat (lhn l)) 0"
    using sb h(1) hd(1) by (simp_all add: disk_log_def Let_def)
  have "map (\<lambda>k. get32 (head_block l x) (4 + 4 * k)) [0..<nat (lhn l)] = logged l"
    using hd(2) w by (intro nth_equalityI) (auto simp: nat_le_iff)
  then have b: "lhblock ?e = logged l @ replicate (LOGSIZE - nat (lhn l)) 0" using f(4) by simp
  show "logged ?e = logged l" "\<forall>t < nat (lhn l). lhblock ?e ! t = lhblock l ! t"
    using b f(3) w by (auto simp: nth_append nat_le_iff)
  then show "log_wf ?e" using wf f(1-3) b w by (simp add: log_wf_def home_def nat_le_iff)
  show "lstart ?e = lstart l" "lhn ?e = lhn l" "log_block ?e = log_block l" using f by (auto simp: log_block_def)
qed

lemma recover_uncommitted:
  assumes wf: "log_wf l" and sb: "sb_logstart (decode_sb (dk (ldev l) 1)) = lstart l"
    and z: "sint (get32 (dk (ldev l) (lstart l)) 0) = 0"
  shows "\<exists>r. initlog pid (ldev l) (boot_fsys dk) = Inr r \<and> (\<forall>f. home l f \<longrightarrow> disk (bc r) (ldev l) f = dk (ldev l) f)"
proof -
  note e = disk_log_zero[of l dk, OF assms]
  obtain r where "initlog pid (ldev l) (boot_fsys dk) = Inr r"
    "\<forall>f. f \<notin> set (logged (disk_log (ldev l) dk)) \<longrightarrow> f \<noteq> lstart (disk_log (ldev l) dk) \<longrightarrow> disk (bc r) (ldev l) f = dk (ldev l) f"
    by (rule initlog_spec[OF e(1)])
  then show ?thesis using e(2,3) home_not_log(1)[OF wf] by auto
qed

lemma recover_committed:
  assumes wf: "log_wf l" and sb: "sb_logstart (decode_sb (dk (ldev l) 1)) = lstart l"
    and h: "dk (ldev l) (lstart l) = head_block l x" "length x = BSIZE"
    and b: "\<And>t. t < nat (lhn l) \<Longrightarrow> dk (ldev l) (log_block l t) = v (lhblock l ! t)"
    and o: "\<And>f. home l f \<Longrightarrow> f \<notin> set (logged l) \<Longrightarrow> dk (ldev l) f = v f"
  shows "\<exists>r. initlog pid (ldev l) (boot_fsys dk) = Inr r \<and> (\<forall>f. home l f \<longrightarrow> disk (bc r) (ldev l) f = v f)"
proof -
  note e = disk_log_full[of l dk, OF wf sb h]
  obtain r where r: "initlog pid (ldev l) (boot_fsys dk) = Inr r"
    "\<forall>t < nat (lhn l). disk (bc r) (ldev l) (lhblock l ! t) = dk (ldev l) (log_block l t)"
    "\<forall>f. f \<notin> set (logged l) \<longrightarrow> f \<noteq> lstart l \<longrightarrow> disk (bc r) (ldev l) f = dk (ldev l) f"
    by (rule initlog_spec[OF e(1)]) (use e in simp)
  have "disk (bc r) (ldev l) f = v f" if f: "home l f" for f
  proof (cases "f \<in> set (logged l)")
    case True
    then obtain t where "t < nat (lhn l)" "f = lhblock l ! t" using lhblock_image[OF wf] by (metis atLeastLessThan_iff imageE)
    then show ?thesis using r(2) b by simp
  next
    case False
    then show ?thesis using r(3) o[OF f] home_not_log(1)[OF wf f] by simp
  qed
  then show ?thesis using r(1) by blast
qed

lemma crash_recovery:
  assumes inv: "log_inv pid s" and sb: "sb_logstart (decode_sb (disk (bc s) (ldev (lg s)) 1)) = lstart (lg s)"
    "home (lg s) 1" "1 \<notin> set (logged (lg s))"
    and T: "T = commit_trace (lg s) (view (bc s) (ldev (lg s))) (disk (bc s) (ldev (lg s)) (lstart (lg s)))"
  shows "\<exists>r. initlog pid' (ldev (lg s)) (boot_fsys (apply_writes (take k T) (disk (bc s)))) = Inr r \<and>
    (\<forall>f. home (lg s) f \<longrightarrow> disk (bc r) (ldev (lg s)) f =
      (if k \<le> nat (lhn (lg s)) then disk (bc s) (ldev (lg s)) f else view (bc s) (ldev (lg s)) f))"
proof -
  define l v dk h where "l = lg s" "v = view (bc s) (ldev (lg s))" "dk = disk (bc s)"
    "h = disk (bc s) (ldev (lg s)) (lstart (lg s))"
  let ?A = "map (\<lambda>t. (ldev l, log_block l t, v (lhblock l ! t)))" and ?B = "map (\<lambda>t. (ldev l, lhblock l ! t, v (lhblock l ! t)))"
  have wf: "log_wf l" and h0: "get32 h 0 = 0" "length h = BSIZE" "h = dk (ldev l) (lstart l)"
    using inv by (simp_all add: log_inv_def l_v_dk_h_def)
  have sbl: "sb_logstart (decode_sb (dk (ldev l) 1)) = lstart l" "home l 1" "1 \<notin> set (logged l)"
    using sb by (simp_all add: l_v_dk_h_def)
  note A = apply_log_writes[OF wf _ refl] and B = apply_home_writes[OF wf _ refl]
  have vd: "v f = dk (ldev l) f" if "f \<notin> set (logged l)" for f
    using inv that view_not_dirty[of pid "bc s" "ldev l" f] by (auto simp: log_inv_def log_wf_def l_v_dk_h_def)
  note nl = lstart_not_logged[OF wf] log_block_not_logged[OF wf]
  have ne: "lstart l \<noteq> log_block l t" if "t < nat (lhn l)" for t
    using log_block_facts(2)[OF wf logged_nth(3)[OF wf that]] by simp
  have Tl: "T = commit_trace l v h" using T by (simp add: l_v_dk_h_def)
  have n1: "lstart l \<noteq> 1" using home_not_log(1)[OF wf sbl(2)] by simp
  have "\<exists>r. initlog pid' (ldev l) (boot_fsys (apply_writes (take k T) dk)) = Inr r \<and>
      (\<forall>f. home l f \<longrightarrow> disk (bc r) (ldev l) f = (if k \<le> nat (lhn l) then dk (ldev l) f else v f))"
  proof (cases rule: take_commit_trace[of k l v h])
    case 1
    let ?D = "apply_writes (?A [0..<k]) dk"
    have "sb_logstart (decode_sb (?D (ldev l) 1)) = lstart l" "sint (get32 (?D (ldev l) (lstart l)) 0) = 0"
      using A(1)[OF 1(1)] sbl h0 by simp_all
    from recover_uncommitted[of l ?D pid', OF wf this] show ?thesis using 1 A(1)[OF 1(1)] Tl by auto
  next
    case (2 j)
    let ?D = "apply_writes (?A [0..<nat (lhn l)] @ [(ldev l, lstart l, head_block l h)] @ ?B [0..<j]) dk"
    have D: "?D (ldev l) f = (if f = lstart l then head_block l h else apply_writes (?A [0..<nat (lhn l)]) dk (ldev l) f)"
      if "f \<notin> set (logged l)" for f using B(1)[OF 2(2) that] by (simp add: write_block_def)
    have "sb_logstart (decode_sb (?D (ldev l) 1)) = lstart l" "?D (ldev l) (lstart l) = head_block l h"
      using D[OF sbl(3)] D[OF nl(1)] n1 A(1)[OF order.refl] sbl by simp_all
    moreover have "?D (ldev l) (log_block l t) = v (lhblock l ! t)" if "t < nat (lhn l)" for t
      using D[OF nl(2)[OF that]] ne[OF that] A(2)[OF order.refl that] by simp
    moreover have "?D (ldev l) f = v f" if "home l f" "f \<notin> set (logged l)" for f
      using D[OF that(2)] home_not_log(1)[OF wf that(1)] A(1)[OF order.refl] that vd by simp
    ultimately show ?thesis using recover_committed[OF wf, of _ h v pid'] h0(2) 2(1,3) Tl by simp
  next
    case 3
    let ?D = "apply_writes (commit_trace l v h) dk"
    have D: "?D (ldev l) f = (if f = lstart l then head_block (l\<lparr>lhn := 0\<rparr>) (head_block l h) else
        apply_writes (?B [0..<nat (lhn l)]) (write_block (ldev l, lstart l, head_block l h) (apply_writes (?A [0..<nat (lhn l)]) dk)) (ldev l) f)" for f
      by (simp add: commit_trace_def write_block_def)
    have o: "?D (ldev l) f = dk (ldev l) f" if "home l f" "f \<notin> set (logged l)" for f
      using D[of f] B(1)[OF order.refl that(2)] home_not_log(1)[OF wf that(1)] A(1)[OF order.refl] that(1)
      by (simp add: write_block_def)
    have "?D (ldev l) f = v f" if f: "home l f" for f
    proof (cases "f \<in> set (logged l)")
      case True
      then obtain t where "t < nat (lhn l)" "f = lhblock l ! t" using lhblock_image[OF wf] by (metis atLeastLessThan_iff imageE)
      then show ?thesis using D[of f] home_not_log(1)[OF wf f] B(2)[OF order.refl] by simp
    qed (use o[OF f] vd in simp)
    moreover have "length (head_block l h) = BSIZE" "0 \<le> lhn l" "lhn l \<le> int LOGSIZE" "length (lhblock l) = LOGSIZE"
      using wf h0(2) by (auto simp: log_wf_def intro!: head_block_decode(3))
    moreover have "sint (get32 (?D (ldev l) (lstart l)) 0) = 0"
      using D[of "lstart l"] head_block_decode(1)[of "head_block l h" "l\<lparr>lhn := 0\<rparr>"] calculation(2-5) by simp
    ultimately show ?thesis using recover_uncommitted[OF wf, of ?D pid'] o[OF sbl(2,3)] sbl(1) 3 Tl by auto
  qed
  then show ?thesis unfolding l_v_dk_h_def .
qed

end
