(* ===== verification/Transaction.thy ===== *)
theory Transaction
  imports Log
begin

text \<open>
  Transactions on the log: what \<^verbatim>\<open>log_write\<close> does to the invariant of \<open>Log\<close>, and the atomicity of a whole
  transaction (\<^verbatim>\<open>begin_op\<close>, the updates, \<^verbatim>\<open>end_op\<close>) with respect to crashes.
\<close>

section \<open>Transactions\<close>

text \<open>\<open>log_open\<close>: an operation is in progress and the log has room for one more block.\<close>

definition log_open :: "log \<Rightarrow> bool" where
  "log_open l \<longleftrightarrow> 1 \<le> outstanding l \<and> lsize l = of_nat LOGSIZE \<and> lhn l + 1 < int LOGSIZE"

definition log_add :: "u32 \<Rightarrow> log \<Rightarrow> log" where
  "log_add f l = (if f \<in> set (logged l) then l
     else l\<lparr>lhblock := (lhblock l)[nat (lhn l) := f], lhn := lhn l + 1\<rparr>)"

lemma log_write_open:
  assumes "log_open (lg s)" "0 \<le> lhn (lg s)" "length (lhblock (lg s)) = LOGSIZE"
  shows "log_write i s = Inr (s\<lparr>lg := log_add (blockno (bufs (bc s) ! i)) (lg s),
    bc := upd_buf i (\<lambda>b. b\<lparr>flags := flags b OR B_DIRTY\<rparr>) (bc s)\<rparr>)"
proof -
  let ?l = "lg s" and ?f = "blockno (bufs (bc s) ! i)"
  have g: "\<not> (lhn ?l \<ge> int LOGSIZE \<or> lhn ?l \<ge> sint (lsize ?l - 1))" "\<not> outstanding ?l < 1"
    using assms(1) by (auto simp: log_open_def sint_u32)
  have len: "length (logged ?l) = nat (lhn ?l)" using assms by (auto simp: log_open_def)
  show ?thesis
  proof (cases "find_index (\<lambda>b. b = ?f) (logged ?l)")
    case None
    then have "?f \<notin> set (logged ?l)" by (auto simp: find_index_None)
    then show ?thesis using g None assms(2) by (simp add: log_write_def log_add_def Let_def)
  next
    case (Some k)
    then have k: "k < nat (lhn ?l)" "logged ?l ! k = ?f" using find_index_SomeD[OF Some] len by auto
    then have "?f \<in> set (logged ?l)" using len by (metis nth_mem)
    moreover have "(lhblock ?l)[k := ?f] = lhblock ?l" using k by (metis list_update_id nth_take)
    ultimately show ?thesis using g Some k by (simp add: log_write_def log_add_def Let_def)
  qed
qed

lemma log_add_facts:
  assumes "log_wf l" "log_open l" "home l f"
  shows "log_wf (log_add f l)" "set (logged (log_add f l)) = insert f (set (logged l))"
    "lstart (log_add f l) = lstart l" "ldev (log_add f l) = ldev l" "lsize (log_add f l) = lsize l"
    "outstanding (log_add f l) = outstanding l" "committing (log_add f l) = committing l"
    "lhn l \<le> lhn (log_add f l)" "lhn (log_add f l) \<le> lhn l + 1"
proof -
  have n: "0 \<le> lhn l" "nat (lhn l) < LOGSIZE" "length (lhblock l) = LOGSIZE" "nat (lhn l + 1) = Suc (nat (lhn l))"
    using assms(1) by (auto simp: log_wf_def)
  have "take (Suc (nat (lhn l))) ((lhblock l)[nat (lhn l) := f]) = logged l @ [f]"
    using n by (simp add: take_Suc_conv_app_nth)
  then have t: "f \<notin> set (logged l) \<Longrightarrow> logged (log_add f l) = logged l @ [f]" using n(4) by (simp add: log_add_def)
  show s: "set (logged (log_add f l)) = insert f (set (logged l))"
  proof (cases "f \<in> set (logged l)")
    case True
    then show ?thesis by (auto simp: log_add_def)
  qed (simp add: t)
  show "log_wf (log_add f l)"
  proof (cases "f \<in> set (logged l)")
    case False
    then show ?thesis using assms t[OF False] n unfolding log_wf_def t[OF False] by (auto simp: log_add_def log_open_def home_def)
  qed (use assms in \<open>simp add: log_add_def\<close>)
qed (use assms in \<open>auto simp: log_add_def\<close>)

text \<open>\<open>updated pid f x s s'\<close>: one logged update of the block \<open>f\<close>.\<close>

definition updated :: "u32 \<Rightarrow> u32 \<Rightarrow> block \<Rightarrow> fsys \<Rightarrow> fsys \<Rightarrow> bool" where
  "updated pid f x s s' \<longleftrightarrow> log_inv pid s' \<and> lg s' = log_add f (lg s)
     \<and> disk (bc s') = disk (bc s) \<and> wtrace (bc s') = wtrace (bc s)
     \<and> (\<forall>e g. e \<noteq> 0 \<longrightarrow> view (bc s') e g = (if (e, g) = (ldev (lg s), f) then x else view (bc s) e g))"

lemma log_room: "log_inv pid s \<Longrightarrow> room {} (bc s)"
  using room_keys[of pid "{}" "bc s" "ldev (lg s)" "set (logged (lg s))"] card_logged[of "lg s"]
  by (auto simp: log_inv_def dirty_in_def)

lemma log_update_spec:
  assumes inv: "log_inv pid s" and op: "log_open (lg s)" and f: "home (lg s) f"
  obtains s' where "log_update pid (ldev (lg s)) f g s = Inr s'"
    "updated pid f (g (view (bc s) (ldev (lg s)) f)) s s'"
proof -
  let ?l = "lg s" and ?d = "ldev (lg s)" and ?b = "bc s"
  have wf: "log_wf ?l" and ok: "bio_ok pid {} ?b" and d: "?d \<noteq> 0" and fs: "f < FSSIZE"
    and dk: "\<And>e f. e \<noteq> 0 \<Longrightarrow> dirty_key ?b e f = (e = ?d \<and> f \<in> set (logged ?l))"
    and hd: "get32 (disk ?b ?d (lstart ?l)) 0 = 0" "length (disk ?b ?d (lstart ?l)) = BSIZE"
    using inv f by (auto simp: log_inv_def log_wf_def home_def)
  have rm: "room {} ?b \<or> (\<exists>i < NBUF. has_key ?d f (bufs ?b ! i))" using log_room[OF inv] by blast
  obtain i b1 where r: "bread pid ?d f ?b = Inr (i, b1)" "bread_post pid {} ?d f ?b i b1"
    by (rule bread_ok[OF ok d fs _ rm]) simp_all
  note p1 = r(2)[unfolded bread_post_def]
  have ok1: "bio_ok pid {i} b1" and k1: "has_key ?d f (bufs b1 ! i)" "is_valid (bufs b1 ! i)"
    and x: "data (bufs b1 ! i) = view ?b ?d f" and iN: "i < NBUF" using p1 by simp_all
  let ?x = "g (view ?b ?d f)" and ?c = "(bufs b1 ! i)\<lparr>data := g (view (bc s) (ldev (lg s)) f), flags := flags (bufs b1 ! i) OR B_DIRTY\<rparr>"
  define b2 where "b2 = b1\<lparr>bufs := (bufs b1)[i := ?c]\<rparr>"
  have L: "i < length (bufs b1)" using bio_okD(1)[OF ok1] iN by simp
  have c: "has_key ?d f ?c" "buf_ok pid True ?c" "bnext ?c = bnext (bufs b1 ! i)" "bprev ?c = bprev (bufs b1 ! i)"
    "is_valid ?c" "is_dirty ?c"
    using k1 d bio_okD(4)[OF ok1 iN] by (auto simp: has_key_def buf_ok_def valid_dirty_bits bit_or_iff bit_flag)
  have e2: "b2 = b1\<lparr>bufs := (bufs b1)[i := ?c], disk := disk b1, wtrace := wtrace b1\<rparr>" by (simp add: b2_def)
  note h = held_upd[OF ok1 insertI1 d k1(1) c(1-5) _ e2]
  have b2i: "bufs b2 ! i = ?c" using L by (simp add: b2_def)
  obtain b3 where b3: "brelse pid i b2 = Inr b3" "brelse_post pid {i} i b2 b3"
    by (rule brelse_ok[OF h(1) insertI1]) (simp_all add: b2i coherent_def c(6))
  note p3 = b3(2)[unfolded brelse_post_def]
  have la: "0 \<le> lhn ?l" "length (lhblock ?l) = LOGSIZE" using wf by (simp_all add: log_wf_def)
  have lw: "log_write i (s\<lparr>bc := set_data i ?x b1\<rparr>) = Inr (s\<lparr>bc := b2, lg := log_add f ?l\<rparr>)"
    using log_write_open[of "s\<lparr>bc := set_data i ?x b1\<rparr>" i] op la k1(1) L
    by (simp add: set_data_def upd_buf_def b2_def has_key_def)
  have run: "log_update pid ?d f g s = Inr (s\<lparr>bc := b3, lg := log_add f ?l\<rparr>)"
    using r(1) lw b3(1) by (simp add: log_update_def x)
  note la = log_add_facts[OF wf op f]
  have v: "view b3 e n = (if (e, n) = (?d, f) then ?x else view ?b e n)" if "e \<noteq> 0" for e n
    using h(2)[of e n] that p1 p3 by simp
  have dk3: "dirty_key b3 e n = (e = ?d \<and> n \<in> set (logged (log_add f ?l)))" if "e \<noteq> 0" for e n
    using h(3)[of e n] that p1 p3 dk[OF that] c(6) la(2) by auto
  have dd: "disk b3 = disk ?b" "wtrace b3 = wtrace ?b" "bio_ok pid {} b3" using p1 p3 by (simp_all add: b2_def)
  have "updated pid f ?x s (s\<lparr>bc := b3, lg := log_add f ?l\<rparr>)"
    unfolding updated_def log_inv_def using v dk3 dd hd la by simp
  with run show ?thesis by (rule that)
qed
text \<open>An operation of the file system as the log sees it: block updates between \<^verbatim>\<open>begin_op\<close> and \<^verbatim>\<open>end_op\<close>.\<close>

fun log_updates :: "u32 \<Rightarrow> u32 \<Rightarrow> (u32 \<times> block) list \<Rightarrow> fsys \<Rightarrow> fsys res" where
  "log_updates pid dev [] s = Inr s"
| "log_updates pid dev ((n, x) # us) s = rbind (log_update pid dev n (\<lambda>_. x) s) (log_updates pid dev us)"

definition transaction :: "u32 \<Rightarrow> u32 \<Rightarrow> (u32 \<times> block) list \<Rightarrow> fsys \<Rightarrow> fsys res" where
  "transaction pid dev us s = rbind (begin_op s) (\<lambda>s1. rbind (log_updates pid dev us s1) (end_op pid))"

definition log_idle :: "u32 \<Rightarrow> fsys \<Rightarrow> bool" where
  "log_idle pid s \<longleftrightarrow> log_inv pid s \<and> lhn (lg s) = 0 \<and> outstanding (lg s) = 0 \<and> \<not> committing (lg s) \<and> lsize (lg s) = of_nat LOGSIZE"

fun write_all :: "(u32 \<times> block) list \<Rightarrow> (u32 \<Rightarrow> block) \<Rightarrow> u32 \<Rightarrow> block" where
  "write_all [] v = v"
| "write_all ((n, x) # us) v = write_all us (v(n := x))"

lemma updatedD:
  assumes "updated pid f x s s'"
  shows "log_inv pid s'" "lg s' = log_add f (lg s)" "disk (bc s') = disk (bc s)" "wtrace (bc s') = wtrace (bc s)"
    "ldev (lg s) \<noteq> 0 \<Longrightarrow> view (bc s') (ldev (lg s)) = (view (bc s) (ldev (lg s)))(f := x)"
  using assms by (auto simp: updated_def)

lemma log_updates_spec:
  assumes "log_inv pid s" "1 \<le> outstanding (lg s)" "lsize (lg s) = of_nat LOGSIZE"
    "lhn (lg s) + int (length us) < int LOGSIZE" "\<forall>(f, x) \<in> set us. home (lg s) f"
  shows "\<exists>s'. log_updates pid (ldev (lg s)) us s = Inr s' \<and> log_inv pid s' \<and>
    disk (bc s') = disk (bc s) \<and> wtrace (bc s') = wtrace (bc s) \<and>
    view (bc s') (ldev (lg s)) = write_all us (view (bc s) (ldev (lg s))) \<and>
    set (logged (lg s')) = set (logged (lg s)) \<union> fst ` set us \<and>
    lstart (lg s') = lstart (lg s) \<and> ldev (lg s') = ldev (lg s) \<and> lsize (lg s') = lsize (lg s) \<and>
    outstanding (lg s') = outstanding (lg s) \<and> committing (lg s') = committing (lg s)"
  using assms
proof (induction us arbitrary: s)
  case (Cons u us)
  obtain f x where u: "u = (f, x)" by fastforce
  have op: "log_open (lg s)" and f: "home (lg s) f" and wf: "log_wf (lg s)" "ldev (lg s) \<noteq> 0"
    using Cons.prems u by (auto simp: log_open_def log_inv_def log_wf_def)
  obtain s1 where s1: "log_update pid (ldev (lg s)) f (\<lambda>_. x) s = Inr s1" "updated pid f x s s1"
    using log_update_spec[OF Cons.prems(1) op f, of "\<lambda>_. x"] by auto
  note p = updatedD[OF s1(2)]
  note la = log_add_facts[OF wf(1) op f, folded p(2)]
  have hm: "home (lg s1) g = home (lg s) g" for g by (simp add: home_def la(3))
  from Cons.IH[OF p(1)] Cons.prems(2-5) la(4-9) u obtain s2 where s2:
    "log_updates pid (ldev (lg s1)) us s1 = Inr s2" "log_inv pid s2" "disk (bc s2) = disk (bc s1)" "wtrace (bc s2) = wtrace (bc s1)"
    "view (bc s2) (ldev (lg s1)) = write_all us (view (bc s1) (ldev (lg s1)))"
    "set (logged (lg s2)) = set (logged (lg s1)) \<union> fst ` set us"
    "lstart (lg s2) = lstart (lg s1)" "ldev (lg s2) = ldev (lg s1)" "lsize (lg s2) = lsize (lg s1)"
    "outstanding (lg s2) = outstanding (lg s1)" "committing (lg s2) = committing (lg s1)"
    by (auto simp: hm)
  then show ?case using s1(1) u la p(3-5) wf(2) by auto
qed simp

lemma commit_idle:
  assumes inv: "log_inv pid s" and pos: "0 < lhn (lg s)"
    and T: "T = commit_trace (lg s) (view (bc s) (ldev (lg s))) (disk (bc s) (ldev (lg s)) (lstart (lg s)))"
  obtains s' where "commit pid s = Inr s'" "log_inv pid s'" "lg s' = (lg s)\<lparr>lhn := 0\<rparr>"
    "wtrace (bc s') = wtrace (bc s) @ T" "disk (bc s') = apply_writes T (disk (bc s))"
proof -
  let ?l = "lg s" and ?z = "(lg s)\<lparr>lhn := 0\<rparr>" and ?d = "ldev (lg s)"
  define h where "h = disk (bc s) ?d (lstart ?l)"
  obtain b v where b: "commit pid s = Inr \<lparr>bc = b, lg = ?z\<rparr>" "phase pid s T {} v b"
    unfolding T by (rule commit_spec[OF inv pos])
  note p = phaseD[OF b(2)]
  have wf: "log_wf ?l" "0 \<le> lhn ?l" "lhn ?l \<le> int LOGSIZE" "length (lhblock ?l) = LOGSIZE" "length h = BSIZE"
    using inv by (auto simp: log_inv_def log_wf_def h_def)
  have "length (head_block ?l h) = BSIZE" by (rule head_block_decode(3)[OF wf(5,2-4)])
  then have z: "sint (get32 (head_block ?z (head_block ?l h)) 0) = 0" "length (head_block ?z (head_block ?l h)) = BSIZE"
    using head_block_decode(1,3)[of "head_block ?l h" ?z] wf by simp_all
  have z0: "get32 (head_block ?z (head_block ?l h)) 0 = 0" using z(1) by (metis sint_0 signed_word_eqI)
  have "disk b ?d (lstart ?l) = head_block ?z (head_block ?l h)"
    using p(3) unfolding T commit_trace_def h_def[symmetric] by (simp add: write_block_def)
  then have "get32 (disk b ?d (lstart ?l)) 0 = 0" "length (disk b ?d (lstart ?l)) = BSIZE" using z z0 by simp_all
  then have "log_inv pid \<lparr>bc = b, lg = ?z\<rparr>" using log_wf_empty[OF wf(1)] p(1,4) by (simp add: log_inv_def)
  then show ?thesis using b(1) p(2,3) by (intro that[of "\<lparr>bc = b, lg = ?z\<rparr>"]) simp_all
qed

text \<open>C1. A transaction is atomic across crashes. Take an idle log, an operation that logs at most
  \<^verbatim>\<open>MAXOPBLOCKS\<close> blocks of the file system, and a superblock that the operation does not touch. The operation ends with the
  log idle again, and for every prefix of the block writes that it sent to the disk, booting from the disk
  with only these writes done and running \<^verbatim>\<open>initlog\<close> yields the old contents of every block outside the log, or
  the contents with all updates done; the switch happens at the write of the header.\<close>

theorem transaction_crash_atomic:
  assumes idle: "log_idle pid s" and us: "us \<noteq> []" "length us \<le> MAXOPBLOCKS" "\<forall>(f, x) \<in> set us. home (lg s) f \<and> f \<noteq> 1"
    and sb: "sb_logstart (decode_sb (disk (bc s) (ldev (lg s)) 1)) = lstart (lg s)" "home (lg s) 1"
  shows "\<exists>s' T. transaction pid (ldev (lg s)) us s = Inr s' \<and> log_idle pid s' \<and>
    wtrace (bc s') = wtrace (bc s) @ T \<and> disk (bc s') = apply_writes T (disk (bc s)) \<and>
    (\<forall>k. \<exists>r. initlog pid' (ldev (lg s)) (boot_fsys (apply_writes (take k T) (disk (bc s)))) = Inr r \<and>
      (\<forall>f. home (lg s) f \<longrightarrow> disk (bc r) (ldev (lg s)) f =
        (if k \<le> card (fst ` set us) then disk (bc s) (ldev (lg s)) f else write_all us (disk (bc s) (ldev (lg s))) f)))"
proof -
  let ?d = "ldev (lg s)" and ?v = "write_all us (disk (bc s) (ldev (lg s)))"
  have i: "log_inv pid s" "lhn (lg s) = 0" "outstanding (lg s) = 0" "\<not> committing (lg s)" "lsize (lg s) = of_nat LOGSIZE"
    using idle by (auto simp: log_idle_def)
  have d: "?d \<noteq> 0" using i(1) by (simp add: log_inv_def log_wf_def)
  have "view (bc s) ?d f = disk (bc s) ?d f" for f
    using i(1,2) d view_not_dirty[of pid "bc s" ?d f] by (simp add: log_inv_def)
  then have v0: "view (bc s) ?d = disk (bc s) ?d" by blast
  define s1 where "s1 = s\<lparr>lg := (lg s)\<lparr>outstanding := 1\<rparr>\<rparr>"
  have b: "begin_op s = Inr s1" using i by (simp add: begin_op_def s1_def)
  have inv1: "log_inv pid s1" using i(1) by (simp add: log_inv_def log_wf_def home_def s1_def)
  have "home (lg s1) f = home (lg s) f" for f by (simp add: home_def s1_def)
  then have "\<forall>(f, x) \<in> set us. home (lg s1) f" using us(3) by auto
  with log_updates_spec[OF inv1, of us] us(2) i obtain s2 where s2: "log_updates pid ?d us s1 = Inr s2" "log_inv pid s2"
    "disk (bc s2) = disk (bc s)" "wtrace (bc s2) = wtrace (bc s)" "view (bc s2) ?d = ?v"
    "set (logged (lg s2)) = fst ` set us" "lstart (lg s2) = lstart (lg s)" "ldev (lg s2) = ?d" "lsize (lg s2) = lsize (lg s)"
    "outstanding (lg s2) = 1" "\<not> committing (lg s2)" by (auto simp: s1_def v0)
  define s3 where "s3 = s2\<lparr>lg := (lg s2)\<lparr>outstanding := 0, committing := True\<rparr>\<rparr>"
  have inv3: "log_inv pid s3" using s2(2) by (simp add: log_inv_def log_wf_def home_def s3_def)
  have lgd: "set (logged (lg s3)) = fst ` set us" "distinct (logged (lg s3))" "length (lhblock (lg s3)) = LOGSIZE"
     "0 \<le> lhn (lg s3)" "lhn (lg s3) < int LOGSIZE"
    using s2(6) inv3 by (simp_all add: s3_def log_inv_def log_wf_def)
  have n: "nat (lhn (lg s3)) = card (fst ` set us)"
    using distinct_card[OF lgd(2)] lgd by simp
  have pos: "0 < lhn (lg s3)" using n us(1) lgd(4) by (cases "lhn (lg s3) = 0") (auto simp: card_eq_0_iff)
  define T where "T = commit_trace (lg s3) (view (bc s3) (ldev (lg s3))) (disk (bc s3) (ldev (lg s3)) (lstart (lg s3)))"
  obtain s4 where s4: "commit pid s3 = Inr s4" "log_inv pid s4" "lg s4 = (lg s3)\<lparr>lhn := 0\<rparr>"
    "wtrace (bc s4) = wtrace (bc s3) @ T" "disk (bc s4) = apply_writes T (disk (bc s3))"
    by (rule commit_idle[OF inv3 pos T_def])
  define s5 where "s5 = s4\<lparr>lg := (lg s4)\<lparr>committing := False\<rparr>\<rparr>"
  have "end_op pid s2 = Inr s5" using s2(10,11) s4(1) by (simp add: end_op_def Let_def s3_def s5_def)
  then have run: "transaction pid ?d us s = Inr s5" using b s2(1) by (simp add: transaction_def)
  have "log_idle pid s5" using s4(2,3) s2(9) i(5) by (simp add: log_idle_def s5_def s3_def log_inv_def log_wf_def home_def)
  moreover have hm: "home (lg s3) f = home (lg s) f" for f by (simp add: home_def s3_def s2(7))
  have e3: "disk (bc s3) = disk (bc s)" "view (bc s3) ?d = ?v" "ldev (lg s3) = ?d" "lstart (lg s3) = lstart (lg s)"
    using s2 by (simp_all add: s3_def)
  have "sb_logstart (decode_sb (disk (bc s3) (ldev (lg s3)) 1)) = lstart (lg s3)" "home (lg s3) 1" "1 \<notin> set (logged (lg s3))"
    unfolding e3 hm lgd(1) using sb us(3) by auto
  note rec = crash_recovery[OF inv3 this T_def, unfolded e3 n hm]
  have "\<exists>r. initlog pid' ?d (boot_fsys (apply_writes (take k T) (disk (bc s)))) = Inr r \<and>
      (\<forall>f. home (lg s) f \<longrightarrow> disk (bc r) ?d f = (if k \<le> card (fst ` set us) then disk (bc s) ?d f else ?v f))" for k
    by (rule rec)
  ultimately show ?thesis using run s4(4,5) s2(3,4) by (intro exI[of _ s5] exI[of _ T]) (simp add: s5_def s3_def)
qed
definition demo_disk :: disk where
  "demo_disk d b = (if b = 1 then put32 (replicate BSIZE 0) 16 2 else replicate BSIZE 0)"

definition demo_fsys :: fsys where
  "demo_fsys = \<lparr>bc = boot_bio demo_disk, lg = \<lparr>lstart = 2, lsize = 30, outstanding = 0, committing = False, ldev = 1,
     lhn = 0, lhblock = replicate LOGSIZE 0\<rparr>\<rparr>"

lemma demo_idle: "log_idle pid demo_fsys"
  unfolding log_idle_def log_inv_def demo_fsys_def
  by (simp add: boot_bio_ok log_wf_def demo_disk_def get32_def)

theorem transaction_crash_atomic_witness:
  "\<exists>s' T. transaction 5 1 [(40, [7]), (50, [8]), (40, [9])] demo_fsys = Inr s' \<and> log_idle 5 s' \<and>
    wtrace (bc s') = wtrace (bc demo_fsys) @ T \<and> disk (bc s') = apply_writes T (disk (bc demo_fsys)) \<and>
    (\<forall>k. \<exists>r. initlog 3 1 (boot_fsys (apply_writes (take k T) (disk (bc demo_fsys)))) = Inr r \<and>
      (\<forall>f. home (lg demo_fsys) f \<longrightarrow> disk (bc r) 1 f =
        (if k \<le> card (fst ` set [(40 :: u32, [7 :: u8]), (50, [8]), (40, [9])]) then disk (bc demo_fsys) 1 f
         else write_all [(40, [7]), (50, [8]), (40, [9])] (disk (bc demo_fsys) 1) f)))"
proof -
  have d: "ldev (lg demo_fsys) = 1" "disk (bc demo_fsys) = demo_disk" by (simp_all add: demo_fsys_def boot_bio_ok)
  show ?thesis
    using transaction_crash_atomic[OF demo_idle, of "[(40, [7]), (50, [8]), (40, [9])]" 5 3]
    unfolding d by (simp add: demo_fsys_def home_def FSSIZE_def demo_disk_def decode_sb_def)
qed

section \<open>The space that operations reserve\<close>

fun log_writes :: "nat list \<Rightarrow> fsys \<Rightarrow> fsys res" where
  "log_writes [] s = Inr s"
| "log_writes (i # is) s = rbind (log_write i s) (log_writes is)"

lemma log_writes_append: "log_writes (is @ js) s = rbind (log_writes is s) (log_writes js)"
  by (induction "is" arbitrary: s) (auto simp: rbind_def split: sum.splits)

lemma log_writes_open:
  assumes "1 \<le> outstanding (lg s)" "lsize (lg s) = of_nat LOGSIZE" "length (lhblock (lg s)) = LOGSIZE" "0 \<le> lhn (lg s)"
    "lhn (lg s) + int (length is) < int LOGSIZE" "distinct (map (\<lambda>i. blockno (bufs (bc s) ! i)) is)"
    "\<forall>i \<in> set is. blockno (bufs (bc s) ! i) \<notin> set (logged (lg s))"
  shows "\<exists>s'. log_writes is s = Inr s' \<and> lhn (lg s') = lhn (lg s) + int (length is) \<and> lsize (lg s') = lsize (lg s)"
  using assms
proof (induction "is" arbitrary: s)
  case (Cons i "is")
  let ?f = "blockno (bufs (bc s) ! i)"
  define s1 where "s1 = s\<lparr>lg := log_add ?f (lg s), bc := upd_buf i (\<lambda>b. b\<lparr>flags := flags b OR B_DIRTY\<rparr>) (bc s)\<rparr>"
  have op: "log_open (lg s)" using Cons.prems by (simp add: log_open_def)
  have 1: "log_write i s = Inr s1" unfolding s1_def by (rule log_write_open[OF op Cons.prems(4,3)])
  have l1: "lg s1 = (lg s)\<lparr>lhblock := (lhblock (lg s))[nat (lhn (lg s)) := ?f], lhn := lhn (lg s) + 1\<rparr>"
    using Cons.prems(7) by (simp add: s1_def log_add_def)
  have bn: "blockno (bufs (bc s1) ! j) = blockno (bufs (bc s) ! j)" for j
    by (cases "i = j"; cases "i < length (bufs (bc s))") (simp_all add: s1_def upd_buf_def list_update_beyond)
  have "nat (lhn (lg s) + 1) = Suc (nat (lhn (lg s)))" using Cons.prems(4) by simp
  then have t: "logged (lg s1) = logged (lg s) @ [?f]"
    using Cons.prems(3,4,5) by (simp add: l1 take_Suc_conv_app_nth)
  have "\<exists>s'. log_writes is s1 = Inr s' \<and> lhn (lg s') = lhn (lg s1) + int (length is) \<and> lsize (lg s') = lsize (lg s1)"
  proof (rule Cons.IH)
    show "\<forall>j \<in> set is. blockno (bufs (bc s1) ! j) \<notin> set (logged (lg s1))"
      unfolding t bn using Cons.prems(6,7) by (auto simp: image_iff)
  qed (use Cons.prems in \<open>auto simp: l1 bn\<close>)
  then show ?case using 1 l1 by auto
qed simp

text \<open>C34. The reservation of \<^verbatim>\<open>begin_op\<close> is one block too generous for a log of \<^verbatim>\<open>LOGSIZE\<close> blocks, the size that
  \<^verbatim>\<open>mkfs\<close> makes: it admits three operations at once, and if each of them logs the \<^verbatim>\<open>MAXOPBLOCKS\<close> blocks that it
  is entitled to, the last \<^verbatim>\<open>log_write\<close> panics.\<close>

theorem three_operations_overflow_log:
  assumes "lhn (lg s) = 0" "outstanding (lg s) = 0" "\<not> committing (lg s)" "lsize (lg s) = of_nat LOGSIZE"
    "length (lhblock (lg s)) = LOGSIZE"
    "length is = 3 * MAXOPBLOCKS" "distinct (map (\<lambda>i. blockno (bufs (bc s) ! i)) is)"
  shows "rbind (rbind (rbind (begin_op s) begin_op) begin_op) (log_writes is) = Inl (Panic ''too big a transaction'')
    \<and> (\<exists>s'. rbind (rbind (rbind (begin_op s) begin_op) begin_op) (log_writes (butlast is)) = Inr s')"
proof -
  define s3 where "s3 = s\<lparr>lg := (lg s)\<lparr>outstanding := 3\<rparr>\<rparr>"
  have b: "rbind (rbind (begin_op s) begin_op) begin_op = Inr s3" using assms(1-4) by (simp add: begin_op_def s3_def)
  obtain js i where ji: "is = js @ [i]" using assms(6) by (cases "is" rule: rev_cases) auto
  have "\<exists>s'. log_writes js s3 = Inr s' \<and> lhn (lg s') = lhn (lg s3) + int (length js) \<and> lsize (lg s') = lsize (lg s3)"
    using assms ji by (intro log_writes_open) (auto simp: s3_def)
  then obtain s' where s': "log_writes js s3 = Inr s'" "lhn (lg s') = 29" "lsize (lg s') = of_nat LOGSIZE"
    using assms ji by (auto simp: s3_def)
  then have "log_write i s' = Inl (Panic ''too big a transaction'')" by (simp add: log_write_def sint_u32 Let_def)
  then show ?thesis using s'(1) b ji by (simp add: log_writes_append)
qed

definition demo_buffers :: bio where
  "demo_buffers = \<lparr>bufs = map (\<lambda>i. zero_buf\<lparr>blockno := of_nat i\<rparr>) [0..<31], disk = demo_disk, wtrace = [], havedisk = True\<rparr>"

theorem three_operations_overflow_log_witness:
  "rbind (rbind (rbind (begin_op (demo_fsys\<lparr>bc := demo_buffers\<rparr>)) begin_op) begin_op) (log_writes [0..<30]) =
      Inl (Panic ''too big a transaction'') \<and>
    (\<exists>s'. rbind (rbind (rbind (begin_op (demo_fsys\<lparr>bc := demo_buffers\<rparr>)) begin_op) begin_op) (log_writes (butlast [0..<30])) = Inr s')"
proof -
  have "map (\<lambda>i. blockno (bufs demo_buffers ! i)) [0..<30] = map of_nat [0..<30]"
    by (intro map_cong refl) (simp add: demo_buffers_def del: upt_Suc)
  moreover have "inj_on (of_nat :: nat \<Rightarrow> u32) {0..<30}"
    by (rule inj_on_inverseI[of _ unat]) (simp add: unat_of_nat_u32)
  then have "distinct (map (of_nat :: nat \<Rightarrow> u32) [0..<30])" by (simp add: distinct_map del: upt_Suc)
  ultimately have "distinct (map (\<lambda>i. blockno (bufs demo_buffers ! i)) [0..<30])" by metis
  then show ?thesis
    by (intro three_operations_overflow_log) (simp_all add: demo_fsys_def del: upt_Suc)
qed

end
