(* ===== verification/Cstring.thy ===== *)
theory Cstring
  imports Prelude
begin

text \<open>
  The byte and string routines of the kernel (\<^verbatim>\<open>src/src/string.c\<close>) and of the user library
  (\<^verbatim>\<open>src/src/ulib.c\<close>, lines 6 to 102).

  Routines that write take the memory and return it; a loop that counts down is recursion on the
  count. A routine that only reads takes the stream of bytes its pointer argument points at
  (\<open>p 0\<close> is \<^verbatim>\<open>*p\<close>, \<open>p (Suc i)\<close> what \<^verbatim>\<open>p++\<close> reaches); a loop with no bound but a terminating NUL is a
  \<^theory_text>\<open>partial_function (option)\<close>, and the theorems about it prove that it returns.
\<close>

section \<open>Block writes and copies\<close>

text \<open>\<^verbatim>\<open>rep stosb\<close> and \<^verbatim>\<open>rep stosl\<close> of \<^verbatim>\<open>x86.h\<close>.\<close>

fun stosb :: "mem \<Rightarrow> u32 \<Rightarrow> u8 \<Rightarrow> nat \<Rightarrow> mem" where
  "stosb m a c 0 = m"
| "stosb m a c (Suc n) = stosb (m(a := c)) (a + 1) c n"

fun stosl :: "mem \<Rightarrow> u32 \<Rightarrow> u32 \<Rightarrow> nat \<Rightarrow> mem" where
  "stosl m a w 0 = m"
| "stosl m a w (Suc n) = stosl (store32 m a w) (a + 4) w n"

text \<open>The kernel's \<^verbatim>\<open>memset\<close> stores whole words when the address and the length allow it.\<close>

definition memset :: "mem \<Rightarrow> u32 \<Rightarrow> u32 \<Rightarrow> u32 \<Rightarrow> mem" where
  "memset m dst c n =
     (if dst mod 4 = 0 \<and> n mod 4 = 0
      then let c = c AND 0xFF in
        stosl m dst (push_bit 24 c OR push_bit 16 c OR push_bit 8 c OR c) (unat (n div 4))
      else stosb m dst (ucast c) (unat n))"

definition ulib_memset :: "mem \<Rightarrow> u32 \<Rightarrow> u32 \<Rightarrow> u32 \<Rightarrow> mem" where
  "ulib_memset m dst c n = stosb m dst (ucast c) (unat n)"

text \<open>The two copying loops of \<^verbatim>\<open>memmove\<close>.\<close>

fun copy_up :: "mem \<Rightarrow> u32 \<Rightarrow> u32 \<Rightarrow> nat \<Rightarrow> mem" where
  "copy_up m d s 0 = m"
| "copy_up m d s (Suc n) = copy_up (m(d := m s)) (d + 1) (s + 1) n"

fun copy_down :: "mem \<Rightarrow> u32 \<Rightarrow> u32 \<Rightarrow> nat \<Rightarrow> mem" where
  "copy_down m d s 0 = m"
| "copy_down m d s (Suc n) = copy_down (m(d - 1 := m (s - 1))) (d - 1) (s - 1) n"

definition memmove :: "mem \<Rightarrow> u32 \<Rightarrow> u32 \<Rightarrow> u32 \<Rightarrow> mem" where
  "memmove m dst src n =
     (if src < dst \<and> src + n > dst
      then copy_down m (dst + n) (src + n) (unat n)
      else copy_up m dst src (unat n))"

definition memcpy :: "mem \<Rightarrow> u32 \<Rightarrow> u32 \<Rightarrow> u32 \<Rightarrow> mem" where
  "memcpy m dst src n = memmove m dst src n"

text \<open>The user library's \<^verbatim>\<open>memmove\<close> always copies upwards; its count is a signed \<^verbatim>\<open>int\<close>.\<close>

definition ulib_memmove :: "mem \<Rightarrow> u32 \<Rightarrow> u32 \<Rightarrow> u32 \<Rightarrow> mem" where
  "ulib_memmove m vdst vsrc n = copy_up m vdst vsrc (nat (sint n))"

section \<open>Strings\<close>

type_synonym bytes_at = "nat \<Rightarrow> u8"

abbreviation advance :: "bytes_at \<Rightarrow> bytes_at" where
  "advance p \<equiv> \<lambda>i. p (Suc i)"

definition ptr :: "mem \<Rightarrow> u32 \<Rightarrow> bytes_at" where
  "ptr m a i = m (a + of_nat i)"

fun memcmp :: "bytes_at \<Rightarrow> bytes_at \<Rightarrow> nat \<Rightarrow> int" where
  "memcmp s1 s2 0 = 0"
| "memcmp s1 s2 (Suc n) =
     (if s1 0 \<noteq> s2 0 then uint (s1 0) - uint (s2 0) else memcmp (advance s1) (advance s2) n)"

fun strncmp :: "bytes_at \<Rightarrow> bytes_at \<Rightarrow> nat \<Rightarrow> int" where
  "strncmp p q 0 = 0"
| "strncmp p q (Suc n) =
     (if p 0 \<noteq> 0 \<and> p 0 = q 0 then strncmp (advance p) (advance q) n
      else uint (p 0) - uint (q 0))"

text \<open>\<^verbatim>\<open>strncpy\<close>: the copying loop stops after the NUL or after \<open>n\<close> bytes, the second loop pads.\<close>

fun strncpy :: "mem \<Rightarrow> u32 \<Rightarrow> bytes_at \<Rightarrow> nat \<Rightarrow> mem" where
  "strncpy m s t 0 = m"
| "strncpy m s t (Suc n) =
     (let m' = m(s := t 0) in
      if t 0 \<noteq> 0 then strncpy m' (s + 1) (advance t) n
      else stosb m' (s + 1) 0 n)"

fun safestrcpy_loop :: "mem \<Rightarrow> u32 \<Rightarrow> bytes_at \<Rightarrow> nat \<Rightarrow> mem \<times> u32" where
  "safestrcpy_loop m s t 0 = (m, s)"
| "safestrcpy_loop m s t (Suc k) =
     (let m' = m(s := t 0) in
      if t 0 \<noteq> 0 then safestrcpy_loop m' (s + 1) (advance t) k else (m', s + 1))"

text \<open>The loop condition is \<^verbatim>\<open>--n > 0\<close>, so it runs at most \<open>n - 1\<close> times; \<^verbatim>\<open>*s = 0\<close> follows.\<close>

definition safestrcpy :: "mem \<Rightarrow> u32 \<Rightarrow> bytes_at \<Rightarrow> int \<Rightarrow> mem" where
  "safestrcpy m s t n =
     (if n \<le> 0 then m
      else let (m', s') = safestrcpy_loop m s t (nat (n - 1)) in m'(s' := 0))"

partial_function (option) strlen_from :: "bytes_at \<Rightarrow> nat \<Rightarrow> nat option" where
  "strlen_from s n = (if s n = 0 then Some n else strlen_from s (Suc n))"

definition strlen :: "bytes_at \<Rightarrow> nat option" where
  "strlen s = strlen_from s 0"

partial_function (option) strcpy :: "mem \<Rightarrow> u32 \<Rightarrow> bytes_at \<Rightarrow> mem option" where
  "strcpy m s t =
     (if t 0 = 0 then Some (m(s := t 0)) else strcpy (m(s := t 0)) (s + 1) (advance t))"

partial_function (option) strcmp :: "bytes_at \<Rightarrow> bytes_at \<Rightarrow> int option" where
  "strcmp p q =
     (if p 0 \<noteq> 0 \<and> p 0 = q 0 then strcmp (advance p) (advance q)
      else Some (uint (p 0) - uint (q 0)))"

text \<open>\<^verbatim>\<open>strchr\<close> returns the offset of the first occurrence, \<open>Some None\<close> for the null pointer.\<close>

partial_function (option) strchr_from :: "bytes_at \<Rightarrow> u8 \<Rightarrow> nat \<Rightarrow> nat option option" where
  "strchr_from s c i =
     (if s i = 0 then Some None
      else if s i = c then Some (Some i)
      else strchr_from s c (Suc i))"

definition strchr :: "bytes_at \<Rightarrow> u8 \<Rightarrow> nat option option" where
  "strchr s c = strchr_from s c 0"

text \<open>\<^verbatim>\<open>atoi\<close> accumulates in an \<^verbatim>\<open>int\<close>; characters are signed, so only the ten digits pass the test.\<close>

partial_function (option) atoi_from :: "bytes_at \<Rightarrow> u32 \<Rightarrow> u32 option" where
  "atoi_from s n =
     (if 48 \<le> sint (s 0) \<and> sint (s 0) \<le> 57
      then atoi_from (advance s) (n * 10 + scast (s 0) - 48)
      else Some n)"

definition atoi :: "bytes_at \<Rightarrow> u32 option" where
  "atoi s = atoi_from s 0"

text \<open>\<^verbatim>\<open>gets\<close>: \<open>inp\<close> is what successive \<^verbatim>\<open>read(0, &c, 1)\<close> calls deliver; the input is exhausted when a
  call returns less than one byte. The result is the buffer contents before the NUL that is stored
  after them, and the unread input.\<close>

fun gets_loop :: "nat \<Rightarrow> u8 list \<Rightarrow> u8 list \<times> u8 list" where
  "gets_loop 0 inp = ([], inp)"
| "gets_loop (Suc k) [] = ([], [])"
| "gets_loop (Suc k) (c # inp) =
     (if c = 10 \<or> c = 13 then ([c], inp)
      else let (b, rest) = gets_loop k inp in (c # b, rest))"

definition gets :: "int \<Rightarrow> u8 list \<Rightarrow> u8 list \<times> u8 list" where
  "gets mx inp = gets_loop (nat (mx - 1)) inp"

section \<open>Block operations write exactly their region\<close>

lemma stosb_at:
  "n \<le> 2 ^ 32 \<Longrightarrow> stosb m a c n x = (if unat (x - a) < n then c else m x)"
proof (induction n arbitrary: m a)
  case (Suc n)
  show ?case
  proof (cases "x = a")
    case True
    with Suc show ?thesis by simp
  next
    case False
    with Suc offset_Suc[OF False] show ?thesis by simp
  qed
qed simp

lemma stosb_add: "stosb m a c (j + k) = stosb (stosb m a c j) (a + of_nat j) c k"
  by (induction j arbitrary: m a) (simp_all add: algebra_simps)

lemma store32_rep:
  fixes c :: u32
  assumes "c = c AND 0xFF"
  shows "store32 m a (push_bit 24 c OR push_bit 16 c OR push_bit 8 c OR c) = stosb m a (ucast c) 4"
proof -
  have hi: "\<not> bit c n" if "8 \<le> n" for n
    using and_255_bit[of c n] assms that by simp
  have four: "stosb m a x 4 = m(a := x, a + 1 := x, a + 2 := x, a + 3 := x)" for x
    by (simp add: eval_nat_numeral algebra_simps)
  let ?w = "push_bit 24 c OR push_bit 16 c OR push_bit 8 c OR c"
  have b: "ucast ?w = (ucast c :: u8)" "ucast (drop_bit 8 ?w) = (ucast c :: u8)"
    "ucast (drop_bit 16 ?w) = (ucast c :: u8)" "ucast (drop_bit 24 ?w) = (ucast c :: u8)"
    by (rule bit_word_eqI;
        auto simp: bit_ucast_iff bit_or_iff bit_push_bit_iff bit_drop_bit_eq hi)+
  show ?thesis
    unfolding store32_def b by (simp add: four add.assoc)
qed

lemma stosl_rep:
  fixes c :: u32
  assumes "c = c AND 0xFF"
  shows "stosl m a (push_bit 24 c OR push_bit 16 c OR push_bit 8 c OR c) n
     = stosb m a (ucast c) (4 * n)"
proof (induction n arbitrary: m a)
  case (Suc n)
  have "4 * Suc n = 4 + 4 * n" by simp
  then show ?case by (simp only: stosl.simps store32_rep[OF assms] Suc.IH stosb_add) simp
qed simp

lemma memset_eq_stosb: "memset m dst c n = stosb m dst (ucast c) (unat n)"
proof (cases "dst mod 4 = 0 \<and> n mod 4 = 0")
  case True
  let ?c = "c AND 0xFF"
  have c: "?c = ?c AND 0xFF" by (simp add: and.assoc)
  have "ucast ?c = (ucast c :: u8)"
    by (rule bit_word_eqI) (auto simp: bit_ucast_iff and_255_bit)
  moreover have "4 * unat (n div 4) = unat n"
  proof -
    have "unat (n mod 4) = 0" using True by simp
    then have "unat n mod 4 = 0" by (simp add: unat_mod_distrib)
    then have "4 * (unat n div 4) = unat n" by presburger
    then show ?thesis by (simp add: unat_div_distrib)
  qed
  ultimately show ?thesis using True stosl_rep[OF c] by (simp add: memset_def Let_def)
qed (auto simp: memset_def)

lemma memset_at: "memset m dst c n x = (if x - dst < n then ucast c else m x)"
  using unat_less_2p32[of n] by (simp add: memset_eq_stosb stosb_at word_less_nat_alt)

lemma copy_up_at:
  assumes "n \<le> 2 ^ 32" and "\<And>i j. i < j \<Longrightarrow> j < n \<Longrightarrow> d + of_nat i \<noteq> s + of_nat j"
  shows "copy_up m d s n x = (if unat (x - d) < n then m (s + (x - d)) else m x)"
  using assms
proof (induction n arbitrary: m d s)
  case (Suc n)
  have sep: "d + 1 + of_nat i \<noteq> s + 1 + of_nat j" if "i < j" "j < n" for i j
    using Suc.prems(2)[of "Suc i" "Suc j"] that by (simp add: algebra_simps)
  have IH: "copy_up (m(d := m s)) (d + 1) (s + 1) n x =
      (if unat (x - (d + 1)) < n then (m(d := m s)) (s + 1 + (x - (d + 1))) else (m(d := m s)) x)"
    using Suc.IH[OF _ sep] Suc.prems(1) by simp
  show ?case
  proof (cases "x = d")
    case True
    with IH Suc.prems(1) show ?thesis by simp
  next
    case False
    have "s + (x - d) \<noteq> d" if "unat (x - (d + 1)) < n"
      using Suc.prems(2)[of 0 "unat (x - d)"] that offset_Suc[OF False] by auto
    with False IH offset_Suc[OF False] show ?thesis by auto
  qed
qed simp

lemma copy_down_at:
  assumes "n \<le> 2 ^ 32" and "\<And>i j. i < j \<Longrightarrow> j < n \<Longrightarrow> d + of_nat j \<noteq> s + of_nat i"
  shows "copy_down m (d + of_nat n) (s + of_nat n) n x
    = (if unat (x - d) < n then m (s + (x - d)) else m x)"
  using assms
proof (induction n arbitrary: m)
  case (Suc n)
  let ?m = "m(d + of_nat n := m (s + of_nat n))"
  have step: "copy_down m (d + of_nat (Suc n)) (s + of_nat (Suc n)) (Suc n)
      = copy_down ?m (d + of_nat n) (s + of_nat n) n"
    by (simp only: copy_down.simps of_nat_Suc) (simp add: algebra_simps)
  have IH: "copy_down ?m (d + of_nat n) (s + of_nat n) n x =
      (if unat (x - d) < n then ?m (s + (x - d)) else ?m x)"
    by (rule Suc.IH) (use Suc.prems in auto)
  have un: "unat (of_nat n :: u32) = n" using Suc.prems(1) by (simp add: unat_of_nat_u32)
  show ?case
  proof (cases "x = d + of_nat n")
    case True
    show ?thesis unfolding step IH by (simp add: True un)
  next
    case False
    have "unat (x - d) \<noteq> n"
    proof
      assume "unat (x - d) = n"
      then have "x - d = of_nat n" by auto
      with False show False by (simp add: algebra_simps)
    qed
    moreover have "s + (x - d) \<noteq> d + of_nat n" if "unat (x - d) < n"
      using Suc.prems(2)[of "unat (x - d)" n] that by auto
    ultimately show ?thesis unfolding step IH using False by auto
  qed
qed simp

lemma memmove_at:
  assumes "unat src + unat n < 2 ^ 32" and "unat dst + unat n < 2 ^ 32"
  shows "memmove m dst src n = (\<lambda>x. if x - dst < n then m (src + (x - dst)) else m x)"
proof (cases "src < dst \<and> src + n > dst")
  case True
  have "dst + of_nat j \<noteq> src + of_nat i" if "i < j" "j < unat n" for i j
  proof
    assume "dst + of_nat j = src + of_nat i"
    then have "unat (dst + of_nat j) = unat (src + of_nat i)" by simp
    with that assms have "unat dst + j = unat src + i"
      by (simp add: unat_add_noof unat_of_nat_u32)
    with True that show False by (simp add: word_less_nat_alt)
  qed
  with True copy_down_at[of "unat n" dst src m] unat_less_2p32[of n] show ?thesis
    by (auto simp: memmove_def word_less_nat_alt)
next
  case False
  have le: "dst \<le> src \<or> unat src + unat n \<le> unat dst"
    using False assms(1) by (auto simp: word_less_nat_alt word_le_nat_alt unat_add_noof)
  have "dst + of_nat i \<noteq> src + of_nat j" if "i < j" "j < unat n" for i j
  proof
    assume "dst + of_nat i = src + of_nat j"
    then have "unat (dst + of_nat i) = unat (src + of_nat j)" by simp
    with that assms have "unat dst + i = unat src + j"
      by (simp add: unat_add_noof unat_of_nat_u32)
    with le that show False by (auto simp: word_le_nat_alt)
  qed
  with False copy_up_at[of "unat n" dst src m] unat_less_2p32[of n] show ?thesis
    by (auto simp: memmove_def word_less_nat_alt)
qed

text \<open>C17. The kernel's \<^verbatim>\<open>memmove\<close> implements a copy of the whole source as it was before the call, for
  overlapping regions too, whenever neither region runs past the end of the address space: the
  comparison \<^verbatim>\<open>s < d && s + n > d\<close> picks a direction in which no source byte is overwritten before it
  is read.\<close>

theorem memmove_copies:
  assumes "unat src + unat n < 2 ^ 32" and "unat dst + unat n < 2 ^ 32"
  shows "memmove m dst src n = (\<lambda>x. if x - dst < n then m (src + (x - dst)) else m x)"
  using assms by (rule memmove_at)

theorem memmove_copies_witness:
  "memmove (\<lambda>a. ucast a) 11 10 5 = (\<lambda>x. if x - 11 < 5 then ucast (10 + (x - 11)) else ucast x)"
  using memmove_copies[of 10 5 11 "\<lambda>a. ucast a"] by simp

section \<open>NUL-terminated strings\<close>

text \<open>\<open>cstr p xs\<close>: \<open>p\<close> points at the string \<open>xs\<close> and its NUL. \<open>cname n p\<close>: the name held in an array of
  \<open>n\<close> bytes that need not be terminated, as \<^verbatim>\<open>strncmp\<close> reads it.\<close>

definition cstr :: "bytes_at \<Rightarrow> u8 list \<Rightarrow> bool" where
  "cstr p xs \<longleftrightarrow> (\<forall>i < length xs. p i = xs ! i \<and> xs ! i \<noteq> 0) \<and> p (length xs) = 0"

definition cname :: "nat \<Rightarrow> bytes_at \<Rightarrow> u8 list" where
  "cname n p = takeWhile (\<lambda>c. c \<noteq> 0) (map p [0..<n])"

lemma cstr_Nil [simp]: "cstr p [] \<longleftrightarrow> p 0 = 0"
  by (simp add: cstr_def)

lemma cstr_Cons [simp]: "cstr p (x # xs) \<longleftrightarrow> p 0 = x \<and> x \<noteq> 0 \<and> cstr (advance p) xs"
  by (auto simp: cstr_def less_Suc_eq_0_disj)

lemma cname_0 [simp]: "cname 0 p = []"
  by (simp add: cname_def)

lemma cname_Suc [simp]:
  "cname (Suc n) p = (if p 0 = 0 then [] else p 0 # cname n (advance p))"
proof -
  have "map p [0..<Suc n] = p 0 # map (advance p) [0..<n]"
    by (simp add: upt_conv_Cons map_Suc_upt[symmetric] comp_def del: upt_Suc)
  then show ?thesis by (simp add: cname_def del: upt_Suc)
qed

lemma length_cname: "length (cname n p) \<le> n"
  by (induction n arbitrary: p) auto

lemma cname_nonzero: "x \<in> set (cname n p) \<Longrightarrow> x \<noteq> 0"
  by (auto simp: cname_def dest: set_takeWhileD)

lemma cname_cstr: "cstr p xs \<Longrightarrow> cname n p = take n xs"
proof (induction n arbitrary: p xs)
  case (Suc n)
  then show ?case by (cases xs) auto
qed simp

lemma strlen_from_cstr: "cstr (\<lambda>i. s (n + i)) xs \<Longrightarrow> strlen_from s n = Some (n + length xs)"
proof (induction xs arbitrary: n)
  case Nil
  then show ?case by (subst strlen_from.simps) simp
next
  case (Cons x xs)
  then have "strlen_from s (Suc n) = Some (Suc n + length xs)" by (intro Cons.IH) simp
  with Cons.prems show ?case by (subst strlen_from.simps) simp
qed

lemma strlen_cstr: "cstr s xs \<Longrightarrow> strlen s = Some (length xs)"
  using strlen_from_cstr[of s 0 xs] by (simp add: strlen_def)

lemma strncmp_eq_0: "strncmp p q n = 0 \<longleftrightarrow> cname n p = cname n q"
  by (induction p q n rule: strncmp.induct) auto

lemma strcmp_cstr:
  assumes "cstr p xs" and "cstr q ys"
  shows "\<exists>r. strcmp p q = Some r \<and> (r = 0 \<longleftrightarrow> xs = ys) \<and> (r < 0 \<longleftrightarrow> (xs, ys) \<in> lexord {(a, b). a < b})"
  using assms
proof (induction xs arbitrary: p q ys)
  case Nil
  then show ?case by (subst strcmp.simps, cases ys) auto
next
  case (Cons x xs)
  show ?case
  proof (cases "x = q 0")
    case True
    with Cons.prems obtain zs where "ys = x # zs" by (cases ys) auto
    with True Cons.IH[of "advance p" "advance q" zs] Cons.prems show ?thesis
      by (subst strcmp.simps) simp
  next
    case False
    with Cons.prems show ?thesis
      by (subst strcmp.simps, cases ys) auto
  qed
qed

lemma strchr_from_cstr:
  assumes "cstr (\<lambda>i. s (n + i)) xs" and "c \<noteq> 0"
  shows "strchr_from s c n = Some (map_option ((+) n) (find_index (\<lambda>x. x = c) xs))"
  using assms(1)
proof (induction xs arbitrary: n)
  case Nil
  then show ?case by (subst strchr_from.simps) simp
next
  case (Cons x xs)
  then have "strchr_from s c (Suc n) = Some (map_option ((+) (Suc n)) (find_index (\<lambda>x. x = c) xs))"
    by (intro Cons.IH) simp
  with Cons.prems show ?case
    by (subst strchr_from.simps) (auto intro: option.map_cong simp: option.map_comp comp_def)
qed

lemma strchr_cstr:
  "cstr s xs \<Longrightarrow> c \<noteq> 0 \<Longrightarrow> strchr s c = Some (find_index (\<lambda>x. x = c) xs)"
  using strchr_from_cstr[of s 0 xs c] by (cases "find_index (\<lambda>x. x = c) xs") (simp_all add: strchr_def)

lemma strncpy_at:
  "n \<le> 2 ^ 32 \<Longrightarrow> strncpy m s t n x =
     (if unat (x - s) < n
      then if unat (x - s) < length (cname n t) then t (unat (x - s)) else 0
      else m x)"
proof (induction n arbitrary: m s t)
  case (Suc n)
  show ?case
  proof (cases "x = s")
    case True
    with Suc show ?thesis by (simp add: Let_def stosb_at)
  next
    case False
    with Suc offset_Suc[OF False] show ?thesis by (simp add: Let_def stosb_at)
  qed
qed simp

lemma cname_at: "i < length (cname n p) \<Longrightarrow> cname n p ! i = p i"
  by (induction n arbitrary: p i) (auto simp: nth_Cons split: if_splits nat.splits)

lemma safestrcpy_loop_at:
  assumes "k < 2 ^ 32"
  shows "fst (safestrcpy_loop m s t k) x =
      (if unat (x - s) < length (cname k t) then t (unat (x - s))
       else if unat (x - s) = length (cname k t) \<and> length (cname k t) < k then 0 else m x)
    \<and> snd (safestrcpy_loop m s t k) =
      s + of_nat (if length (cname k t) < k then Suc (length (cname k t)) else length (cname k t))"
  using assms
proof (induction k arbitrary: m s t)
  case (Suc k)
  show ?case
  proof (cases "x = s")
    case True
    with Suc show ?thesis using length_cname[of k "advance t"]
      by (auto simp: Let_def algebra_simps)
  next
    case False
    with Suc show ?thesis using offset_Suc[OF False] by (auto simp: Let_def algebra_simps)
  qed
qed simp

lemma cname_end: "length (cname n p) < n \<Longrightarrow> p (length (cname n p)) = 0"
  by (induction n arbitrary: p) auto

text \<open>The destination of \<^verbatim>\<open>safestrcpy\<close>: always a terminated string, the longest prefix of the source that
  fits, and no byte beyond the \<open>n\<close> of the destination is touched.\<close>

lemma safestrcpy_spec:
  assumes "0 < n" and "n \<le> 2 ^ 31"
  shows "cstr (ptr (safestrcpy m s t n) s) (cname (nat (n - 1)) t)"
    and "nat n \<le> unat (x - s) \<Longrightarrow> safestrcpy m s t n x = m x"
proof -
  let ?k = "nat (n - 1)" and ?l = "length (cname (nat (n - 1)) t)"
  obtain m' s' where r: "safestrcpy_loop m s t ?k = (m', s')" by fastforce
  have k: "?k < 2 ^ 32" and l: "?l \<le> ?k" using assms by (auto simp: length_cname)
  note at = safestrcpy_loop_at[OF k, of m s t, unfolded r, simplified]
  have eq: "safestrcpy m s t n = m'(s' := 0)" using assms r by (simp add: safestrcpy_def)
  have off: "unat (s + of_nat i - s) = i" if "i \<le> Suc ?k" for i
    using that assms by (simp add: unat_of_nat_u32)
  show "cstr (ptr (safestrcpy m s t n) s) (cname ?k t)"
    unfolding cstr_def
  proof (intro conjI allI impI)
    fix i assume i: "i < ?l"
    then have "s + of_nat i \<noteq> s'" using at off[of i] off[of ?l] off[of "Suc ?l"] l
      by (auto split: if_splits)
    with i at off[of i] l show "ptr (safestrcpy m s t n) s i = cname ?k t ! i"
      by (simp add: eq ptr_def cname_at)
    show "cname ?k t ! i \<noteq> 0" using i cname_nonzero nth_mem by blast
  next
    show "ptr (safestrcpy m s t n) s ?l = 0"
      using at off[of ?l] l by (auto simp: eq ptr_def)
  qed
  assume x: "nat n \<le> unat (x - s)"
  have "x \<noteq> s'"
    using x at off[of ?l] off[of "Suc ?l"] l assms by (auto split: if_splits)
  with x at l assms show "safestrcpy m s t n x = m x" by (auto simp: eq)
qed

fun decimal :: "u8 list \<Rightarrow> nat \<Rightarrow> nat" where
  "decimal [] acc = acc"
| "decimal (d # ds) acc = decimal ds (10 * acc + (unat d - 48))"

definition digit :: "u8 \<Rightarrow> bool" where
  "digit c \<longleftrightarrow> 48 \<le> unat c \<and> unat c \<le> 57"

lemma digit_sint: "48 \<le> sint c \<and> sint c \<le> 57 \<longleftrightarrow> digit c"
  using uint_bound_u8[of c] unfolding digit_def sint_u8 uint_int_unat
  by (simp only: of_nat_less_iff split: if_splits) linarith

lemma scast_digit:
  assumes "digit c"
  shows "(scast c :: u32) = of_nat (unat c)"
proof -
  have "uint c < 128"
    using assms unfolding digit_def uint_int_unat by linarith
  then show ?thesis by (simp add: scast_eq sint_u8)
qed

lemma atoi_from_digits:
  assumes "\<And>i. i < length ds \<Longrightarrow> s i = ds ! i" and "list_all digit ds" and "\<not> digit (s (length ds))"
  shows "atoi_from s (of_nat acc) = Some (of_nat (decimal ds acc))"
  using assms
proof (induction ds arbitrary: s acc)
  case Nil
  then show ?case by (subst atoi_from.simps) (simp add: digit_sint)
next
  case (Cons d ds)
  have s0: "s 0 = d" "digit d" using Cons.prems(1)[of 0] Cons.prems(2) by auto
  have step: "of_nat acc * 10 + scast d - 48 = (of_nat (10 * acc + (unat d - 48)) :: u32)"
    using s0(2) by (simp add: scast_digit digit_def of_nat_diff)
  have "atoi_from (advance s) (of_nat (10 * acc + (unat d - 48)))
      = Some (of_nat (decimal ds (10 * acc + (unat d - 48))))"
    using Cons.prems(1)[of "Suc i" for i] Cons.prems by (intro Cons.IH) auto
  with s0 show ?case
    by (subst atoi_from.simps) (simp only: digit_sint s0 if_True step decimal.simps)
qed

end
