(* ===== verification/Fs.thy ===== *)
theory Fs
  imports Transaction Cstring
begin

text \<open>
  The file system, \<^verbatim>\<open>src/src/fs.c\<close>: the block allocator, the inode cache, the contents of files, directories
  and path names. The state \<open>'d fs\<close> is the log with the cache and disk below it, the superblock, the inode
  cache and, for the device files, the state \<open>'d\<close> of the devices; \<open>devsw\<close> is the table of device functions.

  A \<^verbatim>\<open>struct inode *\<close> is an index into the cache. A routine runs for the process \<open>pid\<close>; waiting for a lock of
  another process is the outcome \<open>Blocks\<close>. Buffers in kernel memory are byte lists: \<^verbatim>\<open>readi\<close> returns what
  it copies out and \<^verbatim>\<open>writei\<close> gets what it copies in.
\<close>

section \<open>Data\<close>

abbreviation NINODE :: nat where "NINODE \<equiv> 50"
abbreviation NDEV :: nat where "NDEV \<equiv> 10"
abbreviation ROOTDEV :: u32 where "ROOTDEV \<equiv> 1"
abbreviation ROOTINO :: u32 where "ROOTINO \<equiv> 1"
abbreviation NDIRECT :: nat where "NDIRECT \<equiv> 12"
abbreviation NINDIRECT :: nat where "NINDIRECT \<equiv> 128"
abbreviation MAXFILE :: nat where "MAXFILE \<equiv> NDIRECT + NINDIRECT"
abbreviation IPB :: nat where "IPB \<equiv> 8"
abbreviation BPB :: nat where "BPB \<equiv> BSIZE * 8"
abbreviation DIRSIZ :: nat where "DIRSIZ \<equiv> 14"
abbreviation T_DIR :: u16 where "T_DIR \<equiv> 1"
abbreviation T_FILE :: u16 where "T_FILE \<equiv> 2"
abbreviation T_DEV :: u16 where "T_DEV \<equiv> 3"

definition IBLOCK :: "u32 \<Rightarrow> superblock \<Rightarrow> u32" where
  "IBLOCK i sb = i div of_nat IPB + sb_inodestart sb"

definition BBLOCK :: "u32 \<Rightarrow> superblock \<Rightarrow> u32" where
  "BBLOCK b sb = b div of_nat BPB + sb_bmapstart sb"

record inode =
  idev :: u32
  inum :: u32
  iref :: int
  iholder :: "u32 option"
  ivalid :: bool
  itype :: u16
  imajor :: u16
  iminor :: u16
  inlink :: u16
  isize :: u32
  addrs :: "u32 list"

record 'd fs =
  fy :: fsys
  sbk :: superblock
  icache :: "inode list"
  devs :: 'd

record 'd devsw =
  dread :: "(nat \<Rightarrow> u32 \<Rightarrow> 'd fs \<Rightarrow> (u8 list option \<times> 'd fs) res) option"
  dwrite :: "(nat \<Rightarrow> u8 list \<Rightarrow> 'd fs \<Rightarrow> (nat option \<times> 'd fs) res) option"

record stat =
  st_type :: u16
  st_dev :: u32
  st_ino :: u32
  st_nlink :: u16
  st_size :: u32

abbreviation node :: "'d fs \<Rightarrow> nat \<Rightarrow> inode" where
  "node s ip \<equiv> icache s ! ip"

definition upd_node :: "nat \<Rightarrow> (inode \<Rightarrow> inode) \<Rightarrow> 'd fs \<Rightarrow> 'd fs" where
  "upd_node ip f s = s\<lparr>icache := (icache s)[ip := f (icache s ! ip)]\<rparr>"

section \<open>Blocks\<close>

text \<open>\<^verbatim>\<open>bread\<close>, \<^verbatim>\<open>brelse\<close> and \<^verbatim>\<open>log_write\<close> on this state. \<open>flog_put i x\<close>: store \<open>x\<close> in the buffer, log it, release it.\<close>

definition blk :: "'d fs \<Rightarrow> nat \<Rightarrow> block" where
  "blk s i = data (bufs (bc (fy s)) ! i)"

definition fbread :: "u32 \<Rightarrow> u32 \<Rightarrow> u32 \<Rightarrow> 'd fs \<Rightarrow> (nat \<times> 'd fs) res" where
  "fbread pid dev bno s =
     rbind (bread pid dev bno (bc (fy s))) (\<lambda>(i, b). Inr (i, s\<lparr>fy := (fy s)\<lparr>bc := b\<rparr>\<rparr>))"

definition fbrelse :: "u32 \<Rightarrow> nat \<Rightarrow> 'd fs \<Rightarrow> 'd fs res" where
  "fbrelse pid i s = rbind (brelse pid i (bc (fy s))) (\<lambda>b. Inr (s\<lparr>fy := (fy s)\<lparr>bc := b\<rparr>\<rparr>))"

definition flog_put :: "u32 \<Rightarrow> nat \<Rightarrow> block \<Rightarrow> 'd fs \<Rightarrow> 'd fs res" where
  "flog_put pid i x s =
     rbind (log_write i ((fy s)\<lparr>bc := set_data i x (bc (fy s))\<rparr>)) (\<lambda>y. fbrelse pid i (s\<lparr>fy := y\<rparr>))"

definition bzero :: "u32 \<Rightarrow> u32 \<Rightarrow> u32 \<Rightarrow> 'd fs \<Rightarrow> 'd fs res" where
  "bzero pid dev bno s =
     rbind (fbread pid dev bno s) (\<lambda>(i, s1). flog_put pid i (replicate BSIZE 0) s1)"

definition bit_mask :: "nat \<Rightarrow> u8" where
  "bit_mask bi = push_bit (bi mod 8) 1"

text \<open>The inner loop of \<^verbatim>\<open>balloc\<close>: the first clear bit of a bitmap block.\<close>

definition free_bit :: "block \<Rightarrow> nat \<Rightarrow> nat option" where
  "free_bit x n = find (\<lambda>bi. x ! (bi div 8) AND bit_mask bi = 0) [0..<n]"

text \<open>The outer loop; the superblock \<open>sb\<close> does not change.\<close>

function balloc_from :: "u32 \<Rightarrow> u32 \<Rightarrow> superblock \<Rightarrow> nat \<Rightarrow> 'd fs \<Rightarrow> (u32 \<times> 'd fs) res" where
  "balloc_from pid dev sb b s =
     (if b < unat (sb_size sb)
      then rbind (fbread pid dev (BBLOCK (of_nat b) sb) s) (\<lambda>(i, s1).
        case free_bit (blk s1 i) (min BPB (unat (sb_size sb) - b)) of
          Some bi \<Rightarrow>
            rbind (flog_put pid i ((blk s1 i)[bi div 8 := blk s1 i ! (bi div 8) OR bit_mask bi]) s1) (\<lambda>s2.
            rbind (bzero pid dev (of_nat (b + bi)) s2) (\<lambda>s3. Inr (of_nat (b + bi), s3)))
        | None \<Rightarrow> rbind (fbrelse pid i s1) (\<lambda>s2. balloc_from pid dev sb (b + BPB) s2))
      else Inl (Panic ''balloc: out of blocks''))"
  by pat_completeness auto
termination
  by (relation "measure (\<lambda>(pid, dev, sb, b, s). unat (sb_size sb) - b)") auto

definition balloc :: "u32 \<Rightarrow> u32 \<Rightarrow> 'd fs \<Rightarrow> (u32 \<times> 'd fs) res" where
  "balloc pid dev s = balloc_from pid dev (sbk s) 0 s"

definition bfree :: "u32 \<Rightarrow> u32 \<Rightarrow> u32 \<Rightarrow> 'd fs \<Rightarrow> 'd fs res" where
  "bfree pid dev b s =
     rbind (fbread pid dev (BBLOCK b (sbk s)) s) (\<lambda>(i, s1).
       let bi = unat b mod BPB; x = blk s1 i in
       if x ! (bi div 8) AND bit_mask bi = 0 then Inl (Panic ''freeing free block'')
       else flog_put pid i (x[bi div 8 := x ! (bi div 8) AND NOT (bit_mask bi)]) s1)"

section \<open>Inodes\<close>

definition iinit :: "u32 \<Rightarrow> u32 \<Rightarrow> 'd fs \<Rightarrow> 'd fs res" where
  "iinit pid dev s =
     rbind (readsb pid dev (bc (fy s))) (\<lambda>(sb, b).
       Inr (s\<lparr>icache := map (\<lambda>ip. ip\<lparr>iholder := None\<rparr>) (icache s), fy := (fy s)\<lparr>bc := b\<rparr>, sbk := sb\<rparr>))"

definition dinode_off :: "u32 \<Rightarrow> nat" where
  "dinode_off i = (unat i mod IPB) * 64"

definition get_dinode :: "block \<Rightarrow> nat \<Rightarrow> inode \<Rightarrow> inode" where
  "get_dinode x k ip = ip\<lparr>itype := get16 x k, imajor := get16 x (k + 2), iminor := get16 x (k + 4),
     inlink := get16 x (k + 6), isize := get32 x (k + 8), addrs := map (\<lambda>j. get32 x (k + 12 + 4 * j)) [0..<NDIRECT + 1]\<rparr>"

definition put_dinode :: "block \<Rightarrow> nat \<Rightarrow> inode \<Rightarrow> block" where
  "put_dinode x k ip =
     put32s (put32 (put16 (put16 (put16 (put16 x k (itype ip)) (k + 2) (imajor ip)) (k + 4) (iminor ip)) (k + 6) (inlink ip))
       (k + 8) (isize ip)) (k + 12) (addrs ip)"

definition zero_dinode :: "block \<Rightarrow> nat \<Rightarrow> u16 \<Rightarrow> block" where
  "zero_dinode x k type = put16 (take k x @ replicate 64 0 @ drop (k + 64) x) k type"

definition iupdate :: "u32 \<Rightarrow> nat \<Rightarrow> 'd fs \<Rightarrow> 'd fs res" where
  "iupdate pid ip s =
     rbind (fbread pid (idev (node s ip)) (IBLOCK (inum (node s ip)) (sbk s)) s) (\<lambda>(i, s1).
       flog_put pid i (put_dinode (blk s1 i) (dinode_off (inum (node s ip))) (node s1 ip)) s1)"

definition iget :: "u32 \<Rightarrow> u32 \<Rightarrow> 'd fs \<Rightarrow> (nat \<times> 'd fs) res" where
  "iget dev n s =
     (case find_index (\<lambda>ip. iref ip > 0 \<and> idev ip = dev \<and> inum ip = n) (icache s) of
        Some k \<Rightarrow> Inr (k, upd_node k (\<lambda>ip. ip\<lparr>iref := iref ip + 1\<rparr>) s)
      | None \<Rightarrow>
          (case find_index (\<lambda>ip. iref ip = 0) (icache s) of
             None \<Rightarrow> Inl (Panic ''iget: no inodes'')
           | Some k \<Rightarrow> Inr (k, upd_node k (\<lambda>ip. ip\<lparr>idev := dev, inum := n, iref := 1, ivalid := False\<rparr>) s)))"

text \<open>The loop of \<^verbatim>\<open>ialloc\<close> over the given inode numbers.\<close>

fun ialloc_from :: "u32 \<Rightarrow> u32 \<Rightarrow> u16 \<Rightarrow> nat list \<Rightarrow> 'd fs \<Rightarrow> (nat \<times> 'd fs) res" where
  "ialloc_from pid dev type [] s = Inl (Panic ''ialloc: no inodes'')"
| "ialloc_from pid dev type (n # ns) s =
     rbind (fbread pid dev (IBLOCK (of_nat n) (sbk s)) s) (\<lambda>(i, s1).
       let k = dinode_off (of_nat n) in
       if get16 (blk s1 i) k = 0
       then rbind (flog_put pid i (zero_dinode (blk s1 i) k type) s1) (\<lambda>s2. iget dev (of_nat n) s2)
       else rbind (fbrelse pid i s1) (\<lambda>s2. ialloc_from pid dev type ns s2))"

definition ialloc :: "u32 \<Rightarrow> u32 \<Rightarrow> u16 \<Rightarrow> 'd fs \<Rightarrow> (nat \<times> 'd fs) res" where
  "ialloc pid dev type s = ialloc_from pid dev type [1..<unat (sb_ninodes (sbk s))] s"

definition idup :: "nat \<Rightarrow> 'd fs \<Rightarrow> 'd fs" where
  "idup ip s = upd_node ip (\<lambda>x. x\<lparr>iref := iref x + 1\<rparr>) s"

definition iacquiresleep :: "u32 \<Rightarrow> nat \<Rightarrow> 'd fs \<Rightarrow> 'd fs res" where
  "iacquiresleep pid ip s =
     (if iholder (node s ip) \<noteq> None then Inl Blocks
      else Inr (upd_node ip (\<lambda>x. x\<lparr>iholder := Some pid\<rparr>) s))"

definition ilock :: "u32 \<Rightarrow> nat \<Rightarrow> 'd fs \<Rightarrow> 'd fs res" where
  "ilock pid ip s =
     (if iref (node s ip) < 1 then Inl (Panic ''ilock'')
      else rbind (iacquiresleep pid ip s) (\<lambda>s1.
        if ivalid (node s1 ip) then Inr s1
        else rbind (fbread pid (idev (node s1 ip)) (IBLOCK (inum (node s1 ip)) (sbk s1)) s1) (\<lambda>(i, s2).
          let s3 = upd_node ip (get_dinode (blk s2 i) (dinode_off (inum (node s2 ip)))) s2 in
          rbind (fbrelse pid i s3) (\<lambda>s4.
            let s5 = upd_node ip (\<lambda>x. x\<lparr>ivalid := True\<rparr>) s4 in
            if itype (node s5 ip) = 0 then Inl (Panic ''ilock: no type'') else Inr s5))))"

definition iunlock :: "u32 \<Rightarrow> nat \<Rightarrow> 'd fs \<Rightarrow> 'd fs res" where
  "iunlock pid ip s =
     (if iholder (node s ip) \<noteq> Some pid \<or> iref (node s ip) < 1 then Inl (Panic ''iunlock'')
      else Inr (upd_node ip (\<lambda>x. x\<lparr>iholder := None\<rparr>) s))"

section \<open>Contents\<close>

definition set_addr :: "nat \<Rightarrow> nat \<Rightarrow> u32 \<Rightarrow> 'd fs \<Rightarrow> 'd fs" where
  "set_addr ip k a s = upd_node ip (\<lambda>x. x\<lparr>addrs := (addrs x)[k := a]\<rparr>) s"

text \<open>The idiom \<^verbatim>\<open>if((addr = ip->addrs[k]) == 0) ip->addrs[k] = addr = balloc(ip->dev)\<close>.\<close>

definition bmap_slot :: "u32 \<Rightarrow> nat \<Rightarrow> nat \<Rightarrow> 'd fs \<Rightarrow> (u32 \<times> 'd fs) res" where
  "bmap_slot pid ip k s =
     (let a = addrs (node s ip) ! k in
      if a = 0 then rbind (balloc pid (idev (node s ip)) s) (\<lambda>(b, s1). Inr (b, set_addr ip k b s1))
      else Inr (a, s))"

definition bmap :: "u32 \<Rightarrow> nat \<Rightarrow> u32 \<Rightarrow> 'd fs \<Rightarrow> (u32 \<times> 'd fs) res" where
  "bmap pid ip bn s =
     (if unat bn < NDIRECT then bmap_slot pid ip (unat bn) s
      else let bn1 = unat bn - NDIRECT in
        if bn1 < NINDIRECT
        then rbind (bmap_slot pid ip NDIRECT s) (\<lambda>(a, s1).
             rbind (fbread pid (idev (node s1 ip)) a s1) (\<lambda>(i, s2).
               let e = get32 (blk s2 i) (4 * bn1) in
               if e = 0
               then rbind (balloc pid (idev (node s2 ip)) s2) (\<lambda>(b, s3).
                      rbind (flog_put pid i (put32 (blk s3 i) (4 * bn1) b) s3) (\<lambda>s4. Inr (b, s4)))
               else rbind (fbrelse pid i s2) (\<lambda>s3. Inr (e, s3))))
        else Inl (Panic ''bmap: out of range''))"

fun itrunc_direct :: "u32 \<Rightarrow> nat \<Rightarrow> nat list \<Rightarrow> 'd fs \<Rightarrow> 'd fs res" where
  "itrunc_direct pid ip [] s = Inr s"
| "itrunc_direct pid ip (k # ks) s =
     (let a = addrs (node s ip) ! k in
      if a \<noteq> 0
      then rbind (bfree pid (idev (node s ip)) a s) (\<lambda>s1. itrunc_direct pid ip ks (set_addr ip k 0 s1))
      else itrunc_direct pid ip ks s)"

fun itrunc_indirect :: "u32 \<Rightarrow> nat \<Rightarrow> nat \<Rightarrow> nat list \<Rightarrow> 'd fs \<Rightarrow> 'd fs res" where
  "itrunc_indirect pid ip i [] s = Inr s"
| "itrunc_indirect pid ip i (j # js) s =
     (let a = get32 (blk s i) (4 * j) in
      if a \<noteq> 0
      then rbind (bfree pid (idev (node s ip)) a s) (\<lambda>s1. itrunc_indirect pid ip i js s1)
      else itrunc_indirect pid ip i js s)"

definition itrunc :: "u32 \<Rightarrow> nat \<Rightarrow> 'd fs \<Rightarrow> 'd fs res" where
  "itrunc pid ip s =
     rbind (itrunc_direct pid ip [0..<NDIRECT] s) (\<lambda>s1.
     rbind (let a = addrs (node s1 ip) ! NDIRECT in
            if a \<noteq> 0
            then rbind (fbread pid (idev (node s1 ip)) a s1) (\<lambda>(i, s2).
                 rbind (itrunc_indirect pid ip i [0..<NINDIRECT] s2) (\<lambda>s3.
                 rbind (fbrelse pid i s3) (\<lambda>s4.
                 rbind (bfree pid (idev (node s4 ip)) (addrs (node s4 ip) ! NDIRECT) s4) (\<lambda>s5.
                   Inr (set_addr ip NDIRECT 0 s5)))))
            else Inr s1) (\<lambda>s6.
       iupdate pid ip (upd_node ip (\<lambda>x. x\<lparr>isize := 0\<rparr>) s6)))"

definition iput :: "u32 \<Rightarrow> nat \<Rightarrow> 'd fs \<Rightarrow> 'd fs res" where
  "iput pid ip s =
     rbind (iacquiresleep pid ip s) (\<lambda>s1.
     rbind (if ivalid (node s1 ip) \<and> inlink (node s1 ip) = 0 \<and> iref (node s1 ip) = 1
            then rbind (itrunc pid ip s1) (\<lambda>s2.
                 rbind (iupdate pid ip (upd_node ip (\<lambda>x. x\<lparr>itype := 0\<rparr>) s2)) (\<lambda>s3.
                   Inr (upd_node ip (\<lambda>x. x\<lparr>ivalid := False\<rparr>) s3)))
            else Inr s1) (\<lambda>s4.
       Inr (upd_node ip (\<lambda>x. x\<lparr>iholder := None, iref := iref x - 1\<rparr>) s4)))"

definition iunlockput :: "u32 \<Rightarrow> nat \<Rightarrow> 'd fs \<Rightarrow> 'd fs res" where
  "iunlockput pid ip s = rbind (iunlock pid ip s) (\<lambda>s1. iput pid ip s1)"

definition stati :: "nat \<Rightarrow> 'd fs \<Rightarrow> stat" where
  "stati ip s = \<lparr>st_type = itype (node s ip), st_dev = idev (node s ip), st_ino = inum (node s ip),
     st_nlink = inlink (node s ip), st_size = isize (node s ip)\<rparr>"

text \<open>One step of the loops of \<^verbatim>\<open>readi\<close> and \<^verbatim>\<open>writei\<close> handles \<open>chunk off n\<close> bytes.\<close>

definition chunk :: "u32 \<Rightarrow> nat \<Rightarrow> nat" where
  "chunk off n = min n (BSIZE - unat off mod BSIZE)"

lemma chunk_pos [simp]: "0 < n \<Longrightarrow> 0 < chunk off n"
  by (simp add: chunk_def)

function readi_loop :: "u32 \<Rightarrow> nat \<Rightarrow> u32 \<Rightarrow> nat \<Rightarrow> 'd fs \<Rightarrow> (u8 list \<times> 'd fs) res" where
  "readi_loop pid ip off n s =
     (if 0 < n
      then rbind (bmap pid ip (off div of_nat BSIZE) s) (\<lambda>(a, s1).
           rbind (fbread pid (idev (node s1 ip)) a s1) (\<lambda>(i, s2).
             let m = chunk off n in
             rbind (fbrelse pid i s2) (\<lambda>s3.
             rbind (readi_loop pid ip (off + of_nat m) (n - m) s3) (\<lambda>(ys, s4).
               Inr (take m (drop (unat off mod BSIZE) (blk s2 i)) @ ys, s4)))))
      else Inr ([], s))"
  by pat_completeness auto
termination
  by (relation "measure (\<lambda>(pid, ip, off, n, s). n)") (auto simp: diff_less)

definition readi :: "u32 \<Rightarrow> 'd devsw list \<Rightarrow> nat \<Rightarrow> u32 \<Rightarrow> u32 \<Rightarrow> 'd fs \<Rightarrow> (u8 list option \<times> 'd fs) res" where
  "readi pid devsw ip off n s =
     (let x = node s ip in
      if itype x = T_DEV
      then if sint (imajor x) < 0 \<or> int NDEV \<le> sint (imajor x) then Inr (None, s)
           else case dread (devsw ! unat (imajor x)) of None \<Rightarrow> Inr (None, s) | Some f \<Rightarrow> f ip n s
      else if off > isize x \<or> off + n < off then Inr (None, s)
      else let n1 = (if off + n > isize x then isize x - off else n) in
        rbind (readi_loop pid ip off (unat n1) s) (\<lambda>(ys, s1). Inr (Some ys, s1)))"

function writei_loop :: "u32 \<Rightarrow> nat \<Rightarrow> u32 \<Rightarrow> u8 list \<Rightarrow> 'd fs \<Rightarrow> (u32 \<times> 'd fs) res" where
  "writei_loop pid ip off src s =
     (if 0 < length src
      then rbind (bmap pid ip (off div of_nat BSIZE) s) (\<lambda>(a, s1).
           rbind (fbread pid (idev (node s1 ip)) a s1) (\<lambda>(i, s2).
             let m = chunk off (length src); o1 = unat off mod BSIZE; x = blk s2 i in
             rbind (flog_put pid i (take o1 x @ take m src @ drop (o1 + m) x) s2) (\<lambda>s3.
               writei_loop pid ip (off + of_nat m) (drop m src) s3)))
      else Inr (off, s))"
  by pat_completeness auto
termination
  by (relation "measure (\<lambda>(pid, ip, off, src, s). length src)") (auto simp: diff_less)

definition writei :: "u32 \<Rightarrow> 'd devsw list \<Rightarrow> nat \<Rightarrow> u8 list \<Rightarrow> u32 \<Rightarrow> 'd fs \<Rightarrow> (nat option \<times> 'd fs) res" where
  "writei pid devsw ip src off s =
     (let x = node s ip; n = of_nat (length src) :: u32 in
      if itype x = T_DEV
      then if sint (imajor x) < 0 \<or> int NDEV \<le> sint (imajor x) then Inr (None, s)
           else case dwrite (devsw ! unat (imajor x)) of None \<Rightarrow> Inr (None, s) | Some f \<Rightarrow> f ip src s
      else if off > isize x \<or> off + n < off then Inr (None, s)
      else if off + n > of_nat (MAXFILE * BSIZE) then Inr (None, s)
      else rbind (writei_loop pid ip off src s) (\<lambda>(off1, s1).
        if n > 0 \<and> off1 > isize (node s1 ip)
        then rbind (iupdate pid ip (upd_node ip (\<lambda>x. x\<lparr>isize := off1\<rparr>) s1)) (\<lambda>s2. Inr (Some (length src), s2))
        else Inr (Some (length src), s1)))"

end
