(* ===== verification/Dir.thy ===== *)
theory Dir
  imports Fs
begin

text \<open>
  Directories and path names, the last two layers of \<^verbatim>\<open>src/src/fs.c\<close>. A C string is the list of its bytes
  without the terminating zero; a \<^verbatim>\<open>char name[DIRSIZ]\<close> buffer is a list of 14 bytes, which need not contain a
  zero.
\<close>

section \<open>The code\<close>

text \<open>The bytes of a C string, and of a name buffer, as the string functions read them.\<close>

definition cs :: "u8 list \<Rightarrow> nat \<Rightarrow> u8" where
  "cs xs i = (if i < length xs then xs ! i else 0)"

definition namecmp :: "u8 list \<Rightarrow> u8 list \<Rightarrow> int" where
  "namecmp s t = strncmp (cs s) (cs t) DIRSIZ"

text \<open>The offsets of the loops \<^verbatim>\<open>for(off = 0; off < dp->size; off += sizeof(de))\<close>, and the offset after a full loop.\<close>

definition dir_offs :: "u32 \<Rightarrow> u32 list" where
  "dir_offs sz = map (\<lambda>k. of_nat (16 * k)) [0..<(unat sz + 15) div 16]"

definition dir_end :: "u32 \<Rightarrow> u32" where
  "dir_end sz = of_nat (16 * ((unat sz + 15) div 16))"

fun dirlookup_scan :: "u32 \<Rightarrow> 'd devsw list \<Rightarrow> nat \<Rightarrow> u8 list \<Rightarrow> u32 list \<Rightarrow> 'd fs \<Rightarrow> ((nat \<times> u32) option \<times> 'd fs) res" where
  "dirlookup_scan pid devsw dp name [] s = Inr (None, s)"
| "dirlookup_scan pid devsw dp name (off # offs) s =
     rbind (readi pid devsw dp off 16 s) (\<lambda>(r, s1).
       case r of
         None \<Rightarrow> Inl (Panic ''dirlookup read'')
       | Some de \<Rightarrow>
           if length de \<noteq> 16 then Inl (Panic ''dirlookup read'')
           else if get16 de 0 = 0 then dirlookup_scan pid devsw dp name offs s1
           else if namecmp name (drop 2 de) = 0
           then rbind (iget (idev (node s1 dp)) (ucast (get16 de 0)) s1) (\<lambda>(ip, s2). Inr (Some (ip, off), s2))
           else dirlookup_scan pid devsw dp name offs s1)"

definition dirlookup :: "u32 \<Rightarrow> 'd devsw list \<Rightarrow> nat \<Rightarrow> u8 list \<Rightarrow> 'd fs \<Rightarrow> ((nat \<times> u32) option \<times> 'd fs) res" where
  "dirlookup pid devsw dp name s =
     (if itype (node s dp) \<noteq> T_DIR then Inl (Panic ''dirlookup not DIR'')
      else dirlookup_scan pid devsw dp name (dir_offs (isize (node s dp))) s)"

text \<open>The second loop of \<^verbatim>\<open>dirlink\<close>: the offset of the first empty entry, or the end.\<close>

fun dirlink_scan :: "u32 \<Rightarrow> 'd devsw list \<Rightarrow> nat \<Rightarrow> u32 list \<Rightarrow> u32 \<Rightarrow> 'd fs \<Rightarrow> (u32 \<times> 'd fs) res" where
  "dirlink_scan pid devsw dp [] e s = Inr (e, s)"
| "dirlink_scan pid devsw dp (off # offs) e s =
     rbind (readi pid devsw dp off 16 s) (\<lambda>(r, s1).
       case r of
         None \<Rightarrow> Inl (Panic ''dirlink read'')
       | Some de \<Rightarrow>
           if length de \<noteq> 16 then Inl (Panic ''dirlink read'')
           else if get16 de 0 = 0 then Inr (off, s1)
           else dirlink_scan pid devsw dp offs e s1)"

definition name_field :: "u8 list \<Rightarrow> u8 list" where
  "name_field name = map (\<lambda>i. strncpy (\<lambda>_. 0) 0 (cs name) DIRSIZ (of_nat i)) [0..<DIRSIZ]"

definition dirent :: "u8 list \<Rightarrow> u32 \<Rightarrow> u8 list" where
  "dirent name n = put16 ([0, 0] @ name_field name) 0 (ucast n)"

definition dirlink :: "u32 \<Rightarrow> 'd devsw list \<Rightarrow> nat \<Rightarrow> u8 list \<Rightarrow> u32 \<Rightarrow> 'd fs \<Rightarrow> (bool \<times> 'd fs) res" where
  "dirlink pid devsw dp name n s =
     rbind (dirlookup pid devsw dp name s) (\<lambda>(r, s1).
       case r of
         Some (ip, _) \<Rightarrow> rbind (iput pid ip s1) (\<lambda>s2. Inr (False, s2))
       | None \<Rightarrow>
           rbind (dirlink_scan pid devsw dp (dir_offs (isize (node s1 dp))) (dir_end (isize (node s1 dp))) s1) (\<lambda>(off, s2).
           rbind (writei pid devsw dp (dirent name n) off s2) (\<lambda>(w, s3).
             if w \<noteq> Some 16 then Inl (Panic ''dirlink'') else Inr (True, s3))))"

text \<open>\<^verbatim>\<open>skipelem(path, name)\<close>: the rest of the path and the new contents of the name buffer.\<close>

abbreviation slash :: u8 where "slash \<equiv> 47"

definition skipelem :: "u8 list \<Rightarrow> u8 list \<Rightarrow> (u8 list \<times> u8 list) option" where
  "skipelem path name =
     (let p = dropWhile (\<lambda>c. c = slash) path in
      if p = [] then None
      else let e = takeWhile (\<lambda>c. c \<noteq> slash) p; len = length e;
               name1 = (if len \<ge> DIRSIZ then take DIRSIZ e else e @ [0] @ drop (len + 1) name) in
        Some (dropWhile (\<lambda>c. c = slash) (dropWhile (\<lambda>c. c \<noteq> slash) p), name1))"

lemma skipelem_shorter: "skipelem path name = Some (rest, nm) \<Longrightarrow> length rest < length path"
proof -
  assume a: "skipelem path name = Some (rest, nm)"
  let ?p = "dropWhile (\<lambda>c. c = slash) path"
  have ne: "?p \<noteq> []" and r: "rest = dropWhile (\<lambda>c. c = slash) (dropWhile (\<lambda>c. c \<noteq> slash) ?p)"
    using a by (auto simp: skipelem_def Let_def split: if_splits)
  have "hd ?p \<noteq> slash" using hd_dropWhile[OF ne] by simp
  then have "length (dropWhile (\<lambda>c. c \<noteq> slash) ?p) < length ?p" using ne by (cases ?p) (auto simp: le_imp_less_Suc length_dropWhile_le)
  moreover have "length rest \<le> length (dropWhile (\<lambda>c. c \<noteq> slash) ?p)" unfolding r by (rule length_dropWhile_le)
  moreover have "length ?p \<le> length path" by (rule length_dropWhile_le)
  ultimately show ?thesis by linarith
qed

function namex_loop :: "u32 \<Rightarrow> 'd devsw list \<Rightarrow> bool \<Rightarrow> nat \<Rightarrow> u8 list \<Rightarrow> u8 list \<Rightarrow> 'd fs \<Rightarrow> ((nat option \<times> u8 list) \<times> 'd fs) res" where
  "namex_loop pid devsw parent ip path name s =
     (case skipelem path name of
        None \<Rightarrow>
          if parent then rbind (iput pid ip s) (\<lambda>s1. Inr ((None, name), s1)) else Inr ((Some ip, name), s)
      | Some (path1, name1) \<Rightarrow>
          rbind (ilock pid ip s) (\<lambda>s1.
            if itype (node s1 ip) \<noteq> T_DIR then rbind (iunlockput pid ip s1) (\<lambda>s2. Inr ((None, name1), s2))
            else if parent \<and> path1 = [] then rbind (iunlock pid ip s1) (\<lambda>s2. Inr ((Some ip, name1), s2))
            else rbind (dirlookup pid devsw ip name1 s1) (\<lambda>(r, s2).
              case r of
                None \<Rightarrow> rbind (iunlockput pid ip s2) (\<lambda>s3. Inr ((None, name1), s3))
              | Some (nxt, _) \<Rightarrow> rbind (iunlockput pid ip s2) (\<lambda>s3. namex_loop pid devsw parent nxt path1 name1 s3))))"
  by pat_completeness auto
termination
  by (relation "measure (\<lambda>(pid, devsw, parent, ip, path, name, s). length path)") (auto simp: skipelem_shorter)

definition namex :: "u32 \<Rightarrow> 'd devsw list \<Rightarrow> nat \<Rightarrow> u8 list \<Rightarrow> bool \<Rightarrow> u8 list \<Rightarrow> 'd fs \<Rightarrow> ((nat option \<times> u8 list) \<times> 'd fs) res" where
  "namex pid devsw cwd path parent name s =
     rbind (if path \<noteq> [] \<and> hd path = slash then iget ROOTDEV ROOTINO s else Inr (cwd, idup cwd s)) (\<lambda>(ip, s1).
       namex_loop pid devsw parent ip path name s1)"

definition namei :: "u32 \<Rightarrow> 'd devsw list \<Rightarrow> nat \<Rightarrow> u8 list \<Rightarrow> 'd fs \<Rightarrow> (nat option \<times> 'd fs) res" where
  "namei pid devsw cwd path s =
     rbind (namex pid devsw cwd path False (replicate DIRSIZ 0) s) (\<lambda>((r, _), s1). Inr (r, s1))"

definition nameiparent :: "u32 \<Rightarrow> 'd devsw list \<Rightarrow> nat \<Rightarrow> u8 list \<Rightarrow> u8 list \<Rightarrow> 'd fs \<Rightarrow> ((nat option \<times> u8 list) \<times> 'd fs) res" where
  "nameiparent pid devsw cwd path name s = namex pid devsw cwd path True name s"

section \<open>Path elements\<close>

fun elems :: "u8 list \<Rightarrow> u8 list \<Rightarrow> u8 list list" where
  "elems cur [] = (if cur = [] then [] else [rev cur])"
| "elems cur (c # p) = (if c = slash then (if cur = [] then elems [] p else rev cur # elems [] p) else elems (c # cur) p)"

lemma elems_dropWhile: "elems [] (dropWhile (\<lambda>c. c = slash) p) = elems [] p"
  by (induction p) auto

lemma elems_takeWhile:
  "cur @ takeWhile (\<lambda>c. c \<noteq> slash) p \<noteq> [] \<Longrightarrow>
   elems (rev cur) p = (cur @ takeWhile (\<lambda>c. c \<noteq> slash) p) # elems [] (dropWhile (\<lambda>c. c \<noteq> slash) p)"
proof (induction p arbitrary: cur)
  case (Cons c p)
  show ?case
  proof (cases "c = slash")
    case False
    then show ?thesis using Cons.IH[of "cur @ [c]"] by simp
  qed (use Cons.prems in auto)
qed simp

lemma elems_no_slash: "e \<in> set (elems cur p) \<Longrightarrow> slash \<notin> set cur \<Longrightarrow> slash \<notin> set e \<and> e \<noteq> []"
  by (induction cur p rule: elems.induct) (auto split: if_splits)

lemma elems_first:
  assumes "p \<noteq> []" "hd p \<noteq> slash"
  shows "elems [] p = takeWhile (\<lambda>c. c \<noteq> slash) p # elems [] (dropWhile (\<lambda>c. c \<noteq> slash) p)"
  using elems_takeWhile[of "[]" p] assms by (cases p) simp_all

lemma elems_Nil: "p = [] \<or> hd p \<noteq> slash \<Longrightarrow> elems [] p = [] \<longleftrightarrow> p = []"
  using elems_first[of p] by (cases "p = []") simp_all

text \<open>The name buffer after \<^verbatim>\<open>skipelem\<close> has copied the element \<open>e\<close>.\<close>

lemma name_buffer:
  assumes "0 \<notin> set e" "length name = DIRSIZ"
    and nm: "nm = (if length e \<ge> DIRSIZ then take DIRSIZ e else e @ [0] @ drop (length e + 1) name)"
  shows "length nm = DIRSIZ" "cname DIRSIZ (cs nm) = take DIRSIZ e"
proof -
  show "length nm = DIRSIZ" using assms by simp
  show "cname DIRSIZ (cs nm) = take DIRSIZ e"
  proof (cases "length e \<ge> DIRSIZ")
    case True
    then have "map (cs nm) [0..<DIRSIZ] = take DIRSIZ e" by (intro nth_equalityI) (auto simp: cs_def nm simp del: upt_Suc)
    moreover have "\<forall>x \<in> set (take DIRSIZ e). x \<noteq> 0" using assms(1) by (auto dest: in_set_takeD)
    ultimately show ?thesis unfolding cname_def by (simp add: takeWhile_all_eq)
  next
    case False
    have "\<forall>i < length e. e ! i \<noteq> 0" using assms(1) by (metis nth_mem)
    then have "cstr (cs nm) e" using False by (auto simp: cstr_def cs_def nm nth_append)
    then show ?thesis by (rule cname_cstr)
  qed
qed

text \<open>C31. \<^verbatim>\<open>skipelem\<close> splits a path as its comment says: it fails exactly on a path without elements, and otherwise
  leaves the first element, cut to \<^verbatim>\<open>DIRSIZ\<close> bytes, in the name buffer as a name that \<^verbatim>\<open>namecmp\<close> reads back, and
  returns a path with the remaining elements and without leading slashes.\<close>

theorem skipelem_splits:
  assumes "length name = DIRSIZ" "0 \<notin> set path"
  shows "case elems [] path of
      [] \<Rightarrow> skipelem path name = None
    | e # es \<Rightarrow> (\<exists>rest nm. skipelem path name = Some (rest, nm) \<and> elems [] rest = es \<and> (rest = [] \<longleftrightarrow> es = [])
        \<and> (rest \<noteq> [] \<longrightarrow> hd rest \<noteq> slash) \<and> length nm = DIRSIZ \<and> cname DIRSIZ (cs nm) = take DIRSIZ e)"
proof -
  define p where "p = dropWhile (\<lambda>c. c = slash) path"
  define e where "e = takeWhile (\<lambda>c. c \<noteq> slash) p"
  define q where "q = dropWhile (\<lambda>c. c \<noteq> slash) p"
  define r where "r = dropWhile (\<lambda>c. c = slash) q"
  define nm where "nm = (if length e \<ge> DIRSIZ then take DIRSIZ e else e @ [0] @ drop (length e + 1) name)"
  have ep: "elems [] path = elems [] p" "elems [] q = elems [] r" by (simp_all add: p_def r_def elems_dropWhile)
  have sk: "skipelem path name = (if p = [] then None else Some (r, nm))"
    by (simp add: skipelem_def Let_def p_def e_def q_def r_def nm_def)
  show ?thesis
  proof (cases "p = []")
    case True
    then show ?thesis using ep(1) sk by simp
  next
    case False
    then have "hd p \<noteq> slash" using hd_dropWhile[of "\<lambda>c. c = slash" path] by (simp add: p_def)
    then have el: "elems [] path = e # elems [] r" using elems_first[OF False] ep by (simp add: e_def q_def)
    have h: "r \<noteq> [] \<longrightarrow> hd r \<noteq> slash" using hd_dropWhile[of "\<lambda>c. c = slash" q] by (simp add: r_def)
    have "0 \<notin> set e" using assms(2) by (auto simp: e_def p_def dest!: set_takeWhileD set_dropWhileD)
    from name_buffer[OF this assms(1) nm_def] show ?thesis using el h sk False elems_Nil[of r] by auto
  qed
qed

theorem skipelem_splits_witness:
  "case elems [] [47, 97, 47, 47, 98] of
      [] \<Rightarrow> skipelem [47, 97, 47, 47, 98] (replicate DIRSIZ 7) = None
    | e # es \<Rightarrow> (\<exists>rest nm. skipelem [47, 97, 47, 47, 98] (replicate DIRSIZ 7) = Some (rest, nm) \<and> elems [] rest = es \<and> (rest = [] \<longleftrightarrow> es = [])
        \<and> (rest \<noteq> [] \<longrightarrow> hd rest \<noteq> slash) \<and> length nm = DIRSIZ \<and> cname DIRSIZ (cs nm) = take DIRSIZ e)"
  by (rule skipelem_splits) simp_all

end
