(* ===== verification/Ring.thy ===== *)
theory Ring
  imports Prelude
begin

text \<open>
  Ring buffers with free-running 32-bit counters, as the pipes and the console input use them: the byte with
  number \<open>i\<close> is stored at index \<open>i mod N\<close>, the counters wrap, and the ring holds the bytes from the read counter
  up to the write counter. \<open>fifo\<close> is the contract of such a buffer.
\<close>

section \<open>The contract of a ring buffer\<close>

text \<open>\<open>content\<close> is the queue the buffer stands for, \<open>cap\<close> its capacity.\<close>

locale fifo =
  fixes put :: "'b \<Rightarrow> 'q \<Rightarrow> 'q"
    and get :: "'q \<Rightarrow> 'b \<times> 'q"
    and content :: "'q \<Rightarrow> 'b list"
    and fifo_ok :: "'q \<Rightarrow> bool"
    and cap :: nat
  assumes cap_pos: "0 < cap"
    and put_ok: "fifo_ok q \<Longrightarrow> length (content q) < cap \<Longrightarrow>
      fifo_ok (put b q) \<and> content (put b q) = content q @ [b]"
    and get_ok: "fifo_ok q \<Longrightarrow> content q = b # bs \<Longrightarrow>
      fst (get q) = b \<and> fifo_ok (snd (get q)) \<and> content (snd (get q)) = bs"
    and bounded: "fifo_ok q \<Longrightarrow> length (content q) \<le> cap"
begin

text \<open>Putting as many bytes as fit, and getting as many as are wanted.\<close>

fun fill :: "'b list \<Rightarrow> 'q \<Rightarrow> 'b list \<times> 'q" where
  "fill [] q = ([], q)"
| "fill (b # bs) q = (if length (content q) = cap then (b # bs, q) else fill bs (put b q))"

fun drain :: "nat \<Rightarrow> 'q \<Rightarrow> 'b list \<times> 'q" where
  "drain 0 q = ([], q)"
| "drain (Suc n) q = (if content q = [] then ([], q)
     else let (b, q1) = get q; (bs, q2) = drain n q1 in (b # bs, q2))"

lemma fill_spec:
  "fifo_ok q \<Longrightarrow> fill bs q = (rest, q') \<Longrightarrow>
     fifo_ok q' \<and> content q' = content q @ take (cap - length (content q)) bs \<and>
     rest = drop (cap - length (content q)) bs"
proof (induction bs q rule: fill.induct)
  case (2 b bs q)
  show ?case
  proof (cases "length (content q) = cap")
    case False
    with bounded[OF "2.prems"(1)] have lt: "length (content q) < cap" by simp
    from put_ok[OF "2.prems"(1) lt, of b] "2.IH"[OF False] "2.prems"(2) False lt
    show ?thesis by (auto simp: take_Cons' drop_Cons')
  qed (use 2 in auto)
qed simp

lemma drain_spec:
  "fifo_ok q \<Longrightarrow> drain n q = (bs, q') \<Longrightarrow>
     fifo_ok q' \<and> bs = take n (content q) \<and> content q' = drop n (content q)"
proof (induction n q arbitrary: bs q' rule: drain.induct)
  case (2 n q)
  show ?case
  proof (cases "content q")
    case (Cons c cs)
    obtain b q1 where g: "get q = (b, q1)" by fastforce
    obtain ds q2 where r: "drain n q1 = (ds, q2)" by fastforce
    have q1: "b = c" "fifo_ok q1" "content q1 = cs" using get_ok[OF "2.prems"(1) Cons] g by auto
    have "fifo_ok q2 \<and> ds = take n cs \<and> content q2 = drop n cs"
      using "2.IH"[of "(b, q1)" b q1 ds q2] Cons g q1 r by simp
    moreover have "bs = b # ds" "q' = q2" using "2.prems"(2) Cons g r by simp_all
    ultimately show ?thesis using Cons q1 by simp
  qed (use 2 in auto)
qed simp

end

section \<open>Bytes between two counters\<close>

definition ring :: "u8 list \<Rightarrow> u32 \<Rightarrow> u32 \<Rightarrow> u8 list" where
  "ring d r w = map (\<lambda>i. d ! (unat (r + of_nat i) mod length d)) [0..<unat (w - r)]"

lemma length_ring [simp]: "length (ring d r w) = unat (w - r)"
  by (simp add: ring_def)

lemma ring_empty [simp]: "ring d r r = []"
  by (simp add: ring_def)

lemma ring_Nil_iff: "ring d r w = [] \<longleftrightarrow> r = w"
  by (simp add: unat_eq_zero flip: length_0_conv) (auto simp: eq_commute)

lemma mod_add_nat_u32:
  assumes "n dvd 2 ^ 32"
  shows "unat (a + of_nat i :: u32) mod n = (unat a + i) mod n"
proof -
  have "unat (a + of_nat i) = (unat a + i) mod 2 ^ 32"
    by (simp add: unat_word_ariths unat_of_nat take_bit_eq_mod mod_add_right_eq)
  then show ?thesis using mod_mod_cancel[OF assms] by simp
qed

lemma mod_eq_small:
  assumes "(a + i) mod n = (a + j) mod n" "i < n" "j < n"
  shows "i = (j :: nat)"
proof -
  have "k = l" if "k \<le> l" "(a + k) mod n = (a + l) mod n" "l < n" for k l
  proof -
    have "n dvd (a + l) - (a + k)" using that mod_eq_dvd_iff_nat[of "a + k" "a + l" n] by simp
    then have "n dvd l - k" by simp
    with that show ?thesis by (auto dest: dvd_imp_le)
  qed
  from this[of i j] this[of j i] assms show ?thesis by (cases "i \<le> j") auto
qed

lemma nth_ring:
  "i < unat (w - r) \<Longrightarrow> length d dvd 2 ^ 32 \<Longrightarrow> ring d r w ! i = d ! ((unat r + i) mod length d)"
  by (simp add: ring_def mod_add_nat_u32)

lemma unat_ring_Suc: "unat (w - r :: u32) < N \<Longrightarrow> N < 2 ^ 32 \<Longrightarrow> unat (w + 1 - r) = Suc (unat (w - r))"
proof -
  assume "unat (w - r) < N" "N < 2 ^ 32"
  then have "unat ((w - r) + 1) = Suc (unat (w - r))" by (subst unat_add_noof) simp_all
  then show ?thesis by (simp add: algebra_simps)
qed

lemma ring_put:
  assumes "length d = N" "N dvd 2 ^ 32" "N < 2 ^ 32" "unat (w - r) < N"
  shows "ring (d[unat w mod N := b]) r (w + 1) = ring d r w @ [b]"
proof (rule nth_equalityI)
  define k where "k = unat (w - r)"
  note k1 = unat_ring_Suc[OF assms(4,3)]
  have w: "unat w mod N = (unat r + k) mod N"
    using mod_add_nat_u32[OF assms(2), of r k] by (simp add: k_def)
  show "length (ring (d[unat w mod N := b]) r (w + 1)) = length (ring d r w @ [b])" using k1 by simp
  fix i
  assume "i < length (ring (d[unat w mod N := b]) r (w + 1))"
  then have i: "i < Suc k" using k1 by (simp add: k_def)
  then have "ring (d[unat w mod N := b]) r (w + 1) ! i = d[(unat r + k) mod N := b] ! ((unat r + i) mod N)"
    using k1 assms by (simp add: nth_ring w k_def)
  moreover have "(unat r + k) mod N = (unat r + i) mod N \<longleftrightarrow> k = i"
    using mod_eq_small[of "unat r" k N i] i assms(4) by (auto simp: k_def)
  ultimately show "ring (d[unat w mod N := b]) r (w + 1) ! i = (ring d r w @ [b]) ! i"
    using i assms by (auto simp: nth_append nth_ring nth_list_update k_def[symmetric])
qed

lemma ring_get:
  assumes "length d dvd 2 ^ 32" "w \<noteq> r"
  shows "ring d r w = d ! (unat r mod length d) # ring d (r + 1) w"
proof (rule nth_equalityI)
  note s = offset_Suc[OF assms(2)]
  show "length (ring d r w) = length (d ! (unat r mod length d) # ring d (r + 1) w)" using s by simp
  fix i
  assume i: "i < length (ring d r w)"
  have "(unat (r + 1) + j) mod length d = Suc (unat r + j) mod length d" for j
  proof -
    have "unat (r + 1) mod length d = Suc (unat r) mod length d"
      using mod_add_nat_u32[OF assms(1), of r 1] by simp
    then have "(unat (r + 1) mod length d + j) mod length d = (Suc (unat r) mod length d + j) mod length d" by simp
    then show ?thesis by (simp add: mod_add_left_eq)
  qed
  then show "ring d r w ! i = (d ! (unat r mod length d) # ring d (r + 1) w) ! i"
    using s i assms(1) by (cases i) (simp_all add: nth_ring)
qed

lemma ring_append:
  assumes "unat (w - r) \<le> unat (e - r)"
  shows "ring d r e = ring d r w @ ring d w e"
proof (rule nth_equalityI)
  have "w - r \<le> e - r" using assms by (simp add: word_le_nat_alt)
  then have u: "unat (e - w) = unat (e - r) - unat (w - r)" using unat_sub[of "w - r" "e - r"] by simp
  then show "length (ring d r e) = length (ring d r w @ ring d w e)" using assms by simp
  fix i
  assume i: "i < length (ring d r e)"
  show "ring d r e ! i = (ring d r w @ ring d w e) ! i"
  proof (cases "i < unat (w - r)")
    case True
    then show ?thesis using i by (simp add: nth_append ring_def)
  next
    case False
    then have "w + of_nat (i - unat (w - r)) = r + of_nat i" by (simp add: of_nat_diff)
    then show ?thesis using False i u by (simp add: nth_append ring_def add.commute)
  qed
qed

text \<open>Taking back the last byte.\<close>

lemma ring_unput:
  assumes "e \<noteq> r"
  shows "ring d r e = ring d r (e - 1) @ [d ! (unat (e - 1) mod length d)]"
proof -
  have "e - 1 - r = (e - r) - 1" by simp
  then have "unat (e - 1 - r) = unat (e - r) - 1" using assms unat_minus_one[of "e - r"] by (metis right_minus_eq)
  then show ?thesis using ring_append[of "e - 1" r e d] by (simp add: ring_def)
qed

end
