(* ===== verification/Pipe.thy ===== *)
theory Pipe
  imports Cstring Locks Ring
begin

text \<open>
  Pipes, \<^verbatim>\<open>src/src/pipe.c\<close>. A pipe is a ring of 512 bytes with two free-running 32-bit counters that wrap.
  Every routine runs under the lock of the pipe up to the point where it returns or sleeps, so it is a
  function from the pipe to the pipe, the channels it wakes and what happened; a writer that sleeps is
  resumed with the bytes it has still to write.

  \<open>fifo\<close> is the contract of a ring buffer; the pipe provides it, and the stream theorems rest on it.
\<close>

section \<open>The code\<close>

abbreviation PIPESIZE :: nat where "PIPESIZE \<equiv> 512"

record pipe =
  pdata :: "u8 list"
  nread :: u32
  nwrite :: u32
  readopen :: bool
  writeopen :: bool

datatype pchan = ChNread | ChNwrite

datatype wout = WRet int | WSleep "u8 list"
datatype rout = RRet int "u8 list" | RSleep

definition pipe_full :: "pipe \<Rightarrow> bool" where
  "pipe_full p \<longleftrightarrow> nwrite p = nread p + 512"

definition pipe_put :: "u8 \<Rightarrow> pipe \<Rightarrow> pipe" where
  "pipe_put b p = p\<lparr>pdata := (pdata p)[unat (nwrite p) mod PIPESIZE := b], nwrite := nwrite p + 1\<rparr>"

definition pipe_get :: "pipe \<Rightarrow> u8 \<times> pipe" where
  "pipe_get p = (pdata p ! (unat (nread p) mod PIPESIZE), p\<lparr>nread := nread p + 1\<rparr>)"

text \<open>The loop of \<^verbatim>\<open>pipewrite\<close> over the bytes still to write; \<open>n\<close> is what it returns at the end.\<close>

fun pipewrite_loop :: "bool \<Rightarrow> int \<Rightarrow> u8 list \<Rightarrow> pipe \<Rightarrow> wout \<times> pchan list \<times> pipe" where
  "pipewrite_loop killed n [] p = (WRet n, [ChNread], p)"
| "pipewrite_loop killed n (b # bs) p =
     (if pipe_full p
      then if \<not> readopen p \<or> killed then (WRet (- 1), [], p)
           else (WSleep (b # bs), [ChNread], p)
      else pipewrite_loop killed n bs (pipe_put b p))"

definition pipewrite :: "bool \<Rightarrow> pipe \<Rightarrow> bytes_at \<Rightarrow> int \<Rightarrow> wout \<times> pchan list \<times> pipe" where
  "pipewrite killed p addr n = pipewrite_loop killed n (map addr [0..<nat n]) p"

fun piperead_loop :: "nat \<Rightarrow> pipe \<Rightarrow> u8 list \<times> pipe" where
  "piperead_loop 0 p = ([], p)"
| "piperead_loop (Suc n) p =
     (if nread p = nwrite p then ([], p)
      else let (b, p1) = pipe_get p; (bs, p2) = piperead_loop n p1 in (b # bs, p2))"

definition piperead :: "bool \<Rightarrow> pipe \<Rightarrow> int \<Rightarrow> rout \<times> pchan list \<times> pipe" where
  "piperead killed p n =
     (if nread p = nwrite p \<and> writeopen p
      then if killed then (RRet (- 1) [], [], p) else (RSleep, [], p)
      else let (bs, p1) = piperead_loop (nat n) p in (RRet (int (length bs)) bs, [ChNwrite], p1))"

text \<open>\<^verbatim>\<open>pipeclose\<close>: the second component tells whether the page of the pipe is freed.\<close>

definition pipeclose :: "pipe \<Rightarrow> bool \<Rightarrow> pipe \<times> pchan list \<times> bool" where
  "pipeclose p writable =
     (let (p1, ws) = (if writable then (p\<lparr>writeopen := False\<rparr>, [ChNread])
                      else (p\<lparr>readopen := False\<rparr>, [ChNwrite])) in
      (p1, ws, \<not> readopen p1 \<and> \<not> writeopen p1))"

section \<open>The pipe is a queue of at most 512 bytes\<close>

definition pipe_ok :: "pipe \<Rightarrow> bool" where
  "pipe_ok p \<longleftrightarrow> length (pdata p) = PIPESIZE \<and> unat (nwrite p - nread p) \<le> PIPESIZE"

definition pipe_bytes :: "pipe \<Rightarrow> u8 list" where
  "pipe_bytes p = ring (pdata p) (nread p) (nwrite p)"

lemma length_pipe_bytes [simp]: "length (pipe_bytes p) = unat (nwrite p - nread p)"
  by (simp add: pipe_bytes_def)

lemma pipe_full_iff: "pipe_full p \<longleftrightarrow> length (pipe_bytes p) = PIPESIZE"
proof -
  have "nwrite p = nread p + 512 \<longleftrightarrow> nwrite p - nread p = 512" by (auto simp: algebra_simps)
  also have "\<dots> \<longleftrightarrow> unat (nwrite p - nread p) = 512" by (simp add: word_unat_eq_iff)
  finally show ?thesis by (simp add: pipe_full_def)
qed

lemma pipe_empty_iff: "nread p = nwrite p \<longleftrightarrow> pipe_bytes p = []"
  by (simp add: pipe_bytes_def ring_Nil_iff)

lemma pipe_put_ok:
  assumes "pipe_ok p" "length (pipe_bytes p) < PIPESIZE"
  shows "pipe_ok (pipe_put b p)" "pipe_bytes (pipe_put b p) = pipe_bytes p @ [b]"
  using assms unat_ring_Suc[of "nwrite p" "nread p" 512] ring_put[of "pdata p" 512 "nwrite p" "nread p" b]
  by (simp_all add: pipe_ok_def pipe_put_def pipe_bytes_def)

lemma pipe_get_ok:
  assumes "pipe_ok p" "pipe_bytes p = b # bs"
  shows "fst (pipe_get p) = b" "pipe_ok (snd (pipe_get p))" "pipe_bytes (snd (pipe_get p)) = bs"
proof -
  have ne: "nwrite p \<noteq> nread p" using assms(2) pipe_empty_iff[of p] by auto
  then show "fst (pipe_get p) = b" "pipe_ok (snd (pipe_get p))" "pipe_bytes (snd (pipe_get p)) = bs"
    using assms ring_get[of "pdata p" "nwrite p" "nread p"] offset_Suc[OF ne]
    by (simp_all add: pipe_ok_def pipe_get_def pipe_bytes_def)
qed

interpretation pipe_q: fifo pipe_put pipe_get pipe_bytes pipe_ok PIPESIZE
  by unfold_locales (auto simp: pipe_put_ok pipe_get_ok, simp add: pipe_ok_def)

section \<open>Writers and readers\<close>

lemma pipe_put_open [simp]:
  "readopen (pipe_put b p) = readopen p" "writeopen (pipe_put b p) = writeopen p" "nread (pipe_put b p) = nread p"
  by (simp_all add: pipe_put_def)

lemma pipewrite_loop_fill:
  "pipewrite_loop killed n bs p =
     (let (rest, p') = pipe_q.fill bs p in
      (if rest = [] then WRet n else if \<not> readopen p \<or> killed then WRet (- 1) else WSleep rest,
       if rest \<noteq> [] \<and> (\<not> readopen p \<or> killed) then [] else [ChNread], p'))"
  by (induction killed n bs p rule: pipewrite_loop.induct) (auto simp: pipe_full_iff Let_def split: prod.splits)

lemma piperead_loop_drain: "piperead_loop n p = pipe_q.drain n p"
  by (induction n p rule: piperead_loop.induct) (auto simp: pipe_empty_iff Let_def split: prod.splits)

lemma fill_open:
  "pipe_q.fill bs p = (rest, p') \<Longrightarrow> readopen p' = readopen p \<and> writeopen p' = writeopen p \<and> nread p' = nread p"
  by (induction bs p rule: pipe_q.fill.induct) (auto split: if_splits)

lemma drain_open:
  "pipe_q.drain n p = (bs, p') \<Longrightarrow> readopen p' = readopen p \<and> writeopen p' = writeopen p \<and> nwrite p' = nwrite p"
  by (induction n p arbitrary: bs p' rule: pipe_q.drain.induct)
    (auto simp: pipe_get_def split: if_splits prod.splits)

text \<open>The history of a pipe: processes enter \<^verbatim>\<open>pipewrite\<close> (from its start, or resumed after a sleep, with the
  bytes left), enter \<^verbatim>\<open>piperead\<close>, or close an end, in any order. Recorded are the bytes accepted from
  writers (told by the write counter) and the bytes delivered to readers.\<close>

datatype pipe_ev = WriteEv bool "u8 list" | ReadEv bool int | CloseEv bool

fun pipe_event :: "pipe_ev \<Rightarrow> pipe \<times> u8 list \<times> u8 list \<Rightarrow> pipe \<times> u8 list \<times> u8 list" where
  "pipe_event (WriteEv killed bs) (p, sent, got) =
     (let (r, ws, p') = pipewrite_loop killed (int (length bs)) bs p in
      (p', sent @ take (unat (nwrite p' - nwrite p)) bs, got))"
| "pipe_event (ReadEv killed n) (p, sent, got) =
     (case piperead killed p n of
        (RRet r bs, ws, p') \<Rightarrow> (p', sent, got @ bs)
      | (RSleep, ws, p') \<Rightarrow> (p', sent, got))"
| "pipe_event (CloseEv writable) (p, sent, got) = (fst (pipeclose p writable), sent, got)"

lemma pipe_bytes_open [simp]:
  "pipe_bytes (p\<lparr>readopen := a\<rparr>) = pipe_bytes p" "pipe_bytes (p\<lparr>writeopen := a\<rparr>) = pipe_bytes p"
  "pipe_ok (p\<lparr>readopen := a\<rparr>) = pipe_ok p" "pipe_ok (p\<lparr>writeopen := a\<rparr>) = pipe_ok p"
  by (simp_all add: pipe_bytes_def pipe_ok_def)

lemma fill_counts:
  assumes "pipe_ok p" "pipe_q.fill bs p = (rest, p')"
  shows "take (unat (nwrite p' - nwrite p)) bs = take (PIPESIZE - length (pipe_bytes p)) bs"
proof -
  define a where "a = nwrite p - nread p"
  define b where "b = nwrite p' - nread p"
  have r: "nread p' = nread p" using fill_open[OF assms(2)] by simp
  have "length (pipe_bytes p') = length (pipe_bytes p) + length (take (PIPESIZE - length (pipe_bytes p)) bs)"
    using pipe_q.fill_spec[OF assms] by simp
  then have l: "unat b = unat a + min (length bs) (PIPESIZE - unat a)" by (simp add: r a_def b_def)
  have "unat (nwrite p' - nwrite p) = unat (b - a)" by (simp add: a_def b_def)
  also have "\<dots> = unat b - unat a" using l by (simp add: unat_sub_if' word_le_nat_alt)
  also have "\<dots> = min (length bs) (PIPESIZE - length (pipe_bytes p))" using l by (simp add: a_def)
  finally show ?thesis by (simp add: min_def)
qed

lemma pipe_event_stream:
  assumes "pipe_ok p" "sent = got @ pipe_bytes p" "pipe_event e (p, sent, got) = (p', sent', got')"
  shows "pipe_ok p' \<and> sent' = got' @ pipe_bytes p'"
proof (cases e)
  case (WriteEv killed bs)
  obtain rest q where f: "pipe_q.fill bs p = (rest, q)" by fastforce
  show ?thesis using assms WriteEv f pipe_q.fill_spec[OF assms(1) f] fill_counts[OF assms(1) f]
    by (auto simp: pipewrite_loop_fill)
next
  case (ReadEv killed n)
  obtain bs q where d: "pipe_q.drain (nat n) p = (bs, q)" by fastforce
  show ?thesis using assms ReadEv d pipe_q.drain_spec[OF assms(1) d]
    by (auto simp: piperead_def piperead_loop_drain split: if_splits)
next
  case (CloseEv w)
  then show ?thesis using assms by (auto simp: pipeclose_def)
qed

text \<open>C7. A pipe is a first-in first-out byte stream: after any interleaving of (possibly interrupted and
  resumed) writes, reads and closes, the bytes accepted from the writers are exactly those delivered to
  the readers followed by the at most 512 bytes still in the ring, also when the counters wrap.\<close>

theorem pipe_stream_in_order:
  assumes "pipe_ok p" "pipe_bytes p = []"
  shows "case fold pipe_event evs (p, [], []) of
    (p', sent, got) \<Rightarrow> sent = got @ pipe_bytes p' \<and> length (pipe_bytes p') \<le> PIPESIZE"
proof -
  have "pipe_ok q \<Longrightarrow> sent = got @ pipe_bytes q \<Longrightarrow> case fold pipe_event evs (q, sent, got) of
    (p', sent, got) \<Rightarrow> pipe_ok p' \<and> sent = got @ pipe_bytes p'" for q sent got
  proof (induction evs arbitrary: q sent got)
    case (Cons e evs)
    obtain q' sent' got' where e: "pipe_event e (q, sent, got) = (q', sent', got')" by (metis prod_cases3)
    from pipe_event_stream[OF Cons.prems e] Cons.IH[of q' sent' got'] e show ?case by simp
  qed simp
  from this[OF assms(1), of "[]" "[]"] assms(2) pipe_q.bounded show ?thesis by (auto simp: pipe_ok_def)
qed

theorem pipe_stream_in_order_witness:
  "case fold pipe_event [WriteEv False [1, 2, 3], ReadEv False 2, CloseEv True]
      (\<lparr>pdata = replicate 512 0, nread = 0xFFFFFFFF, nwrite = 0xFFFFFFFF, readopen = True, writeopen = True\<rparr>, [], []) of
    (p', sent, got) \<Rightarrow> sent = got @ pipe_bytes p' \<and> length (pipe_bytes p') \<le> PIPESIZE"
  by (rule pipe_stream_in_order) (simp_all add: pipe_ok_def pipe_bytes_def ring_def)

text \<open>A whole conversation: the writer writes its message and closes, the reader reads up to \<open>k\<close> bytes at a
  time until the end of file; they take turns, each running until it returns or sleeps.\<close>

fun pipe_session :: "nat \<Rightarrow> int \<Rightarrow> u8 list option \<Rightarrow> pipe \<Rightarrow> u8 list \<Rightarrow> u8 list option" where
  "pipe_session 0 k w p got = None"
| "pipe_session (Suc f) k w p got =
     (let (w1, p1) = (case w of
            None \<Rightarrow> (None, p)
          | Some bs \<Rightarrow> (case pipewrite_loop False (int (length bs)) bs p of
                (WRet n, ws, p1) \<Rightarrow> (None, fst (pipeclose p1 True))
              | (WSleep rest, ws, p1) \<Rightarrow> (Some rest, p1))) in
      case piperead False p1 k of
        (RRet n bs, ws, p2) \<Rightarrow> if n = 0 then Some got else pipe_session f k w1 p2 (got @ bs)
      | (RSleep, ws, p2) \<Rightarrow> pipe_session f k w1 p2 got)"

lemma writer_turn:
  assumes "pipe_ok p" "readopen p" "writeopen p \<longleftrightarrow> w \<noteq> None"
    and "(case w of
            None \<Rightarrow> (None, p)
          | Some bs \<Rightarrow> (case pipewrite_loop False (int (length bs)) bs p of
                (WRet n, ws, p1) \<Rightarrow> (None, fst (pipeclose p1 True))
              | (WSleep rest, ws, p1) \<Rightarrow> (Some rest, p1))) = (w1, p1)"
  shows "pipe_ok p1 \<and> readopen p1 \<and> (writeopen p1 \<longleftrightarrow> w1 \<noteq> None) \<and>
    pipe_bytes p1 @ (case w1 of None \<Rightarrow> [] | Some bs \<Rightarrow> bs) = pipe_bytes p @ (case w of None \<Rightarrow> [] | Some bs \<Rightarrow> bs)
    \<and> (w1 \<noteq> None \<longrightarrow> pipe_bytes p1 \<noteq> [])"
proof (cases w)
  case (Some bs)
  obtain rest q where f: "pipe_q.fill bs p = (rest, q)" by fastforce
  have s: "pipe_ok q" "pipe_bytes q = pipe_bytes p @ take (PIPESIZE - length (pipe_bytes p)) bs"
    "rest = drop (PIPESIZE - length (pipe_bytes p)) bs" "readopen q" "writeopen q"
    using pipe_q.fill_spec[OF assms(1) f] fill_open[OF f] assms(2,3) Some by simp_all
  show ?thesis
  proof (cases "rest = []")
    case True
    then show ?thesis using assms(2,4) Some f s by (auto simp: pipewrite_loop_fill pipeclose_def)
  next
    case False
    then have "pipe_bytes q \<noteq> []" using s(2,3) by (cases "pipe_bytes p = []") auto
    then show ?thesis using assms(2,4) Some f s False by (auto simp: pipewrite_loop_fill)
  qed
qed (use assms in auto)

lemma pipe_session_total:
  assumes "0 < k" "pipe_ok p" "readopen p" "writeopen p \<longleftrightarrow> w \<noteq> None"
    and "length (pipe_bytes p) + length (case w of None \<Rightarrow> [] | Some bs \<Rightarrow> bs) < f"
  shows "pipe_session f k w p got = Some (got @ pipe_bytes p @ (case w of None \<Rightarrow> [] | Some bs \<Rightarrow> bs))"
  using assms
proof (induction f arbitrary: w p got)
  case (Suc f)
  define rem where "rem = (case w of None \<Rightarrow> [] | Some bs \<Rightarrow> bs)"
  obtain w1 p1 where w1: "(case w of
            None \<Rightarrow> (None, p)
          | Some bs \<Rightarrow> (case pipewrite_loop False (int (length bs)) bs p of
                (WRet n, ws, p1) \<Rightarrow> (None, fst (pipeclose p1 True))
              | (WSleep rest, ws, p1) \<Rightarrow> (Some rest, p1))) = (w1, p1)" by fastforce
  define rem1 where "rem1 = (case w1 of None \<Rightarrow> [] | Some bs \<Rightarrow> bs)"
  have p1: "pipe_ok p1" "readopen p1" "writeopen p1 \<longleftrightarrow> w1 \<noteq> None"
    "pipe_bytes p1 @ rem1 = pipe_bytes p @ rem" "w1 \<noteq> None \<Longrightarrow> pipe_bytes p1 \<noteq> []"
    using writer_turn[OF Suc.prems(2,3,4) w1] by (simp_all add: rem_def rem1_def)
  obtain bs p2 where d: "pipe_q.drain (nat k) p1 = (bs, p2)" by fastforce
  have s: "pipe_ok p2" "bs = take (nat k) (pipe_bytes p1)" "pipe_bytes p2 = drop (nat k) (pipe_bytes p1)"
    "readopen p2" "writeopen p2 \<longleftrightarrow> w1 \<noteq> None"
    using pipe_q.drain_spec[OF p1(1) d] drain_open[OF d] p1 by simp_all
  have rd: "piperead False p1 k = (RRet (int (length bs)) bs, [ChNwrite], p2)"
    using p1(3,5) d by (auto simp: piperead_def pipe_empty_iff piperead_loop_drain)
  show ?case
  proof (cases "pipe_bytes p1 = []")
    case True
    then have "bs = []" "rem1 = []" using s p1(5) by (auto simp: rem1_def split: option.splits)
    then show ?thesis using w1 rd True p1(4) rem_def by simp
  next
    case False
    have bs: "bs \<noteq> []" using s(2) False Suc.prems(1) by simp
    have len: "length (pipe_bytes p1) + length rem1 = length (pipe_bytes p) + length rem"
      using arg_cong[OF p1(4), of length] by simp
    have "pipe_session f k w1 p2 (got @ bs) = Some ((got @ bs) @ pipe_bytes p2 @ rem1)"
      unfolding rem1_def
    proof (rule Suc.IH)
      show "length (pipe_bytes p2) + length (case w1 of None \<Rightarrow> [] | Some bs \<Rightarrow> bs) < f"
        using Suc.prems(1,5) len False s(3) by (cases "pipe_bytes p1") (auto simp: rem_def rem1_def)
    qed (use w1 rd s bs Suc.prems(1) in auto)
    moreover have "bs @ pipe_bytes p2 @ rem1 = pipe_bytes p @ rem"
      unfolding s(2,3) p1(4)[symmetric] by (simp flip: append_assoc)
    ultimately show ?thesis using w1 rd bs by (simp add: rem_def)
  qed
qed simp



end
