(* ===== verification/Kalloc.thy ===== *)
theory Kalloc
  imports Cstring Mmu
begin

text \<open>
  The physical page allocator, \<^verbatim>\<open>src/src/kalloc.c\<close>. The free pages form a list threaded through the
  pages themselves, so the state is the memory and the address of the first free page. The symbol
  \<^verbatim>\<open>end\<close> (first address behind the kernel image, set by the linker) is the parameter \<open>kend\<close>. The code
  between \<^verbatim>\<open>acquire(&kmem.lock)\<close> and \<^verbatim>\<open>release(&kmem.lock)\<close> is one atomic step (theory \<open>Locks\<close>).

  \<open>page_allocator\<close> is what the clients of the allocator (page tables, kernel stacks, pipes) rely on; the
  model of \<^verbatim>\<open>kalloc\<close> and \<^verbatim>\<open>kfree\<close> is shown to provide it.
\<close>

section \<open>The code\<close>

record kmem =
  mem :: mem
  use_lock :: bool
  freelist :: u32

definition kfree :: "u32 \<Rightarrow> u32 \<Rightarrow> kmem \<Rightarrow> kmem res" where
  "kfree kend v s =
     (if unat v mod unat PGSIZE \<noteq> 0 \<or> v < kend \<or> V2P v \<ge> PHYSTOP then Inl (Panic ''kfree'')
      else let s1 = s\<lparr>mem := memset (mem s) v 1 PGSIZE\<rparr> in
        Inr (s1\<lparr>mem := store32 (mem s1) v (freelist s1), freelist := v\<rparr>))"

definition kalloc :: "kmem \<Rightarrow> u32 \<times> kmem" where
  "kalloc s =
     (let r = freelist s in
      (r, if r \<noteq> 0 then s\<lparr>freelist := load32 (mem s) r\<rparr> else s))"

lemma kfree_range: "kfree kend v s = Inr s' \<Longrightarrow> unat v < 0x8E000000"
proof -
  assume "kfree kend v s = Inr s'"
  then have "v - 0x80000000 < 0xE000000"
    by (simp add: kfree_def layout_defs not_le split: if_splits)
  then show ?thesis using unat_less_2p32[of v]
    by (simp add: word_less_nat_alt unat_sub_if' word_le_nat_alt split: if_splits)
qed

lemma page_step:
  assumes "unat (v :: u32) \<le> 0x8E000000"
  shows "unat (v + PGSIZE) = unat v + 4096"
proof -
  have u: "unat (4096 :: u32) = 4096" by simp
  show ?thesis using unat_add_noof[of v 4096] assms unfolding PGSIZE_def u by simp
qed

function freerange_loop :: "u32 \<Rightarrow> u32 \<Rightarrow> u32 \<Rightarrow> kmem \<Rightarrow> kmem res" where
  "freerange_loop kend p vend s =
     (if p + PGSIZE \<le> vend
      then (case kfree kend p s of
              Inl e \<Rightarrow> Inl e
            | Inr s' \<Rightarrow> freerange_loop kend (p + PGSIZE) vend s')
      else Inr s)"
  by pat_completeness auto
termination
proof (relation "measure (\<lambda>(kend, p, vend, s). 2 ^ 32 - unat p)")
  fix kend p vend :: u32 and s s' :: kmem
  assume "p + PGSIZE \<le> vend" and "kfree kend p s = Inr s'"
  then have "unat p \<le> 0x8E000000" using kfree_range by (simp add: less_imp_le)
  then show "((kend, p + PGSIZE, vend, s'), kend, p, vend, s) \<in> measure (\<lambda>(kend, p, vend, s). 2 ^ 32 - unat p)"
    using unat_less_2p32[of p] by (simp add: page_step)
qed simp

declare freerange_loop.simps [simp del]

definition freerange :: "u32 \<Rightarrow> u32 \<Rightarrow> u32 \<Rightarrow> kmem \<Rightarrow> kmem res" where
  "freerange kend vstart vend s = freerange_loop kend (PGROUNDUP vstart) vend s"

definition kinit1 :: "u32 \<Rightarrow> u32 \<Rightarrow> u32 \<Rightarrow> kmem \<Rightarrow> kmem res" where
  "kinit1 kend vstart vend s = freerange kend vstart vend (s\<lparr>use_lock := False\<rparr>)"

definition kinit2 :: "u32 \<Rightarrow> u32 \<Rightarrow> u32 \<Rightarrow> kmem \<Rightarrow> kmem res" where
  "kinit2 kend vstart vend s =
     rbind (freerange kend vstart vend s) (\<lambda>s1. Inr (s1\<lparr>use_lock := True\<rparr>))"

section \<open>The free list in memory\<close>

fun chain :: "mem \<Rightarrow> u32 \<Rightarrow> u32 list \<Rightarrow> bool" where
  "chain m p [] \<longleftrightarrow> p = 0"
| "chain m p (v # vs) \<longleftrightarrow> p = v \<and> chain m (load32 m v) vs"

definition kpage :: "u32 \<Rightarrow> u32 \<Rightarrow> bool" where
  "kpage kend v \<longleftrightarrow> aligned v \<and> kend \<le> v \<and> V2P v < PHYSTOP"

definition free_list :: "u32 \<Rightarrow> kmem \<Rightarrow> u32 list \<Rightarrow> bool" where
  "free_list kend s vs \<longleftrightarrow> chain (mem s) (freelist s) vs \<and> distinct vs \<and> (\<forall>v \<in> set vs. kpage kend v)"

lemma kpage_nonzero: "kpage kend v \<Longrightarrow> v \<noteq> 0"
  by (auto simp: kpage_def layout_defs)

lemma chain_cong:
  "(\<And>v. v \<in> set vs \<Longrightarrow> load32 m' v = load32 m v) \<Longrightarrow> chain m' p vs = chain m p vs"
  by (induction vs arbitrary: p) auto

text \<open>A word at the start of an aligned page is not changed by writes to other pages.\<close>

lemma load32_other_page:
  assumes "aligned v" "\<And>x. page x = page v \<Longrightarrow> m' x = m x"
  shows "load32 m' v = load32 m v"
proof -
  have "page (v + 1) = page v" "page (v + 2) = page v" "page (v + 3) = page v"
    using assms(1) by (simp_all add: page_offset)
  then show ?thesis using assms(2) by (simp add: load32_def)
qed

lemma store32_other_page:
  assumes "aligned v" "page x \<noteq> page v"
  shows "store32 m v w x = m x"
proof -
  have "page (v + 1) = page v" "page (v + 2) = page v" "page (v + 3) = page v"
    using assms(1) by (simp_all add: page_offset)
  then show ?thesis using assms(2) by (auto simp: store32_def)
qed

lemma kfree_eq:
  assumes "kpage kend v"
  shows "kfree kend v s = Inr (s\<lparr>mem := store32 (memset (mem s) v 1 PGSIZE) v (freelist s), freelist := v\<rparr>)"
  using assms by (auto simp: kfree_def kpage_def aligned_def PGSIZE_def Let_def)

lemma kfree_panics: "\<not> kpage kend v \<Longrightarrow> kfree kend v s = Inl (Panic ''kfree'')"
  by (auto simp: kfree_def kpage_def aligned_def PGSIZE_def)

lemma kfree_mem_other:
  assumes "kpage kend v" "page x \<noteq> page v"
  shows "store32 (memset m v 1 PGSIZE) v w x = m x"
proof -
  have a: "aligned v" using assms(1) by (simp add: kpage_def)
  show ?thesis using store32_other_page[OF a assms(2)] in_page[OF a, of x] assms(2)
    by (simp add: memset_at PGSIZE_def)
qed

lemma free_list_kfree:
  assumes "free_list kend s vs" "kpage kend v" "v \<notin> set vs"
  obtains s' where "kfree kend v s = Inr s'" "free_list kend s' (v # vs)" "use_lock s' = use_lock s"
    "\<And>x. page x \<noteq> page v \<Longrightarrow> mem s' x = mem s x"
proof -
  let ?m = "store32 (memset (mem s) v 1 PGSIZE) v (freelist s)"
  have "chain ?m (freelist s) vs = chain (mem s) (freelist s) vs"
  proof (rule chain_cong, rule load32_other_page)
    fix u x
    assume u: "u \<in> set vs"
    then show au: "aligned u" using assms(1) by (auto simp: free_list_def kpage_def)
    assume "page x = page u"
    moreover have "page u \<noteq> page v"
      using page_inj[OF au] u assms(2,3) by (auto simp: kpage_def)
    ultimately show "?m x = mem s x" using kfree_mem_other[OF assms(2)] by simp
  qed
  then have "free_list kend (s\<lparr>mem := ?m, freelist := v\<rparr>) (v # vs)"
    using assms by (simp add: free_list_def)
  then show ?thesis using that[OF kfree_eq[OF assms(2)]] kfree_mem_other[OF assms(2)] by simp
qed

lemma free_list_kalloc:
  assumes "free_list kend s vs"
  shows "kalloc s = (case vs of [] \<Rightarrow> (0, s) | v # ws \<Rightarrow> (v, s\<lparr>freelist := load32 (mem s) v\<rparr>))"
  using assms by (cases vs) (auto simp: kalloc_def free_list_def Let_def dest: kpage_nonzero)

lemma free_list_tail: "free_list kend s (v # vs) \<Longrightarrow> free_list kend (s\<lparr>freelist := load32 (mem s) v\<rparr>) vs"
  by (auto simp: free_list_def)

lemma free_list_write:
  assumes "free_list kend s vs" "page a \<notin> page ` set vs"
  shows "free_list kend (s\<lparr>mem := (mem s)(a := b)\<rparr>) vs"
proof -
  have "chain ((mem s)(a := b)) (freelist s) vs = chain (mem s) (freelist s) vs"
    using assms by (intro chain_cong load32_other_page) (auto simp: free_list_def kpage_def)
  then show ?thesis using assms(1) by (simp add: free_list_def)
qed

section \<open>The contract of the allocator\<close>

text \<open>A client asks for pages, gives back the \<open>i\<close>-th page it owns, and writes bytes into pages it owns.\<close>

datatype client_op = PAlloc | PFree nat | PWrite nat u32 u8

fun client_step :: "('s \<Rightarrow> u32 \<times> 's) \<Rightarrow> (u32 \<Rightarrow> 's \<Rightarrow> 's res) \<Rightarrow> (u32 \<Rightarrow> u8 \<Rightarrow> 's \<Rightarrow> 's) \<Rightarrow>
    client_op \<Rightarrow> 's \<times> u32 list \<Rightarrow> ('s \<times> u32 list) res" where
  "client_step alloc free wr PAlloc (s, own) =
     (case alloc s of (v, s') \<Rightarrow> Inr (s', if v = 0 then own else v # own))"
| "client_step alloc free wr (PFree i) (s, own) =
     (if i < length own
      then rbind (free (own ! i) s) (\<lambda>s'. Inr (s', take i own @ drop (Suc i) own)) else Inr (s, own))"
| "client_step alloc free wr (PWrite i k b) (s, own) =
     (if i < length own then Inr (wr (own ! i + (k AND 0xFFF)) b s, own) else Inr (s, own))"

fun client_run :: "('s \<Rightarrow> u32 \<times> 's) \<Rightarrow> (u32 \<Rightarrow> 's \<Rightarrow> 's res) \<Rightarrow> (u32 \<Rightarrow> u8 \<Rightarrow> 's \<Rightarrow> 's) \<Rightarrow>
    client_op list \<Rightarrow> 's \<times> u32 list \<Rightarrow> ('s \<times> u32 list) res" where
  "client_run alloc free wr [] x = Inr x"
| "client_run alloc free wr (p # ps) x =
     rbind (client_step alloc free wr p x) (client_run alloc free wr ps)"

locale page_allocator =
  fixes alloc :: "'s \<Rightarrow> u32 \<times> 's"
    and free :: "u32 \<Rightarrow> 's \<Rightarrow> 's res"
    and wr :: "u32 \<Rightarrow> u8 \<Rightarrow> 's \<Rightarrow> 's"
    and rep :: "'s \<Rightarrow> u32 list \<Rightarrow> bool"
    and good :: "u32 \<Rightarrow> bool"
  assumes rep_good: "rep s vs \<Longrightarrow> distinct vs \<and> (\<forall>v \<in> set vs. good v)"
    and good_page: "good v \<Longrightarrow> v \<noteq> 0 \<and> aligned v"
    and alloc_empty: "rep s [] \<Longrightarrow> alloc s = (0, s)"
    and alloc_page: "rep s (v # vs) \<Longrightarrow> \<exists>s'. alloc s = (v, s') \<and> rep s' vs"
    and free_page: "rep s vs \<Longrightarrow> good v \<Longrightarrow> v \<notin> set vs \<Longrightarrow> \<exists>s'. free v s = Inr s' \<and> rep s' (v # vs)"
    and write_page: "rep s vs \<Longrightarrow> page a \<notin> page ` set vs \<Longrightarrow> rep (wr a b s) vs"
begin

definition shared :: "'s \<times> u32 list \<Rightarrow> u32 set \<Rightarrow> bool" where
  "shared x all \<longleftrightarrow> (\<exists>vs. rep (fst x) vs \<and> distinct (vs @ snd x) \<and> (\<forall>v \<in> set (snd x). good v)
     \<and> set vs \<union> set (snd x) = all)"

lemma step_shared:
  assumes "shared (s, own) all"
  shows "\<exists>y. client_step alloc free wr p (s, own) = Inr y \<and> shared y all"
proof -
  from assms obtain vs where vs: "rep s vs" "distinct (vs @ own)" "\<forall>v \<in> set own. good v"
    "set vs \<union> set own = all" by (auto simp: shared_def)
  show ?thesis
  proof (cases p)
    case PAlloc
    show ?thesis
    proof (cases vs)
      case Nil
      then show ?thesis using PAlloc vs alloc_empty assms by simp
    next
      case (Cons v ws)
      with vs(1) obtain s' where s': "alloc s = (v, s')" "rep s' ws" using alloc_page by blast
      have "good v" using rep_good[OF vs(1)] Cons by simp
      with good_page have "v \<noteq> 0" by blast
      then show ?thesis using PAlloc s' vs Cons \<open>good v\<close> by (auto simp: shared_def intro!: exI[of _ ws])
    qed
  next
    case (PFree i)
    show ?thesis
    proof (cases "i < length own")
      case True
      then have own: "own = take i own @ own ! i # drop (Suc i) own" by (rule id_take_nth_drop)
      have "good (own ! i)" "own ! i \<notin> set vs" using vs True by (auto dest: nth_mem)
      then obtain s' where s': "free (own ! i) s = Inr s'" "rep s' (own ! i # vs)"
        using free_page vs(1) by blast
      have "set own = insert (own ! i) (set (take i own) \<union> set (drop (Suc i) own))"
        by (subst own) auto
      moreover have "distinct (take i own @ own ! i # drop (Suc i) own)" using vs(2) own by simp
      ultimately show ?thesis using PFree True s' vs
        by (auto simp: shared_def intro!: exI[of _ "own ! i # vs"] dest: in_set_takeD in_set_dropD)
    qed (use PFree assms in simp)
  next
    case (PWrite i k b)
    show ?thesis
    proof (cases "i < length own")
      case True
      then have al: "aligned (own ! i)" "own ! i \<notin> set vs" using vs good_page by (auto dest: nth_mem)
      then have pg: "page (own ! i + (k AND 0xFFF)) = page (own ! i)"
        by (intro page_offset) (simp_all add: unat_and_0xFFF)
      have "page (own ! i) \<notin> page ` set vs"
        using al rep_good[OF vs(1)] good_page page_inj by (metis imageE)
      with pg have "rep (wr (own ! i + (k AND 0xFFF)) b s) vs" by (intro write_page vs(1)) simp
      with PWrite True vs show ?thesis by (auto simp: shared_def)
    qed (use PWrite assms in simp)
  qed
qed

lemma run_shared:
  "shared x all \<Longrightarrow> \<exists>y. client_run alloc free wr ps x = Inr y \<and> shared y all"
proof (induction ps arbitrary: x)
  case (Cons p ps)
  obtain s own where x: "x = (s, own)" by (cases x)
  from step_shared[of s own all p] Cons.prems x
  obtain z where z: "client_step alloc free wr p x = Inr z" "shared z all" by auto
  with Cons.IH[OF z(2)] show ?case by simp
qed simp

end

definition kwrite :: "u32 \<Rightarrow> u8 \<Rightarrow> kmem \<Rightarrow> kmem" where
  "kwrite a b s = s\<lparr>mem := (mem s)(a := b)\<rparr>"

interpretation kpages: page_allocator kalloc "kfree kend" kwrite "free_list kend" "kpage kend" for kend
proof unfold_locales
  fix s vs v
  assume "free_list kend s (v # vs)"
  then show "\<exists>s'. kalloc s = (v, s') \<and> free_list kend s' vs"
    by (auto simp: free_list_kalloc free_list_tail)
next
  fix s vs v
  assume "free_list kend s vs" "kpage kend v" "v \<notin> set vs"
  then obtain s' where "kfree kend v s = Inr s'" "free_list kend s' (v # vs)"
    by (rule free_list_kfree)
  then show "\<exists>s'. kfree kend v s = Inr s' \<and> free_list kend s' (v # vs)" by blast
next
  fix v
  assume "kpage kend v"
  then show "v \<noteq> 0 \<and> aligned v" using kpage_nonzero[of kend v] by (simp add: kpage_def)
qed (simp_all add: free_list_kalloc kwrite_def free_list_write, simp add: free_list_def)

section \<open>Initialisation\<close>

lemma aligned_next:
  assumes "aligned p" "aligned v" "unat (p + PGSIZE) = unat p + 4096" "unat p \<le> unat v" "v \<noteq> p"
  shows "unat (p + PGSIZE) \<le> unat v"
proof -
  have "unat p = page p * 4096" "unat v = page v * 4096" "page p \<noteq> page v"
    using assms aligned_eq page_inj by auto
  with assms(3,4) show ?thesis by simp
qed

lemma freerange_loop_pages:
  assumes "free_list kend s vs" "aligned p" "kend \<le> p" "unat vend \<le> 0x8E000000"
    and "unat p \<le> 0x8E000000" "KERNBASE \<le> p" "\<forall>v \<in> set vs. unat v < unat p"
  shows "\<exists>s' ws. freerange_loop kend p vend s = Inr s' \<and> use_lock s' = use_lock s \<and> free_list kend s' ws \<and>
    set ws = set vs \<union> {v. aligned v \<and> p \<le> v \<and> unat v + 4096 \<le> unat vend}"
  using assms
proof (induction kend p vend s arbitrary: vs rule: freerange_loop.induct)
  case (1 kend p vend s)
  have step: "unat (p + PGSIZE) = unat p + 4096"
    using "1.prems"(5) by (rule page_step)
  have le: "p + PGSIZE \<le> vend \<longleftrightarrow> unat p + 4096 \<le> unat vend"
    by (simp only: word_le_nat_alt step)
  show ?case
  proof (cases "p + PGSIZE \<le> vend")
    case False
    then have "{v. aligned v \<and> p \<le> v \<and> unat v + 4096 \<le> unat vend} = {}"
      using le by (auto simp: word_le_nat_alt)
    with False "1.prems" show ?thesis by (subst freerange_loop.simps) (auto intro!: exI[of _ vs])
  next
    case True
    then have hi: "unat p < 0x8E000000" using le "1.prems"(4) by simp
    have k: "kpage kend p"
      using "1.prems"(2,3,6) hi
      by (auto simp: kpage_def layout_defs word_less_nat_alt word_le_nat_alt unat_sub_if')
    have "p \<notin> set vs" using "1.prems"(7) by auto
    from free_list_kfree[OF "1.prems"(1) k this] obtain s1 where s1: "kfree kend p s = Inr s1"
      "free_list kend s1 (p # vs)" "use_lock s1 = use_lock s" by metis
    have al: "aligned (p + PGSIZE)"
      using "1.prems"(2) step by (simp add: aligned_def)
    have "\<exists>s' ws. freerange_loop kend (p + PGSIZE) vend s1 = Inr s' \<and> use_lock s' = use_lock s1 \<and>
        free_list kend s' ws \<and>
        set ws = set (p # vs) \<union> {v. aligned v \<and> p + PGSIZE \<le> v \<and> unat v + 4096 \<le> unat vend}"
      using "1.prems" al step True le
      by (intro "1.IH"[OF True s1(1) s1(2)]) (auto simp: word_le_nat_alt)
    moreover have "{v. aligned v \<and> p \<le> v \<and> unat v + 4096 \<le> unat vend} =
        insert p {v. aligned v \<and> p + PGSIZE \<le> v \<and> unat v + 4096 \<le> unat vend}"
      using aligned_next[OF "1.prems"(2) _ step] "1.prems"(2) True le step by (auto simp: word_le_nat_alt)
    ultimately show ?thesis
      using True s1 by (subst freerange_loop.simps) auto
  qed
qed

lemma PGROUNDUP_le:
  assumes "aligned v" "unat a \<le> 2 ^ 32 - 4096"
  shows "PGROUNDUP a \<le> v \<longleftrightarrow> a \<le> v"
proof -
  have "(unat a + 4095) div 4096 \<le> page v \<longleftrightarrow> unat a \<le> page v * 4096"
    using div_less_iff_less_mult[of 4096 "unat a + 4095" "Suc (page v)"] by (simp add: less_Suc_eq_le)
  then show ?thesis
    using aligned_eq[OF assms(1)] unat_PGROUNDUP[OF assms(2)] by (simp add: word_le_nat_alt)
qed

lemma below_end_of_page:
  assumes "aligned v" "unat v < n * 4096"
  shows "unat v + 4096 \<le> n * 4096"
  using aligned_eq[OF assms(1)] assms(2) by (metis (no_types) add.commute mult_Suc mult_le_mono1 mult_less_cancel2 Suc_leI)

lemma kpage_iff:
  assumes "KERNBASE \<le> kend"
  shows "kpage kend v \<longleftrightarrow> aligned v \<and> kend \<le> v \<and> unat v < 0x8E000000"
proof -
  have "V2P v < PHYSTOP \<longleftrightarrow> unat v < 0x8E000000" if "kend \<le> v"
    using that assms by (simp add: layout_defs word_less_nat_alt word_le_nat_alt unat_sub_if') arith
  then show ?thesis by (auto simp: kpage_def)
qed

text \<open>C30. Booting: the calls \<^verbatim>\<open>kinit1(end, P2V(4*1024*1024))\<close> and \<^verbatim>\<open>kinit2(P2V(4*1024*1024), P2V(PHYSTOP))\<close> of
  \<^verbatim>\<open>main\<close> do not panic and leave on the free list, once each, exactly the pages between the end of the
  kernel and \<^verbatim>\<open>PHYSTOP\<close>.\<close>

theorem kinit_frees_every_page:
  assumes "KERNBASE \<le> kend" "kend \<le> P2V 0x400000" "freelist s = 0"
  shows "\<exists>s' vs. rbind (kinit1 kend kend (P2V 0x400000) s) (kinit2 kend (P2V 0x400000) (P2V PHYSTOP)) = Inr s' \<and>
    free_list kend s' vs \<and> set vs = {v. kpage kend v} \<and> use_lock s'"
proof -
  have n: "unat (P2V 0x400000) = 0x80400000" "unat (P2V PHYSTOP) = 0x8E000000" "unat KERNBASE = 0x80000000"
    by (simp_all add: layout_defs)
  have k: "0x80000000 \<le> unat kend" "unat kend \<le> 0x80400000"
    using assms(1,2) n by (simp_all add: word_le_nat_alt)
  then have ru: "unat kend \<le> 2 ^ 32 - 4096" by simp
  have up: "unat (PGROUNDUP kend) \<le> 0x80400000"
    using k unat_PGROUNDUP[OF ru] by simp
  have up': "kend \<le> PGROUNDUP kend"
    using unat_PGROUNDUP[OF ru] by (simp add: word_le_nat_alt)
  have "free_list kend (s\<lparr>use_lock := False\<rparr>) []" using assms(3) by (simp add: free_list_def)
  from freerange_loop_pages[OF this aligned_PGROUNDUP up', of "P2V 0x400000"]
  obtain s1 ws where s1: "kinit1 kend kend (P2V 0x400000) s = Inr s1" "free_list kend s1 ws"
    "set ws = {v. aligned v \<and> PGROUNDUP kend \<le> v \<and> unat v + 4096 \<le> 0x80400000}"
    using up up' k n by (auto simp: kinit1_def freerange_def word_le_nat_alt)
  have b: "PGROUNDUP (P2V 0x400000) = P2V 0x400000" by (simp add: PGROUNDUP_def layout_defs)
  then have al: "aligned (P2V 0x400000)" by (metis aligned_PGROUNDUP)
  from freerange_loop_pages[OF s1(2) al, of "P2V PHYSTOP"]
  obtain s2 vs where s2: "freerange_loop kend (P2V 0x400000) (P2V PHYSTOP) s1 = Inr s2" "free_list kend s2 vs"
    "set vs = set ws \<union> {v. aligned v \<and> P2V 0x400000 \<le> v \<and> unat v + 4096 \<le> 0x8E000000}"
    using assms(2) n s1(3) by (auto simp: word_le_nat_alt)
  have "set vs = {v. kpage kend v}"
    using below_end_of_page[where n = "0x80400"] below_end_of_page[where n = "0x8E000"]
      PGROUNDUP_le[OF _ ru] k
    by (auto simp: s2(3) s1(3) kpage_iff[OF assms(1)] word_le_nat_alt n not_le)
  moreover have "free_list kend (s2\<lparr>use_lock := True\<rparr>) vs" using s2(2) by (simp add: free_list_def)
  ultimately show ?thesis using s1(1) s2(1) b by (auto simp: kinit2_def freerange_def intro!: exI[of _ vs])
qed

theorem kinit_frees_every_page_witness:
  "\<exists>s' vs. rbind (kinit1 0x80115000 0x80115000 (P2V 0x400000) \<lparr>mem = (\<lambda>a. 0), use_lock = False, freelist = 0\<rparr>)
      (kinit2 0x80115000 (P2V 0x400000) (P2V PHYSTOP)) = Inr s' \<and>
    free_list 0x80115000 s' vs \<and> set vs = {v. kpage 0x80115000 v} \<and> use_lock s'"
  by (rule kinit_frees_every_page) (simp_all add: layout_defs)

text \<open>C11. The page allocator refines a set of free pages: whatever sequence of allocations, frees and writes
  its clients perform on pages they own, no call panics, no page is ever owned twice or owned while on
  the free list, no page is lost, and client writes never damage the free list.\<close>

theorem kalloc_clients_disjoint:
  assumes "free_list kend s vs"
  shows "\<exists>s' own vs'. client_run kalloc (kfree kend) kwrite ops (s, []) = Inr (s', own) \<and>
    free_list kend s' vs' \<and> distinct (vs' @ own) \<and> set vs' \<union> set own = set vs"
proof -
  have "kpages.shared kend (s, []) (set vs)"
    using assms by (auto simp: kpages.shared_def free_list_def)
  from kpages.run_shared[OF this, of ops] show ?thesis by (auto simp: kpages.shared_def)
qed

theorem kalloc_clients_disjoint_witness:
  "\<exists>s' own vs'. client_run kalloc (kfree 0x80115000) kwrite [PAlloc, PAlloc, PWrite 0 4 7, PFree 1]
      (\<lparr>mem = store32 (\<lambda>a. 0) 0x80200000 0x80300000, use_lock = True, freelist = 0x80200000\<rparr>, []) = Inr (s', own) \<and>
    free_list 0x80115000 s' vs' \<and> distinct (vs' @ own) \<and> set vs' \<union> set own = set [0x80200000, 0x80300000]"
proof (rule kalloc_clients_disjoint)
  have "load32 (store32 (\<lambda>a. 0) 0x80200000 0x80300000) 0x80300000 = 0"
    by (simp add: load32_def store32_def)
  then show "free_list 0x80115000
    \<lparr>mem = store32 (\<lambda>a. 0) 0x80200000 0x80300000, use_lock = True, freelist = 0x80200000\<rparr> [0x80200000, 0x80300000]"
    by (simp add: free_list_def kpage_def aligned_def layout_defs)
qed

end
