(* ===== verification/File.thy ===== *)
theory File
  imports Dir Pipe Kalloc
begin

text \<open>
  Open files, \<^verbatim>\<open>src/src/file.c\<close>, and \<^verbatim>\<open>pipealloc\<close> of \<^verbatim>\<open>src/src/pipe.c\<close>. The state adds to the file system the
  table of open files, the pipes, and the page allocator that pipes come from. \<open>pipes\<close> maps the address of
  a page to the \<^verbatim>\<open>struct pipe\<close> in it; \<open>woken\<close> collects the channels of the \<^verbatim>\<open>wakeup\<close> calls, in order. \<open>kend\<close> is the
  end of the kernel, which the page allocator checks addresses against.
\<close>

section \<open>The code\<close>

abbreviation NFILE :: nat where "NFILE \<equiv> 100"

datatype ftype = FD_NONE | FD_PIPE | FD_INODE

record file_struct =
  ftyp :: ftype
  fref :: int
  readable :: bool
  writable :: bool
  fpipe :: u32
  fip :: nat
  foff :: u32

record 'd files =
  fsx :: "'d fs"
  ftable :: "file_struct list"
  pipes :: "u32 \<Rightarrow> pipe"
  km :: kmem
  woken :: "(u32 \<times> pchan) list"

definition upd_file :: "nat \<Rightarrow> (file_struct \<Rightarrow> file_struct) \<Rightarrow> 'd files \<Rightarrow> 'd files" where
  "upd_file f g s = s\<lparr>ftable := (ftable s)[f := g (ftable s ! f)]\<rparr>"

definition wake :: "u32 \<Rightarrow> pchan list \<Rightarrow> 'd files \<Rightarrow> 'd files" where
  "wake p ws s = s\<lparr>woken := woken s @ map (Pair p) ws\<rparr>"

definition on_fs :: "('d fs \<Rightarrow> 'd fs res) \<Rightarrow> 'd files \<Rightarrow> 'd files res" where
  "on_fs f s = rbind (f (fsx s)) (\<lambda>x. Inr (s\<lparr>fsx := x\<rparr>))"

definition fbegin_op :: "'d fs \<Rightarrow> 'd fs res" where
  "fbegin_op s = rbind (begin_op (fy s)) (\<lambda>y. Inr (s\<lparr>fy := y\<rparr>))"

definition fend_op :: "u32 \<Rightarrow> 'd fs \<Rightarrow> 'd fs res" where
  "fend_op pid s = rbind (end_op pid (fy s)) (\<lambda>y. Inr (s\<lparr>fy := y\<rparr>))"

definition filealloc :: "'d files \<Rightarrow> nat option \<times> 'd files" where
  "filealloc s =
     (case find_index (\<lambda>f. fref f = 0) (ftable s) of
        Some k \<Rightarrow> (Some k, upd_file k (\<lambda>f. f\<lparr>fref := 1\<rparr>) s)
      | None \<Rightarrow> (None, s))"

definition filedup :: "nat \<Rightarrow> 'd files \<Rightarrow> 'd files res" where
  "filedup f s =
     (if fref (ftable s ! f) < 1 then Inl (Panic ''filedup'')
      else Inr (upd_file f (\<lambda>x. x\<lparr>fref := fref x + 1\<rparr>) s))"

definition close_pipe :: "u32 \<Rightarrow> u32 \<Rightarrow> bool \<Rightarrow> 'd files \<Rightarrow> 'd files res" where
  "close_pipe kend p w s =
     (let (q, ws, gone) = pipeclose (pipes s p) w;
          s1 = wake p ws (s\<lparr>pipes := (pipes s)(p := q)\<rparr>) in
      if gone then rbind (kfree kend p (km s1)) (\<lambda>k. Inr (s1\<lparr>km := k\<rparr>)) else Inr s1)"

definition fileclose :: "u32 \<Rightarrow> u32 \<Rightarrow> nat \<Rightarrow> 'd files \<Rightarrow> 'd files res" where
  "fileclose kend pid f s =
     (if fref (ftable s ! f) < 1 then Inl (Panic ''fileclose'')
      else let s1 = upd_file f (\<lambda>x. x\<lparr>fref := fref x - 1\<rparr>) s in
        if fref (ftable s1 ! f) > 0 then Inr s1
        else let ff = ftable s1 ! f;
                 s2 = upd_file f (\<lambda>x. x\<lparr>fref := 0, ftyp := FD_NONE\<rparr>) s1 in
          case ftyp ff of
            FD_PIPE \<Rightarrow> close_pipe kend (fpipe ff) (writable ff) s2
          | FD_INODE \<Rightarrow> on_fs (\<lambda>x. rbind (fbegin_op x) (\<lambda>x1. rbind (iput pid (fip ff) x1) (\<lambda>x2. fend_op pid x2))) s2
          | FD_NONE \<Rightarrow> Inr s2)"

definition filestat :: "u32 \<Rightarrow> nat \<Rightarrow> 'd files \<Rightarrow> (stat option \<times> 'd files) res" where
  "filestat pid f s =
     (let ff = ftable s ! f in
      if ftyp ff = FD_INODE
      then rbind (ilock pid (fip ff) (fsx s)) (\<lambda>x1.
           rbind (iunlock pid (fip ff) x1) (\<lambda>x2. Inr (Some (stati (fip ff) x1), s\<lparr>fsx := x2\<rparr>)))
      else Inr (None, s))"

text \<open>Reading: \<open>None\<close> is the result -1. A reader that sleeps on an empty pipe has changed nothing yet.\<close>

definition fileread :: "u32 \<Rightarrow> 'd devsw list \<Rightarrow> bool \<Rightarrow> nat \<Rightarrow> u32 \<Rightarrow> 'd files \<Rightarrow> (u8 list option \<times> 'd files) res" where
  "fileread pid devsw killed f n s =
     (let ff = ftable s ! f in
      if \<not> readable ff then Inr (None, s)
      else case ftyp ff of
        FD_PIPE \<Rightarrow>
          (case piperead killed (pipes s (fpipe ff)) (sint n) of
             (RSleep, _, _) \<Rightarrow> Inl Blocks
           | (RRet r bs, ws, q) \<Rightarrow>
               Inr (if r < 0 then None else Some bs, wake (fpipe ff) ws (s\<lparr>pipes := (pipes s)(fpipe ff := q)\<rparr>)))
      | FD_INODE \<Rightarrow>
          rbind (ilock pid (fip ff) (fsx s)) (\<lambda>x1.
          rbind (readi pid devsw (fip ff) (foff ff) n x1) (\<lambda>(r, x2).
          rbind (iunlock pid (fip ff) x2) (\<lambda>x3.
            Inr (r, upd_file f (\<lambda>y. y\<lparr>foff := foff y + (case r of Some bs \<Rightarrow> of_nat (length bs) | None \<Rightarrow> 0)\<rparr>) (s\<lparr>fsx := x3\<rparr>)))))
      | FD_NONE \<Rightarrow> Inl (Panic ''fileread''))"

abbreviation WRITEMAX :: nat where "WRITEMAX \<equiv> ((MAXOPBLOCKS - 1 - 1 - 2) div 2) * 512"

text \<open>The loop of \<^verbatim>\<open>filewrite\<close> on an inode: a transaction per 1536 bytes. The result says whether all was written.\<close>

function filewrite_loop :: "u32 \<Rightarrow> 'd devsw list \<Rightarrow> nat \<Rightarrow> u8 list \<Rightarrow> 'd files \<Rightarrow> (bool \<times> 'd files) res" where
  "filewrite_loop pid devsw f src s =
     (if 0 < length src
      then let ip = fip (ftable s ! f); n1 = min (length src) WRITEMAX in
        rbind (fbegin_op (fsx s)) (\<lambda>x1.
        rbind (ilock pid ip x1) (\<lambda>x2.
        rbind (writei pid devsw ip (take n1 src) (foff (ftable s ! f)) x2) (\<lambda>(r, x3).
        let s1 = upd_file f (\<lambda>y. y\<lparr>foff := foff y + (case r of Some k \<Rightarrow> of_nat k | None \<Rightarrow> 0)\<rparr>) s in
        rbind (iunlock pid ip x3) (\<lambda>x4.
        rbind (fend_op pid x4) (\<lambda>x5.
        let s2 = s1\<lparr>fsx := x5\<rparr> in
        case r of
          None \<Rightarrow> Inr (False, s2)
        | Some k \<Rightarrow>
            if k \<noteq> n1 then Inl (Panic ''short filewrite'')
            else filewrite_loop pid devsw f (drop n1 src) s2)))))
      else Inr (True, s))"
  by pat_completeness auto
termination
  by (relation "measure (\<lambda>(pid, devsw, f, src, s). length src)") auto

datatype fwout = FWRet int | FWSleep "u8 list"

definition filewrite :: "u32 \<Rightarrow> 'd devsw list \<Rightarrow> bool \<Rightarrow> nat \<Rightarrow> u8 list \<Rightarrow> 'd files \<Rightarrow> (fwout \<times> 'd files) res" where
  "filewrite pid devsw killed f src s =
     (let ff = ftable s ! f in
      if \<not> writable ff then Inr (FWRet (- 1), s)
      else case ftyp ff of
        FD_PIPE \<Rightarrow>
          (case pipewrite killed (pipes s (fpipe ff)) (\<lambda>i. src ! i) (int (length src)) of
             (w, ws, q) \<Rightarrow>
               Inr (case w of WRet r \<Rightarrow> FWRet r | WSleep rest \<Rightarrow> FWSleep rest,
                    wake (fpipe ff) ws (s\<lparr>pipes := (pipes s)(fpipe ff := q)\<rparr>)))
      | FD_INODE \<Rightarrow>
          rbind (filewrite_loop pid devsw f src s) (\<lambda>(done, s1).
            Inr (FWRet (if done then int (length src) else - 1), s1))
      | FD_NONE \<Rightarrow> Inl (Panic ''filewrite''))"

definition pipealloc_bad :: "u32 \<Rightarrow> u32 \<Rightarrow> nat option \<Rightarrow> nat option \<Rightarrow> 'd files \<Rightarrow> ((nat \<times> nat) option \<times> 'd files) res" where
  "pipealloc_bad kend pid f0 f1 s =
     rbind (case f0 of Some f \<Rightarrow> fileclose kend pid f s | None \<Rightarrow> Inr s) (\<lambda>s1.
     rbind (case f1 of Some f \<Rightarrow> fileclose kend pid f s1 | None \<Rightarrow> Inr s1) (\<lambda>s2. Inr (None, s2)))"

definition pipealloc :: "u32 \<Rightarrow> u32 \<Rightarrow> 'd files \<Rightarrow> ((nat \<times> nat) option \<times> 'd files) res" where
  "pipealloc kend pid s =
     (case filealloc s of
        (None, s1) \<Rightarrow> pipealloc_bad kend pid None None s1
      | (Some f0, s1) \<Rightarrow>
          (case filealloc s1 of
             (None, s2) \<Rightarrow> pipealloc_bad kend pid (Some f0) None s2
           | (Some f1, s2) \<Rightarrow>
               let (p, k) = kalloc (km s2); s3 = s2\<lparr>km := k\<rparr> in
               if p = 0 then pipealloc_bad kend pid (Some f0) (Some f1) s3
               else let q = (pipes s3 p)\<lparr>readopen := True, writeopen := True, nwrite := 0, nread := 0\<rparr>;
                        s4 = s3\<lparr>pipes := (pipes s3)(p := q)\<rparr>;
                        s5 = upd_file f0 (\<lambda>f. f\<lparr>ftyp := FD_PIPE, readable := True, writable := False, fpipe := p\<rparr>) s4;
                        s6 = upd_file f1 (\<lambda>f. f\<lparr>ftyp := FD_PIPE, readable := False, writable := True, fpipe := p\<rparr>) s5 in
                 Inr (Some (f0, f1), s6)))"

end
