(* ===== verification/Vm.thy ===== *)
theory Vm
  imports Kalloc Bytes
begin

text \<open>
  Page tables and address spaces, \<^verbatim>\<open>src/src/vm.c\<close>. Page directories and page tables live in the byte memory of
  \<open>Kalloc\<close>, at kernel virtual addresses; a \<^verbatim>\<open>pte_t *\<close> is the address of the entry and the null pointer is 0. The
  linker symbols \<^verbatim>\<open>end\<close> and \<^verbatim>\<open>data\<close> are the parameters \<open>kend\<close> and \<open>kdata\<close>.

  \<^verbatim>\<open>deallocuvm\<close> may skip 4 MB at a time and its loop counter may wrap around, so its loop carries fuel, one
  unit per page of the address space; running out of it is the outcome \<open>Spins\<close>.
\<close>

section \<open>The code\<close>

definition walkpgdir :: "u32 \<Rightarrow> u32 \<Rightarrow> bool \<Rightarrow> kmem \<Rightarrow> u32 \<times> kmem" where
  "walkpgdir pgdir va alloc k =
     (let pde = pgdir + 4 * PDX va; e = load32 (mem k) pde in
      if e AND PTE_P \<noteq> 0 then (P2V (PTE_ADDR e) + 4 * PTX va, k)
      else if \<not> alloc then (0, k)
      else let (pgtab, k1) = kalloc k in
        if pgtab = 0 then (0, k1)
        else let m1 = memset (mem k1) pgtab 0 PGSIZE;
                 m2 = store32 m1 pde (V2P pgtab OR PTE_P OR PTE_W OR PTE_U) in
          (pgtab + 4 * PTX va, k1\<lparr>mem := m2\<rparr>))"

text \<open>The loop of \<^verbatim>\<open>mappages\<close>: \<open>n\<close> more pages follow the one at \<open>a\<close>.\<close>

fun mappages_loop :: "u32 \<Rightarrow> u32 \<Rightarrow> u32 \<Rightarrow> u32 \<Rightarrow> nat \<Rightarrow> kmem \<Rightarrow> (bool \<times> kmem) res" where
  "mappages_loop pgdir a pa perm n k =
     (let (pte, k1) = walkpgdir pgdir a True k in
      if pte = 0 then Inr (False, k1)
      else if load32 (mem k1) pte AND PTE_P \<noteq> 0 then Inl (Panic ''remap'')
      else let k2 = k1\<lparr>mem := store32 (mem k1) pte (pa OR perm OR PTE_P)\<rparr> in
        case n of
          0 \<Rightarrow> Inr (True, k2)
        | Suc m \<Rightarrow> mappages_loop pgdir (a + PGSIZE) (pa + PGSIZE) perm m k2)"

definition mappages :: "u32 \<Rightarrow> u32 \<Rightarrow> u32 \<Rightarrow> u32 \<Rightarrow> u32 \<Rightarrow> kmem \<Rightarrow> (bool \<times> kmem) res" where
  "mappages pgdir va sz pa perm k =
     (let a = PGROUNDDOWN va; l = PGROUNDDOWN (va + sz - 1) in
      mappages_loop pgdir a pa perm (unat (l - a) div unat PGSIZE) k)"

fun deallocuvm_loop :: "u32 \<Rightarrow> u32 \<Rightarrow> u32 \<Rightarrow> u32 \<Rightarrow> nat \<Rightarrow> kmem \<Rightarrow> kmem res" where
  "deallocuvm_loop kend pgdir oldsz a 0 k = Inl Spins"
| "deallocuvm_loop kend pgdir oldsz a (Suc fuel) k =
     (if a < oldsz
      then let (pte, _) = walkpgdir pgdir a False k in
        if pte = 0
        then deallocuvm_loop kend pgdir oldsz (PGADDR (PDX a + 1) 0 0 - PGSIZE + PGSIZE) fuel k
        else let e = load32 (mem k) pte in
          if e AND PTE_P \<noteq> 0
          then if PTE_ADDR e = 0 then Inl (Panic ''kfree'')
               else rbind (kfree kend (P2V (PTE_ADDR e)) k) (\<lambda>k1.
                 deallocuvm_loop kend pgdir oldsz (a + PGSIZE) fuel (k1\<lparr>mem := store32 (mem k1) pte 0\<rparr>))
          else deallocuvm_loop kend pgdir oldsz (a + PGSIZE) fuel k
      else Inr k)"

abbreviation PAGES :: nat where "PAGES \<equiv> 2 ^ 20"

definition deallocuvm :: "u32 \<Rightarrow> u32 \<Rightarrow> u32 \<Rightarrow> u32 \<Rightarrow> kmem \<Rightarrow> (u32 \<times> kmem) res" where
  "deallocuvm kend pgdir oldsz newsz k =
     (if newsz \<ge> oldsz then Inr (oldsz, k)
      else rbind (deallocuvm_loop kend pgdir oldsz (PGROUNDUP newsz) (Suc PAGES) k) (\<lambda>k1. Inr (newsz, k1)))"

abbreviation NPDENTRIES :: nat where "NPDENTRIES \<equiv> 1024"

fun freevm_tables :: "u32 \<Rightarrow> u32 \<Rightarrow> nat list \<Rightarrow> kmem \<Rightarrow> kmem res" where
  "freevm_tables kend pgdir [] k = Inr k"
| "freevm_tables kend pgdir (i # is) k =
     (let e = load32 (mem k) (pgdir + 4 * of_nat i) in
      if e AND PTE_P \<noteq> 0
      then rbind (kfree kend (P2V (PTE_ADDR e)) k) (\<lambda>k1. freevm_tables kend pgdir is k1)
      else freevm_tables kend pgdir is k)"

definition freevm :: "u32 \<Rightarrow> u32 \<Rightarrow> kmem \<Rightarrow> kmem res" where
  "freevm kend pgdir k =
     (if pgdir = 0 then Inl (Panic ''freevm: no pgdir'')
      else rbind (deallocuvm kend pgdir KERNBASE 0 k) (\<lambda>(_, k1).
           rbind (freevm_tables kend pgdir [0..<NPDENTRIES] k1) (\<lambda>k2. kfree kend pgdir k2)))"

record kmap =
  virt :: u32
  phys_start :: u32
  phys_end :: u32
  kperm :: u32

definition kmap_table :: "u32 \<Rightarrow> kmap list" where
  "kmap_table kdata =
     [\<lparr>virt = KERNBASE, phys_start = 0, phys_end = EXTMEM, kperm = PTE_W\<rparr>,
      \<lparr>virt = KERNLINK, phys_start = V2P KERNLINK, phys_end = V2P kdata, kperm = 0\<rparr>,
      \<lparr>virt = kdata, phys_start = V2P kdata, phys_end = PHYSTOP, kperm = PTE_W\<rparr>,
      \<lparr>virt = DEVSPACE, phys_start = DEVSPACE, phys_end = 0, kperm = PTE_W\<rparr>]"

fun setupkvm_loop :: "u32 \<Rightarrow> u32 \<Rightarrow> kmap list \<Rightarrow> kmem \<Rightarrow> (u32 \<times> kmem) res" where
  "setupkvm_loop kend pgdir [] k = Inr (pgdir, k)"
| "setupkvm_loop kend pgdir (e # es) k =
     rbind (mappages pgdir (virt e) (phys_end e - phys_start e) (phys_start e) (kperm e) k) (\<lambda>(ok, k1).
       if ok then setupkvm_loop kend pgdir es k1
       else rbind (freevm kend pgdir k1) (\<lambda>k2. Inr (0, k2)))"

definition setupkvm :: "u32 \<Rightarrow> u32 \<Rightarrow> kmem \<Rightarrow> (u32 \<times> kmem) res" where
  "setupkvm kend kdata k =
     (let (pgdir, k1) = kalloc k in
      if pgdir = 0 then Inr (0, k1)
      else let k2 = k1\<lparr>mem := memset (mem k1) pgdir 0 PGSIZE\<rparr> in
        if P2V PHYSTOP > DEVSPACE then Inl (Panic ''PHYSTOP too high'')
        else setupkvm_loop kend pgdir (kmap_table kdata) k2)"

definition store_bytes :: "mem \<Rightarrow> u32 \<Rightarrow> u8 list \<Rightarrow> mem" where
  "store_bytes m a xs = (\<lambda>x. if unat (x - a) < length xs then xs ! unat (x - a) else m x)"

definition inituvm :: "u32 \<Rightarrow> u8 list \<Rightarrow> kmem \<Rightarrow> kmem res" where
  "inituvm pgdir init k =
     (if length init \<ge> unat PGSIZE then Inl (Panic ''inituvm: more than a page'')
      else let (pg, k1) = kalloc k; k2 = k1\<lparr>mem := memset (mem k1) pg 0 PGSIZE\<rparr> in
        rbind (mappages pgdir 0 PGSIZE (V2P pg) (PTE_W OR PTE_U) k2) (\<lambda>(_, k3).
          Inr (k3\<lparr>mem := store_bytes (mem k3) pg init\<rparr>)))"

text \<open>The addresses of the loops \<^verbatim>\<open>for(; a < sz; a += PGSIZE)\<close> of \<^verbatim>\<open>allocuvm\<close> and \<^verbatim>\<open>copyuvm\<close>; \<open>sz\<close> is a user size.\<close>

definition page_list :: "u32 \<Rightarrow> u32 \<Rightarrow> u32 list" where
  "page_list a sz = map (\<lambda>j. a + of_nat (4096 * j)) [0..<(unat sz - unat a + 4095) div 4096]"

fun allocuvm_loop :: "u32 \<Rightarrow> u32 \<Rightarrow> u32 \<Rightarrow> u32 \<Rightarrow> u32 list \<Rightarrow> kmem \<Rightarrow> (u32 \<times> kmem) res" where
  "allocuvm_loop kend pgdir oldsz newsz [] k = Inr (newsz, k)"
| "allocuvm_loop kend pgdir oldsz newsz (a # as) k =
     (let (pg, k1) = kalloc k in
      if pg = 0 then rbind (deallocuvm kend pgdir newsz oldsz k1) (\<lambda>(_, k2). Inr (0, k2))
      else let k2 = k1\<lparr>mem := memset (mem k1) pg 0 PGSIZE\<rparr> in
        rbind (mappages pgdir a PGSIZE (V2P pg) (PTE_W OR PTE_U) k2) (\<lambda>(ok, k3).
          if ok then allocuvm_loop kend pgdir oldsz newsz as k3
          else rbind (deallocuvm kend pgdir newsz oldsz k3) (\<lambda>(_, k4).
               rbind (kfree kend pg k4) (\<lambda>k5. Inr (0, k5)))))"

definition allocuvm :: "u32 \<Rightarrow> u32 \<Rightarrow> u32 \<Rightarrow> u32 \<Rightarrow> kmem \<Rightarrow> (u32 \<times> kmem) res" where
  "allocuvm kend pgdir oldsz newsz k =
     (if newsz \<ge> KERNBASE then Inr (0, k)
      else if newsz < oldsz then Inr (oldsz, k)
      else allocuvm_loop kend pgdir oldsz newsz (page_list (PGROUNDUP oldsz) newsz) k)"

definition clearpteu :: "u32 \<Rightarrow> u32 \<Rightarrow> kmem \<Rightarrow> kmem res" where
  "clearpteu pgdir uva k =
     (let (pte, k1) = walkpgdir pgdir uva False k in
      if pte = 0 then Inl (Panic ''clearpteu'')
      else Inr (k1\<lparr>mem := store32 (mem k1) pte (load32 (mem k1) pte AND NOT PTE_U)\<rparr>))"

fun copyuvm_loop :: "u32 \<Rightarrow> u32 \<Rightarrow> u32 \<Rightarrow> u32 list \<Rightarrow> kmem \<Rightarrow> (u32 \<times> kmem) res" where
  "copyuvm_loop kend pgdir d [] k = Inr (d, k)"
| "copyuvm_loop kend pgdir d (i # is) k =
     (let (pte, _) = walkpgdir pgdir i False k in
      if pte = 0 then Inl (Panic ''copyuvm: pte should exist'')
      else let e = load32 (mem k) pte in
        if e AND PTE_P = 0 then Inl (Panic ''copyuvm: page not present'')
        else let (pg, k1) = kalloc k in
          if pg = 0 then rbind (freevm kend d k1) (\<lambda>k2. Inr (0, k2))
          else let k2 = k1\<lparr>mem := memmove (mem k1) pg (P2V (PTE_ADDR e)) PGSIZE\<rparr> in
            rbind (mappages d i PGSIZE (V2P pg) (PTE_FLAGS e) k2) (\<lambda>(ok, k3).
              if ok then copyuvm_loop kend pgdir d is k3
              else rbind (kfree kend pg k3) (\<lambda>k4. rbind (freevm kend d k4) (\<lambda>k5. Inr (0, k5)))))"

definition copyuvm :: "u32 \<Rightarrow> u32 \<Rightarrow> u32 \<Rightarrow> u32 \<Rightarrow> kmem \<Rightarrow> (u32 \<times> kmem) res" where
  "copyuvm kend kdata pgdir sz k =
     rbind (setupkvm kend kdata k) (\<lambda>(d, k1).
       if d = 0 then Inr (0, k1) else copyuvm_loop kend pgdir d (page_list 0 sz) k1)"

text \<open>\<^verbatim>\<open>uva2ka\<close> reads through the pointer that \<^verbatim>\<open>walkpgdir\<close> returned without a test.\<close>

definition uva2ka :: "u32 \<Rightarrow> u32 \<Rightarrow> kmem \<Rightarrow> u32 res" where
  "uva2ka pgdir uva k =
     (let (pte, _) = walkpgdir pgdir uva False k in
      if pte = 0 then Inl (Fault ''uva2ka: null pte'')
      else let e = load32 (mem k) pte in
        if e AND PTE_P = 0 then Inr 0
        else if e AND PTE_U = 0 then Inr 0
        else Inr (P2V (PTE_ADDR e)))"

function copyout :: "u32 \<Rightarrow> u32 \<Rightarrow> u8 list \<Rightarrow> kmem \<Rightarrow> (bool \<times> kmem) res" where
  "copyout pgdir va buf k =
     (if 0 < length buf
      then let va0 = PGROUNDDOWN va in
        rbind (uva2ka pgdir va0 k) (\<lambda>pa0.
          if pa0 = 0 then Inr (False, k)
          else let n = min (unat (PGSIZE - (va - va0))) (length buf);
                   k1 = k\<lparr>mem := store_bytes (mem k) (pa0 + (va - va0)) (take n buf)\<rparr> in
            copyout pgdir (va0 + PGSIZE) (drop n buf) k1)
      else Inr (True, k))"
  by pat_completeness auto
termination
proof (relation "measure (\<lambda>(pgdir, va, buf, k). length buf)", goal_cases)
  case (2 pgdir va buf k x xa xb xc)
  have "unat (va AND 0xFFF) < 4096" by (simp add: unat_and_0xFFF)
  moreover have "va - PGROUNDDOWN va = va AND 0xFFF"
    using split_mask[of va "0xFFF"] by (simp add: PGROUNDDOWN_def PGSIZE_def algebra_simps)
  ultimately have "va - PGROUNDDOWN va < 4096" by (simp add: word_less_nat_alt)
  then have "PGSIZE - (va - PGROUNDDOWN va) \<noteq> 0" by (auto simp: PGSIZE_def)
  then have "0 < unat (PGSIZE - (va - PGROUNDDOWN va))" by (simp add: unat_gt_0)
  then show ?case using 2 by auto
qed simp

text \<open>The protection loops visit every byte address; \<open>f\<close> is what they do to the entry.\<close>

fun protect_loop :: "u32 \<Rightarrow> (u32 \<Rightarrow> u32) \<Rightarrow> int list \<Rightarrow> kmem \<Rightarrow> kmem res" where
  "protect_loop pgdir f [] k = Inr k"
| "protect_loop pgdir f (i # is) k =
     (let (pte, _) = walkpgdir pgdir (of_int i) False k in
      if pte = 0 then Inl (Fault ''null pte'')
      else protect_loop pgdir f is (k\<lparr>mem := store32 (mem k) pte (f (load32 (mem k) pte))\<rparr>))"

definition protect :: "u32 \<Rightarrow> u32 \<Rightarrow> (u32 \<Rightarrow> u32) \<Rightarrow> u32 \<Rightarrow> u32 \<Rightarrow> kmem \<Rightarrow> (bool \<times> kmem) res" where
  "protect pgdir sz f addr len k =
     (if sint len \<le> 0 \<or> addr + len * PGSIZE > sz then Inr (False, k)
      else if unat addr mod unat PGSIZE \<noteq> 0 then Inr (False, k)
      else rbind (protect_loop pgdir f [sint addr..sint (len * PGSIZE + addr) - 1] k) (\<lambda>k1. Inr (True, k1)))"

definition mprotect :: "u32 \<Rightarrow> u32 \<Rightarrow> u32 \<Rightarrow> u32 \<Rightarrow> kmem \<Rightarrow> (bool \<times> kmem) res" where
  "mprotect pgdir sz addr len k = protect pgdir sz (\<lambda>e. e AND NOT PTE_W) addr len k"

definition munprotect :: "u32 \<Rightarrow> u32 \<Rightarrow> u32 \<Rightarrow> u32 \<Rightarrow> kmem \<Rightarrow> (bool \<times> kmem) res" where
  "munprotect pgdir sz addr len k = protect pgdir sz (\<lambda>e. e OR PTE_W) addr len k"

text \<open>What the processor does when the kernel follows a user pointer: the entry of the current page directory
  must be present, and writable for a store (\<^verbatim>\<open>CR0_WP\<close> is set); otherwise the access traps.\<close>

definition translate :: "u32 \<Rightarrow> u32 \<Rightarrow> kmem \<Rightarrow> (u32 \<times> u32) option" where
  "translate pgdir va k =
     (let (pte, _) = walkpgdir pgdir va False k; e = load32 (mem k) pte in
      if pte = 0 \<or> e AND PTE_P = 0 then None else Some (P2V (PTE_ADDR e) + (va AND 0xFFF), PTE_FLAGS e))"

definition vload8 :: "u32 \<Rightarrow> u32 \<Rightarrow> kmem \<Rightarrow> u8 res" where
  "vload8 pgdir va k =
     (case translate pgdir va k of Some (a, _) \<Rightarrow> Inr (mem k a) | None \<Rightarrow> Inl (Fault ''page fault''))"

definition vstore8 :: "u32 \<Rightarrow> u32 \<Rightarrow> u8 \<Rightarrow> kmem \<Rightarrow> kmem res" where
  "vstore8 pgdir va b k =
     (case translate pgdir va k of
        Some (a, fl) \<Rightarrow> if fl AND PTE_W = 0 then Inl (Fault ''page fault'') else Inr (k\<lparr>mem := (mem k)(a := b)\<rparr>)
      | None \<Rightarrow> Inl (Fault ''page fault''))"

fun vloads :: "u32 \<Rightarrow> u32 \<Rightarrow> nat \<Rightarrow> kmem \<Rightarrow> u8 list res" where
  "vloads pgdir va 0 k = Inr []"
| "vloads pgdir va (Suc n) k = rbind (vload8 pgdir va k) (\<lambda>b. rbind (vloads pgdir (va + 1) n k) (\<lambda>bs. Inr (b # bs)))"

fun vstores :: "u32 \<Rightarrow> u32 \<Rightarrow> u8 list \<Rightarrow> kmem \<Rightarrow> kmem res" where
  "vstores pgdir va [] k = Inr k"
| "vstores pgdir va (b # bs) k = rbind (vstore8 pgdir va b k) (\<lambda>k1. vstores pgdir (va + 1) bs k1)"

definition bytes32 :: "u32 \<Rightarrow> u8 list" where
  "bytes32 v = [ucast v, ucast (drop_bit 8 v), ucast (drop_bit 16 v), ucast (drop_bit 24 v)]"

definition vstore32 :: "u32 \<Rightarrow> u32 \<Rightarrow> u32 \<Rightarrow> kmem \<Rightarrow> kmem res" where
  "vstore32 pgdir va v k = vstores pgdir va (bytes32 v) k"

definition vload32 :: "u32 \<Rightarrow> u32 \<Rightarrow> kmem \<Rightarrow> u32 res" where
  "vload32 pgdir va k = rbind (vloads pgdir va 4 k) (\<lambda>bs. Inr (get32 bs 0))"

end
