(* ===== verification/Proc.thy ===== *)
theory Proc
  imports File Vm "HOL-Library.Signed_Division"
begin

text \<open>
  Processes, \<^verbatim>\<open>src/src/proc.c\<close>. The state of the kernel is the file layer with the page allocator, the process
  table, the random seed and the counters. A \<^verbatim>\<open>struct proc *\<close> is an index into the table, with \<open>None\<close> for
  the null pointer; \<open>me\<close> is the process that runs, \<^verbatim>\<open>myproc()\<close>. Trap frames and contexts are in the byte memory,
  on the kernel stacks, at the offsets of \<^verbatim>\<open>struct trapframe\<close> and \<^verbatim>\<open>struct context\<close>.

  The table is only touched under its lock, so each routine is a function of the state. A process that calls
  \<^verbatim>\<open>sleep\<close> or \<^verbatim>\<open>exit\<close> gives up the processor there: the function ends in the state that the scheduler sees.
  Addresses of linker and assembler symbols are collected in \<open>ksyms\<close>.
\<close>

section \<open>Data\<close>

abbreviation NPROC :: nat where "NPROC \<equiv> 64"
abbreviation NOFILE :: nat where "NOFILE \<equiv> 16"
abbreviation KSTACKSIZE :: u32 where "KSTACKSIZE \<equiv> 4096"

record ksyms =
  kend :: u32
  kdata :: u32
  trapret :: u32
  forkret :: u32

datatype procstate = UNUSED | EMBRYO | SLEEPING | RUNNABLE | RUNNING | ZOMBIE

text \<open>Sleep channels are addresses of kernel objects.\<close>

datatype chan = ChProc nat | ChTicks | ChPipe u32 pchan | ChInput | ChLog | ChBuf nat | ChInode nat

record proc =
  psz :: u32
  pgdir :: u32
  kstack :: u32
  pstate :: procstate
  ppid :: u32
  parent :: "nat option"
  ptf :: u32
  pcontext :: u32
  chan :: "chan option"
  killed :: bool
  ofile :: "nat option list"
  cwd :: "nat option"
  pname :: "u8 list"
  inuse :: u32
  tickets :: u32
  pticks :: u32

record 'd kernel =
  kf :: "'d files"
  ptable :: "proc list"
  seed :: u32
  nextpid :: u32
  initproc :: "nat option"
  ticks :: u32
  readcount :: u32

abbreviation proc_at :: "'d kernel \<Rightarrow> nat \<Rightarrow> proc" where "proc_at k p \<equiv> ptable k ! p"
abbreviation kmem_of :: "'d kernel \<Rightarrow> kmem" where "kmem_of k \<equiv> km (kf k)"

definition set_km :: "kmem \<Rightarrow> 'd kernel \<Rightarrow> 'd kernel" where
  "set_km m k = k\<lparr>kf := (kf k)\<lparr>km := m\<rparr>\<rparr>"

definition upd_proc :: "nat \<Rightarrow> (proc \<Rightarrow> proc) \<Rightarrow> 'd kernel \<Rightarrow> 'd kernel" where
  "upd_proc p f k = k\<lparr>ptable := (ptable k)[p := f (ptable k ! p)]\<rparr>"

definition kstore32 :: "u32 \<Rightarrow> u32 \<Rightarrow> 'd kernel \<Rightarrow> 'd kernel" where
  "kstore32 a v k = set_km ((kmem_of k)\<lparr>mem := store32 (mem (kmem_of k)) a v\<rparr>) k"

definition kload32 :: "u32 \<Rightarrow> 'd kernel \<Rightarrow> u32" where
  "kload32 a k = load32 (mem (kmem_of k)) a"

text \<open>Offsets in \<^verbatim>\<open>struct trapframe\<close> (76 bytes) and \<^verbatim>\<open>struct context\<close> (20 bytes).\<close>

abbreviation TF_SIZE :: u32 where "TF_SIZE \<equiv> 76"
abbreviation TF_EBP :: u32 where "TF_EBP \<equiv> 8"
abbreviation TF_EAX :: u32 where "TF_EAX \<equiv> 28"
abbreviation TF_ES :: u32 where "TF_ES \<equiv> 40"
abbreviation TF_DS :: u32 where "TF_DS \<equiv> 44"
abbreviation TF_TRAPNO :: u32 where "TF_TRAPNO \<equiv> 48"
abbreviation TF_EIP :: u32 where "TF_EIP \<equiv> 56"
abbreviation TF_CS :: u32 where "TF_CS \<equiv> 60"
abbreviation TF_EFLAGS :: u32 where "TF_EFLAGS \<equiv> 64"
abbreviation TF_ESP :: u32 where "TF_ESP \<equiv> 68"
abbreviation TF_SS :: u32 where "TF_SS \<equiv> 72"
abbreviation CTX_SIZE :: u32 where "CTX_SIZE \<equiv> 20"
abbreviation CTX_EIP :: u32 where "CTX_EIP \<equiv> 16"

definition store16 :: "mem \<Rightarrow> u32 \<Rightarrow> u16 \<Rightarrow> mem" where
  "store16 m a v = m(a := ucast v, a + 1 := ucast (drop_bit 8 v))"

definition load_bytes :: "mem \<Rightarrow> u32 \<Rightarrow> nat \<Rightarrow> u8 list" where
  "load_bytes m a n = map (\<lambda>i. m (a + of_nat i)) [0..<n]"

section \<open>Creation\<close>

definition allocproc :: "ksyms \<Rightarrow> 'd kernel \<Rightarrow> nat option \<times> 'd kernel" where
  "allocproc sy k =
     (case find_index (\<lambda>p. pstate p = UNUSED) (ptable k) of
        None \<Rightarrow> (None, k)
      | Some p \<Rightarrow>
          let k1 = upd_proc p (\<lambda>x. x\<lparr>pstate := EMBRYO, ppid := nextpid k, tickets := 1, inuse := 1\<rparr>) k;
              k2 = k1\<lparr>nextpid := nextpid k1 + 1\<rparr>;
              (st, m) = kalloc (kmem_of k2);
              k3 = upd_proc p (\<lambda>x. x\<lparr>kstack := st\<rparr>) (set_km m k2) in
          if st = 0 then (None, upd_proc p (\<lambda>x. x\<lparr>pstate := UNUSED\<rparr>) k3)
          else let sp1 = st + KSTACKSIZE - TF_SIZE;
                   k4 = upd_proc p (\<lambda>x. x\<lparr>ptf := sp1\<rparr>) k3;
                   sp2 = sp1 - 4;
                   k5 = kstore32 sp2 (trapret sy) k4;
                   sp3 = sp2 - CTX_SIZE;
                   k6 = upd_proc p (\<lambda>x. x\<lparr>pcontext := sp3\<rparr>) k5;
                   k7 = set_km ((kmem_of k6)\<lparr>mem := memset (mem (kmem_of k6)) sp3 0 CTX_SIZE\<rparr>) k6;
                   k8 = kstore32 (sp3 + CTX_EIP) (forkret sy) k7 in
            (Some p, k8))"

text \<open>\<^verbatim>\<open>safestrcpy\<close> into a name field of 16 bytes.\<close>

definition copy_name :: "u8 list \<Rightarrow> u8 list \<Rightarrow> u8 list" where
  "copy_name src old = map (\<lambda>i. safestrcpy (\<lambda>a. cs old (unat a)) 0 (cs src) 16 (of_nat i)) [0..<16]"

definition kstore16 :: "u32 \<Rightarrow> u16 \<Rightarrow> 'd kernel \<Rightarrow> 'd kernel" where
  "kstore16 a v k = set_km ((kmem_of k)\<lparr>mem := store16 (mem (kmem_of k)) a v\<rparr>) k"

definition userinit :: "ksyms \<Rightarrow> 'd devsw list \<Rightarrow> u8 list \<Rightarrow> 'd kernel \<Rightarrow> 'd kernel res" where
  "userinit sy devsw initcode k =
     (case allocproc sy k of
        (None, k1) \<Rightarrow> Inl (Fault ''userinit: null proc'')
      | (Some p, k1) \<Rightarrow>
          let k2 = k1\<lparr>initproc := Some p\<rparr> in
          rbind (setupkvm (kend sy) (kdata sy) (kmem_of k2)) (\<lambda>(d, m1).
            let k3 = upd_proc p (\<lambda>x. x\<lparr>pgdir := d\<rparr>) (set_km m1 k2) in
            if d = 0 then Inl (Panic ''userinit: out of memory?'')
            else rbind (inituvm d initcode (kmem_of k3)) (\<lambda>m2.
              let k4 = upd_proc p (\<lambda>x. x\<lparr>psz := PGSIZE\<rparr>) (set_km m2 k3);
                  tf = ptf (proc_at k4 p);
                  k5 = set_km ((kmem_of k4)\<lparr>mem := memset (mem (kmem_of k4)) tf 0 TF_SIZE\<rparr>) k4;
                  k6 = kstore16 (tf + TF_CS) 0x1B k5;
                  k7 = kstore16 (tf + TF_DS) 0x23 k6;
                  k8 = kstore16 (tf + TF_ES) 0x23 k7;
                  k9 = kstore16 (tf + TF_SS) 0x23 k8;
                  k10 = kstore32 (tf + TF_EFLAGS) 0x200 k9;
                  k11 = kstore32 (tf + TF_ESP) PGSIZE k10;
                  k12 = kstore32 (tf + TF_EIP) 0 k11;
                  k13 = upd_proc p (\<lambda>x. x\<lparr>pname := copy_name [105, 110, 105, 116, 99, 111, 100, 101] (pname x)\<rparr>) k12 in
              rbind (namei (ppid (proc_at k13 p)) devsw 0 [slash] (fsx (kf k13))) (\<lambda>(r, x).
                let k14 = upd_proc p (\<lambda>y. y\<lparr>cwd := r\<rparr>) (k13\<lparr>kf := (kf k13)\<lparr>fsx := x\<rparr>\<rparr>) in
                Inr (upd_proc p (\<lambda>y. y\<lparr>pstate := RUNNABLE\<rparr>) k14)))))"

definition switchuvm :: "proc \<Rightarrow> unit res" where
  "switchuvm p =
     (if kstack p = 0 then Inl (Panic ''switchuvm: no kstack'')
      else if pgdir p = 0 then Inl (Panic ''switchuvm: no pgdir'')
      else Inr ())"

definition growproc :: "ksyms \<Rightarrow> nat \<Rightarrow> u32 \<Rightarrow> 'd kernel \<Rightarrow> (int \<times> 'd kernel) res" where
  "growproc sy me n k =
     (let sz = psz (proc_at k me); d = pgdir (proc_at k me) in
      rbind (if sint n > 0 then rbind (allocuvm (kend sy) d sz (sz + n) (kmem_of k)) (\<lambda>(s, m). Inr (s, s = 0, m))
             else if sint n < 0 then rbind (deallocuvm (kend sy) d sz (sz + n) (kmem_of k)) (\<lambda>(s, m). Inr (s, s = 0, m))
             else Inr (sz, False, kmem_of k)) (\<lambda>(sz1, failed, m).
        let k1 = set_km m k in
        if failed then Inr (- 1, k1)
        else let k2 = upd_proc me (\<lambda>p. p\<lparr>psz := sz1\<rparr>) k1 in
          rbind (switchuvm (proc_at k2 me)) (\<lambda>_. Inr (0, k2))))"

text \<open>The part that \<^verbatim>\<open>fork\<close> and \<^verbatim>\<open>clone\<close> share: open files, current directory and name.\<close>

fun dup_files :: "nat \<Rightarrow> nat \<Rightarrow> nat list \<Rightarrow> 'd kernel \<Rightarrow> 'd kernel res" where
  "dup_files me np [] k = Inr k"
| "dup_files me np (i # is) k =
     (case ofile (proc_at k me) ! i of
        None \<Rightarrow> dup_files me np is k
      | Some f \<Rightarrow>
          rbind (filedup f (kf k)) (\<lambda>x.
            dup_files me np is (upd_proc np (\<lambda>p. p\<lparr>ofile := (ofile p)[i := Some f]\<rparr>) (k\<lparr>kf := x\<rparr>))))"

definition inherit :: "nat \<Rightarrow> nat \<Rightarrow> 'd kernel \<Rightarrow> 'd kernel res" where
  "inherit me np k =
     rbind (dup_files me np [0..<NOFILE] k) (\<lambda>k1.
       case cwd (proc_at k1 me) of
         None \<Rightarrow> Inl (Fault ''idup: null inode'')
       | Some ip \<Rightarrow>
           let k2 = k1\<lparr>kf := (kf k1)\<lparr>fsx := idup ip (fsx (kf k1))\<rparr>\<rparr>;
               k3 = upd_proc np (\<lambda>p. p\<lparr>cwd := Some ip\<rparr>) k2 in
           Inr (upd_proc np (\<lambda>p. p\<lparr>pname := copy_name (pname (proc_at k3 me)) (pname p)\<rparr>) k3))"

definition copy_tf :: "nat \<Rightarrow> nat \<Rightarrow> 'd kernel \<Rightarrow> 'd kernel" where
  "copy_tf me np k =
     (let m = mem (kmem_of k) in
      set_km ((kmem_of k)\<lparr>mem := store_bytes m (ptf (proc_at k np)) (load_bytes m (ptf (proc_at k me)) (unat TF_SIZE))\<rparr>) k)"

definition fork :: "ksyms \<Rightarrow> nat \<Rightarrow> 'd kernel \<Rightarrow> (int \<times> 'd kernel) res" where
  "fork sy me k =
     (case allocproc sy k of
        (None, k1) \<Rightarrow> Inr (- 1, k1)
      | (Some np, k1) \<Rightarrow>
          rbind (copyuvm (kend sy) (kdata sy) (pgdir (proc_at k1 me)) (psz (proc_at k1 me)) (kmem_of k1)) (\<lambda>(d, m).
            let k2 = upd_proc np (\<lambda>p. p\<lparr>pgdir := d\<rparr>) (set_km m k1) in
            if d = 0
            then rbind (kfree (kend sy) (kstack (proc_at k2 np)) (kmem_of k2)) (\<lambda>m2.
                   Inr (- 1, upd_proc np (\<lambda>p. p\<lparr>kstack := 0, pstate := UNUSED\<rparr>) (set_km m2 k2)))
            else let k3 = upd_proc np (\<lambda>p. p\<lparr>psz := psz (proc_at k2 me), parent := Some me\<rparr>) k2;
                     k4 = kstore32 (ptf (proc_at k3 np) + TF_EAX) 0 (copy_tf me np k3) in
              rbind (inherit me np k4) (\<lambda>k5.
                Inr (sint (ppid (proc_at k5 np)),
                     upd_proc np (\<lambda>p. p\<lparr>pstate := RUNNABLE, tickets := tickets (proc_at k5 me)\<rparr>) k5))))"

text \<open>\<^verbatim>\<open>clone\<close> stores its arguments through the user's pointer \<open>stack\<close>, in the current address space.\<close>

definition clone :: "ksyms \<Rightarrow> nat \<Rightarrow> u32 \<Rightarrow> u32 \<Rightarrow> u32 \<Rightarrow> u32 \<Rightarrow> 'd kernel \<Rightarrow> (int \<times> 'd kernel) res" where
  "clone sy me fcn arg1 arg2 stack k =
     (case allocproc sy k of
        (None, k1) \<Rightarrow> Inr (- 1, k1)
      | (Some np, k1) \<Rightarrow>
          let cur = proc_at k1 me;
              k2 = upd_proc np (\<lambda>p. p\<lparr>pgdir := pgdir cur, psz := psz cur, parent := Some me\<rparr>) k1;
              k3 = copy_tf me np k2 in
          rbind (vstore32 (pgdir cur) (stack + PGSIZE - 12) 0xFFFFFFFF (kmem_of k3)) (\<lambda>m1.
          rbind (vstore32 (pgdir cur) (stack + PGSIZE - 8) arg1 m1) (\<lambda>m2.
          rbind (vstore32 (pgdir cur) (stack + PGSIZE - 4) arg2 m2) (\<lambda>m3.
            let k4 = set_km m3 k3; tf = ptf (proc_at k4 np);
                k5 = kstore32 (tf + TF_ESP) (stack + (PGSIZE - 12)) k4;
                k6 = kstore32 (tf + TF_EBP) (stack + (PGSIZE - 12)) k5;
                k7 = kstore32 (tf + TF_EIP) fcn k6;
                k8 = kstore32 (tf + TF_EAX) 0 k7 in
            rbind (inherit me np k8) (\<lambda>k9.
              Inr (sint (ppid (proc_at k9 np)),
                   upd_proc np (\<lambda>p. p\<lparr>pstate := RUNNABLE, tickets := tickets (proc_at k9 me)\<rparr>) k9))))))"

section \<open>Sleeping and waking\<close>

definition wakeup1 :: "chan option \<Rightarrow> 'd kernel \<Rightarrow> 'd kernel" where
  "wakeup1 c k = k\<lparr>ptable := map (\<lambda>p. if pstate p = SLEEPING \<and> chan p = c then p\<lparr>pstate := RUNNABLE\<rparr> else p) (ptable k)\<rparr>"

definition wakeup :: "chan \<Rightarrow> 'd kernel \<Rightarrow> 'd kernel" where
  "wakeup c k = wakeup1 (Some c) k"

text \<open>The two halves of \<^verbatim>\<open>sleep\<close>: up to the switch to the scheduler, and after the process runs again.\<close>

definition sleep :: "nat \<Rightarrow> chan \<Rightarrow> 'd kernel \<Rightarrow> 'd kernel" where
  "sleep me c k = upd_proc me (\<lambda>p. p\<lparr>chan := Some c, pstate := SLEEPING\<rparr>) k"

definition sleep_resume :: "nat \<Rightarrow> 'd kernel \<Rightarrow> 'd kernel" where
  "sleep_resume me k = upd_proc me (\<lambda>p. p\<lparr>chan := None\<rparr>) k"

definition yield :: "nat \<Rightarrow> 'd kernel \<Rightarrow> 'd kernel" where
  "yield me k = upd_proc me (\<lambda>p. p\<lparr>pstate := RUNNABLE\<rparr>) k"

definition kill :: "u32 \<Rightarrow> 'd kernel \<Rightarrow> int \<times> 'd kernel" where
  "kill pid k =
     (case find_index (\<lambda>p. ppid p = pid) (ptable k) of
        None \<Rightarrow> (- 1, k)
      | Some i \<Rightarrow>
          (0, upd_proc i (\<lambda>p. p\<lparr>killed := True, pstate := (if pstate p = SLEEPING then RUNNABLE else pstate p)\<rparr>) k))"

text \<open>The checks of \<^verbatim>\<open>sched\<close>, in order; on success it switches to the scheduler and keeps \<^verbatim>\<open>intena\<close>.\<close>

definition sched :: "nat \<Rightarrow> cpu \<Rightarrow> spinlock \<Rightarrow> proc \<Rightarrow> cpu res" where
  "sched me c lk p =
     rbind (holding me c lk) (\<lambda>(h, c1).
       if \<not> h then Inl (Panic ''sched ptable.lock'')
       else if ncli c1 \<noteq> 1 then Inl (Panic ''sched locks'')
       else if pstate p = RUNNING then Inl (Panic ''sched running'')
       else if eflags c1 AND FL_IF \<noteq> 0 then Inl (Panic ''sched interruptible'')
       else Inr c1)"

section \<open>Exit, wait and join\<close>

fun close_files :: "ksyms \<Rightarrow> nat \<Rightarrow> nat list \<Rightarrow> 'd kernel \<Rightarrow> 'd kernel res" where
  "close_files sy me [] k = Inr k"
| "close_files sy me (fd # fds) k =
     (case ofile (proc_at k me) ! fd of
        None \<Rightarrow> close_files sy me fds k
      | Some f \<Rightarrow>
          rbind (fileclose (kend sy) (ppid (proc_at k me)) f (kf k)) (\<lambda>x.
            close_files sy me fds (upd_proc me (\<lambda>p. p\<lparr>ofile := (ofile p)[fd := None]\<rparr>) (k\<lparr>kf := x\<rparr>))))"

text \<open>The \<^verbatim>\<open>wakeup\<close> calls that the file layer has issued reach the process table.\<close>

definition deliver :: "'d kernel \<Rightarrow> 'd kernel" where
  "deliver k = (fold (\<lambda>(p, c). wakeup (ChPipe p c)) (woken (kf k)) k)\<lparr>kf := (kf k)\<lparr>woken := []\<rparr>\<rparr>"

fun reparent :: "nat \<Rightarrow> nat list \<Rightarrow> 'd kernel \<Rightarrow> 'd kernel" where
  "reparent me [] k = k"
| "reparent me (p # ps) k =
     (if parent (proc_at k p) = Some me
      then let k1 = upd_proc p (\<lambda>x. x\<lparr>parent := initproc k\<rparr>) k in
        reparent me ps (if pstate (proc_at k1 p) = ZOMBIE then wakeup1 (map_option ChProc (initproc k1)) k1 else k1)
      else reparent me ps k)"

definition exit :: "ksyms \<Rightarrow> nat \<Rightarrow> 'd kernel \<Rightarrow> 'd kernel res" where
  "exit sy me k =
     (if Some me = initproc k then Inl (Panic ''init exiting'')
      else rbind (close_files sy me [0..<NOFILE] k) (\<lambda>k1.
        case cwd (proc_at k1 me) of
          None \<Rightarrow> Inl (Fault ''iput: null inode'')
        | Some ip \<Rightarrow>
            let pid = ppid (proc_at k1 me) in
            rbind (on_fs (\<lambda>x. rbind (fbegin_op x) (\<lambda>x1. rbind (iput pid ip x1) (\<lambda>x2. fend_op pid x2))) (kf k1)) (\<lambda>f.
              let k2 = upd_proc me (\<lambda>p. p\<lparr>cwd := None\<rparr>) (deliver (k1\<lparr>kf := f\<rparr>));
                  k3 = wakeup1 (map_option ChProc (parent (proc_at k2 me))) k2;
                  k4 = reparent me [0..<length (ptable k3)] k3 in
              Inr (upd_proc me (\<lambda>p. p\<lparr>pstate := ZOMBIE\<rparr>) k4))))"

datatype waitout = WaitRet int | WaitSleeps

definition reap :: "ksyms \<Rightarrow> nat \<Rightarrow> 'd kernel \<Rightarrow> 'd kernel res" where
  "reap sy p k =
     rbind (kfree (kend sy) (kstack (proc_at k p)) (kmem_of k)) (\<lambda>m1.
     rbind (freevm (kend sy) (pgdir (proc_at k p)) m1) (\<lambda>m2.
       Inr (upd_proc p (\<lambda>x. x\<lparr>kstack := 0, ppid := 0, parent := None, pname := (pname x)[0 := 0], killed := False,
              pstate := UNUSED, tickets := 0, pticks := 0, inuse := 0\<rparr>) (set_km m2 k))))"

text \<open>One pass of the loop of \<^verbatim>\<open>wait\<close>; when it sleeps, the process tries again after \<^verbatim>\<open>sleep_resume\<close>.\<close>

definition wait :: "ksyms \<Rightarrow> nat \<Rightarrow> 'd kernel \<Rightarrow> (waitout \<times> 'd kernel) res" where
  "wait sy me k =
     (case find_index (\<lambda>p. parent p = Some me \<and> pstate p = ZOMBIE) (ptable k) of
        Some p \<Rightarrow> rbind (reap sy p k) (\<lambda>k1. Inr (WaitRet (sint (ppid (proc_at k p))), k1))
      | None \<Rightarrow>
          if \<not> (\<exists>p \<in> set (ptable k). parent p = Some me) \<or> killed (proc_at k me) then Inr (WaitRet (- 1), k)
          else Inr (WaitSleeps, sleep me (ChProc me) k))"

text \<open>One pass of the loop of \<^verbatim>\<open>join\<close>. The test follows \<^verbatim>\<open>p->parent\<close> also when it is null: the kernel runs on the page
  directory of the caller, so \<^verbatim>\<open>p->parent->pgdir\<close> is then the word at virtual address 4 of the caller.\<close>

fun join_scan :: "nat \<Rightarrow> nat list \<Rightarrow> 'd kernel \<Rightarrow> nat option res" where
  "join_scan me [] k = Inr None"
| "join_scan me (p # ps) k =
     (let x = proc_at k p;
          hit = (if pstate x = ZOMBIE then Inr (Some p) else join_scan me ps k) in
      if parent x = Some me then hit
      else rbind (case parent x of None \<Rightarrow> vload32 (pgdir (proc_at k me)) 4 (kmem_of k) | Some q \<Rightarrow> Inr (pgdir (proc_at k q))) (\<lambda>d.
        if d \<noteq> pgdir x then join_scan me ps k else hit))"

definition join :: "ksyms \<Rightarrow> nat \<Rightarrow> 'd kernel \<Rightarrow> (waitout \<times> 'd kernel) res" where
  "join sy me k =
     rbind (join_scan me [0..<length (ptable k)] k) (\<lambda>r.
       case r of
         Some p \<Rightarrow>
           let k1 = upd_proc p (\<lambda>x. x\<lparr>pstate := UNUSED\<rparr>) k in
           rbind (kfree (kend sy) (kstack (proc_at k1 p)) (kmem_of k1)) (\<lambda>m.
             Inr (WaitRet (sint (ppid (proc_at k p))), set_km m k1))
       | None \<Rightarrow> Inr (WaitSleeps, sleep me (ChProc me) k))"

section \<open>The lottery\<close>

text \<open>The tickets of the runnable processes, added up as C \<^verbatim>\<open>int\<close>s.\<close>

fun count_tickets :: "u32 \<Rightarrow> proc list \<Rightarrow> u32" where
  "count_tickets c [] = c"
| "count_tickets c (p # ps) = count_tickets (if pstate p = RUNNABLE then c + tickets p else c) ps"

definition next_seed :: "u32 \<Rightarrow> u32" where
  "next_seed sd = of_int (sint (8121 * sd + 28411) smod 134456)"

text \<open>The second loop: the first runnable process at which the running count reaches \<open>r\<close>.\<close>

fun pick :: "int \<Rightarrow> u32 \<Rightarrow> nat \<Rightarrow> proc list \<Rightarrow> nat option" where
  "pick r c i [] = None"
| "pick r c i (p # ps) =
     (if pstate p \<noteq> RUNNABLE then pick r c (Suc i) ps
      else if sint (c + tickets p) \<ge> r then Some i
      else pick r (c + tickets p) (Suc i) ps)"

definition draw :: "u32 \<Rightarrow> u32 \<Rightarrow> int res" where
  "draw sd count =
     (if count = 0 then Inr 0
      else if count + 1 = 0 then Inl (Fault ''divide error'')
      else Inr (sint sd smod sint (count + 1)))"

text \<open>One round of \<^verbatim>\<open>scheduler\<close>: the process that gets the processor, if any.\<close>

definition scheduler :: "'d kernel \<Rightarrow> (nat option \<times> 'd kernel) res" where
  "scheduler k =
     (let count = count_tickets 0 (ptable k); k1 = k\<lparr>seed := next_seed (seed k)\<rparr> in
      rbind (draw (seed k1) count) (\<lambda>r.
        case pick r 0 0 (ptable k1) of
          None \<Rightarrow> Inr (None, k1)
        | Some i \<Rightarrow>
            rbind (switchuvm (proc_at k1 i)) (\<lambda>_.
              Inr (Some i, upd_proc i (\<lambda>p. p\<lparr>pstate := RUNNING, pticks := pticks p + 1\<rparr>) k1))))"

section \<open>Statistics\<close>

text \<open>\<^verbatim>\<open>getpstat\<close> stores through the user's pointer; slots that are not in use are left alone.\<close>

fun getpstat_loop :: "u32 \<Rightarrow> u32 \<Rightarrow> nat \<Rightarrow> proc list \<Rightarrow> kmem \<Rightarrow> kmem res" where
  "getpstat_loop d ps i [] m = Inr m"
| "getpstat_loop d ps i (p # qs) m =
     (if pstate p = UNUSED then getpstat_loop d ps (Suc i) qs m
      else rbind (vstore32 d (ps + of_nat (4 * i)) 1 m) (\<lambda>m1.
           rbind (vstore32 d (ps + of_nat (512 + 4 * i)) (ppid p) m1) (\<lambda>m2.
           rbind (vstore32 d (ps + of_nat (768 + 4 * i)) (pticks p) m2) (\<lambda>m3.
           rbind (vstore32 d (ps + of_nat (256 + 4 * i)) (tickets p) m3) (\<lambda>m4.
             getpstat_loop d ps (Suc i) qs m4)))))"

definition getpstat :: "nat \<Rightarrow> u32 \<Rightarrow> 'd kernel \<Rightarrow> 'd kernel res" where
  "getpstat me ps k =
     rbind (getpstat_loop (pgdir (proc_at k me)) ps 0 (ptable k) (kmem_of k)) (\<lambda>m. Inr (set_km m k))"

end
