(* ===== verification/Fcntl.thy ===== *)
theory Fcntl
  imports Prelude
begin

text \<open>The modes of \<^verbatim>\<open>open\<close>, \<^verbatim>\<open>src/src/fcntl.h\<close>, which the kernel and the user programs share.\<close>

abbreviation O_RDONLY :: u32 where "O_RDONLY \<equiv> 0"
abbreviation O_WRONLY :: u32 where "O_WRONLY \<equiv> 1"
abbreviation O_RDWR :: u32 where "O_RDWR \<equiv> 2"
abbreviation O_CREATE :: u32 where "O_CREATE \<equiv> 0x200"

end
