(* ===== verification/Sysfile.thy ===== *)
theory Sysfile
  imports Proc Fcntl
begin

text \<open>
  System call arguments, \<^verbatim>\<open>src/src/syscall.c\<close>, and the system calls on files, \<^verbatim>\<open>src/src/sysfile.c\<close>. A system call
  yields what goes to \<^verbatim>\<open>%eax\<close>, or says that the process sleeps and how it goes on: \<open>Again\<close> repeats the call,
  \<open>WriteRest f bs\<close> goes on writing \<open>bs\<close> to the pipe of \<open>f\<close>, \<open>SleepTicks t n\<close> goes on waiting in \<^verbatim>\<open>sys_sleep\<close>.
\<close>

section \<open>Arguments\<close>

datatype sysres = Ret u32 | Again | WriteRest nat "u8 list" | SleepTicks u32 u32

abbreviation minus1 :: sysres where "minus1 \<equiv> Ret 0xFFFFFFFF"

definition fetchint :: "nat \<Rightarrow> u32 \<Rightarrow> 'd kernel \<Rightarrow> u32 option res" where
  "fetchint me addr k =
     (let p = proc_at k me in
      if addr \<ge> psz p \<or> addr + 4 > psz p then Inr None
      else rbind (vload32 (pgdir p) addr (kmem_of k)) (\<lambda>v. Inr (Some v)))"

text \<open>The loop of \<^verbatim>\<open>fetchstr\<close>: the bytes up to the zero, at most \<open>n\<close> of them.\<close>

fun fetchstr_loop :: "u32 \<Rightarrow> u32 \<Rightarrow> nat \<Rightarrow> kmem \<Rightarrow> u8 list option res" where
  "fetchstr_loop d s 0 m = Inr None"
| "fetchstr_loop d s (Suc n) m =
     rbind (vload8 d s m) (\<lambda>c.
       if c = 0 then Inr (Some [])
       else rbind (fetchstr_loop d (s + 1) n m) (\<lambda>r. Inr (map_option (Cons c) r)))"

definition fetchstr :: "nat \<Rightarrow> u32 \<Rightarrow> 'd kernel \<Rightarrow> u8 list option res" where
  "fetchstr me addr k =
     (let p = proc_at k me in
      if addr \<ge> psz p then Inr None
      else fetchstr_loop (pgdir p) addr (unat (psz p) - unat addr) (kmem_of k))"

definition argint :: "nat \<Rightarrow> nat \<Rightarrow> 'd kernel \<Rightarrow> u32 option res" where
  "argint me n k = fetchint me (kload32 (ptf (proc_at k me) + TF_ESP) k + 4 + 4 * of_nat n) k"

definition argptr :: "nat \<Rightarrow> nat \<Rightarrow> u32 \<Rightarrow> 'd kernel \<Rightarrow> u32 option res" where
  "argptr me n sz k =
     rbind (argint me n k) (\<lambda>r.
       case r of
         None \<Rightarrow> Inr None
       | Some i \<Rightarrow>
           if sint sz < 0 \<or> i \<ge> psz (proc_at k me) \<or> i + sz > psz (proc_at k me) then Inr None
           else Inr (Some i))"

definition argstr :: "nat \<Rightarrow> nat \<Rightarrow> 'd kernel \<Rightarrow> u8 list option res" where
  "argstr me n k =
     rbind (argint me n k) (\<lambda>r. case r of None \<Rightarrow> Inr None | Some a \<Rightarrow> fetchstr me a k)"

section \<open>Descriptors\<close>

definition kfl :: "('d files \<Rightarrow> ('a \<times> 'd files) res) \<Rightarrow> 'd kernel \<Rightarrow> ('a \<times> 'd kernel) res" where
  "kfl f k = rbind (f (kf k)) (\<lambda>(a, x). Inr (a, deliver (k\<lparr>kf := x\<rparr>)))"

definition kflu :: "('d files \<Rightarrow> 'd files res) \<Rightarrow> 'd kernel \<Rightarrow> 'd kernel res" where
  "kflu f k = rbind (f (kf k)) (\<lambda>x. Inr (deliver (k\<lparr>kf := x\<rparr>)))"

definition kfs :: "('d fs \<Rightarrow> ('a \<times> 'd fs) res) \<Rightarrow> 'd kernel \<Rightarrow> ('a \<times> 'd kernel) res" where
  "kfs f k = rbind (f (fsx (kf k))) (\<lambda>(a, x). Inr (a, k\<lparr>kf := (kf k)\<lparr>fsx := x\<rparr>\<rparr>))"

definition argfd :: "nat \<Rightarrow> nat \<Rightarrow> 'd kernel \<Rightarrow> (nat \<times> nat) option res" where
  "argfd me n k =
     rbind (argint me n k) (\<lambda>r.
       case r of
         None \<Rightarrow> Inr None
       | Some v \<Rightarrow>
           if sint v < 0 \<or> sint v \<ge> int NOFILE then Inr None
           else Inr (map_option (Pair (unat v)) (ofile (proc_at k me) ! unat v)))"

definition fdalloc :: "nat \<Rightarrow> nat \<Rightarrow> 'd kernel \<Rightarrow> nat option \<times> 'd kernel" where
  "fdalloc me f k =
     (case find_index (\<lambda>x. x = None) (ofile (proc_at k me)) of
        None \<Rightarrow> (None, k)
      | Some fd \<Rightarrow> (Some fd, upd_proc me (\<lambda>p. p\<lparr>ofile := (ofile p)[fd := Some f]\<rparr>) k))"

definition sys_dup :: "nat \<Rightarrow> 'd kernel \<Rightarrow> (sysres \<times> 'd kernel) res" where
  "sys_dup me k =
     rbind (argfd me 0 k) (\<lambda>r.
       case r of
         None \<Rightarrow> Inr (minus1, k)
       | Some (_, f) \<Rightarrow>
           (case fdalloc me f k of
              (None, k1) \<Rightarrow> Inr (minus1, k1)
            | (Some fd, k1) \<Rightarrow> rbind (kflu (filedup f) k1) (\<lambda>k2. Inr (Ret (of_nat fd), k2))))"

definition sys_getreadcount :: "nat \<Rightarrow> 'd kernel \<Rightarrow> (sysres \<times> 'd kernel) res" where
  "sys_getreadcount me k = Inr (Ret (readcount k), k)"

definition sys_read :: "'d devsw list \<Rightarrow> nat \<Rightarrow> 'd kernel \<Rightarrow> (sysres \<times> 'd kernel) res" where
  "sys_read devsw me k0 =
     (let k = k0\<lparr>readcount := readcount k0 + 1\<rparr>; p = proc_at k me in
      rbind (argfd me 0 k) (\<lambda>rf. case rf of None \<Rightarrow> Inr (minus1, k) | Some (_, f) \<Rightarrow>
      rbind (argint me 2 k) (\<lambda>rn. case rn of None \<Rightarrow> Inr (minus1, k) | Some n \<Rightarrow>
      rbind (argptr me 1 n k) (\<lambda>rp. case rp of None \<Rightarrow> Inr (minus1, k) | Some a \<Rightarrow>
      rbind (kfl (fileread (ppid p) devsw (killed p) f n) k) (\<lambda>(r, k1).
        case r of
          None \<Rightarrow> Inr (minus1, k1)
        | Some bs \<Rightarrow>
            rbind (vstores (pgdir p) a bs (kmem_of k1)) (\<lambda>m. Inr (Ret (of_nat (length bs)), set_km m k1)))))))"

definition sys_write :: "'d devsw list \<Rightarrow> nat \<Rightarrow> 'd kernel \<Rightarrow> (sysres \<times> 'd kernel) res" where
  "sys_write devsw me k =
     (let p = proc_at k me in
      rbind (argfd me 0 k) (\<lambda>rf. case rf of None \<Rightarrow> Inr (minus1, k) | Some (_, f) \<Rightarrow>
      rbind (argint me 2 k) (\<lambda>rn. case rn of None \<Rightarrow> Inr (minus1, k) | Some n \<Rightarrow>
      rbind (argptr me 1 n k) (\<lambda>rp. case rp of None \<Rightarrow> Inr (minus1, k) | Some a \<Rightarrow>
      rbind (vloads (pgdir p) a (unat n) (kmem_of k)) (\<lambda>bs.
      rbind (kfl (filewrite (ppid p) devsw (killed p) f bs) k) (\<lambda>(r, k1).
        case r of
          FWRet v \<Rightarrow> Inr (Ret (of_int v), k1)
        | FWSleep rest \<Rightarrow> Inr (WriteRest f rest, sleep me (ChPipe (fpipe (ftable (kf k1) ! f)) ChNwrite) k1)))))))"

definition sys_close :: "ksyms \<Rightarrow> nat \<Rightarrow> 'd kernel \<Rightarrow> (sysres \<times> 'd kernel) res" where
  "sys_close sy me k =
     rbind (argfd me 0 k) (\<lambda>r.
       case r of
         None \<Rightarrow> Inr (minus1, k)
       | Some (fd, f) \<Rightarrow>
           let k1 = upd_proc me (\<lambda>p. p\<lparr>ofile := (ofile p)[fd := None]\<rparr>) k in
           rbind (kflu (fileclose (kend sy) (ppid (proc_at k me)) f) k1) (\<lambda>k2. Inr (Ret 0, k2)))"

text \<open>\<^verbatim>\<open>struct stat\<close>: type at 0, dev at 4, ino at 8, nlink at 12 and size at 16, 20 bytes in all; the padding keeps
  what was in memory.\<close>

definition store_stat :: "u32 \<Rightarrow> u32 \<Rightarrow> stat \<Rightarrow> kmem \<Rightarrow> kmem res" where
  "store_stat d a st m =
     rbind (vstore32 d (a + 4) (st_dev st) m) (\<lambda>m1.
     rbind (vstore32 d (a + 8) (st_ino st) m1) (\<lambda>m2.
     rbind (vstores d a [ucast (st_type st), ucast (drop_bit 8 (st_type st))] m2) (\<lambda>m3.
     rbind (vstores d (a + 12) [ucast (st_nlink st), ucast (drop_bit 8 (st_nlink st))] m3) (\<lambda>m4.
       vstore32 d (a + 16) (st_size st) m4))))"

definition sys_fstat :: "nat \<Rightarrow> 'd kernel \<Rightarrow> (sysres \<times> 'd kernel) res" where
  "sys_fstat me k =
     (let p = proc_at k me in
      rbind (argfd me 0 k) (\<lambda>rf. case rf of None \<Rightarrow> Inr (minus1, k) | Some (_, f) \<Rightarrow>
      rbind (argptr me 1 20 k) (\<lambda>rp. case rp of None \<Rightarrow> Inr (minus1, k) | Some a \<Rightarrow>
      rbind (kfl (filestat (ppid p) f) k) (\<lambda>(r, k1).
        case r of
          None \<Rightarrow> Inr (minus1, k1)
        | Some st \<Rightarrow> rbind (store_stat (pgdir p) a st (kmem_of k1)) (\<lambda>m. Inr (Ret 0, set_km m k1))))))"

section \<open>Links and directories\<close>

text \<open>The work of a system call inside its transaction, on the file system alone; the result says whether
  it returns 0 or -1.\<close>

definition link_bad :: "u32 \<Rightarrow> nat \<Rightarrow> 'd fs \<Rightarrow> (bool \<times> 'd fs) res" where
  "link_bad pid ip s =
     rbind (ilock pid ip s) (\<lambda>s1.
     rbind (iupdate pid ip (upd_node ip (\<lambda>x. x\<lparr>inlink := inlink x - 1\<rparr>) s1)) (\<lambda>s2.
     rbind (iunlockput pid ip s2) (\<lambda>s3. rbind (fend_op pid s3) (\<lambda>s4. Inr (False, s4)))))"

definition link_fs :: "u32 \<Rightarrow> 'd devsw list \<Rightarrow> nat \<Rightarrow> u8 list \<Rightarrow> u8 list \<Rightarrow> 'd fs \<Rightarrow> (bool \<times> 'd fs) res" where
  "link_fs pid devsw cw old new s =
     rbind (fbegin_op s) (\<lambda>s0.
     rbind (namei pid devsw cw old s0) (\<lambda>(r, s1).
       case r of
         None \<Rightarrow> rbind (fend_op pid s1) (\<lambda>s2. Inr (False, s2))
       | Some ip \<Rightarrow>
           rbind (ilock pid ip s1) (\<lambda>s2.
             if itype (node s2 ip) = T_DIR
             then rbind (iunlockput pid ip s2) (\<lambda>s3. rbind (fend_op pid s3) (\<lambda>s4. Inr (False, s4)))
             else
               rbind (iupdate pid ip (upd_node ip (\<lambda>x. x\<lparr>inlink := inlink x + 1\<rparr>) s2)) (\<lambda>s3.
               rbind (iunlock pid ip s3) (\<lambda>s4.
               rbind (nameiparent pid devsw cw new (replicate DIRSIZ 0) s4) (\<lambda>((rp, name), s5).
                 case rp of
                   None \<Rightarrow> link_bad pid ip s5
                 | Some dp \<Rightarrow>
                     rbind (ilock pid dp s5) (\<lambda>s6.
                     rbind (if idev (node s6 dp) \<noteq> idev (node s6 ip) then Inr (False, s6)
                            else dirlink pid devsw dp name (inum (node s6 ip)) s6) (\<lambda>(ok, s7).
                     rbind (iunlockput pid dp s7) (\<lambda>s8.
                       if \<not> ok then link_bad pid ip s8
                       else rbind (iput pid ip s8) (\<lambda>s9. rbind (fend_op pid s9) (\<lambda>s10. Inr (True, s10))))))))))))"

definition cwd_of :: "nat \<Rightarrow> 'd kernel \<Rightarrow> nat res" where
  "cwd_of me k = (case cwd (proc_at k me) of Some ip \<Rightarrow> Inr ip | None \<Rightarrow> Inl (Fault ''null cwd''))"

definition ret_ok :: "bool \<times> 'd kernel \<Rightarrow> (sysres \<times> 'd kernel) res" where
  "ret_ok r = Inr (if fst r then Ret 0 else minus1, snd r)"

definition sys_link :: "'d devsw list \<Rightarrow> nat \<Rightarrow> 'd kernel \<Rightarrow> (sysres \<times> 'd kernel) res" where
  "sys_link devsw me k =
     rbind (argstr me 0 k) (\<lambda>ro. case ro of None \<Rightarrow> Inr (minus1, k) | Some old \<Rightarrow>
     rbind (argstr me 1 k) (\<lambda>rn. case rn of None \<Rightarrow> Inr (minus1, k) | Some new \<Rightarrow>
     rbind (cwd_of me k) (\<lambda>c. rbind (kfs (link_fs (ppid (proc_at k me)) devsw c old new) k) ret_ok)))"

fun isdirempty_scan :: "u32 \<Rightarrow> 'd devsw list \<Rightarrow> nat \<Rightarrow> u32 list \<Rightarrow> 'd fs \<Rightarrow> (bool \<times> 'd fs) res" where
  "isdirempty_scan pid devsw dp [] s = Inr (True, s)"
| "isdirempty_scan pid devsw dp (off # offs) s =
     rbind (readi pid devsw dp off 16 s) (\<lambda>(r, s1).
       case r of
         None \<Rightarrow> Inl (Panic ''isdirempty: readi'')
       | Some de \<Rightarrow>
           if length de \<noteq> 16 then Inl (Panic ''isdirempty: readi'')
           else if get16 de 0 \<noteq> 0 then Inr (False, s1)
           else isdirempty_scan pid devsw dp offs s1)"

definition isdirempty :: "u32 \<Rightarrow> 'd devsw list \<Rightarrow> nat \<Rightarrow> 'd fs \<Rightarrow> (bool \<times> 'd fs) res" where
  "isdirempty pid devsw dp s = isdirempty_scan pid devsw dp (drop 2 (dir_offs (isize (node s dp)))) s"

definition unlink_bad :: "u32 \<Rightarrow> nat \<Rightarrow> 'd fs \<Rightarrow> (bool \<times> 'd fs) res" where
  "unlink_bad pid dp s = rbind (iunlockput pid dp s) (\<lambda>s1. rbind (fend_op pid s1) (\<lambda>s2. Inr (False, s2)))"

definition unlink_entry :: "u32 \<Rightarrow> 'd devsw list \<Rightarrow> nat \<Rightarrow> nat \<Rightarrow> u32 \<Rightarrow> 'd fs \<Rightarrow> (bool \<times> 'd fs) res" where
  "unlink_entry pid devsw dp ip off s =
     rbind (writei pid devsw dp (replicate 16 0) off s) (\<lambda>(w, s1).
       if w \<noteq> Some 16 then Inl (Panic ''unlink: writei'')
       else
         rbind (if itype (node s1 ip) = T_DIR
                then iupdate pid dp (upd_node dp (\<lambda>x. x\<lparr>inlink := inlink x - 1\<rparr>) s1) else Inr s1) (\<lambda>s2.
         rbind (iunlockput pid dp s2) (\<lambda>s3.
         rbind (iupdate pid ip (upd_node ip (\<lambda>x. x\<lparr>inlink := inlink x - 1\<rparr>) s3)) (\<lambda>s4.
         rbind (iunlockput pid ip s4) (\<lambda>s5. rbind (fend_op pid s5) (\<lambda>s6. Inr (True, s6)))))))"

definition unlink_fs :: "u32 \<Rightarrow> 'd devsw list \<Rightarrow> nat \<Rightarrow> u8 list \<Rightarrow> 'd fs \<Rightarrow> (bool \<times> 'd fs) res" where
  "unlink_fs pid devsw cw path s =
     rbind (fbegin_op s) (\<lambda>s0.
     rbind (nameiparent pid devsw cw path (replicate DIRSIZ 0) s0) (\<lambda>((rp, name), s1).
       case rp of
         None \<Rightarrow> rbind (fend_op pid s1) (\<lambda>s2. Inr (False, s2))
       | Some dp \<Rightarrow>
           rbind (ilock pid dp s1) (\<lambda>s2.
             if namecmp name [46] = 0 \<or> namecmp name [46, 46] = 0 then unlink_bad pid dp s2
             else rbind (dirlookup pid devsw dp name s2) (\<lambda>(r, s3).
               case r of
                 None \<Rightarrow> unlink_bad pid dp s3
               | Some (ip, off) \<Rightarrow>
                   rbind (ilock pid ip s3) (\<lambda>s4.
                     if sint (inlink (node s4 ip)) < 1 then Inl (Panic ''unlink: nlink < 1'')
                     else rbind (if itype (node s4 ip) = T_DIR then isdirempty pid devsw ip s4 else Inr (True, s4)) (\<lambda>(empty, s5).
                       if \<not> empty then rbind (iunlockput pid ip s5) (\<lambda>s6. unlink_bad pid dp s6)
                       else unlink_entry pid devsw dp ip off s5))))))"

definition sys_unlink :: "'d devsw list \<Rightarrow> nat \<Rightarrow> 'd kernel \<Rightarrow> (sysres \<times> 'd kernel) res" where
  "sys_unlink devsw me k =
     rbind (argstr me 0 k) (\<lambda>r. case r of None \<Rightarrow> Inr (minus1, k) | Some path \<Rightarrow>
     rbind (cwd_of me k) (\<lambda>c. rbind (kfs (unlink_fs (ppid (proc_at k me)) devsw c path) k) ret_ok))"

definition create_dots :: "u32 \<Rightarrow> 'd devsw list \<Rightarrow> nat \<Rightarrow> nat \<Rightarrow> 'd fs \<Rightarrow> 'd fs res" where
  "create_dots pid devsw dp ip s =
     rbind (iupdate pid dp (upd_node dp (\<lambda>x. x\<lparr>inlink := inlink x + 1\<rparr>) s)) (\<lambda>s1.
     rbind (dirlink pid devsw ip [46] (inum (node s1 ip)) s1) (\<lambda>(ok1, s2).
       if \<not> ok1 then Inl (Panic ''create dots'')
       else rbind (dirlink pid devsw ip [46, 46] (inum (node s2 dp)) s2) (\<lambda>(ok2, s3).
         if \<not> ok2 then Inl (Panic ''create dots'') else Inr s3)))"

definition create :: "u32 \<Rightarrow> 'd devsw list \<Rightarrow> nat \<Rightarrow> u8 list \<Rightarrow> u16 \<Rightarrow> u16 \<Rightarrow> u16 \<Rightarrow> 'd fs \<Rightarrow> (nat option \<times> 'd fs) res" where
  "create pid devsw cw path type major minor s =
     rbind (nameiparent pid devsw cw path (replicate DIRSIZ 0) s) (\<lambda>((rp, name), s1).
       case rp of
         None \<Rightarrow> Inr (None, s1)
       | Some dp \<Rightarrow>
           rbind (ilock pid dp s1) (\<lambda>s2.
           rbind (dirlookup pid devsw dp name s2) (\<lambda>(r, s3).
             case r of
               Some (ip, _) \<Rightarrow>
                 rbind (iunlockput pid dp s3) (\<lambda>s4.
                 rbind (ilock pid ip s4) (\<lambda>s5.
                   if type = T_FILE \<and> itype (node s5 ip) = T_FILE then Inr (Some ip, s5)
                   else rbind (iunlockput pid ip s5) (\<lambda>s6. Inr (None, s6))))
             | None \<Rightarrow>
                 rbind (ialloc pid (idev (node s3 dp)) type s3) (\<lambda>(ip, s4).
                 rbind (ilock pid ip s4) (\<lambda>s5.
                 rbind (iupdate pid ip (upd_node ip (\<lambda>x. x\<lparr>imajor := major, iminor := minor, inlink := 1\<rparr>) s5)) (\<lambda>s6.
                 rbind (if type = T_DIR then create_dots pid devsw dp ip s6 else Inr s6) (\<lambda>s7.
                 rbind (dirlink pid devsw dp name (inum (node s7 ip)) s7) (\<lambda>(ok, s8).
                   if \<not> ok then Inl (Panic ''create: dirlink'')
                   else rbind (iunlockput pid dp s8) (\<lambda>s9. Inr (Some ip, s9))))))))))"

section \<open>Opening\<close>

text \<open>The first part of \<^verbatim>\<open>sys_open\<close>: the locked inode, or \<open>None\<close> with the transaction ended.\<close>

definition open_inode :: "u32 \<Rightarrow> 'd devsw list \<Rightarrow> nat \<Rightarrow> u8 list \<Rightarrow> u32 \<Rightarrow> 'd fs \<Rightarrow> (nat option \<times> 'd fs) res" where
  "open_inode pid devsw cw path omode s =
     rbind (fbegin_op s) (\<lambda>s0.
       if omode AND O_CREATE \<noteq> 0
       then rbind (create pid devsw cw path T_FILE 0 0 s0) (\<lambda>(r, s1).
         case r of
           None \<Rightarrow> rbind (fend_op pid s1) (\<lambda>s2. Inr (None, s2))
         | Some ip \<Rightarrow> Inr (Some ip, s1))
       else rbind (namei pid devsw cw path s0) (\<lambda>(r, s1).
         case r of
           None \<Rightarrow> rbind (fend_op pid s1) (\<lambda>s2. Inr (None, s2))
         | Some ip \<Rightarrow>
             rbind (ilock pid ip s1) (\<lambda>s2.
               if itype (node s2 ip) = T_DIR \<and> omode \<noteq> O_RDONLY
               then rbind (iunlockput pid ip s2) (\<lambda>s3. rbind (fend_op pid s3) (\<lambda>s4. Inr (None, s4)))
               else Inr (Some ip, s2))))"

definition open_fail :: "u32 \<Rightarrow> nat \<Rightarrow> 'd kernel \<Rightarrow> (sysres \<times> 'd kernel) res" where
  "open_fail pid ip k =
     rbind (kfs (\<lambda>s. rbind (iunlockput pid ip s) (\<lambda>s1. rbind (fend_op pid s1) (\<lambda>s2. Inr ((), s2)))) k) (\<lambda>(_, k1). Inr (minus1, k1))"

definition sys_open :: "ksyms \<Rightarrow> 'd devsw list \<Rightarrow> nat \<Rightarrow> 'd kernel \<Rightarrow> (sysres \<times> 'd kernel) res" where
  "sys_open sy devsw me k =
     (let pid = ppid (proc_at k me) in
      rbind (argstr me 0 k) (\<lambda>r. case r of None \<Rightarrow> Inr (minus1, k) | Some path \<Rightarrow>
      rbind (argint me 1 k) (\<lambda>ro. case ro of None \<Rightarrow> Inr (minus1, k) | Some omode \<Rightarrow>
      rbind (cwd_of me k) (\<lambda>c.
      rbind (kfs (open_inode pid devsw c path omode) k) (\<lambda>(ri, k1).
        case ri of
          None \<Rightarrow> Inr (minus1, k1)
        | Some ip \<Rightarrow>
            (case filealloc (kf k1) of
               (None, f1) \<Rightarrow> open_fail pid ip (k1\<lparr>kf := f1\<rparr>)
             | (Some f, f1) \<Rightarrow>
                 (case fdalloc me f (k1\<lparr>kf := f1\<rparr>) of
                    (None, k2) \<Rightarrow> rbind (kflu (fileclose (kend sy) pid f) k2) (\<lambda>k3. open_fail pid ip k3)
                  | (Some fd, k2) \<Rightarrow>
                      rbind (kfs (\<lambda>s. rbind (iunlock pid ip s) (\<lambda>s1. rbind (fend_op pid s1) (\<lambda>s2. Inr ((), s2)))) k2) (\<lambda>(_, k3).
                        Inr (Ret (of_nat fd), k3\<lparr>kf := upd_file f (\<lambda>x. x\<lparr>ftyp := FD_INODE, fip := ip, foff := 0,
                          readable := (omode AND O_WRONLY = 0),
                          writable := (omode AND O_WRONLY \<noteq> 0 \<or> omode AND O_RDWR \<noteq> 0)\<rparr>) (kf k3)\<rparr>)))))))))"

text \<open>The end of \<^verbatim>\<open>sys_mkdir\<close> and \<^verbatim>\<open>sys_mknod\<close>, which start their transaction before they look at the arguments.\<close>

definition finish_create :: "u32 \<Rightarrow> nat option \<times> 'd fs \<Rightarrow> (bool \<times> 'd fs) res" where
  "finish_create pid r =
     (case r of
        (None, s1) \<Rightarrow> rbind (fend_op pid s1) (\<lambda>s2. Inr (False, s2))
      | (Some ip, s1) \<Rightarrow> rbind (iunlockput pid ip s1) (\<lambda>s2. rbind (fend_op pid s2) (\<lambda>s3. Inr (True, s3))))"

definition sys_mkdir :: "'d devsw list \<Rightarrow> nat \<Rightarrow> 'd kernel \<Rightarrow> (sysres \<times> 'd kernel) res" where
  "sys_mkdir devsw me k =
     (let pid = ppid (proc_at k me) in
      rbind (argstr me 0 k) (\<lambda>r.
      rbind (cwd_of me k) (\<lambda>c.
      rbind (kfs (\<lambda>s. rbind (fbegin_op s) (\<lambda>s0.
          rbind (case r of None \<Rightarrow> Inr (None, s0) | Some path \<Rightarrow> create pid devsw c path T_DIR 0 0 s0) (finish_create pid))) k) ret_ok)))"

definition sys_mknod :: "'d devsw list \<Rightarrow> nat \<Rightarrow> 'd kernel \<Rightarrow> (sysres \<times> 'd kernel) res" where
  "sys_mknod devsw me k =
     (let pid = ppid (proc_at k me) in
      rbind (argstr me 0 k) (\<lambda>r. rbind (argint me 1 k) (\<lambda>rma. rbind (argint me 2 k) (\<lambda>rmi.
      rbind (cwd_of me k) (\<lambda>c.
      rbind (kfs (\<lambda>s. rbind (fbegin_op s) (\<lambda>s0.
          rbind (case (r, rma, rmi) of
                   (Some path, Some major, Some minor) \<Rightarrow> create pid devsw c path T_DEV (ucast major) (ucast minor) s0
                 | _ \<Rightarrow> Inr (None, s0)) (finish_create pid))) k) ret_ok)))))"

definition chdir_fs :: "u32 \<Rightarrow> 'd devsw list \<Rightarrow> nat \<Rightarrow> u8 list option \<Rightarrow> 'd fs \<Rightarrow> (nat option \<times> 'd fs) res" where
  "chdir_fs pid devsw cw r s =
     rbind (fbegin_op s) (\<lambda>s0.
     rbind (case r of None \<Rightarrow> Inr (None, s0) | Some path \<Rightarrow> namei pid devsw cw path s0) (\<lambda>(ri, s1).
       case ri of
         None \<Rightarrow> rbind (fend_op pid s1) (\<lambda>s2. Inr (None, s2))
       | Some ip \<Rightarrow>
           rbind (ilock pid ip s1) (\<lambda>s2.
             if itype (node s2 ip) \<noteq> T_DIR
             then rbind (iunlockput pid ip s2) (\<lambda>s3. rbind (fend_op pid s3) (\<lambda>s4. Inr (None, s4)))
             else rbind (iunlock pid ip s2) (\<lambda>s3.
                  rbind (iput pid cw s3) (\<lambda>s4.
                  rbind (fend_op pid s4) (\<lambda>s5. Inr (Some ip, s5)))))))"

definition sys_chdir :: "'d devsw list \<Rightarrow> nat \<Rightarrow> 'd kernel \<Rightarrow> (sysres \<times> 'd kernel) res" where
  "sys_chdir devsw me k =
     rbind (argstr me 0 k) (\<lambda>r.
     rbind (cwd_of me k) (\<lambda>c.
     rbind (kfs (chdir_fs (ppid (proc_at k me)) devsw c r) k) (\<lambda>(ri, k1).
       case ri of
         None \<Rightarrow> Inr (minus1, k1)
       | Some ip \<Rightarrow> Inr (Ret 0, upd_proc me (\<lambda>p. p\<lparr>cwd := Some ip\<rparr>) k1))))"

definition sys_pipe :: "ksyms \<Rightarrow> nat \<Rightarrow> 'd kernel \<Rightarrow> (sysres \<times> 'd kernel) res" where
  "sys_pipe sy me k =
     (let pid = ppid (proc_at k me);
          fail = (\<lambda>rf wfl k. rbind (kflu (fileclose (kend sy) pid rf) k) (\<lambda>k1.
                            rbind (kflu (fileclose (kend sy) pid wfl) k1) (\<lambda>k2. Inr (minus1, k2)))) in
      rbind (argptr me 0 8 k) (\<lambda>ra. case ra of None \<Rightarrow> Inr (minus1, k) | Some a \<Rightarrow>
      rbind (kfl (pipealloc (kend sy) pid) k) (\<lambda>(rp, k1).
        case rp of
          None \<Rightarrow> Inr (minus1, k1)
        | Some (rf, wfl) \<Rightarrow>
            (case fdalloc me rf k1 of
               (None, k2) \<Rightarrow> fail rf wfl k2
             | (Some fd0, k2) \<Rightarrow>
                 (case fdalloc me wfl k2 of
                    (None, k3) \<Rightarrow> fail rf wfl (upd_proc me (\<lambda>p. p\<lparr>ofile := (ofile p)[fd0 := None]\<rparr>) k3)
                  | (Some fd1, k3) \<Rightarrow>
                      rbind (vstore32 (pgdir (proc_at k3 me)) a (of_nat fd0) (kmem_of k3)) (\<lambda>m1.
                      rbind (vstore32 (pgdir (proc_at k3 me)) (a + 4) (of_nat fd1) m1) (\<lambda>m2.
                        Inr (Ret 0, set_km m2 k3))))))))"

end
