(* ===== verification/Exec.thy ===== *)
theory Exec
  imports Sysfile
begin

text \<open>
  \<^verbatim>\<open>exec\<close>, \<^verbatim>\<open>src/src/exec.c\<close>, with \<^verbatim>\<open>loaduvm\<close> of \<^verbatim>\<open>src/src/vm.c\<close> and \<^verbatim>\<open>sys_exec\<close> of \<^verbatim>\<open>src/src/sysfile.c\<close>. The state it
  works on is the file layer, which holds the inode, and the page allocator, which holds the new image.
\<close>

abbreviation MAXARG :: nat where "MAXARG \<equiv> 32"
abbreviation ELF_MAGIC :: u32 where "ELF_MAGIC \<equiv> 0x464C457F"
abbreviation ELF_PROG_LOAD :: u32 where "ELF_PROG_LOAD \<equiv> 1"

record elfhdr =
  magic :: u32
  entry :: u32
  phoff :: u32
  phnum :: u16

record proghdr =
  ph_type :: u32
  ph_off :: u32
  ph_vaddr :: u32
  ph_filesz :: u32
  ph_memsz :: u32

text \<open>The fields that \<^verbatim>\<open>exec\<close> uses, at their offsets: the headers have 52 and 32 bytes.\<close>

definition decode_elf :: "u8 list \<Rightarrow> elfhdr" where
  "decode_elf x = \<lparr>magic = get32 x 0, entry = get32 x 24, phoff = get32 x 28, phnum = get16 x 44\<rparr>"

definition decode_ph :: "u8 list \<Rightarrow> proghdr" where
  "decode_ph x = \<lparr>ph_type = get32 x 0, ph_off = get32 x 4, ph_vaddr = get32 x 8, ph_filesz = get32 x 16, ph_memsz = get32 x 20\<rparr>"

text \<open>\<^verbatim>\<open>loaduvm\<close>, by pages: \<open>i\<close> is the offset of the page, \<open>n\<close> the number of bytes from there.\<close>

function loaduvm_loop :: "u32 \<Rightarrow> 'd devsw list \<Rightarrow> u32 \<Rightarrow> u32 \<Rightarrow> nat \<Rightarrow> u32 \<Rightarrow> u32 \<Rightarrow> nat \<Rightarrow> 'd files \<Rightarrow> (bool \<times> 'd files) res" where
  "loaduvm_loop pid devsw d addr ip offset i n s =
     (if 0 < n
      then let (pte, _) = walkpgdir d (addr + i) False (km s) in
        if pte = 0 then Inl (Panic ''loaduvm: address should exist'')
        else let pa = PTE_ADDR (load32 (mem (km s)) pte); m = min n 4096 in
          rbind (readi pid devsw ip (offset + i) (of_nat m) (fsx s)) (\<lambda>(r, x).
            let s1 = s\<lparr>fsx := x\<rparr> in
            case r of
              None \<Rightarrow> Inr (False, s1)
            | Some bs \<Rightarrow>
                let s2 = s1\<lparr>km := (km s1)\<lparr>mem := store_bytes (mem (km s1)) (P2V pa) bs\<rparr>\<rparr> in
                if length bs \<noteq> m then Inr (False, s2)
                else loaduvm_loop pid devsw d addr ip offset (i + PGSIZE) (n - m) s2)
      else Inr (True, s))"
  by pat_completeness auto
termination
  by (relation "measure (\<lambda>(pid, devsw, d, addr, ip, offset, i, n, s). n)") auto

definition loaduvm :: "u32 \<Rightarrow> 'd devsw list \<Rightarrow> u32 \<Rightarrow> u32 \<Rightarrow> nat \<Rightarrow> u32 \<Rightarrow> u32 \<Rightarrow> 'd files \<Rightarrow> (bool \<times> 'd files) res" where
  "loaduvm pid devsw d addr ip offset sz s =
     (if unat addr mod unat PGSIZE \<noteq> 0 then Inl (Panic ''loaduvm: addr must be page aligned'')
      else loaduvm_loop pid devsw d addr ip offset 0 (unat sz) s)"

text \<open>The loop over the program headers; the result is the new size, or \<open>None\<close> for \<^verbatim>\<open>goto bad\<close>.\<close>

fun load_segments :: "ksyms \<Rightarrow> u32 \<Rightarrow> 'd devsw list \<Rightarrow> u32 \<Rightarrow> nat \<Rightarrow> u32 \<Rightarrow> nat \<Rightarrow> u32 \<Rightarrow> 'd files \<Rightarrow> (u32 option \<times> 'd files) res" where
  "load_segments sy pid devsw d ip off 0 sz s = Inr (Some sz, s)"
| "load_segments sy pid devsw d ip off (Suc n) sz s =
     rbind (readi pid devsw ip off 32 (fsx s)) (\<lambda>(r, x).
       let s1 = s\<lparr>fsx := x\<rparr> in
       case r of
         None \<Rightarrow> Inr (None, s1)
       | Some bs \<Rightarrow>
           let ph = decode_ph bs in
           if length bs \<noteq> 32 then Inr (None, s1)
           else if ph_type ph \<noteq> ELF_PROG_LOAD then load_segments sy pid devsw d ip (off + 32) n sz s1
           else if ph_memsz ph < ph_filesz ph then Inr (None, s1)
           else if ph_vaddr ph + ph_memsz ph < ph_vaddr ph then Inr (None, s1)
           else rbind (allocuvm (kend sy) d sz (ph_vaddr ph + ph_memsz ph) (km s1)) (\<lambda>(sz1, m).
             let s2 = s1\<lparr>km := m\<rparr> in
             if sz1 = 0 then Inr (None, s2)
             else if unat (ph_vaddr ph) mod unat PGSIZE \<noteq> 0 then Inr (None, s2)
             else rbind (loaduvm pid devsw d (ph_vaddr ph) ip (ph_off ph) (ph_filesz ph) s2) (\<lambda>(ok, s3).
               if \<not> ok then Inr (None, s3) else load_segments sy pid devsw d ip (off + 32) n sz1 s3)))"

text \<open>The loop that pushes the argument strings: \<open>us\<close> collects their addresses.\<close>

fun push_args :: "u32 \<Rightarrow> u8 list list \<Rightarrow> nat \<Rightarrow> u32 \<Rightarrow> u32 list \<Rightarrow> kmem \<Rightarrow> ((u32 \<times> u32 list) option \<times> kmem) res" where
  "push_args d [] argc sp us m = Inr (Some (sp, us), m)"
| "push_args d (a # as) argc sp us m =
     (if argc \<ge> MAXARG then Inr (None, m)
      else let sp1 = (sp - of_nat (length a + 1)) AND NOT 3 in
        rbind (copyout d sp1 (a @ [0]) m) (\<lambda>(ok, m1).
          if \<not> ok then Inr (None, m1) else push_args d as (argc + 1) sp1 (us @ [sp1]) m1))"

definition ustack :: "u32 \<Rightarrow> u32 list \<Rightarrow> u32 list" where
  "ustack sp us = [0xFFFFFFFF, of_nat (length us), sp - of_nat ((length us + 1) * 4)] @ us @ [0]"

definition basename :: "u8 list \<Rightarrow> u8 list" where
  "basename path = rev (takeWhile (\<lambda>c. c \<noteq> slash) (rev path))"

text \<open>\<^verbatim>\<open>bad:\<close> with and without the inode.\<close>

definition exec_bad :: "ksyms \<Rightarrow> u32 \<Rightarrow> u32 \<Rightarrow> nat option \<Rightarrow> 'd files \<Rightarrow> 'd files res" where
  "exec_bad sy pid d ip s =
     rbind (if d \<noteq> 0 then rbind (freevm (kend sy) d (km s)) (\<lambda>m. Inr (s\<lparr>km := m\<rparr>)) else Inr s) (\<lambda>s1.
       case ip of
         None \<Rightarrow> Inr s1
       | Some i \<Rightarrow> on_fs (\<lambda>x. rbind (iunlockput pid i x) (\<lambda>x1. fend_op pid x1)) s1)"

text \<open>The new image: its page directory, size, stack pointer and entry point.\<close>

definition build_stack :: "ksyms \<Rightarrow> u32 \<Rightarrow> u32 \<Rightarrow> u8 list list \<Rightarrow> kmem \<Rightarrow> ((u32 \<times> u32) option \<times> kmem) res" where
  "build_stack sy d sz0 argv m =
     (let sz1 = PGROUNDUP sz0 in
      rbind (allocuvm (kend sy) d sz1 (sz1 + 2 * PGSIZE) m) (\<lambda>(sz, m1).
        if sz = 0 then Inr (None, m1)
        else rbind (clearpteu d (sz - 2 * PGSIZE) m1) (\<lambda>m2.
             rbind (push_args d argv 0 sz [] m2) (\<lambda>(r, m3).
               case r of
                 None \<Rightarrow> Inr (None, m3)
               | Some (sp, us) \<Rightarrow>
                   let sp1 = sp - of_nat ((3 + length us + 1) * 4) in
                   rbind (copyout d sp1 (concat (map bytes32 (ustack sp us))) m3) (\<lambda>(ok, m4).
                     Inr (if ok then Some (sz, sp1) else None, m4))))))"

definition exec_image :: "ksyms \<Rightarrow> u32 \<Rightarrow> 'd devsw list \<Rightarrow> nat \<Rightarrow> u8 list list \<Rightarrow> 'd files \<Rightarrow> ((u32 \<times> u32 \<times> u32 \<times> u32) option \<times> 'd files) res" where
  "exec_image sy pid devsw ip argv s =
     rbind (readi pid devsw ip 0 52 (fsx s)) (\<lambda>(r, x).
       let s1 = s\<lparr>fsx := x\<rparr>; bad = (\<lambda>d i t. rbind (exec_bad sy pid d i t) (\<lambda>t1. Inr (None, t1))) in
       case r of
         None \<Rightarrow> bad 0 (Some ip) s1
       | Some bs \<Rightarrow>
           let elf = decode_elf bs in
           if length bs \<noteq> 52 then bad 0 (Some ip) s1
           else if magic elf \<noteq> ELF_MAGIC then bad 0 (Some ip) s1
           else rbind (setupkvm (kend sy) (kdata sy) (km s1)) (\<lambda>(d, m).
             let s2 = s1\<lparr>km := m\<rparr> in
             if d = 0 then bad 0 (Some ip) s2
             else rbind (load_segments sy pid devsw d ip (phoff elf) (unat (phnum elf)) 0 s2) (\<lambda>(rs, s3).
               case rs of
                 None \<Rightarrow> bad d (Some ip) s3
               | Some sz0 \<Rightarrow>
                   rbind (on_fs (\<lambda>x. rbind (iunlockput pid ip x) (\<lambda>x1. fend_op pid x1)) s3) (\<lambda>s4.
                   rbind (build_stack sy d sz0 argv (km s4)) (\<lambda>(rb, m4).
                     let s5 = s4\<lparr>km := m4\<rparr> in
                     case rb of
                       None \<Rightarrow> bad d None s5
                     | Some (sz, sp) \<Rightarrow> Inr (Some (d, sz, sp, entry elf), s5))))))"

definition exec :: "ksyms \<Rightarrow> 'd devsw list \<Rightarrow> nat \<Rightarrow> u8 list \<Rightarrow> u8 list list \<Rightarrow> 'd kernel \<Rightarrow> (sysres \<times> 'd kernel) res" where
  "exec sy devsw me path argv k =
     (let pid = ppid (proc_at k me) in
      rbind (cwd_of me k) (\<lambda>c.
      rbind (kfs (\<lambda>s. rbind (fbegin_op s) (\<lambda>s0. namei pid devsw c path s0)) k) (\<lambda>(ri, k1).
        case ri of
          None \<Rightarrow> rbind (kfs (\<lambda>s. rbind (fend_op pid s) (\<lambda>s1. Inr ((), s1))) k1) (\<lambda>(_, k2). Inr (minus1, k2))
        | Some ip \<Rightarrow>
            rbind (kfs (\<lambda>s. rbind (ilock pid ip s) (\<lambda>s1. Inr ((), s1))) k1) (\<lambda>(_, k2).
            rbind (kfl (exec_image sy pid devsw ip argv) k2) (\<lambda>(r, k3).
              case r of
                None \<Rightarrow> Inr (minus1, k3)
              | Some (d, sz, sp, e) \<Rightarrow>
                  let old = pgdir (proc_at k3 me); tf = ptf (proc_at k3 me);
                      k4 = upd_proc me (\<lambda>p. p\<lparr>pname := copy_name (basename path) (pname p), pgdir := d, psz := sz\<rparr>) k3;
                      k5 = kstore32 (tf + TF_EIP) e k4;
                      k6 = kstore32 (tf + TF_ESP) sp k5 in
                  rbind (switchuvm (proc_at k6 me)) (\<lambda>_.
                  rbind (freevm (kend sy) old (kmem_of k6)) (\<lambda>m. Inr (Ret 0, set_km m k6))))))))"

text \<open>The loop of \<^verbatim>\<open>sys_exec\<close> that fetches the argument strings.\<close>

fun fetch_argv :: "nat \<Rightarrow> u32 \<Rightarrow> nat \<Rightarrow> 'd kernel \<Rightarrow> u8 list list option res" where
  "fetch_argv me uargv 0 k = Inr None"
| "fetch_argv me uargv (Suc n) k =
     rbind (fetchint me uargv k) (\<lambda>r.
       case r of
         None \<Rightarrow> Inr None
       | Some uarg \<Rightarrow>
           if uarg = 0 then Inr (Some [])
           else rbind (fetchstr me uarg k) (\<lambda>rs.
             case rs of
               None \<Rightarrow> Inr None
             | Some s \<Rightarrow> rbind (fetch_argv me (uargv + 4) n k) (\<lambda>rr. Inr (map_option (Cons s) rr))))"

definition sys_exec :: "ksyms \<Rightarrow> 'd devsw list \<Rightarrow> nat \<Rightarrow> 'd kernel \<Rightarrow> (sysres \<times> 'd kernel) res" where
  "sys_exec sy devsw me k =
     rbind (argstr me 0 k) (\<lambda>r. case r of None \<Rightarrow> Inr (minus1, k) | Some path \<Rightarrow>
     rbind (argint me 1 k) (\<lambda>ra. case ra of None \<Rightarrow> Inr (minus1, k) | Some uargv \<Rightarrow>
     rbind (fetch_argv me uargv MAXARG k) (\<lambda>rv. case rv of None \<Rightarrow> Inr (minus1, k) | Some argv \<Rightarrow>
       exec sy devsw me path argv k)))"

end
