(* ===== verification/Syscall.thy ===== *)
theory Syscall
  imports Exec
begin

text \<open>
  The system calls on processes, \<^verbatim>\<open>src/src/sysproc.c\<close>, the dispatcher \<^verbatim>\<open>syscall\<close> of \<^verbatim>\<open>src/src/syscall.c\<close> and the trap
  handler \<^verbatim>\<open>src/src/trap.c\<close>. Disk interrupts do nothing at this level, since a disk request is served when it is
  issued (theory \<open>Ide\<close> relates the two); the keyboard and serial handlers are parameters of \<open>trap\<close>.
\<close>

section \<open>System calls on processes\<close>

definition sys_fork :: "ksyms \<Rightarrow> nat \<Rightarrow> 'd kernel \<Rightarrow> (sysres \<times> 'd kernel) res" where
  "sys_fork sy me k = rbind (fork sy me k) (\<lambda>(r, k1). Inr (Ret (of_int r), k1))"

text \<open>\<^verbatim>\<open>exit\<close> does not return.\<close>

definition sys_exit :: "ksyms \<Rightarrow> nat \<Rightarrow> 'd kernel \<Rightarrow> (sysres \<times> 'd kernel) res" where
  "sys_exit sy me k = rbind (exit sy me k) (\<lambda>k1. Inr (Ret 0, k1))"

definition wait_res :: "waitout \<times> 'd kernel \<Rightarrow> (sysres \<times> 'd kernel) res" where
  "wait_res r = Inr (case fst r of WaitRet v \<Rightarrow> Ret (of_int v) | WaitSleeps \<Rightarrow> Again, snd r)"

definition sys_wait :: "ksyms \<Rightarrow> nat \<Rightarrow> 'd kernel \<Rightarrow> (sysres \<times> 'd kernel) res" where
  "sys_wait sy me k = rbind (wait sy me k) wait_res"

definition with_int :: "nat \<Rightarrow> nat \<Rightarrow> 'd kernel \<Rightarrow> (u32 \<Rightarrow> (sysres \<times> 'd kernel) res) \<Rightarrow> (sysres \<times> 'd kernel) res" where
  "with_int me n k f = rbind (argint me n k) (\<lambda>r. case r of None \<Rightarrow> Inr (minus1, k) | Some v \<Rightarrow> f v)"

definition sys_kill :: "nat \<Rightarrow> 'd kernel \<Rightarrow> (sysres \<times> 'd kernel) res" where
  "sys_kill me k = with_int me 0 k (\<lambda>pid. let (r, k1) = kill pid k in Inr (Ret (of_int r), k1))"

definition sys_getpid :: "nat \<Rightarrow> 'd kernel \<Rightarrow> (sysres \<times> 'd kernel) res" where
  "sys_getpid me k = Inr (Ret (ppid (proc_at k me)), k)"

definition sys_sbrk :: "ksyms \<Rightarrow> nat \<Rightarrow> 'd kernel \<Rightarrow> (sysres \<times> 'd kernel) res" where
  "sys_sbrk sy me k =
     with_int me 0 k (\<lambda>n.
       let addr = psz (proc_at k me) in
       rbind (growproc sy me n k) (\<lambda>(r, k1). Inr (if r < 0 then minus1 else Ret addr, k1)))"

text \<open>One pass of the loop of \<^verbatim>\<open>sys_sleep\<close>; the comparison with \<^verbatim>\<open>n\<close> is unsigned.\<close>

definition sleep_pass :: "nat \<Rightarrow> u32 \<Rightarrow> u32 \<Rightarrow> 'd kernel \<Rightarrow> sysres \<times> 'd kernel" where
  "sleep_pass me ticks0 n k =
     (if ticks k - ticks0 < n
      then if killed (proc_at k me) then (minus1, k) else (SleepTicks ticks0 n, sleep me ChTicks k)
      else (Ret 0, k))"

definition sys_sleep :: "nat \<Rightarrow> 'd kernel \<Rightarrow> (sysres \<times> 'd kernel) res" where
  "sys_sleep me k = with_int me 0 k (\<lambda>n. Inr (sleep_pass me (ticks k) n k))"

definition sys_uptime :: "nat \<Rightarrow> 'd kernel \<Rightarrow> (sysres \<times> 'd kernel) res" where
  "sys_uptime me k = Inr (Ret (ticks k), k)"

definition sys_settickets :: "nat \<Rightarrow> 'd kernel \<Rightarrow> (sysres \<times> 'd kernel) res" where
  "sys_settickets me k =
     with_int me 0 k (\<lambda>n.
       if sint n < 0 then Inr (minus1, k) else Inr (Ret 0, upd_proc me (\<lambda>p. p\<lparr>tickets := n\<rparr>) k))"

definition sys_getpinfo :: "nat \<Rightarrow> 'd kernel \<Rightarrow> (sysres \<times> 'd kernel) res" where
  "sys_getpinfo me k = with_int me 0 k (\<lambda>ps. rbind (getpstat me ps k) (\<lambda>k1. Inr (Ret 0, k1)))"

definition sys_mprotect :: "nat \<Rightarrow> 'd kernel \<Rightarrow> (sysres \<times> 'd kernel) res" where
  "sys_mprotect me k =
     with_int me 0 k (\<lambda>addr. with_int me 1 k (\<lambda>len.
       rbind (mprotect (pgdir (proc_at k me)) (psz (proc_at k me)) addr len (kmem_of k)) (\<lambda>(ok, m).
         Inr (if ok then Ret 0 else minus1, set_km m k))))"

definition sys_munprotect :: "nat \<Rightarrow> 'd kernel \<Rightarrow> (sysres \<times> 'd kernel) res" where
  "sys_munprotect me k =
     with_int me 0 k (\<lambda>addr. with_int me 1 k (\<lambda>len.
       rbind (munprotect (pgdir (proc_at k me)) (psz (proc_at k me)) addr len (kmem_of k)) (\<lambda>(ok, m).
         Inr (if ok then Ret 0 else minus1, set_km m k))))"

definition sys_clone :: "ksyms \<Rightarrow> nat \<Rightarrow> 'd kernel \<Rightarrow> (sysres \<times> 'd kernel) res" where
  "sys_clone sy me k =
     with_int me 0 k (\<lambda>fcn. with_int me 1 k (\<lambda>arg1. with_int me 2 k (\<lambda>arg2. with_int me 3 k (\<lambda>stack.
       rbind (clone sy me fcn arg1 arg2 stack k) (\<lambda>(r, k1). Inr (Ret (of_int r), k1))))))"

definition sys_join :: "ksyms \<Rightarrow> nat \<Rightarrow> 'd kernel \<Rightarrow> (sysres \<times> 'd kernel) res" where
  "sys_join sy me k = with_int me 0 k (\<lambda>stack. rbind (join sy me k) wait_res)"

section \<open>Dispatch\<close>

definition syscalls :: "ksyms \<Rightarrow> 'd devsw list \<Rightarrow> (nat \<Rightarrow> 'd kernel \<Rightarrow> (sysres \<times> 'd kernel) res) option list" where
  "syscalls sy devsw =
     [None, Some (sys_fork sy), Some (sys_exit sy), Some (sys_wait sy), Some (sys_pipe sy), Some (sys_read devsw),
      Some sys_kill, Some (sys_exec sy devsw), Some sys_fstat, Some (sys_chdir devsw), Some sys_dup, Some sys_getpid,
      Some (sys_sbrk sy), Some sys_sleep, Some sys_uptime, Some (sys_open sy devsw), Some (sys_write devsw),
      Some (sys_mknod devsw), Some (sys_unlink devsw), Some (sys_link devsw), Some (sys_mkdir devsw),
      Some (sys_close sy), Some sys_getreadcount, Some sys_settickets, Some sys_getpinfo, Some sys_mprotect,
      Some sys_munprotect, Some (sys_clone sy), Some (sys_join sy)]"

text \<open>A call that sleeps leaves \<^verbatim>\<open>%eax\<close> alone until it returns; \<open>None\<close> says that the call has returned.\<close>

definition set_eax :: "nat \<Rightarrow> u32 \<Rightarrow> 'd kernel \<Rightarrow> 'd kernel" where
  "set_eax me v k = kstore32 (ptf (proc_at k me) + TF_EAX) v k"

definition syscall :: "ksyms \<Rightarrow> 'd devsw list \<Rightarrow> nat \<Rightarrow> 'd kernel \<Rightarrow> (sysres option \<times> 'd kernel) res" where
  "syscall sy devsw me k =
     (let num = sint (kload32 (ptf (proc_at k me) + TF_EAX) k) in
      if 0 < num \<and> num < int (length (syscalls sy devsw :: (nat \<Rightarrow> 'd kernel \<Rightarrow> (sysres \<times> 'd kernel) res) option list))
      then case syscalls sy devsw ! nat num of
        Some f \<Rightarrow>
          rbind (f me k) (\<lambda>(r, k1). case r of Ret v \<Rightarrow> Inr (None, set_eax me v k1) | w \<Rightarrow> Inr (Some w, k1))
      | None \<Rightarrow> Inr (None, set_eax me 0xFFFFFFFF k)
      else Inr (None, set_eax me 0xFFFFFFFF k))"

section \<open>Traps\<close>

abbreviation T_SYSCALL :: u32 where "T_SYSCALL \<equiv> 64"
abbreviation T_IRQ0 :: u32 where "T_IRQ0 \<equiv> 32"
abbreviation IRQ_TIMER :: u32 where "IRQ_TIMER \<equiv> 0"
abbreviation IRQ_KBD :: u32 where "IRQ_KBD \<equiv> 1"
abbreviation IRQ_COM1 :: u32 where "IRQ_COM1 \<equiv> 4"
abbreviation IRQ_IDE :: u32 where "IRQ_IDE \<equiv> 14"
abbreviation IRQ_SPURIOUS :: u32 where "IRQ_SPURIOUS \<equiv> 31"
abbreviation DPL_USER :: u32 where "DPL_USER \<equiv> 3"

text \<open>How the handler leaves: back to what was interrupted, into a wait of the system call, or to the scheduler
  after \<^verbatim>\<open>exit\<close> or \<^verbatim>\<open>yield\<close>.\<close>

datatype trapout = TrapRet | TrapWaits sysres | TrapExits | TrapYields

definition trap_exit :: "ksyms \<Rightarrow> nat \<Rightarrow> 'd kernel \<Rightarrow> (trapout \<times> 'd kernel) res" where
  "trap_exit sy me k = rbind (exit sy me k) (\<lambda>k1. Inr (TrapExits, k1))"

definition trap_syscall :: "ksyms \<Rightarrow> 'd devsw list \<Rightarrow> nat \<Rightarrow> u32 \<Rightarrow> 'd kernel \<Rightarrow> (trapout \<times> 'd kernel) res" where
  "trap_syscall sy devsw me tf k =
     (if killed (proc_at k me) then trap_exit sy me k
      else rbind (syscall sy devsw me (upd_proc me (\<lambda>p. p\<lparr>ptf := tf\<rparr>) k)) (\<lambda>(w, k1).
        case w of
          Some s \<Rightarrow> Inr (TrapWaits s, k1)
        | None \<Rightarrow>
            if pstate (proc_at k1 me) = ZOMBIE then Inr (TrapExits, k1)
            else if killed (proc_at k1 me) then trap_exit sy me k1
            else Inr (TrapRet, k1)))"

text \<open>The body of the \<^verbatim>\<open>switch\<close>: \<open>cpu\<close> is the number of the processor, \<open>csel\<close> the low bits of the code segment.\<close>

definition trap_irq :: "('d kernel \<Rightarrow> 'd kernel) \<Rightarrow> ('d kernel \<Rightarrow> 'd kernel) \<Rightarrow> nat \<Rightarrow> nat option \<Rightarrow> u32 \<Rightarrow> u32 \<Rightarrow> 'd kernel \<Rightarrow> 'd kernel res" where
  "trap_irq kbdintr uartintr cpu me trapno csel k =
     (if trapno = T_IRQ0 + IRQ_TIMER
      then Inr (if cpu = 0 then wakeup ChTicks (k\<lparr>ticks := ticks k + 1\<rparr>) else k)
      else if trapno = T_IRQ0 + IRQ_IDE \<or> trapno = T_IRQ0 + IRQ_IDE + 1 then Inr k
      else if trapno = T_IRQ0 + IRQ_KBD then Inr (kbdintr k)
      else if trapno = T_IRQ0 + IRQ_COM1 then Inr (uartintr k)
      else if trapno = T_IRQ0 + 7 \<or> trapno = T_IRQ0 + IRQ_SPURIOUS then Inr k
      else case me of
        None \<Rightarrow> Inl (Panic ''trap'')
      | Some p \<Rightarrow> if csel AND 3 = 0 then Inl (Panic ''trap'') else Inr (upd_proc p (\<lambda>x. x\<lparr>killed := True\<rparr>) k))"

text \<open>After \<^verbatim>\<open>yield\<close> the process is back only when the scheduler picks it again; \<open>trap_resume\<close> is what follows then.\<close>

definition trap :: "ksyms \<Rightarrow> 'd devsw list \<Rightarrow> ('d kernel \<Rightarrow> 'd kernel) \<Rightarrow> ('d kernel \<Rightarrow> 'd kernel) \<Rightarrow> nat \<Rightarrow> nat option \<Rightarrow> u32 \<Rightarrow> 'd kernel
    \<Rightarrow> (trapout \<times> 'd kernel) res" where
  "trap sy devsw kbdintr uartintr cpu me tf k =
     (let trapno = kload32 (tf + TF_TRAPNO) k; csel = kload32 (tf + TF_CS) k in
      if trapno = T_SYSCALL
      then case me of None \<Rightarrow> Inl (Fault ''null proc'') | Some p \<Rightarrow> trap_syscall sy devsw p tf k
      else rbind (trap_irq kbdintr uartintr cpu me trapno csel k) (\<lambda>k1.
        case me of
          None \<Rightarrow> Inr (TrapRet, k1)
        | Some p \<Rightarrow>
            if killed (proc_at k1 p) \<and> csel AND 3 = DPL_USER then trap_exit sy p k1
            else if pstate (proc_at k1 p) = RUNNING \<and> trapno = T_IRQ0 + IRQ_TIMER then Inr (TrapYields, yield p k1)
            else Inr (TrapRet, k1)))"

definition trap_resume :: "ksyms \<Rightarrow> nat \<Rightarrow> u32 \<Rightarrow> 'd kernel \<Rightarrow> (trapout \<times> 'd kernel) res" where
  "trap_resume sy me tf k =
     (if killed (proc_at k me) \<and> kload32 (tf + TF_CS) k AND 3 = DPL_USER then trap_exit sy me k
      else Inr (TrapRet, k))"

end
