(* ===== verification/Sched.thy ===== *)
theory Sched
  imports Proc
begin

text \<open>
  Properties of the process table and of the lottery scheduler. \<open>total ps\<close> is the number of tickets of the
  runnable processes of a table, \<open>upto ps j\<close> that of the first \<open>j\<close> slots.
\<close>

section \<open>The lottery\<close>

definition tk :: "proc \<Rightarrow> nat" where
  "tk p = (if pstate p = RUNNABLE then unat (tickets p) else 0)"

definition total :: "proc list \<Rightarrow> nat" where
  "total ps = sum_list (map tk ps)"

lemma total_simps [simp]: "total [] = 0" "total (p # ps) = tk p + total ps"
  by (simp_all add: total_def)

lemma sint_of_nat_u32: "n < 2 ^ 31 \<Longrightarrow> sint (of_nat n :: u32) = int n"
proof -
  assume n: "n < 2 ^ 31"
  then have "uint (of_nat n :: u32) = int n" using unat_of_nat_u32[of n] by (simp add: uint_int_unat del: unsigned_of_nat)
  then show ?thesis using n by (simp add: sint_u32)
qed

lemma count_tickets_total: "count_tickets c ps = c + of_nat (total ps)"
  by (induction ps arbitrary: c) (simp_all add: tk_def)

text \<open>For a draw above the running count, the winner is the process whose tickets the draw falls into.\<close>

lemma pick_interval:
  assumes "C + total ps < 2 ^ 31" "int C < r"
  shows "pick r (of_nat C) i ps = Some w \<longleftrightarrow>
    (\<exists>j < length ps. w = i + j \<and> int (C + total (take j ps)) < r \<and> r \<le> int (C + total (take (Suc j) ps)))"
  using assms
proof (induction ps arbitrary: C i)
  case (Cons p ps)
  have ex: "(\<exists>j < length (p # ps). Q j) \<longleftrightarrow> Q 0 \<or> (\<exists>j < length ps. Q (Suc j))" for Q by (auto simp: less_Suc_eq_0_disj)
  have le: "C + tk p < 2 ^ 31" using Cons.prems(1) by simp
  show ?case
  proof (cases "pstate p = RUNNABLE")
    case False
    then have "tk p = 0" by (simp add: tk_def)
    then show ?thesis using Cons.IH[of C "Suc i"] Cons.prems False unfolding ex by auto
  next
    case True
    then have t: "of_nat C + tickets p = (of_nat (C + tk p) :: u32)" by (simp add: tk_def)
    have s: "sint (of_nat C + tickets p) = int (C + tk p)" unfolding t by (rule sint_of_nat_u32[OF le])
    show ?thesis
    proof (cases "r \<le> int (C + tk p)")
      case True
      then show ?thesis using \<open>pstate p = RUNNABLE\<close> Cons.prems(2) unfolding ex by (auto simp: s)
    next
      case False
      have "pick r (of_nat C) i (p # ps) = pick r (of_nat (C + tk p)) (Suc i) ps"
        using False \<open>pstate p = RUNNABLE\<close> s by (simp add: t)
      then show ?thesis using Cons.IH[of "C + tk p" "Suc i"] Cons.prems False unfolding ex by (auto simp: algebra_simps)
    qed
  qed
qed simp

lemma pick_zero:
  assumes "total ps < 2 ^ 31"
  shows "pick 0 0 i ps = map_option ((+) i) (find_index (\<lambda>p. pstate p = RUNNABLE) ps)"
  using assms
proof (induction ps arbitrary: i)
  case (Cons p ps)
  show ?case
  proof (cases "pstate p = RUNNABLE")
    case True
    then have "tickets p = of_nat (tk p)" "tk p < 2 ^ 31" using Cons.prems by (simp_all add: tk_def)
    then have "0 \<le> sint (tickets p)" using sint_of_nat_u32[of "tk p"] by simp
    then show ?thesis using True by simp
  next
    case False
    then show ?thesis using Cons by (cases "find_index (\<lambda>p. pstate p = RUNNABLE) ps") simp_all
  qed
qed simp

lemma card_int_interval: "a \<le> b \<Longrightarrow> card {r. int a < r \<and> r \<le> int b} = b - a"
proof -
  have "{r. int a < r \<and> r \<le> int b} = {int a <.. int b}" by auto
  then show "a \<le> b \<Longrightarrow> card {r. int a < r \<and> r \<le> int b} = b - a" by simp
qed

lemma total_take_mono: "total (take j ps) \<le> total (take (Suc j) ps)" "total (take j ps) \<le> total ps"
proof -
  show "total (take j ps) \<le> total (take (Suc j) ps)"
    by (cases "j < length ps") (simp_all add: take_Suc_conv_app_nth total_def)
  have "total (take j ps) + total (drop j ps) = total ps"
    by (metis append_take_drop_id map_append sum_list_append total_def)
  then show "total (take j ps) \<le> total ps" by simp
qed


definition blank_proc :: proc where
  "blank_proc = \<lparr>psz = 0, pgdir = 0, kstack = 0, pstate = UNUSED, ppid = 0, parent = None, ptf = 0, pcontext = 0, chan = None,
     killed = False, ofile = replicate NOFILE None, cwd = None, pname = replicate 16 0, inuse = 0, tickets = 0, pticks = 0\<rparr>"

abbreviation demo_proc :: "u32 \<Rightarrow> u32 \<Rightarrow> proc" where
  "demo_proc pid t \<equiv> blank_proc\<lparr>pstate := RUNNABLE, ppid := pid, tickets := t, kstack := 0x80401000, pgdir := 0x80402000\<rparr>"

text \<open>The draw and the seed stay in range.\<close>

lemma smod_pos: "0 \<le> a \<Longrightarrow> 0 < b \<Longrightarrow> a smod b = a mod (b :: int)"
  by (simp add: signed_modulo_int_def sgn_if)

definition seed_ok :: "u32 \<Rightarrow> bool" where
  "seed_ok s \<longleftrightarrow> unat s < 134456"

lemma next_seed_ok: "seed_ok s \<Longrightarrow> seed_ok (next_seed s)"
proof -
  assume "seed_ok s"
  then have s: "unat s < 134456" by (simp add: seed_ok_def)
  have e: "8121 * s + 28411 = of_nat (8121 * unat s + 28411)" by simp
  have "sint (8121 * s + 28411) = int (8121 * unat s + 28411)" unfolding e using s by (intro sint_of_nat_u32) simp
  then have "sint (8121 * s + 28411) smod 134456 = int ((8121 * unat s + 28411) mod 134456)"
    by (simp add: smod_pos zmod_int)
  then have "next_seed s = of_nat ((8121 * unat s + 28411) mod 134456)" by (simp add: next_seed_def)
  then show ?thesis using unat_of_nat_u32[of "(8121 * unat s + 28411) mod 134456"] by (simp add: seed_ok_def del: unsigned_of_nat)
qed

lemma draw_range:
  assumes "seed_ok s" "n < 2 ^ 31 - 1"
  obtains r where "draw s (of_nat n) = Inr r" "0 \<le> r" "r \<le> int n"
proof (cases "n = 0")
  case False
  have s: "sint s = int (unat s)" using assms(1) sint_of_nat_u32[of "unat s"] by (simp add: seed_ok_def)
  have u1: "unat (of_nat n :: u32) = n" by (rule unat_of_nat_u32) (use assms(2) in simp)
  have u2: "unat (of_nat (Suc n) :: u32) = Suc n" by (rule unat_of_nat_u32) (use assms(2) in simp)
  have ne: "(of_nat n :: u32) \<noteq> 0" using u1 False by (metis unat_0)
  have "(of_nat (Suc n) :: u32) \<noteq> 0" using u2 by (metis Zero_not_Suc unat_0)
  then have ne': "(of_nat n :: u32) + 1 \<noteq> 0" by (simp add: add.commute)
  have "sint (of_nat n + 1 :: u32) = int (Suc n)" using sint_of_nat_u32[of "Suc n"] assms(2) by (simp add: add.commute)
  then have "draw s (of_nat n) = Inr (int (unat s) mod int (Suc n))" using ne ne' s by (simp add: draw_def smod_pos)
  moreover have "int (unat s) mod int (Suc n) < int (Suc n)" by (rule pos_mod_bound) simp
  moreover have "0 \<le> int (unat s) mod int (Suc n)" by (rule pos_mod_sign) simp
  ultimately show ?thesis using that[of "int (unat s) mod int (Suc n)"] by linarith
qed (simp add: draw_def that)

lemma pick_runnable:
  assumes "total ps < 2 ^ 31" "0 \<le> r" "r \<le> int (total ps)" "\<exists>p \<in> set ps. pstate p = RUNNABLE"
  obtains i where "pick r 0 0 ps = Some i" "i < length ps" "pstate (ps ! i) = RUNNABLE"
proof (cases "r = 0")
  case True
  obtain i where i: "find_index (\<lambda>p. pstate p = RUNNABLE) ps = Some i"
    using assms(4) by (cases "find_index (\<lambda>p. pstate p = RUNNABLE) ps") (auto simp: find_index_None)
  then show ?thesis using pick_zero[OF assms(1), of 0] True find_index_SomeD[OF i] that by simp
next
  case False
  have "\<exists>i. pick r (of_nat C) k ps = Some (k + i) \<and> i < length ps \<and> pstate (ps ! i) = RUNNABLE"
    if "C + total ps < 2 ^ 31" "int C < r" "r \<le> int (C + total ps)" for C k
    using that
  proof (induction ps arbitrary: C k)
    case (Cons p ps)
    show ?case
    proof (cases "pstate p = RUNNABLE")
      case False
      then have "tk p = 0" by (simp add: tk_def)
      then show ?thesis using Cons.IH[of C "Suc k"] Cons.prems False by fastforce
    next
      case True
      have t: "of_nat C + tickets p = (of_nat (C + tk p) :: u32)" using True by (simp add: tk_def)
      have s: "sint (of_nat C + tickets p) = int (C + tk p)" unfolding t using Cons.prems(1) by (intro sint_of_nat_u32) simp
      show ?thesis
      proof (cases "r \<le> int (C + tk p)")
        case False
        then have "pick r (of_nat C) k (p # ps) = pick r (of_nat (C + tk p)) (Suc k) ps" using True s by (simp add: t)
        then show ?thesis using Cons.IH[of "C + tk p" "Suc k"] Cons.prems False by fastforce
      qed (use True s in auto)
    qed
  qed simp
  from this[of 0 0] show ?thesis using assms False that by auto
qed

text \<open>C25. The scheduler makes progress: if some process is runnable and the tickets fit an \<^verbatim>\<open>int\<close>, a round of the
  scheduler starts a runnable process, charges it one tick and leaves every other process alone, and the
  random seed stays in the range from which the next round can draw.\<close>

theorem scheduler_runs_a_runnable:
  assumes "seed_ok (seed k)" "total (ptable k) < 2 ^ 31 - 1" "\<exists>p \<in> set (ptable k). pstate p = RUNNABLE"
    "\<forall>p \<in> set (ptable k). pstate p = RUNNABLE \<longrightarrow> kstack p \<noteq> 0 \<and> pgdir p \<noteq> 0"
  shows "\<exists>i k'. scheduler k = Inr (Some i, k') \<and> i < length (ptable k) \<and> pstate (ptable k ! i) = RUNNABLE \<and>
    ptable k' = (ptable k)[i := (ptable k ! i)\<lparr>pstate := RUNNING, pticks := pticks (ptable k ! i) + 1\<rparr>] \<and> seed_ok (seed k')"
proof -
  let ?ps = "ptable k"
  obtain r where r: "draw (next_seed (seed k)) (of_nat (total ?ps)) = Inr r" "0 \<le> r" "r \<le> int (total ?ps)"
    using draw_range[OF next_seed_ok[OF assms(1)] assms(2)] by blast
  obtain i where i: "pick r 0 0 ?ps = Some i" "i < length ?ps" "pstate (?ps ! i) = RUNNABLE"
    using pick_runnable[OF _ r(2,3) assms(3)] assms(2) by auto
  have "switchuvm (?ps ! i) = Inr ()" using assms(4) i nth_mem[OF i(2)] by (simp add: switchuvm_def)
  then have "scheduler k = Inr (Some i, upd_proc i (\<lambda>p. p\<lparr>pstate := RUNNING, pticks := pticks p + 1\<rparr>) (k\<lparr>seed := next_seed (seed k)\<rparr>))"
    using r(1) i(1) by (simp add: scheduler_def count_tickets_total Let_def)
  then show ?thesis using i next_seed_ok[OF assms(1)] by (simp add: upd_proc_def)
qed
definition demo_kernel :: "proc list \<Rightarrow> unit kernel" where
  "demo_kernel ps = \<lparr>kf = \<lparr>fsx = \<lparr>fy = demo_fsys, sbk = decode_sb (demo_disk 1 1), icache = [], devs = ()\<rparr>,
       ftable = [], pipes = (\<lambda>_. \<lparr>pdata = replicate 512 0, nread = 0, nwrite = 0, readopen = False, writeopen = False\<rparr>),
       km = \<lparr>mem = (\<lambda>_. 0), use_lock = True, freelist = 0x80500000\<rparr>, woken = []\<rparr>,
     ptable = ps, seed = 1234, nextpid = 7, initproc = Some 0, ticks = 0, readcount = 0\<rparr>"

theorem scheduler_runs_a_runnable_witness:
  "\<exists>i k'. scheduler (demo_kernel [blank_proc, demo_proc 2 5]) = Inr (Some i, k') \<and> i < length (ptable (demo_kernel [blank_proc, demo_proc 2 5])) \<and>
    pstate (ptable (demo_kernel [blank_proc, demo_proc 2 5]) ! i) = RUNNABLE \<and>
    ptable k' = (ptable (demo_kernel [blank_proc, demo_proc 2 5]))[i := (ptable (demo_kernel [blank_proc, demo_proc 2 5]) ! i)
      \<lparr>pstate := RUNNING, pticks := pticks (ptable (demo_kernel [blank_proc, demo_proc 2 5]) ! i) + 1\<rparr>] \<and> seed_ok (seed k')"
  by (rule scheduler_runs_a_runnable) (simp_all add: demo_kernel_def seed_ok_def tk_def blank_proc_def)

text \<open>C37. The sum of the tickets is an \<^verbatim>\<open>int\<close> and \<^verbatim>\<open>settickets\<close> accepts any number from 0 to 2147483647. When the
  tickets of the runnable processes add up to 4294967295, for example 2147483647, 2147483647 and 1, the scheduler
  divides by zero.\<close>

theorem scheduler_divide_error:
  assumes "total (ptable k) mod 2 ^ 32 = 2 ^ 32 - 1"
  shows "scheduler k = Inl (Fault ''divide error'')"
proof -
  have "unat (of_nat (total (ptable k)) :: u32) = unat (- 1 :: u32)"
    using assms by (simp add: unat_of_nat take_bit_eq_mod)
  then have "(of_nat (total (ptable k)) :: u32) = - 1" by (rule unsigned_word_eqI)
  then have "count_tickets 0 (ptable k) = - 1" by (simp add: count_tickets_total)
  then show ?thesis by (simp add: scheduler_def draw_def Let_def)
qed

theorem scheduler_divide_error_witness:
  "scheduler (demo_kernel [demo_proc 1 0x7FFFFFFF, demo_proc 2 0x7FFFFFFF, demo_proc 3 1]) = Inl (Fault ''divide error'')"
  by (rule scheduler_divide_error) (simp add: demo_kernel_def tk_def blank_proc_def)

section \<open>Killing\<close>

text \<open>C38. \<^verbatim>\<open>kill(0)\<close> succeeds: it finds a free slot of the table, whose process id is 0, and marks it as killed. Nothing
  clears the mark, so the next process that is created in the slot is born killed.\<close>

theorem kill_zero_dooms_next_process:
  assumes "i < length (ptable k)" "pstate (ptable k ! i) = UNUSED" "ppid (ptable k ! i) = 0"
    "\<forall>j < i. pstate (ptable k ! j) \<noteq> UNUSED \<and> ppid (ptable k ! j) \<noteq> 0" "freelist (kmem_of k) \<noteq> 0"
  shows "\<exists>k1 k2. kill 0 k = (0, k1) \<and> allocproc sy k1 = (Some i, k2) \<and>
    killed (proc_at k2 i) \<and> pstate (proc_at k2 i) = EMBRYO \<and> ppid (proc_at k2 i) = nextpid k"
proof -
  have f0: "find_index (\<lambda>p. ppid p = 0) (ptable k) = Some i" using assms by (auto simp: find_index_Some_iff)
  define k1 where "k1 = upd_proc i (\<lambda>p. p\<lparr>killed := True, pstate := UNUSED\<rparr>) k"
  have 1: "kill 0 k = (0, k1)" using f0 assms(2) by (simp add: kill_def k1_def upd_proc_def)
  have pt: "ptable k1 = (ptable k)[i := (ptable k ! i)\<lparr>killed := True, pstate := UNUSED\<rparr>]" by (simp add: k1_def upd_proc_def)
  have "find_index (\<lambda>p. pstate p = UNUSED) (ptable k1) = Some i" using assms(1,2,4) by (auto simp: find_index_Some_iff pt)
  moreover have "fst (kalloc (kmem_of k1)) \<noteq> 0" using assms(5) by (simp add: kalloc_def k1_def upd_proc_def Let_def)
  ultimately have "\<exists>k2. allocproc sy k1 = (Some i, k2) \<and> killed (proc_at k2 i) \<and> pstate (proc_at k2 i) = EMBRYO \<and> ppid (proc_at k2 i) = nextpid k"
    using assms(1) by (simp add: allocproc_def Let_def upd_proc_def set_km_def kstore32_def pt case_prod_beta) (simp add: k1_def upd_proc_def)
  with 1 show ?thesis by blast
qed

definition demo_syms :: ksyms where
  "demo_syms = \<lparr>kend = 0x80400000, kdata = 0x80108000, trapret = 0x80105000, forkret = 0x80104000\<rparr>"

theorem kill_zero_dooms_next_process_witness:
  "\<exists>k1 k2. kill 0 (demo_kernel [demo_proc 1 1, blank_proc]) = (0, k1) \<and> allocproc demo_syms k1 = (Some 1, k2) \<and>
    killed (proc_at k2 1) \<and> pstate (proc_at k2 1) = EMBRYO \<and> ppid (proc_at k2 1) = nextpid (demo_kernel [demo_proc 1 1, blank_proc])"
  by (rule kill_zero_dooms_next_process) (simp_all add: demo_kernel_def blank_proc_def)

end
