(* ===== verification/Ptable.thy ===== *)
theory Ptable
  imports Sched
begin

text \<open>
  The process table as a state machine: every routine of \<^verbatim>\<open>src/src/proc.c\<close> that changes it is a step of \<open>kstep\<close>, and the
  steps keep the invariant that live processes have different process ids and that slot 0 belongs to the
  initial process for ever. \<open>tab\<close> is the part of the table that the invariant speaks about.
\<close>

section \<open>What the routines do to the table\<close>

definition ids :: "proc \<Rightarrow> procstate \<times> u32 \<times> nat option" where
  "ids p = (pstate p, ppid p, parent p)"

definition tab :: "'d kernel \<Rightarrow> (procstate \<times> u32 \<times> nat option) list" where
  "tab k = map ids (ptable k)"

named_theorems tab_simps \<open>effect on the table\<close>

lemma tab_upd_proc [tab_simps]: "tab (upd_proc i f k) = (tab k)[i := ids (f (ptable k ! i))]"
  by (simp add: tab_def upd_proc_def map_update)

lemma tab_upd_same: "ids (f (ptable k ! i)) = ids (ptable k ! i) \<Longrightarrow> tab (upd_proc i f k) = tab k"
proof -
  assume "ids (f (ptable k ! i)) = ids (ptable k ! i)"
  then have "(tab k)[i := ids (f (ptable k ! i))] = tab k"
    by (cases "i < length (ptable k)") (simp_all add: tab_def list_update_same_conv list_update_beyond)
  then show ?thesis by (simp add: tab_upd_proc)
qed

lemma tab_fields [tab_simps]:
  "tab (set_km m k) = tab k" "tab (k\<lparr>kf := x\<rparr>) = tab k" "tab (kstore32 a v k) = tab k" "tab (copy_tf me np k) = tab k"
  "tab (k\<lparr>seed := s\<rparr>) = tab k" "tab (k\<lparr>nextpid := n\<rparr>) = tab k" "tab (k\<lparr>ticks := t\<rparr>) = tab k"
  by (simp_all add: tab_def set_km_def kstore32_def copy_tf_def Let_def)

lemma other_fields [tab_simps]:
  "nextpid (upd_proc i f k) = nextpid k" "initproc (upd_proc i f k) = initproc k"
  "nextpid (set_km m k) = nextpid k" "initproc (set_km m k) = initproc k"
  "nextpid (kstore32 a v k) = nextpid k" "initproc (kstore32 a v k) = initproc k"
  "nextpid (copy_tf me np k) = nextpid k" "initproc (copy_tf me np k) = initproc k"
  "ptable (set_km m k) = ptable k" "ptable (kstore32 a v k) = ptable k" "ptable (copy_tf me np k) = ptable k"
  by (simp_all add: upd_proc_def set_km_def kstore32_def copy_tf_def Let_def)

text \<open>\<open>same k k'\<close>: nothing that the invariant speaks about has changed.\<close>

definition same :: "'d kernel \<Rightarrow> 'd kernel \<Rightarrow> bool" where
  "same k k' \<longleftrightarrow> tab k' = tab k \<and> nextpid k' = nextpid k \<and> initproc k' = initproc k"

lemma same_refl [simp]: "same k k" and same_trans: "same a b \<Longrightarrow> same b c \<Longrightarrow> same a c"
  by (simp_all add: same_def)

lemma same_upd: "ids (f (ptable k ! i)) = ids (ptable k ! i) \<Longrightarrow> same k (upd_proc i f k)"
  by (simp add: same_def tab_upd_same other_fields)

lemma same_fields: "same k (set_km m k)" "same k (k\<lparr>kf := x\<rparr>)" "same k (kstore32 a v k)" "same k (copy_tf me np k)"
  by (simp_all add: same_def tab_fields other_fields)

lemma dup_files_same: "dup_files me np is k = Inr k' \<Longrightarrow> same k k'"
proof (induction "is" arbitrary: k)
  case (Cons i "is")
  show ?case
  proof (cases "ofile (proc_at k me) ! i")
    case None
    then show ?thesis using Cons by simp
  next
    case (Some f)
    then obtain x where x: "filedup f (kf k) = Inr x"
      "dup_files me np is (upd_proc np (\<lambda>p. p\<lparr>ofile := (ofile p)[i := Some f]\<rparr>) (k\<lparr>kf := x\<rparr>)) = Inr k'"
      using Cons.prems by (auto simp: res_simps)
    show ?thesis
      by (rule same_trans[OF same_fields(2) same_trans[OF same_upd Cons.IH[OF x(2)]]]) (simp add: ids_def)
  qed
qed simp

lemma inherit_same: "inherit me np k = Inr k' \<Longrightarrow> same k k'"
proof -
  assume "inherit me np k = Inr k'"
  then obtain k1 where k1: "dup_files me np [0..<NOFILE] k = Inr k1"
    and k': "(case cwd (proc_at k1 me) of None \<Rightarrow> Inl (Fault ''idup: null inode'')
       | Some ip \<Rightarrow> let k2 = k1\<lparr>kf := (kf k1)\<lparr>fsx := idup ip (fsx (kf k1))\<rparr>\<rparr>; k3 = upd_proc np (\<lambda>p. p\<lparr>cwd := Some ip\<rparr>) k2 in
           Inr (upd_proc np (\<lambda>p. p\<lparr>pname := copy_name (pname (proc_at k3 me)) (pname p)\<rparr>) k3)) = Inr k'"
    unfolding inherit_def by (auto simp: rbind_eq_Inr)
  from k' obtain ip where "k' = (let k2 = k1\<lparr>kf := (kf k1)\<lparr>fsx := idup ip (fsx (kf k1))\<rparr>\<rparr>; k3 = upd_proc np (\<lambda>p. p\<lparr>cwd := Some ip\<rparr>) k2 in
           upd_proc np (\<lambda>p. p\<lparr>pname := copy_name (pname (proc_at k3 me)) (pname p)\<rparr>) k3)"
    by (cases "cwd (proc_at k1 me)") (auto simp: Let_def)
  then have "same k1 k'" unfolding Let_def
    by (auto intro!: same_trans[OF same_fields(2) same_trans[OF same_upd same_upd]] simp: ids_def)
  with dup_files_same[OF k1] show ?thesis by (rule same_trans)
qed

text \<open>A new process in slot \<open>p\<close>: \<open>st\<close> is the state it is left in.\<close>

definition created :: "nat \<Rightarrow> procstate \<Rightarrow> nat option \<Rightarrow> 'd kernel \<Rightarrow> 'd kernel \<Rightarrow> bool" where
  "created p st par k k' \<longleftrightarrow> p < length (ptable k) \<and> pstate (ptable k ! p) = UNUSED \<and>
     tab k' = (tab k)[p := (st, nextpid k, par)] \<and> nextpid k' = nextpid k + 1 \<and> initproc k' = initproc k"

lemma allocproc_created:
  assumes "allocproc sy k = (r, k')"
  shows "case r of Some p \<Rightarrow> created p EMBRYO (parent (ptable k ! p)) k k'
    | None \<Rightarrow> k' = k \<or> (\<exists>p. created p UNUSED (parent (ptable k ! p)) k k')"
proof (cases "find_index (\<lambda>p. pstate p = UNUSED) (ptable k)")
  case None
  then show ?thesis using assms by (auto simp: allocproc_def)
next
  case (Some p)
  note p = find_index_SomeD[OF Some]
  show ?thesis
  proof (cases "fst (kalloc (kmem_of k)) = 0")
    case True
    then have "r = None" "created p UNUSED (parent (ptable k ! p)) k k'"
      using assms Some p
      by (auto simp: allocproc_def Let_def case_prod_beta created_def ids_def tab_def upd_proc_def set_km_def map_update)
    then show ?thesis by auto
  next
    case False
    then have "r = Some p" "created p EMBRYO (parent (ptable k ! p)) k k'"
      using assms Some p
      by (auto simp: allocproc_def Let_def case_prod_beta created_def ids_def tab_def upd_proc_def set_km_def kstore32_def map_update)
    then show ?thesis by simp
  qed
qed

lemma created_same: "created p st par k k' \<Longrightarrow> same k' k'' \<Longrightarrow> created p st par k k''"
  by (simp add: created_def same_def)

lemma created_upd:
  assumes "created p st par k k'" "ids (f (ptable k' ! p)) = (st', nextpid k, par')"
  shows "created p st' par' k (upd_proc p f k')"
  using assms by (simp add: created_def tab_simps)

lemma created_ids:
  assumes "created p st par k k'"
  shows "ids (ptable k' ! p) = (st, nextpid k, par)" "p < length (ptable k')"
proof -
  have t: "map ids (ptable k') = (map ids (ptable k))[p := (st, nextpid k, par)]" and p: "p < length (ptable k)"
    using assms by (simp_all add: created_def tab_def)
  then have "length (ptable k') = length (ptable k)" by (metis length_list_update length_map)
  then show l: "p < length (ptable k')" using p by simp
  have "ids (ptable k' ! p) = map ids (ptable k') ! p" using l by simp
  then show "ids (ptable k' ! p) = (st, nextpid k, par)" using t p by simp
qed

lemma child_ready:
  assumes "created np EMBRYO (Some me) k k3" "same k3 k4" "inherit me np k4 = Inr k5"
    "k' = upd_proc np (\<lambda>p. p\<lparr>pstate := RUNNABLE, tickets := t\<rparr>) k5"
  shows "created np RUNNABLE (Some me) k k'"
proof -
  have c5: "created np EMBRYO (Some me) k k5" using assms(1) same_trans[OF assms(2) inherit_same[OF assms(3)]] by (rule created_same)
  then show ?thesis unfolding assms(4) using created_ids(1)[OF c5] by (intro created_upd[OF c5]) (simp add: ids_def)
qed

text \<open>What \<^verbatim>\<open>fork\<close> and \<^verbatim>\<open>clone\<close> do to the table: nothing, or a new child, or a slot that was given back.\<close>

definition forked :: "nat \<Rightarrow> 'd kernel \<Rightarrow> 'd kernel \<Rightarrow> bool" where
  "forked me k k' \<longleftrightarrow> k' = k \<or> (\<exists>p st par. created p st par k k' \<and> (st = UNUSED \<or> par = Some me))"

lemma allocproc_None: "allocproc sy k = (None, k') \<Longrightarrow> forked me k k'"
  using allocproc_created[of sy k None k'] by (auto simp: forked_def)

lemma fork_created:
  assumes "fork sy me k = Inr (r, k')"
  shows "forked me k k'"
proof -
  obtain r0 k1 where a: "allocproc sy k = (r0, k1)" by fastforce
  show ?thesis
  proof (cases r0)
    case None
    then show ?thesis using assms a allocproc_None by (auto simp: fork_def)
  next
    case (Some np)
    note c1 = allocproc_created[OF a, unfolded Some option.case]
    obtain d m where dm: "copyuvm (kend sy) (kdata sy) (pgdir (proc_at k1 me)) (psz (proc_at k1 me)) (kmem_of k1) = Inr (d, m)"
      using assms a Some by (auto simp: fork_def rbind_eq_Inr)
    define k2 where "k2 = upd_proc np (\<lambda>p. p\<lparr>pgdir := d\<rparr>) (set_km m k1)"
    have "same k1 k2" unfolding k2_def by (rule same_trans[OF same_fields(1) same_upd]) (simp add: ids_def)
    then have c2: "created np EMBRYO (parent (ptable k ! np)) k k2" by (rule created_same[OF c1])
    note i2 = created_ids(1)[OF c2]
    show ?thesis
    proof (cases "d = 0")
      case True
      then obtain m2 where k': "k' = upd_proc np (\<lambda>p. p\<lparr>kstack := 0, pstate := UNUSED\<rparr>) (set_km m2 k2)"
        using assms a Some dm by (auto simp: fork_def rbind_eq_Inr Let_def k2_def)
      have "created np UNUSED (parent (ptable k ! np)) k k'" unfolding k'
        using i2 by (intro created_upd[OF created_same[OF c2 same_fields(1)]]) (simp add: ids_def tab_simps)
      then show ?thesis by (auto simp: forked_def)
    next
      case False
      let ?k3 = "upd_proc np (\<lambda>p. p\<lparr>psz := psz (proc_at k2 me), parent := Some me\<rparr>) k2"
      let ?k4 = "kstore32 (ptf (proc_at ?k3 np) + TF_EAX) 0 (copy_tf me np ?k3)"
      from False obtain k5 where k5: "inherit me np ?k4 = Inr k5"
        "k' = upd_proc np (\<lambda>p. p\<lparr>pstate := RUNNABLE, tickets := tickets (proc_at k5 me)\<rparr>) k5"
        using assms a Some dm by (auto simp: fork_def rbind_eq_Inr Let_def k2_def)
      have c3: "created np EMBRYO (Some me) k ?k3" using i2 by (intro created_upd[OF c2]) (simp add: ids_def)
      have "created np RUNNABLE (Some me) k k'"
        by (rule child_ready[OF c3 same_trans[OF same_fields(4) same_fields(3)] k5])
      then show ?thesis by (auto simp: forked_def)
    qed
  qed
qed

lemma clone_created:
  assumes "clone sy me fcn a1 a2 st k = Inr (r, k')"
  shows "forked me k k'"
proof -
  obtain r0 k1 where a: "allocproc sy k = (r0, k1)" by fastforce
  show ?thesis
  proof (cases r0)
    case None
    then show ?thesis using assms a allocproc_None by (auto simp: clone_def)
  next
    case (Some np)
    note c1 = allocproc_created[OF a, unfolded Some option.case]
    let ?cur = "proc_at k1 me"
    let ?k2 = "upd_proc np (\<lambda>p. p\<lparr>pgdir := pgdir ?cur, psz := psz ?cur, parent := Some me\<rparr>) k1"
    have c2: "created np EMBRYO (Some me) k ?k2" using created_ids(1)[OF c1] by (intro created_upd[OF c1]) (simp add: ids_def)
    obtain m t1 t2 t3 t4 v k9 where k9: "inherit me np (kstore32 t1 0 (kstore32 t2 fcn (kstore32 t3 v (kstore32 t4 v
        (set_km m (copy_tf me np ?k2)))))) = Inr k9"
      "k' = upd_proc np (\<lambda>p. p\<lparr>pstate := RUNNABLE, tickets := tickets (proc_at k9 me)\<rparr>) k9"
      using assms a Some by (auto simp: clone_def rbind_eq_Inr Let_def)
    have "created np RUNNABLE (Some me) k k'"
      by (rule child_ready[OF c2 _ k9]) (intro same_trans[OF _ same_fields(3)] same_trans[OF _ same_fields(1)] same_fields(4))
    then show ?thesis by (auto simp: forked_def)
  qed
qed
section \<open>Steps that create nothing\<close>

abbreviation st_of :: "'d kernel \<Rightarrow> nat \<Rightarrow> procstate" where "st_of k i \<equiv> fst (tab k ! i)"
abbreviation pid_of :: "'d kernel \<Rightarrow> nat \<Rightarrow> u32" where "pid_of k i \<equiv> fst (snd (tab k ! i))"
abbreviation par_of :: "'d kernel \<Rightarrow> nat \<Rightarrow> nat option" where "par_of k i \<equiv> snd (snd (tab k ! i))"

definition keeps :: "'d kernel \<Rightarrow> 'd kernel \<Rightarrow> bool" where
  "keeps k k' \<longleftrightarrow> length (tab k') = length (tab k) \<and> nextpid k' = nextpid k \<and> initproc k' = initproc k \<and>
     (\<forall>i < length (tab k). (st_of k' i = UNUSED \<longleftrightarrow> st_of k i = UNUSED) \<and> pid_of k' i = pid_of k i \<and>
        (par_of k i = None \<longrightarrow> par_of k' i = None) \<and> (i = 0 \<longrightarrow> st_of k' i = ZOMBIE \<longrightarrow> st_of k i = ZOMBIE))"

lemma keepsD:
  assumes "keeps k k'" "i < length (ptable k)"
  shows "pstate (ptable k' ! i) = UNUSED \<longleftrightarrow> pstate (ptable k ! i) = UNUSED" "length (ptable k') = length (ptable k)"
  using assms by (auto simp: keeps_def tab_def ids_def)

lemma ptable_upd: "ptable (upd_proc i f k) = (ptable k)[i := f (ptable k ! i)]"
  by (simp add: upd_proc_def)

lemma same_keeps: "same k k' \<Longrightarrow> keeps k k'"
  by (simp add: same_def keeps_def)

lemma keeps_refl [simp]: "keeps k k"
  by (simp add: keeps_def)

lemma keeps_trans: "keeps a b \<Longrightarrow> keeps b c \<Longrightarrow> keeps a c"
  unfolding keeps_def by simp

text \<open>Changing one slot without taking or freeing it, or touching its parent.\<close>

lemma keeps_upd:
  assumes "pstate (f (ptable k ! i)) = UNUSED \<longleftrightarrow> pstate (ptable k ! i) = UNUSED" "ppid (f (ptable k ! i)) = ppid (ptable k ! i)"
    "parent (f (ptable k ! i)) = parent (ptable k ! i)" "i = 0 \<longrightarrow> pstate (f (ptable k ! i)) = ZOMBIE \<longrightarrow> pstate (ptable k ! i) = ZOMBIE"
  shows "keeps k (upd_proc i f k)"
proof (cases "i < length (ptable k)")
  case True
  then show ?thesis using assms by (auto simp: keeps_def ptable_upd other_fields tab_def ids_def nth_list_update)
next
  case False
  then show ?thesis by (simp add: keeps_def ptable_upd other_fields tab_def list_update_beyond)
qed

lemma keeps_wakeup1: "keeps k (wakeup1 c k)"
  by (auto simp: keeps_def wakeup1_def tab_def ids_def)

lemma keeps_deliver: "keeps k (deliver k)"
proof -
  have "keeps k (fold (\<lambda>(p, c). wakeup (ChPipe p c)) ws k)" for ws
  proof (induction ws arbitrary: k)
    case (Cons w ws)
    obtain p c where "w = (p, c)" by fastforce
    then show ?case using keeps_trans[OF keeps_wakeup1 Cons.IH] by (simp add: wakeup_def)
  qed simp
  then show ?thesis unfolding deliver_def by (rule keeps_trans) (rule same_keeps[OF same_fields(2)])
qed

lemma close_files_same: "close_files sy me fds k = Inr k' \<Longrightarrow> same k k'"
proof (induction fds arbitrary: k)
  case (Cons fd fds)
  show ?case
  proof (cases "ofile (proc_at k me) ! fd")
    case None
    then show ?thesis using Cons by simp
  next
    case (Some f)
    then obtain x where x: "close_files sy me fds (upd_proc me (\<lambda>p. p\<lparr>ofile := (ofile p)[fd := None]\<rparr>) (k\<lparr>kf := x\<rparr>)) = Inr k'"
      using Cons.prems by (auto simp: res_simps)
    show ?thesis by (rule same_trans[OF same_fields(2) same_trans[OF same_upd Cons.IH[OF x]]]) (simp add: ids_def)
  qed
qed simp

lemma keeps_parent:
  assumes "parent (ptable k ! i) \<noteq> None"
  shows "keeps k (upd_proc i (\<lambda>x. x\<lparr>parent := q\<rparr>) k)"
  using assms by (cases "i < length (ptable k)")
    (auto simp: keeps_def ptable_upd other_fields tab_def ids_def nth_list_update list_update_beyond)

lemma keeps_reparent: "keeps k (reparent me ps k)"
proof (induction ps arbitrary: k)
  case (Cons p ps)
  show ?case
  proof (cases "parent (proc_at k p) = Some me")
    case True
    let ?k1 = "upd_proc p (\<lambda>x. x\<lparr>parent := initproc k\<rparr>) k"
    have 1: "keeps k ?k1" using True by (intro keeps_parent) simp
    show ?thesis using True keeps_trans[OF 1 Cons.IH] keeps_trans[OF keeps_trans[OF 1 keeps_wakeup1] Cons.IH]
      by (simp add: Let_def)
  qed (simp add: Cons)
qed simp

lemma keeps_exit:
  assumes "exit sy me k = Inr k'" "pstate (ptable k ! me) \<noteq> UNUSED" "me < length (ptable k)" "initproc k = Some 0"
  shows "keeps k k'"
proof -
  obtain k1 ip f where k1: "close_files sy me [0..<NOFILE] k = Inr k1"
    and k': "k' = upd_proc me (\<lambda>p. p\<lparr>pstate := ZOMBIE\<rparr>)
       (let k2 = upd_proc me (\<lambda>p. p\<lparr>cwd := None\<rparr>) (deliver (k1\<lparr>kf := f\<rparr>));
            k3 = wakeup1 (map_option ChProc (parent (proc_at k2 me))) k2 in reparent me [0..<length (ptable k3)] k3)"
    using assms(1) by (auto simp: exit_def rbind_eq_Inr Let_def split: if_splits option.splits)
  let ?k2 = "upd_proc me (\<lambda>p. p\<lparr>cwd := None\<rparr>) (deliver (k1\<lparr>kf := f\<rparr>))"
  have "keeps k ?k2"
    by (rule keeps_trans[OF same_keeps[OF same_trans[OF close_files_same[OF k1] same_fields(2)]]
        keeps_trans[OF keeps_deliver same_keeps[OF same_upd]]]) (simp add: ids_def)
  then have kk: "keeps k (reparent me ps (wakeup1 c ?k2))" for ps c
    by (rule keeps_trans) (rule keeps_trans[OF keeps_wakeup1 keeps_reparent])
  then have used: "pstate (ptable (reparent me ps (wakeup1 c ?k2)) ! me) \<noteq> UNUSED" for ps c
    using assms(2,3) keepsD(1,2)[of k _ me] by metis
  have "me \<noteq> 0" using assms(1,4) by (cases "me = 0") (auto simp: exit_def)
  then show ?thesis unfolding k' Let_def by (intro keeps_trans[OF kk keeps_upd]) (use used in simp_all)
qed
lemma keeps_kill: "kill pid k = (r, k') \<Longrightarrow> keeps k k'"
  by (auto simp: kill_def split: option.splits if_splits intro!: keeps_upd)

lemma pick_state: "pick r c n ps = Some i \<Longrightarrow> n \<le> i \<and> i < n + length ps \<and> pstate (ps ! (i - n)) = RUNNABLE"
proof (induction ps arbitrary: c n)
  case (Cons p ps)
  then show ?case by (fastforce simp: nth_Cons' Suc_le_eq split: if_splits)
qed simp

lemma keeps_scheduler:
  assumes "scheduler k = Inr (r, k')"
  shows "keeps k k'"
proof -
  let ?k1 = "k\<lparr>seed := next_seed (seed k)\<rparr>"
  have s: "same k ?k1" by (simp add: same_def tab_fields)
  from assms consider "k' = ?k1" | i n where "pick n 0 0 (ptable k) = Some i" "k' = upd_proc i (\<lambda>p. p\<lparr>pstate := RUNNING, pticks := pticks p + 1\<rparr>) ?k1"
    by (auto simp: scheduler_def Let_def rbind_eq_Inr split: option.splits)
  then show ?thesis
  proof cases
    case 1
    then show ?thesis using same_keeps[OF s] by simp
  next
    case 2
    then have "pstate (ptable k ! i) = RUNNABLE" using pick_state[of n 0 0] by fastforce
    then show ?thesis unfolding 2(2) by (intro keeps_trans[OF same_keeps[OF s] keeps_upd]) simp_all
  qed
qed

section \<open>The invariant\<close>

definition live :: "'d kernel \<Rightarrow> nat \<Rightarrow> bool" where
  "live k i \<longleftrightarrow> i < length (tab k) \<and> st_of k i \<noteq> UNUSED"

definition ptable_inv :: "'d kernel \<Rightarrow> bool" where
  "ptable_inv k \<longleftrightarrow> initproc k = Some 0 \<and> live k 0 \<and> par_of k 0 = None \<and> st_of k 0 \<noteq> ZOMBIE \<and>
     0 < unat (nextpid k) \<and> unat (nextpid k) < 2 ^ 31 \<and>
     (\<forall>i. live k i \<longrightarrow> 0 < unat (pid_of k i) \<and> unat (pid_of k i) < unat (nextpid k)) \<and>
     (\<forall>i j. live k i \<longrightarrow> live k j \<longrightarrow> i \<noteq> j \<longrightarrow> pid_of k i \<noteq> pid_of k j)"

lemma keeps_live: "keeps k k' \<Longrightarrow> live k' i = live k i"
  by (auto simp: keeps_def live_def)

lemma keeps_inv:
  assumes "ptable_inv k" "keeps k k'"
  shows "ptable_inv k'"
proof -
  have p: "live k i \<Longrightarrow> pid_of k' i = pid_of k i" for i using assms(2) by (auto simp: keeps_def live_def)
  have "par_of k' 0 = None" "st_of k' 0 \<noteq> ZOMBIE" "nextpid k' = nextpid k" "initproc k' = initproc k"
    using assms by (auto simp: keeps_def live_def ptable_inv_def)
  then show ?thesis using assms(1) p unfolding ptable_inv_def keeps_live[OF assms(2)] by auto
qed

text \<open>Freeing a slot other than slot 0.\<close>

lemma free_inv:
  assumes "ptable_inv k" "tab k' = (tab k)[p := (UNUSED, x)]" "nextpid k' = nextpid k" "initproc k' = initproc k" "p \<noteq> 0"
  shows "ptable_inv k'"
proof -
  have l: "live k' i \<longleftrightarrow> live k i \<and> i \<noteq> p" for i using assms(2) by (cases "i = p") (auto simp: live_def)
  have "i \<noteq> p \<Longrightarrow> tab k' ! i = tab k ! i" for i using assms(2) by simp
  then show ?thesis using assms(1,3,4,5) by (auto simp: ptable_inv_def l)
qed

lemma created_inv:
  assumes "ptable_inv k" "created p st par k k'" "Suc (unat (nextpid k)) < 2 ^ 31"
  shows "ptable_inv k'"
proof -
  have t: "tab k' = (tab k)[p := (st, nextpid k, par)]" and n: "nextpid k' = nextpid k + 1" and ini: "initproc k' = initproc k"
    and p: "p < length (tab k)" "st_of k p = UNUSED"
    using assms(2) by (auto simp: created_def tab_def ids_def)
  have p0: "p \<noteq> 0" using assms(1) p by (auto simp: ptable_inv_def live_def)
  have u: "unat (nextpid k') = Suc (unat (nextpid k))" using assms(3) unfolding n by (simp add: unat_word_ariths)
  have np: "\<not> live k p" using p by (simp add: live_def)
  have l: "live k' i \<longleftrightarrow> live k i \<or> (i = p \<and> st \<noteq> UNUSED)" for i using p by (auto simp: live_def t nth_list_update)
  have o: "i \<noteq> p \<Longrightarrow> tab k' ! i = tab k ! i" for i by (simp add: t)
  have pp: "pid_of k' p = nextpid k" using p by (simp add: t)
  have b: "live k i \<Longrightarrow> 0 < unat (pid_of k i) \<and> unat (pid_of k i) < unat (nextpid k)" for i
    using assms(1) by (auto simp: ptable_inv_def)
  have d: "live k i \<Longrightarrow> live k j \<Longrightarrow> i \<noteq> j \<Longrightarrow> pid_of k i \<noteq> pid_of k j" for i j
    using assms(1) by (auto simp: ptable_inv_def)
  have "0 < unat (pid_of k' i) \<and> unat (pid_of k' i) < unat (nextpid k')" if "live k' i" for i
  proof (cases "i = p")
    case True
    then show ?thesis using pp u assms(1) by (simp add: ptable_inv_def)
  next
    case False
    then show ?thesis using that b[of i] l[of i] o[of i] u by auto
  qed
  moreover have "pid_of k' i \<noteq> pid_of k' j" if "live k' i" "live k' j" "i \<noteq> j" for i j
    using that b[of i] b[of j] d[of i j] l[of i] l[of j] o[of i] o[of j] pp by (cases "i = p"; cases "j = p") auto
  ultimately show ?thesis using assms(1,3) p0 o[of 0] l[of 0] ini u by (auto simp: ptable_inv_def)
qed
section \<open>The state machine\<close>

definition at_boot :: "'d kernel \<Rightarrow> bool" where
  "at_boot k \<longleftrightarrow> ptable k \<noteq> [] \<and> nextpid k = 1 \<and> (\<forall>p \<in> set (ptable k). pstate p = UNUSED \<and> parent p = None)"

lemma kstore16_fields [tab_simps]: "tab (kstore16 a v k) = tab k" "ptable (kstore16 a v k) = ptable k"
  "nextpid (kstore16 a v k) = nextpid k" "initproc (kstore16 a v k) = initproc k"
  by (simp_all add: kstore16_def set_km_def tab_def)

lemma userinit_tab:
  assumes "userinit sy devsw initcode k = Inr k'"
  shows "\<exists>p. find_index (\<lambda>p. pstate p = UNUSED) (ptable k) = Some p \<and>
    tab k' = (tab k)[p := (RUNNABLE, nextpid k, parent (ptable k ! p))] \<and> nextpid k' = nextpid k + 1 \<and> initproc k' = Some p"
proof -
  obtain p k1 where a: "allocproc sy k = (Some p, k1)" using assms by (auto simp: userinit_def split: prod.splits option.splits)
  note c = allocproc_created[OF a, unfolded option.case]
  note i = created_ids[OF c]
  have f: "find_index (\<lambda>p. pstate p = UNUSED) (ptable k) = Some p"
    using a by (auto simp: allocproc_def Let_def split: option.splits prod.splits if_splits)
  obtain d m m1 m2 m3 t1 t2 t3 t4 t5 t6 t7 u1 u2 nm r x where k':
    "k' = upd_proc p (\<lambda>y. y\<lparr>pstate := RUNNABLE\<rparr>) (upd_proc p (\<lambda>y. y\<lparr>cwd := r\<rparr>) (kf_update (\<lambda>_. x) (upd_proc p (\<lambda>x. x\<lparr>pname := nm x\<rparr>)
       (kstore32 t7 0 (kstore32 t6 u1 (kstore32 t5 u2 (kstore16 t4 0x23 (kstore16 t3 0x23 (kstore16 t2 0x23 (kstore16 t1 0x1B
       (set_km m3 (upd_proc p (\<lambda>x. x\<lparr>psz := PGSIZE\<rparr>) (set_km m2 (upd_proc p (\<lambda>x. x\<lparr>pgdir := d\<rparr>) (set_km m1 (k1\<lparr>initproc := Some p\<rparr>))))))))))))))))"
    using assms by (auto simp: userinit_def a rbind_eq_Inr Let_def split: prod.splits if_splits)
  have "tab k' = (tab k1)[p := (RUNNABLE, nextpid k, parent (ptable k ! p))]" "nextpid k' = nextpid k1" "initproc k' = Some p"
    unfolding k' using i by (simp_all add: tab_simps ptable_upd ids_def tab_def map_update)
  then show ?thesis using f c by (simp add: created_def)
qed

text \<open>The table when the first process has been set up: it has slot 0, the other slots are free.\<close>

definition started :: "'d kernel \<Rightarrow> bool" where
  "started k \<longleftrightarrow> initproc k = Some 0 \<and> nextpid k = 2 \<and> tab k \<noteq> [] \<and> tab k ! 0 = (RUNNABLE, 1, None) \<and>
     (\<forall>i < length (tab k). 0 < i \<longrightarrow> st_of k i = UNUSED)"

lemma userinit_started:
  assumes "at_boot k" "userinit sy devsw initcode k = Inr k'"
  shows "started k'"
proof -
  have "find_index (\<lambda>p. pstate p = UNUSED) (ptable k) = Some 0" using assms(1) by (auto simp: at_boot_def find_index_Some_iff)
  then have t: "tab k' = (tab k)[0 := (RUNNABLE, 1, None)]" "nextpid k' = 2" "initproc k' = Some 0"
    using userinit_tab[OF assms(2)] assms(1) by (auto simp: at_boot_def)
  moreover have "tab k \<noteq> []" "\<And>i. i < length (tab k) \<Longrightarrow> st_of k i = UNUSED"
    using assms(1) by (auto simp: at_boot_def tab_def ids_def)
  ultimately show ?thesis by (simp add: started_def)
qed

lemma started_inv: "started k \<Longrightarrow> ptable_inv k"
proof -
  assume s: "started k"
  then have "live k i \<longleftrightarrow> i = 0" for i by (cases i) (auto simp: started_def live_def)
  then show ?thesis using s by (simp add: ptable_inv_def started_def)
qed

text \<open>The steps of the process table. A process that acts is running; \<open>other\<close> is everything in the kernel that
  changes neither the states, the identifiers nor the parents: memory, files, tickets, the clock.\<close>

inductive kstep :: "ksyms \<Rightarrow> 'd kernel \<Rightarrow> 'd kernel \<Rightarrow> bool" for sy where
  forks: "Suc (unat (nextpid k)) < 2 ^ 31 \<Longrightarrow> fork sy me k = Inr (r, k') \<Longrightarrow> kstep sy k k'"
| clones: "Suc (unat (nextpid k)) < 2 ^ 31 \<Longrightarrow> clone sy me fcn a1 a2 st k = Inr (r, k') \<Longrightarrow> kstep sy k k'"
| exits: "me < length (ptable k) \<Longrightarrow> pstate (proc_at k me) = RUNNING \<Longrightarrow> exit sy me k = Inr k' \<Longrightarrow> kstep sy k k'"
| waits: "me < length (ptable k) \<Longrightarrow> pstate (proc_at k me) = RUNNING \<Longrightarrow> wait sy me k = Inr (w, k') \<Longrightarrow> kstep sy k k'"
| joins: "me < length (ptable k) \<Longrightarrow> pstate (proc_at k me) = RUNNING \<Longrightarrow> join sy me k = Inr (w, k') \<Longrightarrow> kstep sy k k'"
| kills: "kill pid k = (r, k') \<Longrightarrow> kstep sy k k'"
| wakes: "k' = wakeup c k \<Longrightarrow> kstep sy k k'"
| sleeps: "pstate (proc_at k me) = RUNNING \<Longrightarrow> k' = sleep me c k \<Longrightarrow> kstep sy k k'"
| resumes: "k' = sleep_resume me k \<Longrightarrow> kstep sy k k'"
| yields: "pstate (proc_at k me) = RUNNING \<Longrightarrow> k' = yield me k \<Longrightarrow> kstep sy k k'"
| schedules: "scheduler k = Inr (r, k') \<Longrightarrow> kstep sy k k'"
| grows: "growproc sy me n k = Inr (r, k') \<Longrightarrow> kstep sy k k'"
| other: "same k k' \<Longrightarrow> kstep sy k k'"

inductive reachable :: "ksyms \<Rightarrow> 'd kernel \<Rightarrow> bool" for sy where
  boots: "started k \<Longrightarrow> reachable sy k"
| steps: "reachable sy k \<Longrightarrow> kstep sy k k' \<Longrightarrow> reachable sy k'"

lemma forked_inv: "ptable_inv k \<Longrightarrow> forked me k k' \<Longrightarrow> Suc (unat (nextpid k)) < 2 ^ 31 \<Longrightarrow> ptable_inv k'"
  by (auto simp: forked_def intro: created_inv)

lemma inv_init: "ptable_inv k \<Longrightarrow> parent (ptable k ! 0) = None \<and> ptable k \<noteq> [] \<and> pstate (ptable k ! 0) \<noteq> ZOMBIE"
  by (auto simp: ptable_inv_def live_def tab_def ids_def)

lemma wait_inv:
  assumes "ptable_inv k" "wait sy me k = Inr (w, k')" "pstate (ptable k ! me) = RUNNING"
  shows "ptable_inv k'"
proof (cases "find_index (\<lambda>p. parent p = Some me \<and> pstate p = ZOMBIE) (ptable k)")
  case (Some p)
  note f = find_index_SomeD[OF Some]
  have "p \<noteq> 0" using inv_init[OF assms(1)] f by (cases p) auto
  moreover have "tab k' = (tab k)[p := (UNUSED, 0, None)]" "nextpid k' = nextpid k" "initproc k' = initproc k"
    using assms(2) Some by (auto simp: wait_def reap_def rbind_eq_Inr tab_simps ids_def)
  ultimately show ?thesis using free_inv[OF assms(1)] by blast
next
  case None
  then have "k' = k \<or> k' = sleep me (ChProc me) k" using assms(2) by (auto simp: wait_def split: if_splits)
  then show ?thesis using assms(1,3) by (auto simp: sleep_def intro!: keeps_inv[OF assms(1)] keeps_upd)
qed

lemma join_scan_zombie: "join_scan me ps k = Inr (Some p) \<Longrightarrow> p \<in> set ps \<and> pstate (ptable k ! p) = ZOMBIE"
  by (induction ps) (auto simp: Let_def rbind_eq_Inr split: if_splits option.splits)

lemma join_inv:
  assumes "ptable_inv k" "join sy me k = Inr (w, k')" "pstate (ptable k ! me) = RUNNING"
  shows "ptable_inv k'"
proof -
  obtain r where r: "join_scan me [0..<length (ptable k)] k = Inr r" using assms(2) by (auto simp: join_def rbind_eq_Inr)
  show ?thesis
  proof (cases r)
    case None
    then have "k' = sleep me (ChProc me) k" using assms(2) r by (auto simp: join_def)
    then show ?thesis using assms(1,3) by (auto simp: sleep_def intro!: keeps_inv[OF assms(1)] keeps_upd)
  next
    case (Some p)
    have "pstate (ptable k ! p) = ZOMBIE" using join_scan_zombie r Some by blast
    then have "p \<noteq> 0" using inv_init[OF assms(1)] by (cases p) auto
    moreover have "tab k' = (tab k)[p := (UNUSED, ppid (ptable k ! p), parent (ptable k ! p))]" "nextpid k' = nextpid k" "initproc k' = initproc k"
      using assms(2) r Some by (auto simp: join_def rbind_eq_Inr Let_def tab_simps ids_def)
    ultimately show ?thesis using free_inv[OF assms(1)] by blast
  qed
qed

lemma growproc_same: "growproc sy me n k = Inr (r, k') \<Longrightarrow> same k k'"
  by (auto simp: growproc_def Let_def rbind_eq_Inr same_fields ids_def intro!: same_trans[OF same_fields(1) same_upd] split: if_splits)

lemma kstep_inv: "kstep sy k k' \<Longrightarrow> ptable_inv k \<Longrightarrow> ptable_inv k'"
proof (induction rule: kstep.induct)
  case (forks k me r k') then show ?case by (blast intro: forked_inv fork_created)
next
  case (clones k me fcn a1 a2 st r k') then show ?case by (blast intro: forked_inv clone_created)
next
  case (exits me k k') then show ?case using keeps_inv[OF _ keeps_exit[of sy me k k']] by (simp add: ptable_inv_def)
next
  case (waits me k w k') then show ?case by (blast intro: wait_inv)
next
  case (joins me k w k') then show ?case by (blast intro: join_inv)
next
  case (kills pid k r k') then show ?case by (blast intro: keeps_inv keeps_kill)
next
  case (wakes k' c k) then show ?case by (auto simp: wakeup_def intro!: keeps_inv[OF _ keeps_wakeup1])
next
  case (sleeps k me k' c) then show ?case by (auto simp: sleep_def intro!: keeps_inv[OF _ keeps_upd])
next
  case (resumes k' me k) then show ?case by (auto simp: sleep_resume_def intro!: keeps_inv[OF _ keeps_upd])
next
  case (yields k me k') then show ?case by (auto simp: yield_def intro!: keeps_inv[OF _ keeps_upd])
next
  case (schedules k r k') then show ?case by (blast intro: keeps_inv keeps_scheduler)
next
  case (grows me n k r k') then show ?case by (blast intro: keeps_inv same_keeps growproc_same)
next
  case (other k k') then show ?case by (blast intro: keeps_inv same_keeps)
qed
lemma reachable_inv: "reachable sy k \<Longrightarrow> ptable_inv k"
  by (induction rule: reachable.induct) (auto intro: started_inv kstep_inv)

lemma userinit_reachable: "at_boot k \<Longrightarrow> userinit sy devsw initcode k = Inr k' \<Longrightarrow> reachable sy k'"
  by (rule boots) (rule userinit_started)

definition live_procs :: "'d kernel \<Rightarrow> proc list" where
  "live_procs k = filter (\<lambda>p. pstate p \<noteq> UNUSED) (ptable k)"

lemma distinct_filter_nth:
  "(\<And>i j. i < length xs \<Longrightarrow> j < length xs \<Longrightarrow> i \<noteq> j \<Longrightarrow> P (xs ! i) \<Longrightarrow> P (xs ! j) \<Longrightarrow> f (xs ! i) \<noteq> f (xs ! j)) \<Longrightarrow>
   distinct (map f (filter P xs))"
proof (induction xs)
  case (Cons x xs)
  have "distinct (map f (filter P xs))"
    using Cons.prems[of "Suc _" "Suc _"] by (intro Cons.IH) simp
  moreover have "f x \<notin> f ` {y \<in> set xs. P y}" if "P x"
    using Cons.prems[of 0 "Suc _"] that by (fastforce simp: in_set_conv_nth)
  ultimately show ?case by simp
qed simp

text \<open>C6. Whatever sequence of forks, clones, exits, waits, kills, sleeps, wake-ups and scheduling rounds follows the
  creation of the first process, the processes in the table have different process ids, all of them positive
  as C \<^verbatim>\<open>int\<close>s and below \<^verbatim>\<open>nextpid\<close>, and slot 0 still belongs to the initial process, which has no parent. (The
  counter must not reach the end of the \<^verbatim>\<open>int\<close> range.)\<close>

theorem process_ids_unique:
  assumes "reachable sy k"
  shows "distinct (map ppid (live_procs k)) \<and> list_all (\<lambda>p. 0 < sint (ppid p) \<and> ppid p < nextpid k) (live_procs k) \<and>
    initproc k = Some 0 \<and> pstate (proc_at k 0) \<noteq> UNUSED \<and> parent (proc_at k 0) = None"
proof -
  note inv = reachable_inv[OF assms]
  have d: "distinct (map ppid (live_procs k))" unfolding live_procs_def
    using inv by (intro distinct_filter_nth) (auto simp: ptable_inv_def live_def tab_def ids_def)
  have "0 < sint (ppid p) \<and> ppid p < nextpid k" if p: "p \<in> set (ptable k)" "pstate p \<noteq> UNUSED" for p
  proof -
    obtain i where "i < length (ptable k)" "p = ptable k ! i" using p(1) by (auto simp: in_set_conv_nth)
    then have "0 < unat (ppid p)" "unat (ppid p) < unat (nextpid k)" "unat (nextpid k) < 2 ^ 31"
      using inv p(2) by (auto simp: ptable_inv_def live_def tab_def ids_def)
    then show ?thesis by (simp add: sint_u32 word_less_nat_alt uint_int_unat del: of_nat_unat)
  qed
  then have "list_all (\<lambda>p. 0 < sint (ppid p) \<and> ppid p < nextpid k) (live_procs k)"
    by (auto simp: live_procs_def list_all_iff)
  then show ?thesis using d inv inv_init[OF inv] by (auto simp: ptable_inv_def live_def tab_def ids_def)
qed

text \<open>The test of \<^verbatim>\<open>join\<close> on slot \<open>p\<close>, when \<open>w\<close> is the word that a null parent pointer leads to.\<close>

definition joinable :: "u32 \<Rightarrow> nat \<Rightarrow> 'd kernel \<Rightarrow> nat \<Rightarrow> bool" where
  "joinable w me k p \<longleftrightarrow> pstate (proc_at k p) = ZOMBIE \<and> (parent (proc_at k p) = Some me \<or>
     (case parent (proc_at k p) of None \<Rightarrow> w | Some q \<Rightarrow> pgdir (proc_at k q)) = pgdir (proc_at k p))"

lemma join_scan_find:
  "vload32 (pgdir (proc_at k me)) 4 (kmem_of k) = Inr w \<Longrightarrow> join_scan me ps k = Inr (find (joinable w me k) ps)"
  by (induction ps) (auto simp: joinable_def Let_def split: option.splits)

text \<open>C24. What \<^verbatim>\<open>join\<close> does in every reachable state, whoever calls it. The parent pointer of the first slot is null, so
  the call begins by reading address 4 of the caller's own memory and fails with a page fault when that page is
  not there. Otherwise it takes the first zombie that is a child of the caller, or that shares the page
  directory of its parent, so also a thread that belongs to an unrelated process; the slot becomes free but keeps
  its process id and parent. When there is none the caller sleeps, even without any thread to wait for.\<close>

theorem join_outcome:
  assumes "reachable sy k"
  shows "join sy me k = rbind (vload32 (pgdir (proc_at k me)) 4 (kmem_of k)) (\<lambda>w.
    case find (joinable w me k) [0..<length (ptable k)] of
      None \<Rightarrow> Inr (WaitSleeps, sleep me (ChProc me) k)
    | Some p \<Rightarrow> rbind (kfree (kend sy) (kstack (proc_at k p)) (kmem_of k)) (\<lambda>m.
        Inr (WaitRet (sint (ppid (proc_at k p))), set_km m (upd_proc p (\<lambda>x. x\<lparr>pstate := UNUSED\<rparr>) k))))"
proof (cases "vload32 (pgdir (proc_at k me)) 4 (kmem_of k)")
  case (Inl e)
  note i = inv_init[OF reachable_inv[OF assms]]
  then have "[0..<length (ptable k)] = 0 # [1..<length (ptable k)]" by (simp add: upt_conv_Cons)
  then have "join_scan me [0..<length (ptable k)] k = Inl e" using Inl i by simp
  then show ?thesis by (simp add: join_def Inl)
next
  case (Inr w)
  have kmem: "kmem_of (upd_proc p f k) = kmem_of k" for p f by (simp add: upd_proc_def)
  have ks: "kstack (proc_at (upd_proc p (\<lambda>x. x\<lparr>pstate := UNUSED\<rparr>) k) p) = kstack (proc_at k p)" for p
    by (cases "p < length (ptable k)") (simp_all add: upd_proc_def list_update_beyond)
  show ?thesis by (simp add: join_def join_scan_find[OF Inr] Inr Let_def kmem ks cong: option.case_cong)
qed

definition demo_boot :: "unit kernel" where
  "demo_boot = (demo_kernel [demo_proc 1 1, blank_proc])\<lparr>nextpid := 2\<rparr>"

lemma demo_reachable: "reachable demo_syms (upd_proc 0 (\<lambda>p. p\<lparr>killed := True\<rparr>) demo_boot)"
proof (rule reachable.steps[OF reachable.boots kstep.kills])
  show "started demo_boot"
    by (auto simp: started_def demo_boot_def demo_kernel_def tab_def ids_def blank_proc_def nth_Cons' less_Suc_eq)
  show "kill 1 demo_boot = (0, upd_proc 0 (\<lambda>p. p\<lparr>killed := True\<rparr>) demo_boot)"
    by (simp add: kill_def demo_boot_def demo_kernel_def upd_proc_def blank_proc_def)
qed

theorem process_ids_unique_witness:
  "distinct (map ppid (live_procs (upd_proc 0 (\<lambda>p. p\<lparr>killed := True\<rparr>) demo_boot)))"
  using process_ids_unique[OF demo_reachable] by simp

theorem join_outcome_witness:
  "join demo_syms 0 (upd_proc 0 (\<lambda>p. p\<lparr>killed := True\<rparr>) demo_boot) = Inl (Fault ''page fault'')"
proof -
  have "walkpgdir d va False (kmem_of demo_boot) = (0, kmem_of demo_boot)" for d va
    by (simp add: walkpgdir_def demo_boot_def demo_kernel_def load32_def)
  then have "vload32 d 4 (kmem_of (upd_proc 0 (\<lambda>p. p\<lparr>killed := True\<rparr>) demo_boot)) = Inl (Fault ''page fault'')" for d
    by (simp add: vload32_def vload8_def translate_def upd_proc_def numeral_eq_Suc)
  then show ?thesis by (simp add: join_outcome[OF demo_reachable])
qed

end
