(* ===== verification/Printf.thy ===== *)
theory Printf
  imports Cstring
begin

text \<open>
  Formatted output of the user programs, \<^verbatim>\<open>src/src/printf.c\<close>, and the conversion of numbers that the console of the
  kernel shares with it. Output is the list of bytes passed to \<^verbatim>\<open>putc\<close>, one \<^verbatim>\<open>write\<close> each. A format is the list of
  its bytes before the NUL, the variable arguments are the words \<open>ap 0\<close>, \<open>ap 1\<close>, \dots\ above it on the stack.
\<close>

section \<open>The code\<close>

abbreviation digits_upper :: "u8 list" where
  "digits_upper \<equiv> [48, 49, 50, 51, 52, 53, 54, 55, 56, 57, 65, 66, 67, 68, 69, 70]"

text \<open>The loop that fills \<^verbatim>\<open>char buf[16]\<close> from the low digit up; a store past the end of the array is a fault.\<close>

function print_digits :: "u8 list \<Rightarrow> u32 \<Rightarrow> u32 \<Rightarrow> u8 list \<Rightarrow> u8 list res" where
  "print_digits tbl base x buf =
     (if 16 \<le> length buf then Inl (Fault ''printint: buf'')
      else if base = 0 then Inl (Fault ''divide error'')
      else let buf1 = buf @ [tbl ! unat (x mod base)]; x1 = x div base in
        if x1 \<noteq> 0 then print_digits tbl base x1 buf1 else Inr buf1)"
  by pat_completeness auto
termination by (relation "measure (\<lambda>(tbl, base, x, buf). 16 - length buf)") auto

declare print_digits.simps [simp del]

definition print_number :: "u8 list \<Rightarrow> u32 \<Rightarrow> u32 \<Rightarrow> bool \<Rightarrow> u8 list res" where
  "print_number tbl xx base sg =
     (let neg = (sg \<and> sint xx < 0); x = (if neg then - xx else xx) in
      rbind (print_digits tbl base x []) (\<lambda>buf.
        if neg then if 16 \<le> length buf then Inl (Fault ''printint: buf'') else Inr (rev (buf @ [45]))
        else Inr (rev buf)))"

definition printint :: "u32 \<Rightarrow> u32 \<Rightarrow> bool \<Rightarrow> u8 list res" where
  "printint xx base sg = print_number digits_upper xx base sg"

text \<open>The bytes of the string at an address; without a NUL the loop over it never ends.\<close>

definition string_at :: "mem \<Rightarrow> u32 \<Rightarrow> u8 list res" where
  "string_at m a = (case strlen (ptr m a) of None \<Rightarrow> Inl Spins | Some n \<Rightarrow> Inr (map (ptr m a) [0..<n]))"

definition string_arg :: "mem \<Rightarrow> u32 \<Rightarrow> u8 list res" where
  "string_arg m s = (if s = 0 then Inr [40, 110, 117, 108, 108, 41] else string_at m s)"

text \<open>\<open>pct\<close> is \<^verbatim>\<open>state == '%'\<close>.\<close>

fun printf_loop :: "mem \<Rightarrow> bool \<Rightarrow> u8 list \<Rightarrow> (nat \<Rightarrow> u32) \<Rightarrow> u8 list res" where
  "printf_loop m pct [] ap = Inr []"
| "printf_loop m pct (c # fmt) ap =
     (let ap1 = (\<lambda>i. ap (Suc i));
          emit = (\<lambda>s ap'. rbind (printf_loop m False fmt ap') (\<lambda>r. Inr (s @ r))) in
      if \<not> pct then if c = 37 then printf_loop m True fmt ap else emit [c] ap
      else if c = 100 then rbind (printint (ap 0) 10 True) (\<lambda>s. emit s ap1)
      else if c = 120 \<or> c = 112 then rbind (printint (ap 0) 16 False) (\<lambda>s. emit s ap1)
      else if c = 115 then rbind (string_arg m (ap 0)) (\<lambda>s. emit s ap1)
      else if c = 99 then emit [ucast (ap 0)] ap1
      else if c = 37 then emit [c] ap
      else emit [37, c] ap)"

definition printf :: "mem \<Rightarrow> u8 list \<Rightarrow> (nat \<Rightarrow> u32) \<Rightarrow> u8 list res" where
  "printf m fmt ap = printf_loop m False fmt ap"

section \<open>Numbers read back\<close>

lemma decimal_snoc: "decimal (xs @ [d]) acc = 10 * decimal xs acc + (unat d - 48)"
  by (induction xs arbitrary: acc) simp_all

lemma digit_table: "n < 10 \<Longrightarrow> digit (digits_upper ! n) \<and> unat (digits_upper ! n) - 48 = n"
proof -
  assume "n < 10"
  then have "n \<in> {0, 1, 2, 3, 4, 5, 6, 7, 8, 9}" by auto
  then show ?thesis by (auto simp: digit_def)
qed

lemma print_digits_10:
  "unat x < 10 ^ Suc k \<Longrightarrow> length buf + k < 16 \<Longrightarrow>
   \<exists>ds. print_digits digits_upper 10 x buf = Inr (buf @ ds) \<and> ds \<noteq> [] \<and> length ds \<le> Suc k \<and> list_all digit ds \<and> decimal (rev ds) 0 = unat x"
proof (induction k arbitrary: x buf)
  case 0
  then have "unat (x div 10) = 0" "unat (x mod 10) = unat x" by (simp_all add: unat_div unat_mod)
  then have x: "x div 10 = 0" "unat (x mod 10) = unat x" by (simp_all add: unat_eq_zero)
  then show ?case using 0 digit_table[of "unat x"] by (subst print_digits.simps) (simp add: Let_def)
next
  case (Suc k)
  let ?d = "digits_upper ! unat (x mod 10)"
  have m: "unat (x mod 10) < 10" "unat (x mod 10) = unat x mod 10" "unat (x div 10) = unat x div 10"
    by (simp_all add: unat_div unat_mod)
  note d = digit_table[OF m(1)]
  show ?case
  proof (cases "x div 10 = 0")
    case True
    then have "unat x div 10 = 0" using m(3) by simp
    then have "unat x mod 10 = unat x" by simp
    then show ?thesis using True d m Suc.prems by (subst print_digits.simps) (simp add: Let_def)
  next
    case False
    have "unat (x div 10) < 10 ^ Suc k" unfolding m(3) using Suc.prems(1) by (simp add: div_less_iff_less_mult)
    then obtain ds where ds: "print_digits digits_upper 10 (x div 10) (buf @ [?d]) = Inr ((buf @ [?d]) @ ds)" "length ds \<le> Suc k"
      "list_all digit ds" "decimal (rev ds) 0 = unat (x div 10)"
      using Suc.IH[of "x div 10" "buf @ [?d]"] Suc.prems(2) by auto
    have "print_digits digits_upper 10 x buf = Inr (buf @ ?d # ds)"
      using ds(1) False Suc.prems by (subst print_digits.simps) (simp add: Let_def)
    moreover have "decimal (rev (?d # ds)) 0 = unat x" using ds(4) m d by (simp add: decimal_snoc)
    ultimately show ?thesis using ds(2,3) d by (intro exI[of _ "?d # ds"]) simp
  qed
qed
text \<open>What an address points to when the bytes \<open>s\<close> and a NUL are stored there.\<close>

definition as_cstring :: "u8 list \<Rightarrow> bytes_at" where
  "as_cstring s i = (if i < length s then s ! i else 0)"

lemma atoi_digits: "list_all digit ds \<Longrightarrow> atoi (as_cstring ds) = Some (of_nat (decimal ds 0))"
  unfolding atoi_def using atoi_from_digits[of ds "as_cstring ds" 0] by (simp add: as_cstring_def digit_def)

lemma printed_unsigned:
  "\<exists>s. print_digits digits_upper 10 x [] = Inr (rev s) \<and> length s \<le> 10 \<and> list_all digit s \<and> decimal s 0 = unat x"
proof -
  have "unat x < 10 ^ Suc 9" using unat_less_2p32[of x] by simp
  from print_digits_10[OF this, of "[]"] obtain ds where "print_digits digits_upper 10 x [] = Inr ds" "length ds \<le> 10"
    "list_all digit ds" "decimal (rev ds) 0 = unat x" by auto
  then show ?thesis by (intro exI[of _ "rev ds"]) simp
qed

text \<open>C28. \<^verbatim>\<open>%d\<close> and \<^verbatim>\<open>atoi\<close> are inverse to each other: for every 32-bit integer \<^verbatim>\<open>printf("%d", x)\<close> prints at most eleven
  bytes without overrunning its buffer, a minus sign exactly for negative numbers, the smallest one included, and
  \<^verbatim>\<open>atoi\<close> of the digits gives the absolute value back.\<close>

theorem atoi_printf_decimal:
  "\<exists>s. printf m [37, 100] (\<lambda>_. x) = Inr (if sint x < 0 then 45 # s else s) \<and> length s \<le> 10 \<and> list_all digit s \<and>
     atoi (as_cstring s) = Some (if sint x < 0 then - x else x)"
proof -
  let ?y = "if sint x < 0 then - x else x"
  obtain s where s: "print_digits digits_upper 10 ?y [] = Inr (rev s)" "length s \<le> 10" "list_all digit s" "decimal s 0 = unat ?y"
    using printed_unsigned[of ?y] by blast
  have "printf m [37, 100] (\<lambda>_. x) = Inr (if sint x < 0 then 45 # s else s)"
    using s(1,2) by (simp add: printf_def printint_def print_number_def Let_def split: if_splits)
  moreover have "atoi (as_cstring s) = Some ?y" using atoi_digits[OF s(3)] s(4) by simp
  ultimately show ?thesis using s by blast
qed

end
