(* ===== verification/Console.thy ===== *)
theory Console
  imports Printf Ring Fs
begin

text \<open>
  The console, \<^verbatim>\<open>src/src/console.c\<close>, with the serial port of \<^verbatim>\<open>src/src/uart.c\<close>. The state holds the bytes sent to the
  serial port, the cells of the CGA screen with the cursor register, and the input ring with its read, write
  and edit counters. \<open>BACKSPACE\<close> and the editing of the current line are as in the code; an interrupt handler is a function of the
  bytes that its \<^verbatim>\<open>getc\<close> delivers before it reports that there are no more. The routines run under \<^verbatim>\<open>cons.lock\<close>.
\<close>

section \<open>Output\<close>

record console =
  panicked :: bool
  uart :: bool
  serial :: "u8 list"
  crt :: "nat \<Rightarrow> u16"
  cursor :: u16
  ibuf :: "u8 list"
  ir :: u32
  iw :: u32
  ie :: u32

abbreviation BACKSPACE :: u32 where "BACKSPACE \<equiv> 0x100"
abbreviation INPUT_BUF :: nat where "INPUT_BUF \<equiv> 128"

definition uartputc :: "u32 \<Rightarrow> console \<Rightarrow> console" where
  "uartputc c k = (if \<not> uart k then k else k\<lparr>serial := serial k @ [ucast c]\<rparr>)"

text \<open>The screen has 25 rows of 80 cells; the last row is kept free by scrolling.\<close>

definition cga_move :: "u32 \<Rightarrow> nat \<Rightarrow> nat" where
  "cga_move c pos =
     (if c = 10 then pos + (80 - pos mod 80) else if c = BACKSPACE then if 0 < pos then pos - 1 else pos else pos + 1)"

definition cga_draw :: "u32 \<Rightarrow> nat \<Rightarrow> (nat \<Rightarrow> u16) \<Rightarrow> nat \<Rightarrow> u16" where
  "cga_draw c pos scr = (if c = 10 \<or> c = BACKSPACE then scr else scr(pos := ucast (c AND 0xFF) OR 0x0700))"

definition cga_scroll :: "nat \<Rightarrow> (nat \<Rightarrow> u16) \<Rightarrow> nat \<times> (nat \<Rightarrow> u16)" where
  "cga_scroll pos scr =
     (if 24 \<le> pos div 80
      then (pos - 80, \<lambda>i. if pos - 80 \<le> i \<and> i < 24 * 80 then 0 else if i < 23 * 80 then scr (i + 80) else scr i)
      else (pos, scr))"

definition cgaputc :: "u32 \<Rightarrow> console \<Rightarrow> console res" where
  "cgaputc c k =
     (let pos0 = unat (cursor k); pos = cga_move c pos0; scr = cga_draw c pos0 (crt k) in
      if 25 * 80 < pos then Inl (Panic ''pos under/overflow'')
      else let (pos1, scr1) = cga_scroll pos scr in
        Inr (k\<lparr>cursor := of_nat pos1, crt := scr1(pos1 := 0x0720)\<rparr>))"

definition consputc :: "u32 \<Rightarrow> console \<Rightarrow> console res" where
  "consputc c k =
     (if panicked k then Inl Spins
      else cgaputc c (if c = BACKSPACE then uartputc 8 (uartputc 32 (uartputc 8 k)) else uartputc c k))"

fun consputs :: "u8 list \<Rightarrow> console \<Rightarrow> console res" where
  "consputs [] k = Inr k"
| "consputs (b # bs) k = rbind (consputc (ucast b) k) (consputs bs)"

abbreviation digits_lower :: "u8 list" where
  "digits_lower \<equiv> [48, 49, 50, 51, 52, 53, 54, 55, 56, 57, 97, 98, 99, 100, 101, 102]"

definition cons_printint :: "u32 \<Rightarrow> u32 \<Rightarrow> bool \<Rightarrow> console \<Rightarrow> console res" where
  "cons_printint xx base sg k = rbind (print_number digits_lower xx base sg) (\<lambda>s. consputs s k)"

text \<open>The bytes of a \<^verbatim>\<open>%s\<close> argument are passed on as signed characters.\<close>

fun consputs_signed :: "u8 list \<Rightarrow> console \<Rightarrow> console res" where
  "consputs_signed [] k = Inr k"
| "consputs_signed (b # bs) k = rbind (consputc (scast b) k) (consputs_signed bs)"

fun cprintf_loop :: "mem \<Rightarrow> u8 list \<Rightarrow> (nat \<Rightarrow> u32) \<Rightarrow> console \<Rightarrow> console res" where
  "cprintf_loop m [] argp k = Inr k"
| "cprintf_loop m (c # fmt) argp k =
     (if c \<noteq> 37 then rbind (consputc (ucast c) k) (cprintf_loop m fmt argp)
      else case fmt of
        [] \<Rightarrow> Inr k
      | d # fmt1 \<Rightarrow>
          let argp1 = (\<lambda>i. argp (Suc i)) in
          if d = 100 then rbind (cons_printint (argp 0) 10 True k) (cprintf_loop m fmt1 argp1)
          else if d = 120 \<or> d = 112 then rbind (cons_printint (argp 0) 16 False k) (cprintf_loop m fmt1 argp1)
          else if d = 115 then rbind (string_arg m (argp 0)) (\<lambda>s. rbind (consputs_signed s k) (cprintf_loop m fmt1 argp1))
          else if d = 37 then rbind (consputc 37 k) (cprintf_loop m fmt1 argp)
          else rbind (consputc 37 k) (\<lambda>k1. rbind (consputc (ucast d) k1) (cprintf_loop m fmt1 argp)))"

definition cprintf :: "mem \<Rightarrow> u8 list option \<Rightarrow> (nat \<Rightarrow> u32) \<Rightarrow> console \<Rightarrow> console res" where
  "cprintf m fmt argp k =
     (case fmt of None \<Rightarrow> Inl (Panic ''null fmt'') | Some f \<Rightarrow> cprintf_loop m f argp k)"

section \<open>Input\<close>

lemma cgaputc_screen: "cgaputc c k = Inr k' \<Longrightarrow> \<exists>p scr. k' = k\<lparr>cursor := p, crt := scr\<rparr>"
  by (auto simp: cgaputc_def Let_def case_prod_beta split: if_splits)

definition sent :: "u32 \<Rightarrow> u8 list" where
  "sent c = (if c = BACKSPACE then [8, 32, 8] else [ucast c])"

lemma consputc_eq:
  "\<not> panicked k \<Longrightarrow> consputc c k = cgaputc c (k\<lparr>serial := serial k @ (if uart k then sent c else [])\<rparr>)"
  by (simp add: consputc_def uartputc_def sent_def)

lemma consputc_screen: "consputc c k = Inr k' \<Longrightarrow> \<exists>xs p scr. k' = k\<lparr>serial := xs, cursor := p, crt := scr\<rparr>"
proof -
  assume a: "consputc c k = Inr k'"
  then have "\<not> panicked k" by (auto simp: consputc_def)
  with a obtain xs where "cgaputc c (k\<lparr>serial := xs\<rparr>) = Inr k'" using consputc_eq by metis
  then show ?thesis by (auto dest!: cgaputc_screen)
qed

lemma consputc_input:
  assumes "consputc c k = Inr k'"
  shows "ibuf k' = ibuf k" "ir k' = ir k" "iw k' = iw k" "ie k' = ie k"
  using consputc_screen[OF assms] by auto

text \<open>Control-U: erase back to the start of the line.\<close>

function kill_line :: "console \<Rightarrow> console res" where
  "kill_line k =
     (if ie k \<noteq> iw k \<and> ibuf k ! (unat (ie k - 1) mod INPUT_BUF) \<noteq> 10
      then rbind (consputc BACKSPACE (k\<lparr>ie := ie k - 1\<rparr>)) kill_line
      else Inr k)"
  by pat_completeness auto
termination
proof (relation "measure (\<lambda>k. unat (ie k - iw k))")
  fix k k'
  assume a: "ie k \<noteq> iw k \<and> ibuf k ! (unat (ie k - 1) mod INPUT_BUF) \<noteq> 10" and b: "consputc BACKSPACE (k\<lparr>ie := ie k - 1\<rparr>) = Inr k'"
  have "ie k - 1 - iw k = (ie k - iw k) - 1" by simp
  moreover have "ie k - iw k \<noteq> 0" using a by simp
  ultimately have "unat (ie k - 1 - iw k) < unat (ie k - iw k)" using unat_minus_one[of "ie k - iw k"] by (metis diff_less unat_gt_0 zero_less_one)
  then show "(k', k) \<in> measure (\<lambda>k. unat (ie k - iw k))" using consputc_input[OF b] by simp
qed simp

declare kill_line.simps [simp del]

text \<open>One byte of \<^verbatim>\<open>consoleintr\<close>; the results tell whether it asks for the process listing and wakes the readers.\<close>

definition input_char :: "u8 \<Rightarrow> console \<Rightarrow> (bool \<times> bool \<times> console) res" where
  "input_char c k =
     (if c = 16 then Inr (True, False, k)
      else if c = 21 then rbind (kill_line k) (\<lambda>k1. Inr (False, False, k1))
      else if c = 8 \<or> c = 0x7F
      then if ie k \<noteq> iw k then rbind (consputc BACKSPACE (k\<lparr>ie := ie k - 1\<rparr>)) (\<lambda>k1. Inr (False, False, k1))
           else Inr (False, False, k)
      else if c \<noteq> 0 \<and> ie k - ir k < 128
      then let d = (if c = 13 then 10 else c) in
        rbind (consputc (ucast d) (k\<lparr>ibuf := (ibuf k)[unat (ie k) mod INPUT_BUF := d], ie := ie k + 1\<rparr>)) (\<lambda>k1.
          if d = 10 \<or> d = 4 \<or> ie k1 = ir k1 + 128 then Inr (False, True, k1\<lparr>iw := ie k1\<rparr>)
          else Inr (False, False, k1))
      else Inr (False, False, k))"

fun consoleintr :: "u8 list \<Rightarrow> console \<Rightarrow> (bool \<times> bool \<times> console) res" where
  "consoleintr [] k = Inr (False, False, k)"
| "consoleintr (c # cs) k =
     rbind (input_char c k) (\<lambda>(d1, w1, k1). rbind (consoleintr cs k1) (\<lambda>(d2, w2, k2). Inr (d1 \<or> d2, w1 \<or> w2, k2)))"

text \<open>The loop of \<^verbatim>\<open>consoleread\<close> with \<open>n\<close> bytes to go: it ends with the bytes, finds the process killed, or sleeps.\<close>

datatype conread = ConRet "u8 list" | ConKilled | ConSleeps "u8 list" nat

fun con_cons :: "u8 \<Rightarrow> conread \<times> 'k \<Rightarrow> conread \<times> 'k" where
  "con_cons c (ConRet bs, k) = (ConRet (c # bs), k)"
| "con_cons c (ConKilled, k) = (ConKilled, k)"
| "con_cons c (ConSleeps bs n, k) = (ConSleeps (c # bs) n, k)"

fun consoleread_loop :: "bool \<Rightarrow> nat \<Rightarrow> nat \<Rightarrow> console \<Rightarrow> conread \<times> console" where
  "consoleread_loop kld target 0 k = (ConRet [], k)"
| "consoleread_loop kld target (Suc n) k =
     (if ir k = iw k then if kld then (ConKilled, k) else (ConSleeps [] (Suc n), k)
      else let c = ibuf k ! (unat (ir k) mod INPUT_BUF); k1 = k\<lparr>ir := ir k + 1\<rparr> in
        if c = 4 then (ConRet [], if Suc n < target then k1\<lparr>ir := ir k1 - 1\<rparr> else k1)
        else if c = 10 then (ConRet [c], k1)
        else con_cons c (consoleread_loop kld target n k1))"

section \<open>The device functions\<close>

abbreviation CONSOLE :: nat where "CONSOLE \<equiv> 1"

definition consoleread :: "u32 \<Rightarrow> bool \<Rightarrow> nat \<Rightarrow> u32 \<Rightarrow> console fs \<Rightarrow> (u8 list option \<times> console fs) res" where
  "consoleread pid kld ip n s =
     rbind (iunlock pid ip s) (\<lambda>s1.
       let target = nat (sint n) in
       case consoleread_loop kld target target (devs s1) of
         (ConRet bs, k) \<Rightarrow> rbind (ilock pid ip (s1\<lparr>devs := k\<rparr>)) (\<lambda>s2. Inr (Some bs, s2))
       | (ConKilled, k) \<Rightarrow> rbind (ilock pid ip (s1\<lparr>devs := k\<rparr>)) (\<lambda>s2. Inr (None, s2))
       | (ConSleeps bs m, k) \<Rightarrow> Inl Blocks)"

definition consolewrite :: "u32 \<Rightarrow> nat \<Rightarrow> u8 list \<Rightarrow> console fs \<Rightarrow> (nat option \<times> console fs) res" where
  "consolewrite pid ip buf s =
     rbind (iunlock pid ip s) (\<lambda>s1.
     rbind (consputs buf (devs s1)) (\<lambda>k.
     rbind (ilock pid ip (s1\<lparr>devs := k\<rparr>)) (\<lambda>s2. Inr (Some (length buf), s2))))"

definition consoleinit :: "u32 \<Rightarrow> bool \<Rightarrow> console devsw list \<Rightarrow> console devsw list" where
  "consoleinit pid kld devsw = devsw[CONSOLE := \<lparr>dread = Some (consoleread pid kld), dwrite = Some (consolewrite pid)\<rparr>]"
section \<open>Output stays on the screen\<close>

lemma cga_move_bound: "pos < 24 * 80 \<Longrightarrow> cga_move c pos \<le> 24 * 80"
proof -
  assume p: "pos < 24 * 80"
  have "pos div 80 < 24" using p by (simp add: div_less_iff_less_mult)
  then have "80 * (pos div 80) + 80 \<le> 24 * 80" by simp
  moreover have "pos + (80 - pos mod 80) = 80 * (pos div 80) + 80" using mult_div_mod_eq[of 80 pos] mod_less_divisor[of 80 pos] by linarith
  ultimately show ?thesis using p by (auto simp: cga_move_def)
qed

lemma cga_scroll_bound: "pos \<le> 24 * 80 \<Longrightarrow> fst (cga_scroll pos scr) < 24 * 80"
  by (auto simp: cga_scroll_def)

lemma cga_scroll_frame: "25 * 80 \<le> i \<Longrightarrow> snd (cga_scroll pos scr) i = scr i"
  by (simp add: cga_scroll_def)

lemma cgaputc_bounds:
  assumes "unat (cursor k) < 24 * 80"
  shows "\<exists>p scr. cgaputc c k = Inr (k\<lparr>cursor := p, crt := scr\<rparr>) \<and> unat p < 24 * 80 \<and> (\<forall>i \<ge> 25 * 80. scr i = crt k i)"
proof -
  define pos where "pos = cga_move c (unat (cursor k))"
  define r where "r = cga_scroll pos (cga_draw c (unat (cursor k)) (crt k))"
  have p: "pos \<le> 24 * 80" unfolding pos_def by (rule cga_move_bound[OF assms])
  have "fst r < 24 * 80" unfolding r_def by (rule cga_scroll_bound[OF p])
  moreover have "unat (of_nat (fst r) :: u16) = fst r" using \<open>fst r < 24 * 80\<close> by (simp add: unat_of_nat take_bit_eq_mod)
  moreover have "((snd r)(fst r := 0x0720)) i = crt k i" if "25 * 80 \<le> i" for i
    using that \<open>fst r < 24 * 80\<close> assms by (simp add: r_def cga_scroll_frame cga_draw_def)
  ultimately show ?thesis using p
    by (intro exI[of _ "of_nat (fst r)"] exI[of _ "(snd r)(fst r := 0x0720)"])
      (simp add: cgaputc_def Let_def case_prod_beta flip: pos_def r_def)
qed

definition screen_ok :: "console \<Rightarrow> bool" where
  "screen_ok k \<longleftrightarrow> \<not> panicked k \<and> unat (cursor k) < 24 * 80"

lemma consputc_ok:
  assumes "screen_ok k"
  shows "\<exists>p scr. consputc c k = Inr (k\<lparr>serial := serial k @ (if uart k then sent c else []), cursor := p, crt := scr\<rparr>) \<and>
    unat p < 24 * 80 \<and> (\<forall>i \<ge> 25 * 80. scr i = crt k i)"
  using assms cgaputc_bounds[of "k\<lparr>serial := serial k @ (if uart k then sent c else [])\<rparr>" c]
  by (simp add: screen_ok_def consputc_eq)

lemma sent_byte: "sent (ucast (b :: u8)) = [b]"
proof -
  have "unat b < 2 ^ 8" using unsigned_less[where w = b] by simp
  moreover have "unat (ucast b :: u32) = unat b" by transfer (simp add: take_bit_take_bit)
  ultimately have "unat (ucast b :: u32) < 256" by simp
  then have "(ucast b :: u32) \<noteq> BACKSPACE" by auto
  moreover have "(ucast (ucast b :: u32) :: u8) = b" by transfer (simp add: take_bit_take_bit)
  ultimately show ?thesis by (simp add: sent_def)
qed

text \<open>C27. Console output never runs off the screen: writing any bytes succeeds without the panic on the cursor position, leaves
  the cursor in the first 24 rows, touches no memory behind the 25 rows of 80 cells, and sends exactly the bytes to
  the serial port when there is one.\<close>

theorem console_output_on_screen:
  assumes "screen_ok k"
  shows "\<exists>k'. consputs bs k = Inr k' \<and> screen_ok k' \<and> (\<forall>i. 25 * 80 \<le> i \<longrightarrow> crt k' i = crt k i) \<and>
    serial k' = serial k @ (if uart k then bs else [])"
  using assms
proof (induction bs arbitrary: k)
  case (Cons b bs)
  obtain p scr where p: "consputc (ucast b) k = Inr (k\<lparr>serial := serial k @ (if uart k then [b] else []), cursor := p, crt := scr\<rparr>)"
    "unat p < 24 * 80" "\<forall>i \<ge> 25 * 80. scr i = crt k i"
    using consputc_ok[OF Cons.prems, of "ucast b"] unfolding sent_byte by blast
  let ?k = "k\<lparr>serial := serial k @ (if uart k then [b] else []), cursor := p, crt := scr\<rparr>"
  have "screen_ok ?k" using Cons.prems p(2) by (simp add: screen_ok_def)
  from Cons.IH[OF this] show ?case using p(1,3) by auto
qed auto

definition fresh_console :: console where
  "fresh_console = \<lparr>panicked = False, uart = True, serial = [], crt = (\<lambda>_. 0), cursor = 1919, ibuf = replicate INPUT_BUF 0, ir = 0, iw = 0, ie = 0\<rparr>"

theorem console_output_on_screen_witness:
  "\<exists>k'. consputs [104, 105, 10] fresh_console = Inr k' \<and> screen_ok k' \<and> serial k' = [104, 105, 10]"
proof -
  have "screen_ok fresh_console" by (simp add: screen_ok_def fresh_console_def)
  from console_output_on_screen[OF this, of "[104, 105, 10]"] show ?thesis by (auto simp: fresh_console_def)
qed

section \<open>The line discipline\<close>

text \<open>What the console promises its readers: finished lines, and a line that is still being edited.\<close>

definition line_char :: "u8 \<Rightarrow> u8 list \<times> u8 list \<Rightarrow> u8 list \<times> u8 list" where
  "line_char c = (\<lambda>(ready, line).
     if c = 16 then (ready, line)
     else if c = 21 then (ready, [])
     else if c = 8 \<or> c = 0x7F then (ready, butlast line)
     else if c \<noteq> 0 \<and> length ready + length line < INPUT_BUF
     then let d = (if c = 13 then 10 else c) in
       if d = 10 \<or> d = 4 \<or> length ready + length line + 1 = INPUT_BUF then (ready @ line @ [d], []) else (ready, line @ [d])
     else (ready, line))"

fun line_read :: "bool \<Rightarrow> nat \<Rightarrow> nat \<Rightarrow> u8 list \<Rightarrow> conread \<times> u8 list" where
  "line_read kld target 0 ready = (ConRet [], ready)"
| "line_read kld target (Suc n) [] = (if kld then ConKilled else ConSleeps [] (Suc n), [])"
| "line_read kld target (Suc n) (c # cs) =
     (if c = 4 then (ConRet [], if Suc n < target then c # cs else cs)
      else if c = 10 then (ConRet [c], cs)
      else con_cons c (line_read kld target n cs))"

definition con_abs :: "console \<Rightarrow> u8 list \<times> u8 list" where
  "con_abs k = (ring (ibuf k) (ir k) (iw k), ring (ibuf k) (iw k) (ie k))"

definition con_ok :: "console \<Rightarrow> bool" where
  "con_ok k \<longleftrightarrow> screen_ok k \<and> length (ibuf k) = INPUT_BUF \<and> unat (iw k - ir k) \<le> unat (ie k - ir k) \<and>
     unat (ie k - ir k) \<le> INPUT_BUF \<and> 10 \<notin> set (ring (ibuf k) (iw k) (ie k))"

lemma con_lengths:
  assumes "con_ok k"
  shows "unat (ie k - ir k) = unat (iw k - ir k) + unat (ie k - iw k)"
  using assms ring_append[of "iw k" "ir k" "ie k" "ibuf k"] by (metis con_ok_def length_append length_ring)

lemma screen_only:
  "con_abs (k\<lparr>serial := x, cursor := p, crt := scr\<rparr>) = con_abs k"
  "con_ok k \<Longrightarrow> unat p < 24 * 80 \<Longrightarrow> con_ok (k\<lparr>serial := x, cursor := p, crt := scr\<rparr>)"
  by (simp_all add: con_abs_def con_ok_def screen_ok_def)

lemma con_unput:
  assumes "con_ok k" "ie k \<noteq> iw k"
  shows "con_ok (k\<lparr>ie := ie k - 1\<rparr>)" "con_abs (k\<lparr>ie := ie k - 1\<rparr>) = (fst (con_abs k), butlast (snd (con_abs k)))"
proof -
  note l = con_lengths[OF assms(1)]
  note u = ring_unput[OF assms(2), of "ibuf k"]
  have m: "unat (ie k - 1 - iw k) = unat (ie k - iw k) - 1" using arg_cong[OF u, of length] by simp
  have p: "0 < unat (ie k - iw k)" using arg_cong[OF u, of length] by simp
  then have "ie k \<noteq> ir k" using l by auto
  from ring_unput[OF this, of "ibuf k"] have n: "unat (ie k - 1 - ir k) = unat (ie k - ir k) - 1" by (metis add_diff_cancel_right' length_append length_ring list.size(3) length_Cons One_nat_def)
  have "set (ring (ibuf k) (iw k) (ie k - 1)) \<subseteq> set (ring (ibuf k) (iw k) (ie k))" using u by auto
  then show "con_ok (k\<lparr>ie := ie k - 1\<rparr>)" using assms l n p by (auto simp: con_ok_def screen_ok_def)
  show "con_abs (k\<lparr>ie := ie k - 1\<rparr>) = (fst (con_abs k), butlast (snd (con_abs k)))" by (simp add: con_abs_def u)
qed

lemma backspace_ok:
  assumes "con_ok k" "ie k \<noteq> iw k"
  shows "\<exists>k'. consputc BACKSPACE (k\<lparr>ie := ie k - 1\<rparr>) = Inr k' \<and> con_ok k' \<and>
    con_abs k' = (fst (con_abs k), butlast (snd (con_abs k))) \<and> ie k' = ie k - 1 \<and> iw k' = iw k"
proof -
  let ?k = "k\<lparr>ie := ie k - 1\<rparr>"
  note u = con_unput[OF assms]
  have "screen_ok ?k" using u(1) by (simp add: con_ok_def)
  then obtain x p scr where c: "consputc BACKSPACE ?k = Inr (?k\<lparr>serial := x, cursor := p, crt := scr\<rparr>)" "unat p < 24 * 80"
    using consputc_ok by metis
  show ?thesis unfolding c(1) using screen_only(2)[OF u(1) c(2)] u(2) screen_only(1)[of scr p x ?k] by simp
qed

lemma kill_line_ok:
  assumes "con_ok k"
  shows "\<exists>k'. kill_line k = Inr k' \<and> con_ok k' \<and> con_abs k' = (fst (con_abs k), [])"
  using assms
proof (induction "unat (ie k - iw k)" arbitrary: k)
  case 0
  then have "ie k = iw k" by (simp add: unat_eq_zero)
  then show ?case using 0 by (subst kill_line.simps) (simp add: con_abs_def)
next
  case (Suc n)
  then have ne: "ie k \<noteq> iw k" by auto
  note u = ring_unput[OF ne, of "ibuf k"]
  have "10 \<notin> set (ring (ibuf k) (iw k) (ie k))" "length (ibuf k) = INPUT_BUF" using Suc.prems by (simp_all add: con_ok_def)
  then have nl: "ibuf k ! (unat (ie k - 1) mod INPUT_BUF) \<noteq> 10" using u by auto
  obtain k1 where k1: "consputc BACKSPACE (k\<lparr>ie := ie k - 1\<rparr>) = Inr k1" "con_ok k1"
    "con_abs k1 = (fst (con_abs k), butlast (snd (con_abs k)))" "ie k1 = ie k - 1" "iw k1 = iw k"
    using backspace_ok[OF Suc.prems ne] by auto
  have "n = unat (ie k1 - iw k1)" using Suc.hyps(2) arg_cong[OF u, of length] k1(4,5) by simp
  from Suc.hyps(1)[OF this k1(2)] obtain k' where "kill_line k1 = Inr k'" "con_ok k'" "con_abs k' = (fst (con_abs k1), [])" by blast
  then show ?case using ne nl k1(1,3) by (subst kill_line.simps) simp
qed

lemma con_put:
  fixes d :: u8
  assumes "con_ok k" "unat (ie k - ir k) < INPUT_BUF"
  defines "k1 \<equiv> k\<lparr>ibuf := (ibuf k)[unat (ie k) mod INPUT_BUF := d], ie := ie k + 1\<rparr>"
  shows "d \<noteq> 10 \<Longrightarrow> con_ok k1" "con_abs k1 = (fst (con_abs k), snd (con_abs k) @ [d])"
    "con_ok (k1\<lparr>iw := ie k1\<rparr>)" "con_abs (k1\<lparr>iw := ie k1\<rparr>) = (fst (con_abs k) @ snd (con_abs k) @ [d], [])"
proof -
  note l = con_lengths[OF assms(1)]
  have len: "length (ibuf k) = INPUT_BUF" using assms(1) by (simp add: con_ok_def)
  have n: "unat (ie k + 1 - ir k) = Suc (unat (ie k - ir k))" using assms(2) by (intro unat_ring_Suc[of _ _ 128]) simp_all
  let ?b = "(ibuf k)[unat (ie k) mod INPUT_BUF := d]"
  have line: "ring ?b (iw k) (ie k + 1) = ring (ibuf k) (iw k) (ie k) @ [d]"
    using assms(2) l by (intro ring_put[OF len]) simp_all
  have all: "ring ?b (ir k) (ie k + 1) = ring (ibuf k) (ir k) (ie k) @ [d]"
    using assms(2) by (intro ring_put[OF len]) simp_all
  have spl: "ring (ibuf k) (ir k) (ie k) = ring (ibuf k) (ir k) (iw k) @ ring (ibuf k) (iw k) (ie k)" using l by (intro ring_append) simp
  have "ring ?b (ir k) (ie k + 1) = ring ?b (ir k) (iw k) @ ring ?b (iw k) (ie k + 1)" using l n by (intro ring_append) simp
  then have ready: "ring ?b (ir k) (iw k) = ring (ibuf k) (ir k) (iw k)" using all line spl by simp
  show "con_abs k1 = (fst (con_abs k), snd (con_abs k) @ [d])" by (simp add: con_abs_def k1_def line ready)
  show "con_abs (k1\<lparr>iw := ie k1\<rparr>) = (fst (con_abs k) @ snd (con_abs k) @ [d], [])" by (simp add: con_abs_def k1_def all spl)
  show "con_ok (k1\<lparr>iw := ie k1\<rparr>)" using assms(1,2) n by (simp add: con_ok_def k1_def screen_ok_def)
  show "con_ok k1" if "d \<noteq> 10" using assms(1,2) n l that line by (auto simp: con_ok_def k1_def screen_ok_def)
qed
lemma full_iff:
  assumes "unat (ie k - ir k) < INPUT_BUF"
  shows "ie k + 1 = ir k + 128 \<longleftrightarrow> unat (ie k - ir k) + 1 = INPUT_BUF"
proof -
  have n: "unat (ie k + 1 - ir k) = Suc (unat (ie k - ir k))" using assms by (intro unat_ring_Suc[of _ _ 128]) simp_all
  have "ie k + 1 = ir k + 128 \<longleftrightarrow> ie k + 1 - ir k = 128" by (auto simp: algebra_simps)
  also have "\<dots> \<longleftrightarrow> unat (ie k + 1 - ir k) = 128" by (simp add: word_unat_eq_iff)
  finally show ?thesis using n by simp
qed

lemma input_char_ok:
  assumes "con_ok k"
  shows "\<exists>k'. input_char c k = Inr (c = 16, length (fst (con_abs k)) < length (fst (con_abs k')), k') \<and> con_ok k' \<and> con_abs k' = line_char c (con_abs k)"
proof -
  obtain ready line where a: "con_abs k = (ready, line)" by fastforce
  then have l: "length ready = unat (iw k - ir k)" "length line = unat (ie k - iw k)" by (auto simp: con_abs_def)
  have e: "ie k \<noteq> iw k \<longleftrightarrow> line \<noteq> []" using a ring_Nil_iff[of "ibuf k" "iw k" "ie k"] by (auto simp: con_abs_def)
  have room: "ie k - ir k < 128 \<longleftrightarrow> length ready + length line < INPUT_BUF" using con_lengths[OF assms] l by (simp add: word_less_nat_alt)
  consider "c = 16" | "c = 21" | "c = 8 \<or> c = 0x7F" "line = []" | "c = 8 \<or> c = 0x7F" "line \<noteq> []"
    | "c \<notin> {16, 21, 8, 0x7F}" "\<not> (c \<noteq> 0 \<and> ie k - ir k < 128)" | "c \<notin> {16, 21, 8, 0x7F}" "c \<noteq> 0" "ie k - ir k < 128" by blast
  then show ?thesis
  proof cases
    case 1
    then show ?thesis using assms a by (simp add: input_char_def line_char_def)
  next
    case 2
    then show ?thesis using kill_line_ok[OF assms] a by (auto simp: input_char_def line_char_def)
  next
    case 3
    then show ?thesis using assms a e by (auto simp: input_char_def line_char_def)
  next
    case 4
    then have "ie k \<noteq> iw k" using e by simp
    then obtain k1 where "consputc BACKSPACE (k\<lparr>ie := ie k - 1\<rparr>) = Inr k1" "con_ok k1" "con_abs k1 = (ready, butlast line)"
      using backspace_ok[OF assms] a by auto
    then show ?thesis using 4 a e by (auto simp: input_char_def line_char_def)
  next
    case 5
    then show ?thesis using assms a room by (auto simp: input_char_def line_char_def)
  next
    case 6
    define d where "d = (if c = 13 then 10 else c)"
    define k1 where "k1 = k\<lparr>ibuf := (ibuf k)[unat (ie k) mod INPUT_BUF := d], ie := ie k + 1\<rparr>"
    have lt: "unat (ie k - ir k) < INPUT_BUF" using 6(3) by (simp add: word_less_nat_alt)
    note put = con_put[OF assms lt, of d, folded k1_def]
    have "screen_ok k1" using assms by (simp add: con_ok_def screen_ok_def k1_def)
    then obtain x p scr where k2: "consputc (ucast d) k1 = Inr (k1\<lparr>serial := x, cursor := p, crt := scr\<rparr>)" and p: "unat p < 24 * 80"
      using consputc_ok by metis
    have full: "ie k1 = ir k1 + 128 \<longleftrightarrow> length ready + length line + 1 = INPUT_BUF"
      using full_iff[OF lt] con_lengths[OF assms] l by (simp add: k1_def)
    have in1: "input_char c k = (let k2 = k1\<lparr>serial := x, cursor := p, crt := scr\<rparr> in
        if d = 10 \<or> d = 4 \<or> ie k1 = ir k1 + 128 then Inr (False, True, k2\<lparr>iw := ie k2\<rparr>) else Inr (False, False, k2))"
      using 6 k2 by (simp add: input_char_def Let_def flip: d_def k1_def)
    have li: "line_char c (ready, line) = (if d = 10 \<or> d = 4 \<or> length ready + length line + 1 = INPUT_BUF then (ready @ line @ [d], []) else (ready, line @ [d]))"
      using 6 room by (simp add: line_char_def Let_def flip: d_def)
    show ?thesis
    proof (cases "d = 10 \<or> d = 4 \<or> ie k1 = ir k1 + 128")
      case True
      let ?k = "k1\<lparr>serial := x, cursor := p, crt := scr\<rparr>\<lparr>iw := ie k1\<rparr>"
      have "con_ok ?k" using put(3) p by (simp add: con_ok_def screen_ok_def)
      moreover have "con_abs ?k = (ready @ line @ [d], [])" using put(4) a by (simp add: con_abs_def)
      ultimately show ?thesis using 6 True in1 li full a by (intro exI[of _ ?k]) (simp add: Let_def)
    next
      case False
      let ?k = "k1\<lparr>serial := x, cursor := p, crt := scr\<rparr>"
      have "con_ok ?k" using screen_only(2)[OF put(1) p] False by simp
      moreover have "con_abs ?k = (ready, line @ [d])" using put(2) a by (simp add: screen_only(1))
      ultimately show ?thesis using 6 False in1 li full a by (intro exI[of _ ?k]) (simp add: Let_def)
    qed
  qed
qed
lemma length_line_char: "length (fst (line_char c rl)) \<ge> length (fst rl)"
  by (auto simp: line_char_def Let_def split: prod.splits)

lemma consoleintr_ok:
  assumes "con_ok k"
  shows "\<exists>k'. consoleintr cs k = Inr (16 \<in> set cs, length (fst (con_abs k)) < length (fst (con_abs k')), k') \<and> con_ok k' \<and>
    con_abs k' = fold line_char cs (con_abs k) \<and> length (fst (con_abs k)) \<le> length (fst (con_abs k'))"
  using assms
proof (induction cs arbitrary: k)
  case (Cons c cs)
  from input_char_ok[OF Cons.prems] obtain k1 where k1: "input_char c k = Inr (c = 16, length (fst (con_abs k)) < length (fst (con_abs k1)), k1)"
    "con_ok k1" "con_abs k1 = line_char c (con_abs k)" by blast
  have le: "length (fst (con_abs k)) \<le> length (fst (con_abs k1))" unfolding k1(3) by (rule length_line_char)
  from Cons.IH[OF k1(2)] obtain k2 where k2: "consoleintr cs k1 = Inr (16 \<in> set cs, length (fst (con_abs k1)) < length (fst (con_abs k2)), k2)"
    "con_ok k2" "con_abs k2 = fold line_char cs (con_abs k1)" "length (fst (con_abs k1)) \<le> length (fst (con_abs k2))" by blast
  have "consoleintr (c # cs) k = Inr (16 \<in> set (c # cs), length (fst (con_abs k)) < length (fst (con_abs k2)), k2)"
    using k1(1) k2(1,4) le by auto
  then show ?case using k1(3) k2 le by auto
qed simp

lemma con_get:
  assumes "con_ok k" "con_abs k = (c # cs, line)"
  shows "ir k \<noteq> iw k" "ibuf k ! (unat (ir k) mod INPUT_BUF) = c" "con_ok (k\<lparr>ir := ir k + 1\<rparr>)" "con_abs (k\<lparr>ir := ir k + 1\<rparr>) = (cs, line)"
proof -
  have r: "ring (ibuf k) (ir k) (iw k) = c # cs" "length (ibuf k) = INPUT_BUF" using assms by (auto simp: con_abs_def con_ok_def)
  show ne: "ir k \<noteq> iw k" using r(1) by auto
  have g: "ring (ibuf k) (ir k) (iw k) = ibuf k ! (unat (ir k) mod 128) # ring (ibuf k) (ir k + 1) (iw k)"
    using ring_get[of "ibuf k" "iw k" "ir k"] ne r(2) by simp
  then show "ibuf k ! (unat (ir k) mod INPUT_BUF) = c" using r by simp
  show "con_abs (k\<lparr>ir := ir k + 1\<rparr>) = (cs, line)" using g r assms(2) by (simp add: con_abs_def)
  have w: "unat (iw k - ir k) = Suc (unat (iw k - (ir k + 1)))" using ne by (intro offset_Suc) simp
  then have "ie k \<noteq> ir k" using con_lengths[OF assms(1)] by auto
  then have "unat (ie k - ir k) = Suc (unat (ie k - (ir k + 1)))" by (rule offset_Suc)
  then show "con_ok (k\<lparr>ir := ir k + 1\<rparr>)" using assms(1) w by (simp add: con_ok_def screen_ok_def)
qed

lemma consoleread_loop_ok:
  assumes "con_ok k" "con_abs k = (ready, line)"
  shows "\<exists>k'. consoleread_loop kld target n k = (fst (line_read kld target n ready), k') \<and> con_ok k' \<and> con_abs k' = (snd (line_read kld target n ready), line)"
  using assms
proof (induction kld target n ready arbitrary: k rule: line_read.induct)
  case (1 kld target ready)
  then show ?case by simp
next
  case (2 kld target n)
  then have "ir k = iw k" using ring_Nil_iff[of "ibuf k" "ir k" "iw k"] by (simp add: con_abs_def)
  then show ?case using 2 by simp
next
  case (3 kld target n c cs)
  let ?k1 = "k\<lparr>ir := ir k + 1\<rparr>"
  note g = con_get[OF "3.prems"]
  consider "c = 4" | "c = 10" | "c \<noteq> 4" "c \<noteq> 10" by blast
  then show ?case
  proof cases
    case 1
    then show ?thesis using g "3.prems" by simp
  next
    case 2
    then show ?thesis using g by simp
  next
    case 3
    from "3.IH"[OF 3 g(3,4)] obtain k' where k': "consoleread_loop kld target n ?k1 = (fst (line_read kld target n cs), k')" "con_ok k'"
      "con_abs k' = (snd (line_read kld target n cs), line)" by blast
    obtain o2 r2 where lr: "line_read kld target n cs = (o2, r2)" by fastforce
    have "consoleread_loop kld target (Suc n) k = con_cons c (o2, k')" using 3 g k'(1) lr by (simp add: Let_def)
    moreover have "line_read kld target (Suc n) (c # cs) = con_cons c (o2, r2)" using 3 lr by simp
    ultimately show ?thesis using k'(2,3) lr by (cases o2) simp_all
  qed
qed

text \<open>A history of the console: keyboard or serial interrupts that deliver bytes, and readers that enter or
  resume \<^verbatim>\<open>consoleread\<close> with \<open>n\<close> of \<open>target\<close> bytes to go.\<close>

datatype con_ev = Typed "u8 list" | Reads bool nat nat
datatype con_out = Woke bool | Got conread

fun con_run :: "con_ev list \<Rightarrow> console \<Rightarrow> (con_out list \<times> console) res" where
  "con_run [] k = Inr ([], k)"
| "con_run (Typed cs # evs) k =
     rbind (consoleintr cs k) (\<lambda>(d, w, k1). rbind (con_run evs k1) (\<lambda>(os, k2). Inr (Woke w # os, k2)))"
| "con_run (Reads kld target n # evs) k =
     (let (r, k1) = consoleread_loop kld target n k in rbind (con_run evs k1) (\<lambda>(os, k2). Inr (Got r # os, k2)))"

fun line_run :: "con_ev list \<Rightarrow> u8 list \<times> u8 list \<Rightarrow> con_out list \<times> u8 list \<times> u8 list" where
  "line_run [] s = ([], s)"
| "line_run (Typed cs # evs) s =
     (let s1 = fold line_char cs s; (os, s2) = line_run evs s1 in (Woke (length (fst s) < length (fst s1)) # os, s2))"
| "line_run (Reads kld target n # evs) s =
     (let (r, ready) = line_read kld target n (fst s); (os, s2) = line_run evs (ready, snd s) in (Got r # os, s2))"

text \<open>C16. The console input ring implements the line discipline: for any interleaving of typing and reading, also when
  the 32-bit counters wrap, readers get what the abstract line editor gives them (bytes of finished lines in order, erased
  ones never, at most one line a read, control-D as end of file), they are woken exactly when new input is ready for
  them, and no sequence of keys makes the console panic.\<close>

theorem console_line_discipline:
  assumes "con_ok k"
  shows "\<exists>k'. con_run evs k = Inr (fst (line_run evs (con_abs k)), k') \<and> con_ok k' \<and> con_abs k' = snd (line_run evs (con_abs k))"
  using assms
proof (induction evs arbitrary: k)
  case (Cons ev evs)
  show ?case
  proof (cases ev)
    case (Typed cs)
    from consoleintr_ok[OF Cons.prems, of cs] obtain k1 where k1: "consoleintr cs k = Inr (16 \<in> set cs, length (fst (con_abs k)) < length (fst (con_abs k1)), k1)"
      "con_ok k1" "con_abs k1 = fold line_char cs (con_abs k)" by blast
    from Cons.IH[OF k1(2)] show ?thesis using Typed k1 by (auto simp: Let_def split: prod.splits)
  next
    case (Reads kld target n)
    obtain ready line where a: "con_abs k = (ready, line)" by fastforce
    from consoleread_loop_ok[OF Cons.prems a, of kld target n] obtain k1 where "consoleread_loop kld target n k = (fst (line_read kld target n ready), k1)"
      "con_ok k1" "con_abs k1 = (snd (line_read kld target n ready), line)" by blast
    with Cons.IH[OF this(2)] show ?thesis using Reads a by (auto simp: Let_def split: prod.splits)
  qed
qed simp

theorem console_line_discipline_witness:
  "\<exists>k'. con_run [Typed [108, 120, 8, 115, 13, 4], Reads False 10 10, Reads False 10 10] fresh_console =
     Inr ([Woke True, Got (ConRet [108, 115, 10]), Got (ConRet [])], k')"
proof -
  have "con_ok fresh_console" by (simp add: con_ok_def screen_ok_def fresh_console_def)
  moreover have "con_abs fresh_console = ([], [])" by (simp add: con_abs_def fresh_console_def)
  moreover have "line_run [Typed [108, 120, 8, 115, 13, 4], Reads False 10 10, Reads False 10 10] ([], []) =
      ([Woke True, Got (ConRet [108, 115, 10]), Got (ConRet [])], [], [])" by code_simp
  ultimately show ?thesis
    using console_line_discipline[of fresh_console "[Typed [108, 120, 8, 115, 13, 4], Reads False 10 10, Reads False 10 10]"] by auto
qed

end
