(* ===== verification/Kbd.thy ===== *)
theory Kbd
  imports Console
begin

text \<open>
  The keyboard, \<^verbatim>\<open>src/src/kbd.c\<close> and \<^verbatim>\<open>src/src/kbd.h\<close>: scan codes to characters. A table of 256 entries is the list of its
  leading entries followed by the entries given by index, the others are 0. \<open>shift\<close> is the static variable of
  \<^verbatim>\<open>kbdgetc\<close>.
\<close>

section \<open>The tables\<close>

abbreviation SHIFT :: u32 where "SHIFT \<equiv> 1"
abbreviation CTL :: u32 where "CTL \<equiv> 2"
abbreviation ALT :: u32 where "ALT \<equiv> 4"
abbreviation CAPSLOCK :: u32 where "CAPSLOCK \<equiv> 8"
abbreviation NUMLOCK :: u32 where "NUMLOCK \<equiv> 16"
abbreviation SCROLLLOCK :: u32 where "SCROLLLOCK \<equiv> 32"
abbreviation E0ESC :: u32 where "E0ESC \<equiv> 64"

definition table256 :: "'a::zero list \<Rightarrow> (nat \<times> 'a) list \<Rightarrow> 'a list" where
  "table256 xs es = fold (\<lambda>(i, v) t. t[i := v]) es (xs @ replicate (256 - length xs) 0)"

definition shiftcode :: "u32 list" where
  "shiftcode = table256 [] [(0x1D, CTL), (0x2A, SHIFT), (0x36, SHIFT), (0x38, ALT), (0x9D, CTL), (0xB8, ALT)]"

definition togglecode :: "u32 list" where
  "togglecode = table256 [] [(0x3A, CAPSLOCK), (0x45, NUMLOCK), (0x46, SCROLLLOCK)]"

definition normalmap :: "u8 list" where
  "normalmap = table256
     [0, 27, 49, 50, 51, 52, 53, 54, 55, 56, 57, 48, 45, 61, 8, 9,
      113, 119, 101, 114, 116, 121, 117, 105, 111, 112, 91, 93, 10, 0, 97, 115,
      100, 102, 103, 104, 106, 107, 108, 59, 39, 96, 0, 92, 122, 120, 99, 118,
      98, 110, 109, 44, 46, 47, 0, 42, 0, 32, 0, 0, 0, 0, 0, 0,
      0, 0, 0, 0, 0, 0, 0, 55, 56, 57, 45, 52, 53, 54, 43, 49,
      50, 51, 48, 46, 0, 0, 0, 0]
     [(0x9C, 10), (0xB5, 47), (0xC8, 0xE2), (0xD0, 0xE3), (0xC9, 0xE6), (0xD1, 0xE7), (0xCB, 0xE4), (0xCD, 0xE5), (0x97, 0xE0), (0xCF, 0xE1), (0xD2, 0xE8), (0xD3, 0xE9)]"

definition shiftmap :: "u8 list" where
  "shiftmap = table256
     [0, 27, 33, 64, 35, 36, 37, 94, 38, 42, 40, 41, 95, 43, 8, 9,
      81, 87, 69, 82, 84, 89, 85, 73, 79, 80, 123, 125, 10, 0, 65, 83,
      68, 70, 71, 72, 74, 75, 76, 58, 34, 126, 0, 124, 90, 88, 67, 86,
      66, 78, 77, 60, 62, 63, 0, 42, 0, 32, 0, 0, 0, 0, 0, 0,
      0, 0, 0, 0, 0, 0, 0, 55, 56, 57, 45, 52, 53, 54, 43, 49,
      50, 51, 48, 46, 0, 0, 0, 0]
     [(0x9C, 10), (0xB5, 47), (0xC8, 0xE2), (0xD0, 0xE3), (0xC9, 0xE6), (0xD1, 0xE7), (0xCB, 0xE4), (0xCD, 0xE5), (0x97, 0xE0), (0xCF, 0xE1), (0xD2, 0xE8), (0xD3, 0xE9)]"

definition ctlmap :: "u8 list" where
  "ctlmap = table256
     [0, 0, 0, 0, 0, 0, 0, 0, 0, 0, 0, 0, 0, 0, 0, 0,
      17, 23, 5, 18, 20, 25, 21, 9, 15, 16, 0, 0, 13, 0, 1, 19,
      4, 6, 7, 8, 10, 11, 12, 0, 0, 0, 0, 28, 26, 24, 3, 22,
      2, 14, 13, 0, 0, 239, 0, 0]
     [(0x9C, 13), (0xB5, 0xEF), (0xC8, 0xE2), (0xD0, 0xE3), (0xC9, 0xE6), (0xD1, 0xE7), (0xCB, 0xE4), (0xCD, 0xE5), (0x97, 0xE0), (0xCF, 0xE1), (0xD2, 0xE8), (0xD3, 0xE9)]"

section \<open>The code\<close>

text \<open>\<^verbatim>\<open>kbdgetc\<close> with the status byte \<open>st\<close> and the data byte \<open>d\<close> that the controller delivers.\<close>

definition kbdgetc :: "u8 \<Rightarrow> u8 \<Rightarrow> u32 \<Rightarrow> int \<times> u32" where
  "kbdgetc st d shift =
     (if st AND 1 = 0 then (- 1, shift)
      else if d = 0xE0 then (0, shift OR E0ESC)
      else if d AND 0x80 \<noteq> 0
      then let d1 = (if shift AND E0ESC \<noteq> 0 then d else d AND 0x7F) in
        (0, shift AND NOT (shiftcode ! unat d1 OR E0ESC))
      else
        let (d1, shift1) = (if shift AND E0ESC \<noteq> 0 then (d OR 0x80, shift AND NOT E0ESC) else (d, shift));
            shift2 = (shift1 OR shiftcode ! unat d1) XOR togglecode ! unat d1;
            c = [normalmap, shiftmap, ctlmap, ctlmap] ! unat (shift2 AND (CTL OR SHIFT)) ! unat d1;
            c1 = (if shift2 AND CAPSLOCK \<noteq> 0
                  then if 97 \<le> c \<and> c \<le> 122 then c - 32 else if 65 \<le> c \<and> c \<le> 90 then c + 32 else c
                  else c) in
        (uint c1, shift2))"

text \<open>\<^verbatim>\<open>kbdintr\<close>: \<^verbatim>\<open>consoleintr\<close> calls \<^verbatim>\<open>kbdgetc\<close> until the controller has no byte left.\<close>

fun kbd_chars :: "u8 list \<Rightarrow> u32 \<Rightarrow> u8 list \<times> u32" where
  "kbd_chars [] shift = ([], shift)"
| "kbd_chars (d # ds) shift =
     (let (c, shift1) = kbdgetc 1 d shift; (cs, shift2) = kbd_chars ds shift1 in (of_int c # cs, shift2))"

definition kbdintr :: "u8 list \<Rightarrow> u32 \<times> console \<Rightarrow> (bool \<times> bool \<times> u32 \<times> console) res" where
  "kbdintr ds = (\<lambda>(shift, k).
     let (cs, shift1) = kbd_chars ds shift in rbind (consoleintr cs k) (\<lambda>(d, w, k1). Inr (d, w, shift1, k1)))"

text \<open>The serial port, \<^verbatim>\<open>uartgetc\<close>: \<open>st\<close> is the line status register, \<open>d\<close> the data register.\<close>

definition uartgetc :: "u8 \<Rightarrow> u8 \<Rightarrow> console \<Rightarrow> int" where
  "uartgetc st d k = (if \<not> uart k then - 1 else if st AND 1 = 0 then - 1 else uint d)"

section \<open>Letters\<close>

abbreviation letter_codes :: "u8 list" where
  "letter_codes \<equiv> [0x10, 0x11, 0x12, 0x13, 0x14, 0x15, 0x16, 0x17, 0x18, 0x19, 0x1E, 0x1F, 0x20, 0x21, 0x22, 0x23, 0x24, 0x25, 0x26,
     0x2C, 0x2D, 0x2E, 0x2F, 0x30, 0x31, 0x32]"

definition key_letter :: "u8 \<Rightarrow> int" where
  "key_letter d = uint (normalmap ! unat d)"
lemma table256_nth:
  assumes "i < 256" "length xs \<le> 256" "list_all (\<lambda>(j, v). j < 256) es"
  shows "table256 xs es ! i = (case map_of (rev es) i of Some v \<Rightarrow> v | None \<Rightarrow> if i < length xs then xs ! i else 0)"
proof -
  have "fold (\<lambda>(i, v) t. t[i := v]) es t ! i = (case map_of (rev es) i of Some v \<Rightarrow> v | None \<Rightarrow> t ! i)" if "length t = 256" for t
    using that assms(3)
  proof (induction es arbitrary: t)
    case (Cons e es)
    obtain j v where e: "e = (j, v)" by fastforce
    show ?case using Cons.IH[of "t[j := v]"] Cons.prems assms(1) by (auto simp: e map_add_def map_of_append nth_list_update split: option.splits)
  qed simp
  from this[of "xs @ replicate (256 - length xs) 0"] show ?thesis using assms(1,2)
    by (auto simp: table256_def nth_append split: option.splits)
qed

lemmas key_tables = normalmap_def shiftmap_def ctlmap_def shiftcode_def togglecode_def table256_nth

definition letter_row :: "u8 \<Rightarrow> bool" where
  "letter_row d \<longleftrightarrow> shiftcode ! unat d = 0 \<and> togglecode ! unat d = 0 \<and> 97 \<le> normalmap ! unat d \<and> normalmap ! unat d \<le> 122 \<and>
     shiftmap ! unat d = normalmap ! unat d - 32 \<and> ctlmap ! unat d = normalmap ! unat d - 96 \<and> d AND 0x80 = 0 \<and> d \<noteq> 0xE0"

lemma letter_rows: "list_all letter_row letter_codes"
  by (simp add: letter_row_def key_tables)
lemma letter_arith:
  assumes "97 \<le> n" "n \<le> (122 :: u8)"
  shows "uint (n - 32) = uint n - 32" "uint (n - 96) = uint n - 96" "65 \<le> n - 32" "n - 32 \<le> 90" "\<not> 97 \<le> n - 32" "n - 96 \<le> 26"
  using assms by uint_arith+

lemma and_mask: "(s :: u32) AND 2 = (if bit s 1 then 2 else 0)" "s AND 1 = (if bit s 0 then 1 else 0)"
  "s AND 3 = (if bit s 1 then 2 else 0) + (if bit s 0 then 1 else 0)"
proof -
  show "s AND 2 = (if bit s 1 then 2 else 0)" "s AND 1 = (if bit s 0 then 1 else 0)"
    by (auto intro!: bit_word_eqI simp: bit_and_iff bit_numeral_rec bit_1_iff numeral_eq_Suc split: nat.splits)
  show "s AND 3 = (if bit s 1 then 2 else 0) + (if bit s 0 then 1 else 0)"
    by (auto intro!: bit_word_eqI simp: bit_and_iff bit_numeral_rec bit_1_iff numeral_eq_Suc split: nat.splits)
qed
text \<open>C33. Letter keys: unless an escape code is pending, pressing the key of a letter gives the control character when control is held,
  the upper case letter when exactly one of shift and caps lock is on, and the lower case letter otherwise; the
  modifier state does not change.\<close>

theorem keyboard_letters:
  assumes "d \<in> set letter_codes" "sh AND E0ESC = 0"
  shows "kbdgetc 1 d sh =
    (if sh AND CTL \<noteq> 0 then key_letter d - 96
     else if (sh AND SHIFT \<noteq> 0) \<noteq> (sh AND CAPSLOCK \<noteq> 0) then key_letter d - 32
     else key_letter d, sh)"
proof -
  have r: "letter_row d" using letter_rows assms(1) unfolding list_all_iff by (rule bspec)
  define n where "n = normalmap ! unat d"
  have n: "97 \<le> n" "n \<le> 122" using r by (simp_all add: letter_row_def n_def)
  have sel: "[normalmap, shiftmap, ctlmap, ctlmap] ! unat (sh AND 3) ! unat d =
      (if bit sh 1 then n - 96 else if bit sh 0 then n - 32 else n)"
    using r by (simp add: and_mask letter_row_def n_def)
  have k: "key_letter d = uint n" by (simp add: key_letter_def n_def)
  have nots: "\<not> 97 \<le> n - 96" "\<not> 65 \<le> n - 96" using letter_arith(6)[OF n] by uint_arith+
  have up: "65 \<le> n" "n - 32 + 32 = n" using n by uint_arith+
  show ?thesis using assms(2) r n letter_arith[OF n] nots up
    by (simp add: kbdgetc_def Let_def letter_row_def sel and_mask(1,2) k split: if_split)
qed

theorem keyboard_letters_witness: "kbdgetc 1 0x10 (SHIFT OR CAPSLOCK) = (113, SHIFT OR CAPSLOCK)"
  using keyboard_letters[of "0x10" "SHIFT OR CAPSLOCK"] by (simp add: key_letter_def key_tables)

end
