(* ===== verification/Sh.thy ===== *)
theory Sh
  imports Cstring Fcntl
begin

text \<open>
  The shell, \<^verbatim>\<open>src/src/sh.c\<close>. The command line is the list \<open>b\<close> of its bytes before the NUL; a pointer into it is an
  offset, and reading at the end gives the NUL. A parsed command keeps the two ends of every word, as
  \<^verbatim>\<open>argv\<close>/\<^verbatim>\<open>eargv\<close> and \<^verbatim>\<open>file\<close>/\<^verbatim>\<open>efile\<close> do. The shell's \<^verbatim>\<open>panic\<close> is the outcome \<open>Panic\<close>; \<^verbatim>\<open>malloc\<close> succeeds. The four
  functions that call each other take fuel, and \<open>Inl Spins\<close> means that it has run out; \<open>Shparse\<close> shows
  how much is enough.
\<close>

section \<open>Tokens\<close>

definition char_at :: "u8 list \<Rightarrow> nat \<Rightarrow> u8" where
  "char_at b s = (if s < length b then b ! s else 0)"

definition whitespace :: "u8 list" where "whitespace = [32, 9, 13, 10, 11]"
definition symbols :: "u8 list" where "symbols = [60, 124, 62, 38, 59, 40, 41]"

text \<open>Skipping characters while \<open>P\<close> holds, up to the end.\<close>

function skip_while :: "(u8 \<Rightarrow> bool) \<Rightarrow> u8 list \<Rightarrow> nat \<Rightarrow> nat" where
  "skip_while P b s = (if s < length b \<and> P (char_at b s) then skip_while P b (Suc s) else s)"
  by pat_completeness auto
termination by (relation "measure (\<lambda>(P, b, s). length b - s)") auto

declare skip_while.simps [simp del]

definition skip_ws :: "u8 list \<Rightarrow> nat \<Rightarrow> nat" where
  "skip_ws b s = skip_while (\<lambda>c. c \<in> set whitespace) b s"

text \<open>The results of \<^verbatim>\<open>gettoken\<close>: the kind of token, its start, its end, and the new position.\<close>

definition gettoken :: "u8 list \<Rightarrow> nat \<Rightarrow> u8 \<times> nat \<times> nat \<times> nat" where
  "gettoken b s0 =
     (let q = skip_ws b s0; c = char_at b q;
          (ret, eq) =
            (if c = 0 then (c, q)
             else if c = 62 then if char_at b (q + 1) = 62 then (43, q + 2) else (c, q + 1)
             else if c \<in> set symbols then (c, q + 1)
             else (97, skip_while (\<lambda>c. c \<notin> set whitespace \<and> c \<notin> set symbols) b q)) in
      (ret, q, eq, skip_ws b eq))"

definition peek :: "u8 list \<Rightarrow> nat \<Rightarrow> u8 list \<Rightarrow> bool \<times> nat" where
  "peek b s0 toks = (let s = skip_ws b s0; c = char_at b s in (c \<noteq> 0 \<and> c \<in> set toks, s))"

abbreviation after_token :: "u8 list \<Rightarrow> nat \<Rightarrow> nat" where
  "after_token b s \<equiv> snd (snd (snd (gettoken b s)))"

section \<open>Commands\<close>

type_synonym word_at = "nat \<times> nat"

datatype cmd =
    EXEC "word_at list"
  | REDIR cmd word_at u32 nat
  | PIPE cmd cmd
  | LIST cmd cmd
  | BACK cmd

abbreviation MAXARGS :: nat where "MAXARGS \<equiv> 10"

text \<open>\<^verbatim>\<open>cmd->argv[argc] = q\<close> in the \<^verbatim>\<open>execcmd\<close> that redirections have been wrapped around.\<close>

fun push_arg :: "word_at \<Rightarrow> cmd \<Rightarrow> cmd" where
  "push_arg a (EXEC as) = EXEC (as @ [a])"
| "push_arg a (REDIR c f m fd) = REDIR (push_arg a c) f m fd"
| "push_arg a c = c"

lemma skip_while_ge: "s \<le> skip_while P b s"
proof (induction P b s rule: skip_while.induct)
  case (1 P b s)
  then show ?case by (subst skip_while.simps) force
qed

lemma skip_while_le: "s \<le> length b \<Longrightarrow> skip_while P b s \<le> length b"
proof (induction P b s rule: skip_while.induct)
  case (1 P b s)
  then show ?case by (subst skip_while.simps) simp
qed

lemma skip_ws_ge: "s \<le> skip_ws b s" and skip_ws_le: "s \<le> length b \<Longrightarrow> skip_ws b s \<le> length b"
  by (simp_all add: skip_ws_def skip_while_ge skip_while_le)

lemma char_at_pos: "char_at b s \<noteq> 0 \<Longrightarrow> s < length b"
  by (auto simp: char_at_def split: if_splits)

lemma skip_while_stop: "skip_while P b s < length b \<Longrightarrow> \<not> P (char_at b (skip_while P b s))"
proof (induction P b s rule: skip_while.induct)
  case (1 P b s)
  then show ?case by (cases "s < length b \<and> P (char_at b s)") (simp_all add: skip_while.simps[of P b s])
qed

lemma skip_ws_stop: "skip_ws b s < length b \<Longrightarrow> char_at b (skip_ws b s) \<notin> set whitespace"
  using skip_while_stop[of "\<lambda>c. c \<in> set whitespace" b s] by (simp add: skip_ws_def)

text \<open>The middle part of \<^verbatim>\<open>gettoken\<close>: a token that is there is not empty.\<close>

lemma gettoken_bounds:
  assumes "gettoken b s = (t, q, eq, s')"
  shows "s \<le> q" "q \<le> eq" "eq \<le> s'" "s \<le> length b \<Longrightarrow> s' \<le> length b" "t \<noteq> 0 \<Longrightarrow> q < eq"
proof -
  have q: "q = skip_ws b s" and s': "s' = skip_ws b eq" using assms by (auto simp: gettoken_def Let_def split: prod.splits)
  show "s \<le> q" by (simp add: q skip_ws_ge)
  let ?w = "skip_while (\<lambda>c. c \<notin> set whitespace \<and> c \<notin> set symbols) b q"
  have w: "q < ?w" if "char_at b q \<noteq> 0" "char_at b q \<notin> set symbols"
  proof -
    have "q < length b" using that(1) by (rule char_at_pos)
    moreover have "char_at b q \<notin> set whitespace" using skip_ws_stop[of b s] calculation unfolding q .
    ultimately have "?w = skip_while (\<lambda>c. c \<notin> set whitespace \<and> c \<notin> set symbols) b (Suc q)" using that by (subst skip_while.simps) simp
    then show ?thesis using skip_while_ge[of "Suc q"] by (simp add: Suc_le_eq)
  qed
  have e: "(t = 0 \<and> eq = q) \<or> (q < eq \<and> (s \<le> length b \<longrightarrow> eq \<le> length b))"
  proof (cases "char_at b q = 0")
    case True
    then show ?thesis using assms by (auto simp: gettoken_def Let_def q[symmetric] split: if_splits)
  next
    case False
    note l = char_at_pos[OF False]
    have "char_at b (q + 1) = 62 \<Longrightarrow> q + 1 < length b" using char_at_pos[of b "q + 1"] by simp
    moreover have "?w \<le> length b" using l by (intro skip_while_le) simp
    ultimately show ?thesis using assms False l w by (auto simp: gettoken_def Let_def q[symmetric] symbols_def split: if_splits)
  qed
  then show "q \<le> eq" "t \<noteq> 0 \<Longrightarrow> q < eq" by auto
  show "eq \<le> s'" by (simp add: s' skip_ws_ge)
  have "s \<le> length b \<Longrightarrow> q \<le> length b" by (simp add: q skip_ws_le)
  then show "s \<le> length b \<Longrightarrow> s' \<le> length b" using e by (auto simp: s' intro!: skip_ws_le)
qed

lemma skip_ws_idem [simp]: "skip_ws b (skip_ws b s) = skip_ws b s"
proof (cases "skip_ws b s < length b")
  case True
  then show ?thesis using skip_ws_stop[OF True] by (subst (1) skip_ws_def, subst skip_while.simps) simp
next
  case False
  then show ?thesis by (subst (1) skip_ws_def, subst skip_while.simps) simp
qed

lemma gettoken_kind: "gettoken b s = (t, q, eq, s') \<Longrightarrow> t = 0 \<longleftrightarrow> char_at b (skip_ws b s) = 0"
  by (auto simp: gettoken_def Let_def split: if_splits prod.splits)

lemma peek_gettoken:
  assumes "peek b s toks = (True, s1)"
  shows "s1 < after_token b s1" "s \<le> s1" "s1 < length b" "after_token b s1 \<le> length b"
proof -
  have s1: "s1 = skip_ws b s" and c: "char_at b s1 \<noteq> 0" using assms by (auto simp: peek_def Let_def)
  obtain t q eq s' where g: "gettoken b s1 = (t, q, eq, s')" by (metis prod_cases4)
  note gb = gettoken_bounds[OF g]
  have "t \<noteq> 0" using gettoken_kind[OF g] c s1 by simp
  then show "s1 < after_token b s1" using gb g by auto
  show "s \<le> s1" by (simp add: s1 skip_ws_ge)
  show l: "s1 < length b" using c by (rule char_at_pos)
  show "after_token b s1 \<le> length b" using gb(4) l g by simp
qed

section \<open>The parser\<close>

function parseredirs :: "u8 list \<Rightarrow> cmd \<Rightarrow> nat \<Rightarrow> (cmd \<times> nat) res" where
  "parseredirs b c s =
     (let (p, s1) = peek b s [60, 62] in
      if \<not> p then Inr (c, s1)
      else let (tok, _, _, s2) = gettoken b s1; (tok2, q, eq, s3) = gettoken b s2 in
        if tok2 \<noteq> 97 then Inl (Panic ''missing file for redirection'')
        else parseredirs b
          (if tok = 60 then REDIR c (q, eq) O_RDONLY 0
           else if tok = 62 then REDIR c (q, eq) (O_WRONLY OR O_CREATE) 1
           else if tok = 43 then REDIR c (q, eq) (O_WRONLY OR O_CREATE) 1
           else c) s3)"
  by pat_completeness auto
termination
proof (relation "measure (\<lambda>(b, c, s). length b - s)")
  fix b c s x p s1 y tok u q0 v eq0 s2 z tok2 w q x2 eq s3
  assume "x = peek b s [60, 62]" "(p, s1) = x" "\<not> \<not> p" "y = gettoken b s1" "(tok, u) = y" "(q0, v) = u" "(eq0, s2) = v" "z = gettoken b s2"
    "(tok2, w) = z" "(q, x2) = w" "(eq, s3) = x2"
  then have p: "peek b s [60, 62] = (True, s1)" and g: "after_token b s1 = s2" and g2: "gettoken b s2 = (tok2, q, eq, s3)" by (metis snd_conv)+
  from peek_gettoken[OF p] gettoken_bounds(1,2,3)[OF g2] have "length b - s3 < length b - s" unfolding g by linarith
  then show "((b, if tok = 60 then REDIR c (q, eq) O_RDONLY 0
           else if tok = 62 then REDIR c (q, eq) (O_WRONLY OR O_CREATE) 1
           else if tok = 43 then REDIR c (q, eq) (O_WRONLY OR O_CREATE) 1
           else c, s3), b, c, s) \<in> measure (\<lambda>(b, c, s). length b - s)" by simp
qed simp
declare parseredirs.simps [simp del]

lemma parseredirs_bounds:
  "parseredirs b c s = Inr (c', s') \<Longrightarrow> s \<le> s' \<and> (s \<le> length b \<longrightarrow> s' \<le> length b)"
proof (induction b c s rule: parseredirs.induct)
  case (1 b c s)
  obtain p s1 where p: "peek b s [60, 62] = (p, s1)" by fastforce
  have s1: "s1 = skip_ws b s" using p by (auto simp: peek_def Let_def)
  show ?case
  proof (cases p)
    case False
    then show ?thesis using "1.prems" p skip_ws_ge[of s b] skip_ws_le[of s b] by (subst (asm) parseredirs.simps) (simp add: s1)
  next
    case True
    obtain t q0 e0 s2 where g: "gettoken b s1 = (t, q0, e0, s2)" by (metis prod_cases4)
    obtain t2 q e s3 where g2: "gettoken b s2 = (t2, q, e, s3)" by (metis prod_cases4)
    have p': "peek b s [60, 62] = (True, s1)" using p True by simp
    note pg = peek_gettoken[OF p']
    note gb = gettoken_bounds[OF g2]
    have "t2 = 97" using "1.prems" p True g g2 by (subst (asm) parseredirs.simps) (simp split: if_splits)
    then have "s3 \<le> s' \<and> (s3 \<le> length b \<longrightarrow> s' \<le> length b)"
      using "1.IH"[OF p[symmetric] _ _ g[symmetric] _ _ _ g2[symmetric]] "1.prems" p True g g2 by (subst (asm) parseredirs.simps) simp
    then show ?thesis using pg gb g by simp
  qed
qed

text \<open>The loop of \<^verbatim>\<open>parseline\<close> over ampersands.\<close>

function amp_loop :: "u8 list \<Rightarrow> cmd \<Rightarrow> nat \<Rightarrow> cmd \<times> nat" where
  "amp_loop b c s = (let (p, s1) = peek b s [38] in if p then amp_loop b (BACK c) (after_token b s1) else (c, s1))"
  by pat_completeness auto
termination
proof (relation "measure (\<lambda>(b, c, s). length b - s)")
  fix b c s x p s1
  assume "x = peek b s [38]" "(p, s1) = x" "p"
  then have "peek b s [38] = (True, s1)" by simp
  from peek_gettoken[OF this] show "((b, BACK c, after_token b s1), b, c, s) \<in> measure (\<lambda>(b, c, s). length b - s)" by simp
qed simp

declare amp_loop.simps [simp del]

text \<open>The loop of \<^verbatim>\<open>parseexec\<close> over the words of a simple command.\<close>

function arg_loop :: "u8 list \<Rightarrow> nat \<Rightarrow> cmd \<Rightarrow> nat \<Rightarrow> (cmd \<times> nat) res" where
  "arg_loop b argc ret s =
     (let (p, s1) = peek b s [124, 41, 38, 59] in
      if p then Inr (ret, s1)
      else let (tok, q, eq, s2) = gettoken b s1 in
        if tok = 0 then Inr (ret, s2)
        else if tok \<noteq> 97 then Inl (Panic ''syntax'')
        else if MAXARGS \<le> argc + 1 then Inl (Panic ''too many args'')
        else rbind (parseredirs b (push_arg (q, eq) ret) s2) (\<lambda>(ret1, s3). arg_loop b (argc + 1) ret1 s3))"
  by pat_completeness auto
termination by (relation "measure (\<lambda>(b, argc, ret, s). MAXARGS - argc)") auto

declare arg_loop.simps [simp del]

text \<open>The parser proper. \<^verbatim>\<open>parseline\<close> reads a list, \<^verbatim>\<open>parsepipe\<close> a pipeline, \<^verbatim>\<open>parseblock\<close> a command in parentheses,
  \<^verbatim>\<open>parseexec\<close> a block or a simple command.\<close>

fun parseline :: "nat \<Rightarrow> u8 list \<Rightarrow> nat \<Rightarrow> (cmd \<times> nat) res"
and parsepipe :: "nat \<Rightarrow> u8 list \<Rightarrow> nat \<Rightarrow> (cmd \<times> nat) res"
and parseblock :: "nat \<Rightarrow> u8 list \<Rightarrow> nat \<Rightarrow> (cmd \<times> nat) res"
and parseexec :: "nat \<Rightarrow> u8 list \<Rightarrow> nat \<Rightarrow> (cmd \<times> nat) res" where
  "parseline 0 b s = Inl Spins"
| "parseline (Suc f) b s =
     rbind (parsepipe f b s) (\<lambda>(c, s1).
       let (c1, s2) = amp_loop b c s1; (p, s3) = peek b s2 [59] in
       if p then rbind (parseline f b (after_token b s3)) (\<lambda>(r, s4). Inr (LIST c1 r, s4)) else Inr (c1, s3))"
| "parsepipe 0 b s = Inl Spins"
| "parsepipe (Suc f) b s =
     rbind (parseexec f b s) (\<lambda>(c, s1).
       let (p, s2) = peek b s1 [124] in
       if p then rbind (parsepipe f b (after_token b s2)) (\<lambda>(r, s3). Inr (PIPE c r, s3)) else Inr (c, s2))"
| "parseblock 0 b s = Inl Spins"
| "parseblock (Suc f) b s =
     (let (p, s1) = peek b s [40] in
      if \<not> p then Inl (Panic ''parseblock'')
      else rbind (parseline f b (after_token b s1)) (\<lambda>(c, s2).
        let (p2, s3) = peek b s2 [41] in
        if \<not> p2 then Inl (Panic ''syntax - missing )'')
        else parseredirs b c (after_token b s3)))"
| "parseexec 0 b s = Inl Spins"
| "parseexec (Suc f) b s =
     (let (p, s1) = peek b s [40] in
      if p then parseblock f b s1
      else rbind (parseredirs b (EXEC []) s1) (\<lambda>(ret, s2). arg_loop b 0 ret s2))"

text \<open>Fuel for every call that a line of \<open>n\<close> bytes can lead to.\<close>

definition parse_fuel :: "nat \<Rightarrow> nat" where "parse_fuel n = 4 * n + 4"

fun nulterminate :: "cmd \<Rightarrow> u8 list \<Rightarrow> u8 list" where
  "nulterminate (EXEC as) b = fold (\<lambda>(q, eq) b. b[eq := 0]) as b"
| "nulterminate (REDIR c (q, eq) m fd) b = (nulterminate c b)[eq := 0]"
| "nulterminate (PIPE l r) b = nulterminate r (nulterminate l b)"
| "nulterminate (LIST l r) b = nulterminate r (nulterminate l b)"
| "nulterminate (BACK c) b = nulterminate c b"

text \<open>\<^verbatim>\<open>parsecmd\<close> gives the command and the buffer, with its final NUL, that the words point into. What is left over
  is printed before the message of the panic.\<close>

definition parsecmd :: "u8 list \<Rightarrow> (cmd \<times> u8 list) res" where
  "parsecmd b =
     rbind (parseline (parse_fuel (length b)) b 0) (\<lambda>(c, s).
       let s1 = snd (peek b s []) in
       if s1 \<noteq> length b
       then Inl (Panic (''leftovers: '' @ map (\<lambda>c. char_of (unat c)) (drop s1 b) @ [CHR 0x0A] @ ''syntax''))
       else Inr (c, nulterminate c (b @ [0])))"
section \<open>Running commands\<close>

text \<open>The system calls a process of the shell makes, as a tree with a branch for every outcome that the code
  distinguishes; a child of \<^verbatim>\<open>fork\<close> runs the first branch. \<open>PipeEnd\<close> is \<^verbatim>\<open>p[0]\<close> or \<^verbatim>\<open>p[1]\<close>.\<close>

datatype fdref = Fd nat | PipeEnd nat

datatype proc_run =
    Exits
  | Prints "u8 list" proc_run
  | Execs "u8 list" "u8 list list" proc_run
  | Closes fdref proc_run
  | Opens "u8 list" u32 proc_run proc_run
  | Forks proc_run proc_run proc_run
  | Waits proc_run
  | MakesPipe proc_run proc_run
  | Dups fdref proc_run
  | Chdirs "u8 list" proc_run proc_run

definition string_of :: "u8 list \<Rightarrow> nat \<Rightarrow> u8 list" where
  "string_of buf q = takeWhile (\<lambda>c. c \<noteq> 0) (drop q buf)"

text \<open>The string \<^verbatim>\<open>"exec %s failed\n"\<close> and its like are cut around the argument.\<close>

definition sh_panic :: "u8 list \<Rightarrow> proc_run" where
  "sh_panic msg = Prints (msg @ [10]) Exits"

definition fork1 :: "proc_run \<Rightarrow> proc_run \<Rightarrow> proc_run" where
  "fork1 child parent = Forks child parent (sh_panic [102, 111, 114, 107])"

fun runcmd :: "u8 list \<Rightarrow> cmd \<Rightarrow> proc_run" where
  "runcmd buf (EXEC as) =
     (case as of
        [] \<Rightarrow> Exits
      | (q, eq) # rest \<Rightarrow>
          let arg0 = string_of buf q in
          Execs arg0 (map (\<lambda>(q, eq). string_of buf q) as)
            (Prints ([101, 120, 101, 99, 32] @ arg0 @ [32, 102, 97, 105, 108, 101, 100, 10]) Exits))"
| "runcmd buf (REDIR c (q, eq) mode fd) =
     (let path = string_of buf q in
      Closes (Fd fd) (Opens path mode (runcmd buf c)
        (Prints ([111, 112, 101, 110, 32] @ path @ [32, 102, 97, 105, 108, 101, 100, 10]) Exits)))"
| "runcmd buf (LIST l r) = fork1 (runcmd buf l) (Waits (runcmd buf r))"
| "runcmd buf (PIPE l r) =
     MakesPipe
       (fork1 (Closes (Fd 1) (Dups (PipeEnd 1) (Closes (PipeEnd 0) (Closes (PipeEnd 1) (runcmd buf l)))))
          (fork1 (Closes (Fd 0) (Dups (PipeEnd 0) (Closes (PipeEnd 0) (Closes (PipeEnd 1) (runcmd buf r)))))
             (Closes (PipeEnd 0) (Closes (PipeEnd 1) (Waits (Waits Exits))))))
       (sh_panic [112, 105, 112, 101])"
| "runcmd buf (BACK c) = fork1 (runcmd buf c) Exits"

text \<open>\<^verbatim>\<open>getcmd\<close> with a buffer of 100 bytes: \<open>None\<close> at end of file. The loop of \<^verbatim>\<open>main\<close> consumes the input line by line;
  the child parses and runs the line.\<close>

definition getcmd :: "u8 list \<Rightarrow> (u8 list \<times> u8 list) option" where
  "getcmd inp =
     (let (buf, rest) = gets 100 inp in
      case takeWhile (\<lambda>c. c \<noteq> 0) buf of [] \<Rightarrow> None | line \<Rightarrow> Some (line, rest))"

definition run_line :: "u8 list \<Rightarrow> proc_run" where
  "run_line line =
     (case parsecmd line of
        Inr (c, buf) \<Rightarrow> runcmd buf c
      | Inl (Panic msg) \<Rightarrow> Prints (map (\<lambda>c. of_nat (of_char c)) msg @ [10]) Exits
      | Inl _ \<Rightarrow> Exits)"

lemma gets_loop_shorter: "gets_loop n inp = (l, rest) \<Longrightarrow> l @ rest = inp"
  by (induction n inp arbitrary: l rule: gets_loop.induct) (auto split: if_splits prod.splits)

function sh_loop :: "u8 list \<Rightarrow> proc_run" where
  "sh_loop inp =
     Prints [36, 32]
      (case getcmd inp of
         None \<Rightarrow> Exits
       | Some (line, rest) \<Rightarrow>
           if take 3 line = [99, 100, 32]
           then let path = drop 3 (butlast line) in
             Chdirs path (sh_loop rest) (Prints ([99, 97, 110, 110, 111, 116, 32, 99, 100, 32] @ path @ [10]) (sh_loop rest))
           else fork1 (run_line line) (Waits (sh_loop rest)))"
  by pat_completeness auto
termination
proof (relation "measure length")
  fix inp x line rest
  assume "getcmd inp = Some x" "(line, rest) = x"
  then have "\<exists>buf. gets 100 inp = (buf, rest) \<and> buf \<noteq> []" by (auto simp: getcmd_def split: prod.splits list.splits)
  then show "(rest, inp) \<in> measure length" "(rest, inp) \<in> measure length" "(rest, inp) \<in> measure length"
    using gets_loop_shorter by (fastforce simp: gets_def)+
qed simp

end
