(* ===== verification/Shparse.thy ===== *)
theory Shparse
  imports Sh
begin

text \<open>
  Properties of the shell's parser: it always comes to an end, it reads back every command that is written out as
  text, and after \<^verbatim>\<open>nulterminate\<close> every word of the command is a C string of its own.
\<close>

section \<open>Positions only grow\<close>

definition within :: "u8 list \<Rightarrow> nat \<Rightarrow> (cmd \<times> nat) res \<Rightarrow> bool" where
  "within b s r \<longleftrightarrow> (\<forall>c s'. r = Inr (c, s') \<longrightarrow> s \<le> s' \<and> s' \<le> length b)"

lemma withinI: "(\<And>c s'. r = Inr (c, s') \<Longrightarrow> s \<le> s' \<and> s' \<le> length b) \<Longrightarrow> within b s r"
  by (simp add: within_def)

lemma within_rbind:
  assumes "within b s r" "\<And>c s1. r = Inr (c, s1) \<Longrightarrow> s \<le> s1 \<Longrightarrow> s1 \<le> length b \<Longrightarrow> within b s (g (c, s1))"
  shows "within b s (rbind r g)"
  using assms by (cases r) (auto simp: within_def)

lemma within_mono: "within b s1 r \<Longrightarrow> s \<le> s1 \<Longrightarrow> within b s r"
  by (auto simp: within_def)

lemma peek_pos: "peek b s toks = (p, s1) \<Longrightarrow> s \<le> s1 \<and> (s \<le> length b \<longrightarrow> s1 \<le> length b)"
  by (auto simp: peek_def Let_def skip_ws_ge skip_ws_le)

lemma amp_loop_pos: "amp_loop b c s = (c', s') \<Longrightarrow> s \<le> s' \<and> (s \<le> length b \<longrightarrow> s' \<le> length b)"
proof (induction b c s rule: amp_loop.induct)
  case (1 b c s)
  obtain p s1 where p: "peek b s [38] = (p, s1)" by fastforce
  show ?case
  proof (cases p)
    case True
    then have p': "peek b s [38] = (True, s1)" using p by simp
    have "amp_loop b (BACK c) (after_token b s1) = (c', s')" using "1.prems" p True by (subst (asm) amp_loop.simps) simp
    then show ?thesis using "1.IH"[OF p[symmetric] _ True] peek_gettoken[OF p'] by simp
  next
    case False
    then show ?thesis using "1.prems" p peek_pos[OF p] by (subst (asm) amp_loop.simps) simp
  qed
qed

lemma arg_loop_within: "s \<le> length b \<Longrightarrow> within b s (arg_loop b argc ret s)"
proof (induction b argc ret s rule: arg_loop.induct)
  case (1 b argc ret s)
  obtain p s1 where p: "peek b s [124, 41, 38, 59] = (p, s1)" by fastforce
  obtain t q e s2 where g: "gettoken b s1 = (t, q, e, s2)" by (metis prod_cases4)
  have s1: "s \<le> s1" "s1 \<le> length b" using peek_pos[OF p] "1.prems" by auto
  have s2: "s1 \<le> s2" "s2 \<le> length b" using gettoken_bounds[OF g] s1 by auto
  show ?case
  proof (cases "p \<or> t = 0 \<or> t \<noteq> 97 \<or> MAXARGS \<le> argc + 1")
    case True
    then show ?thesis using p g s1 s2 by (subst arg_loop.simps) (auto simp: within_def)
  next
    case False
    have "within b s (rbind (parseredirs b (push_arg (q, e) ret) s2) (\<lambda>(ret1, s3). arg_loop b (argc + 1) ret1 s3))"
    proof (rule within_rbind)
      show "within b s (parseredirs b (push_arg (q, e) ret) s2)"
        using s1 s2 parseredirs_bounds[of b "push_arg (q, e) ret" s2] by (fastforce simp: within_def)
      fix c s3
      assume r: "parseredirs b (push_arg (q, e) ret) s2 = Inr (c, s3)" and le: "s \<le> s3" "s3 \<le> length b"
      have "within b s3 (arg_loop b (argc + 1) c s3)"
        using False "1.IH"[OF p[symmetric] _ _ g[symmetric] _ _ _ _ _ _ r] le by auto
      then show "within b s (case (c, s3) of (ret1, s3) \<Rightarrow> arg_loop b (argc + 1) ret1 s3)" using le by (auto intro: within_mono)
    qed
    then show ?thesis using False p g by (subst arg_loop.simps) simp
  qed
qed
text \<open>A call made on the rest of the input behind a token.\<close>

lemma peek_after:
  assumes "peek b s toks = (True, s1)"
  shows "after_token b s1 \<le> length b" "s < after_token b s1" "length b - after_token b s1 < length b - s"
  using peek_gettoken[OF assms] by simp_all

lemma parse_within:
  assumes "s \<le> length b"
  shows "within b s (parseline f b s)" "within b s (parsepipe f b s)" "within b s (parseblock f b s)" "within b s (parseexec f b s)"
  using assms
proof (induction f arbitrary: s)
  case (Suc f)
  {
    case 1
    show ?case unfolding parseline.simps
    proof (rule within_rbind[OF Suc.IH(2)[OF 1]])
      fix c s1
      assume s1: "s \<le> s1" "s1 \<le> length b"
      obtain c1 s2 p s3 where a: "amp_loop b c s1 = (c1, s2)" and p: "peek b s2 [59] = (p, s3)" by fastforce
      have le: "s \<le> s3" "s3 \<le> length b" using s1 amp_loop_pos[OF a] peek_pos[OF p] by auto
      show "within b s (case (c, s1) of (c, s1) \<Rightarrow> let (c1, s2) = amp_loop b c s1; (p, s3) = peek b s2 [59] in
         if p then rbind (parseline f b (after_token b s3)) (\<lambda>(r, s4). Inr (LIST c1 r, s4)) else Inr (c1, s3))"
      proof (cases p)
        case True
        then have p': "peek b s2 [59] = (True, s3)" using p by simp
        have "within b s (parseline f b (after_token b s3))"
          using Suc.IH(1)[OF peek_after(1)[OF p']] peek_gettoken(1)[OF p'] le(1) by (auto intro: within_mono)
        then show ?thesis using a p True by (auto simp: within_def rbind_eq_Inr)
      qed (use a p le in \<open>simp add: within_def\<close>)
    qed
  next
    case 2
    show ?case unfolding parsepipe.simps
    proof (rule within_rbind[OF Suc.IH(4)[OF 2]])
      fix c s1
      assume s1: "s \<le> s1" "s1 \<le> length b"
      obtain p s2 where p: "peek b s1 [124] = (p, s2)" by fastforce
      have le: "s \<le> s2" "s2 \<le> length b" using s1 peek_pos[OF p] by auto
      show "within b s (case (c, s1) of (c, s1) \<Rightarrow> let (p, s2) = peek b s1 [124] in
         if p then rbind (parsepipe f b (after_token b s2)) (\<lambda>(r, s3). Inr (PIPE c r, s3)) else Inr (c, s2))"
      proof (cases p)
        case True
        then have p': "peek b s1 [124] = (True, s2)" using p by simp
        have "within b s (parsepipe f b (after_token b s2))"
          using Suc.IH(2)[OF peek_after(1)[OF p']] peek_gettoken(1)[OF p'] le(1) by (auto intro: within_mono)
        then show ?thesis using p True by (auto simp: within_def rbind_eq_Inr)
      qed (use p le in \<open>simp add: within_def\<close>)
    qed
  next
    case 3
    obtain p s1 where p: "peek b s [40] = (p, s1)" by fastforce
    show ?case
    proof (cases p)
      case True
      then have p': "peek b s [40] = (True, s1)" using p by simp
      have "within b s (rbind (parseline f b (after_token b s1)) (\<lambda>(c, s2).
        let (p2, s3) = peek b s2 [41] in
        if \<not> p2 then Inl (Panic ''syntax - missing )'') else parseredirs b c (after_token b s3)))"
      proof (rule within_rbind)
        show "within b s (parseline f b (after_token b s1))"
          using Suc.IH(1)[OF peek_after(1)[OF p']] peek_after(2)[OF p'] by (auto intro: within_mono)
        fix c s2
        assume s2: "s \<le> s2" "s2 \<le> length b"
        obtain p2 s3 where q: "peek b s2 [41] = (p2, s3)" by fastforce
        show "within b s (case (c, s2) of (c, s2) \<Rightarrow> let (p2, s3) = peek b s2 [41] in
          if \<not> p2 then Inl (Panic ''syntax - missing )'') else parseredirs b c (after_token b s3))"
        proof (cases p2)
          case True
          then have q': "peek b s2 [41] = (True, s3)" using q by simp
          show ?thesis using q True s2 peek_after[OF q'] parseredirs_bounds[of b c "after_token b s3"] by (fastforce simp: within_def)
        qed (use q in \<open>simp add: within_def\<close>)
      qed
      then show ?thesis using p True by simp
    qed (use p in \<open>simp add: within_def\<close>)
  next
    case 4
    obtain p s1 where p: "peek b s [40] = (p, s1)" by fastforce
    have s1: "s \<le> s1" "s1 \<le> length b" using peek_pos[OF p] 4 by auto
    have "within b s1 (parseblock f b s1)" by (rule Suc.IH(3)[OF s1(2)])
    moreover have "within b s1 (rbind (parseredirs b (EXEC []) s1) (\<lambda>(ret, s2). arg_loop b 0 ret s2))"
    proof (rule within_rbind)
      show "within b s1 (parseredirs b (EXEC []) s1)" using s1 parseredirs_bounds[of b "EXEC []" s1] by (auto simp: within_def)
      fix c s2
      assume "s1 \<le> s2" "s2 \<le> length b"
      then show "within b s1 (case (c, s2) of (ret, s2) \<Rightarrow> arg_loop b 0 ret s2)" using arg_loop_within[of s2 b 0 c] by (auto intro: within_mono)
    qed
    ultimately show ?case using p s1(1) by (auto intro: within_mono)
  }
qed (simp_all add: within_def)
section \<open>The parser ends\<close>

text \<open>The only failure is a message.\<close>

definition ends :: "'a res \<Rightarrow> bool" where
  "ends r \<longleftrightarrow> (\<forall>e. r = Inl e \<longrightarrow> (\<exists>msg. e = Panic msg))"

lemma ends_simps [simp]: "ends (Inr x)" "ends (Inl e) \<longleftrightarrow> (\<exists>msg. e = Panic msg)"
  by (auto simp: ends_def)

lemma ends_rbind: "ends r \<Longrightarrow> (\<And>x. r = Inr x \<Longrightarrow> ends (g x)) \<Longrightarrow> ends (rbind r g)"
  by (cases r) auto

lemma parseredirs_ends: "ends (parseredirs b c s)"
proof (induction b c s rule: parseredirs.induct)
  case (1 b c s)
  then show ?case by (subst parseredirs.simps) (auto simp: Let_def split: prod.splits)
qed

lemma arg_loop_ends: "ends (arg_loop b argc ret s)"
proof (induction b argc ret s rule: arg_loop.induct)
  case (1 b argc ret s)
  then show ?case by (subst arg_loop.simps) (auto simp: Let_def intro!: ends_rbind parseredirs_ends split: prod.splits)
qed

lemma parse_ends:
  assumes "s \<le> length b"
  shows "4 * (length b - s) + 4 \<le> f \<Longrightarrow> ends (parseline f b s)"
    "4 * (length b - s) + 3 \<le> f \<Longrightarrow> ends (parsepipe f b s)"
    "4 * (length b - s) + 1 \<le> f \<Longrightarrow> ends (parseblock f b s)"
    "4 * (length b - s) + 2 \<le> f \<Longrightarrow> ends (parseexec f b s)"
  using assms
proof (induction f arbitrary: s)
  case (Suc f)
  {
    case 1
    have "ends (if p then rbind (parseline f b (after_token b s3)) (\<lambda>(r, s4). Inr (LIST c1 r, s4)) else Inr (c1, s3))"
      if "parsepipe f b s = Inr (c, s1)" "amp_loop b c s1 = (c1, s2)" "peek b s2 [59] = (p, s3)" for c s1 c1 s2 p s3
    proof (cases p)
      case True
      then have p: "peek b s2 [59] = (True, s3)" using that(3) by simp
      have "s \<le> s2" using parse_within(2)[OF 1(2), of f] that(1) amp_loop_pos[OF that(2)] by (auto simp: within_def)
      then have "ends (parseline f b (after_token b s3))"
        using Suc.IH(1)[OF _ peek_after(1)[OF p]] 1(1) peek_after(3)[OF p] by simp
      then show ?thesis using True by (auto intro!: ends_rbind)
    qed simp
    moreover have "ends (parsepipe f b s)" using Suc.IH(2)[of s] 1 by simp
    ultimately show ?case by (auto simp: Let_def intro!: ends_rbind split: prod.splits)
  next
    case 2
    have "ends (if p then rbind (parsepipe f b (after_token b s2)) (\<lambda>(r, s3). Inr (PIPE c r, s3)) else Inr (c, s2))"
      if "parseexec f b s = Inr (c, s1)" "peek b s1 [124] = (p, s2)" for c s1 p s2
    proof (cases p)
      case True
      then have p: "peek b s1 [124] = (True, s2)" using that(2) by simp
      have "s \<le> s1" using parse_within(4)[OF 2(2), of f] that(1) by (auto simp: within_def)
      then have "ends (parsepipe f b (after_token b s2))"
        using Suc.IH(2)[OF _ peek_after(1)[OF p]] 2(1) peek_after(3)[OF p] by simp
      then show ?thesis using True by (auto intro!: ends_rbind)
    qed simp
    moreover have "ends (parseexec f b s)" using Suc.IH(4)[of s] 2 by simp
    ultimately show ?case by (auto simp: Let_def intro!: ends_rbind split: prod.splits)
  next
    case 3
    have "ends (parseline f b (after_token b s1))" if "peek b s [40] = (True, s1)" for s1
      using Suc.IH(1)[OF _ peek_after(1)[OF that]] 3(1) peek_after(3)[OF that] by simp
    then show ?case by (auto simp: Let_def intro!: ends_rbind parseredirs_ends split: prod.splits)
  next
    case 4
    obtain p s1 where p: "peek b s [40] = (p, s1)" by fastforce
    have "s \<le> s1" "s1 \<le> length b" using peek_pos[OF p] 4 by auto
    then show ?case using Suc.IH(3)[of s1] 4 p by (auto intro!: ends_rbind parseredirs_ends arg_loop_ends split: if_splits)
  }
qed simp_all

text \<open>C26. The parser of the shell returns on every command line, of whatever length and nesting: it gives a command or
  the message of a syntax error, never an endless recursion.\<close>

theorem parsecmd_terminates: "(\<exists>c buf. parsecmd b = Inr (c, buf)) \<or> (\<exists>msg. parsecmd b = Inl (Panic msg))"
proof -
  have "ends (parseline (parse_fuel (length b)) b 0)" by (rule parse_ends(1)) (simp_all add: parse_fuel_def)
  then have "ends (parsecmd b)" unfolding parsecmd_def by (auto simp: Let_def intro!: ends_rbind)
  then show ?thesis by (cases "parsecmd b") auto
qed
section \<open>Commands as text\<close>

datatype shcmd = SExec "u8 list list" | SRedir shcmd u8 "u8 list" | SPipe shcmd shcmd | SList shcmd shcmd | SBack shcmd

definition wordchar :: "u8 \<Rightarrow> bool" where
  "wordchar c \<longleftrightarrow> c \<noteq> 0 \<and> c \<notin> set whitespace \<and> c \<notin> set symbols"

definition is_word :: "u8 list \<Rightarrow> bool" where
  "is_word w \<longleftrightarrow> w \<noteq> [] \<and> list_all wordchar w"

fun wf_sh :: "shcmd \<Rightarrow> bool" where
  "wf_sh (SExec ws) \<longleftrightarrow> list_all is_word ws \<and> length ws < MAXARGS"
| "wf_sh (SRedir c d f) \<longleftrightarrow> wf_sh c \<and> (d = 60 \<or> d = 62) \<and> is_word f"
| "wf_sh (SPipe l r) \<longleftrightarrow> wf_sh l \<and> wf_sh r"
| "wf_sh (SList l r) \<longleftrightarrow> wf_sh l \<and> wf_sh r"
| "wf_sh (SBack c) \<longleftrightarrow> wf_sh c"

fun join_words :: "u8 list list \<Rightarrow> u8 list" where
  "join_words [] = []"
| "join_words [w] = w"
| "join_words (w # ws) = w @ 32 # join_words ws"

definition paren :: "bool \<Rightarrow> u8 list \<Rightarrow> u8 list" where
  "paren p xs = (if p then [40] @ xs @ [41] else xs)"

text \<open>Writing a command at a place of the grammar: 0 a line, 1 before an ampersand, 2 a pipeline, 3 a simple command.\<close>

primrec show_at :: "shcmd \<Rightarrow> nat \<Rightarrow> u8 list" where
  "show_at (SExec ws) = (\<lambda>n. join_words ws)"
| "show_at (SRedir c d f) = (\<lambda>n. show_at c 3 @ d # f)"
| "show_at (SPipe l r) = (\<lambda>n. paren (2 < n) (show_at l 3 @ 124 # show_at r 2))"
| "show_at (SList l r) = (\<lambda>n. paren (0 < n) (show_at l 1 @ 59 # show_at r 0))"
| "show_at (SBack c) = (\<lambda>n. paren (1 < n) (show_at c 1 @ [38]))"

text \<open>The command that a parsed tree stands for, when \<open>word\<close> gives the text of a word.\<close>

fun command_text :: "(word_at \<Rightarrow> u8 list) \<Rightarrow> cmd \<Rightarrow> shcmd" where
  "command_text word (EXEC as) = SExec (map word as)"
| "command_text word (REDIR c f m fd) = SRedir (command_text word c) (if fd = 0 then 60 else 62) (word f)"
| "command_text word (PIPE l r) = SPipe (command_text word l) (command_text word r)"
| "command_text word (LIST l r) = SList (command_text word l) (command_text word r)"
| "command_text word (BACK c) = SBack (command_text word c)"

definition slice :: "u8 list \<Rightarrow> word_at \<Rightarrow> u8 list" where
  "slice b w = take (snd w - fst w) (drop (fst w) b)"

section \<open>Reading tokens\<close>

definition begins :: "(u8 \<Rightarrow> bool) \<Rightarrow> u8 list \<Rightarrow> bool" where
  "begins P xs \<longleftrightarrow> xs \<noteq> [] \<and> P (hd xs)"

lemma begins_simps [simp]: "\<not> begins P []" "begins P (x # xs) \<longleftrightarrow> P x"
  by (simp_all add: begins_def)

lemma begins_append: "begins P (xs @ ys) \<longleftrightarrow> (if xs = [] then begins P ys else begins P xs)"
  by (cases xs) simp_all

abbreviation ws_char :: "u8 \<Rightarrow> bool" where "ws_char c \<equiv> c \<in> set whitespace"

lemma char_at_drop: "char_at b s = (case drop s b of [] \<Rightarrow> 0 | c # _ \<Rightarrow> c)"
  by (cases "s < length b") (auto simp: char_at_def simp flip: Cons_nth_drop_Suc)

lemma skip_while_drop: "skip_while P b s = s + length (takeWhile P (drop s b))"
proof (induction P b s rule: skip_while.induct)
  case (1 P b s)
  show ?case
  proof (cases "s < length b")
    case True
    then show ?thesis using 1 by (subst skip_while.simps) (simp add: char_at_def flip: Cons_nth_drop_Suc)
  qed (subst skip_while.simps, simp)
qed

lemma skip_ws_here: "\<not> begins ws_char (drop s b) \<Longrightarrow> skip_ws b s = s"
  by (cases "drop s b") (simp_all add: skip_ws_def skip_while_drop)

lemma drop_append_at: "drop s b = xs @ ys \<Longrightarrow> drop (s + length xs) b = ys"
  by (metis append_eq_conv_conj add.commute drop_drop)

lemma drop_Cons_at: "drop s b = x # ys \<Longrightarrow> drop (Suc s) b = ys"
  by (metis drop_Suc list.sel(3) drop_Suc tl_drop)

lemma gettoken_word:
  assumes "drop s b = w @ ys" "is_word w" "\<not> begins wordchar ys" "\<not> begins ((=) 0) ys"
  shows "gettoken b s = (97, s, s + length w, skip_ws b (s + length w))"
proof -
  obtain x w' where w: "w = x # w'" using assms(2) by (cases w) (auto simp: is_word_def)
  have x: "wordchar x" using assms(2) w by (simp add: is_word_def)
  then have q: "skip_ws b s = s" using assms(1) w by (intro skip_ws_here) (simp add: wordchar_def)
  have c: "char_at b s = x" using assms(1) w by (simp add: char_at_drop)
  have "takeWhile (\<lambda>c. c \<notin> set whitespace \<and> c \<notin> set symbols) (w @ ys) = w"
    using assms(2-4) by (subst takeWhile_append2) (auto simp: is_word_def list_all_iff wordchar_def begins_def takeWhile_eq_Nil_iff)
  then have "skip_while (\<lambda>c. c \<notin> set whitespace \<and> c \<notin> set symbols) b s = s + length w" using assms(1) by (simp add: skip_while_drop)
  moreover have "x \<noteq> 62" using x by (auto simp: wordchar_def symbols_def)
  ultimately show ?thesis using x by (simp add: gettoken_def Let_def q c wordchar_def)
qed

lemma gettoken_symbol:
  assumes "drop s b = x # ys" "x \<in> set symbols" "\<not> begins ((=) 62) ys"
  shows "gettoken b s = (x, s, s + 1, skip_ws b (s + 1))"
proof -
  have x: "x \<noteq> 0" "x \<notin> set whitespace" using assms(2) by (auto simp: symbols_def whitespace_def)
  have q: "skip_ws b s = s" using assms(1) x by (intro skip_ws_here) simp
  have c: "char_at b s = x" using assms(1) by (simp add: char_at_drop)
  have "drop (s + 1) b = ys" using drop_Cons_at[OF assms(1)] by simp
  then have "char_at b (s + 1) \<noteq> 62" using assms(3) by (cases ys) (simp_all add: char_at_drop)
  then show ?thesis using x assms(2) by (simp add: gettoken_def Let_def q c)
qed

lemma peek_here:
  assumes "drop s b = ys" "\<not> begins ws_char ys"
  shows "peek b s toks = (begins (\<lambda>c. c \<noteq> 0 \<and> c \<in> set toks) ys, s)"
proof -
  have "skip_ws b s = s" using assms by (intro skip_ws_here) simp
  then show ?thesis using assms(1) by (cases ys) (simp_all add: peek_def Let_def char_at_drop)
qed
section \<open>Reading commands\<close>

text \<open>A text that ends, or goes on with a symbol.\<close>

definition stops :: "u8 list \<Rightarrow> bool" where
  "stops ys \<longleftrightarrow> (ys \<noteq> [] \<longrightarrow> hd ys \<in> set symbols)"

lemma symbol_char: "x \<in> set symbols \<Longrightarrow> x \<noteq> 0 \<and> \<not> ws_char x \<and> \<not> wordchar x"
  by (auto simp: symbols_def whitespace_def wordchar_def)

lemma stopsD: "stops ys \<Longrightarrow> \<not> begins ws_char ys" "stops ys \<Longrightarrow> \<not> begins wordchar ys" "stops ys \<Longrightarrow> \<not> begins ((=) 0) ys"
  using symbol_char by (auto simp: stops_def begins_def)

lemma stops_Cons [simp]: "stops (x # ys) \<longleftrightarrow> x \<in> set symbols" and stops_Nil [simp]: "stops []"
  by (simp_all add: stops_def)

lemma parseredirs_none:
  "drop s b = ys \<Longrightarrow> \<not> begins ws_char ys \<Longrightarrow> \<not> begins (\<lambda>c. c = 60 \<or> c = 62) ys \<Longrightarrow> parseredirs b c s = Inr (c, s)"
  by (subst parseredirs.simps) (auto simp: peek_here begins_def)

lemma word_first: "is_word f \<Longrightarrow> \<not> begins ws_char (f @ ys) \<and> \<not> begins ((=) 62) (f @ ys) \<and> \<not> begins (\<lambda>c. c \<in> set symbols) (f @ ys)"
  by (cases f) (auto simp: is_word_def wordchar_def symbols_def)

definition redir_of :: "u8 \<Rightarrow> cmd \<Rightarrow> word_at \<Rightarrow> cmd" where
  "redir_of d c w = (if d = 60 then REDIR c w O_RDONLY 0 else REDIR c w (O_WRONLY OR O_CREATE) 1)"

lemma parseredirs_one:
  assumes "drop s b = d # f @ ys" "d = 60 \<or> d = 62" "is_word f" "stops ys"
  shows "parseredirs b c s = parseredirs b (redir_of d c (s + 1, s + 1 + length f)) (s + 1 + length f)"
proof -
  have d: "d \<in> set symbols" using assms(2) by (auto simp: symbols_def)
  note wf = word_first[OF assms(3), of ys]
  have p: "peek b s [60, 62] = (True, s)" using peek_here[OF assms(1), of "[60, 62]"] assms(2) symbol_char[OF d] by auto
  have d1: "drop (s + 1) b = f @ ys" using drop_Cons_at[OF assms(1)] by simp
  have g: "gettoken b s = (d, s, s + 1, s + 1)"
    using gettoken_symbol[OF assms(1) d] wf skip_ws_here[of "s + 1" b] d1 by simp
  have "drop (s + 1 + length f) b = ys" by (rule drop_append_at[OF d1])
  then have g2: "gettoken b (s + 1) = (97, s + 1, s + 1 + length f, s + 1 + length f)"
    using gettoken_word[OF d1 assms(3) stopsD(2,3)[OF assms(4)]] skip_ws_here[of "s + 1 + length f" b] stopsD(1)[OF assms(4)] by simp
  show ?thesis using assms(2) by (subst parseredirs.simps) (auto simp: p g g2[simplified] redir_of_def)
qed

lemma gettoken_stop:
  assumes "drop s b = x # ys" "x \<in> set symbols" "x \<noteq> 62" "\<not> begins ws_char ys"
  shows "after_token b s = s + 1"
proof -
  have d1: "drop (s + 1) b = ys" using drop_Cons_at[OF assms(1)] by simp
  have q: "skip_ws b s = s" using assms symbol_char[of x] by (intro skip_ws_here) simp
  have c: "char_at b s = x" using assms(1) by (simp add: char_at_drop)
  show ?thesis using symbol_char[OF assms(2)] assms(2,3,4) skip_ws_here[of "s + 1" b] d1 by (simp add: gettoken_def Let_def q c)
qed

lemma amp_loop_text:
  "drop s b = replicate k 38 @ ys \<Longrightarrow> stops ys \<Longrightarrow> \<not> begins ((=) 38) ys \<Longrightarrow> amp_loop b c s = ((BACK ^^ k) c, s + k)"
proof (induction k arbitrary: c s)
  case 0
  then show ?case using peek_here[of s b ys "[38]"] stopsD(1)[of ys] by (subst amp_loop.simps) (auto simp: begins_def)
next
  case (Suc k)
  let ?r = "replicate k 38 @ ys"
  have d: "drop s b = 38 # ?r" using Suc.prems(1) by simp
  have st: "stops ?r" using Suc.prems(2) by (cases k) (simp_all add: symbols_def)
  have p: "peek b s [38] = (True, s)" using peek_here[OF d, of "[38]"] by (simp add: whitespace_def)
  have t: "after_token b s = s + 1" using gettoken_stop[OF d] stopsD(1)[OF st] by (simp add: symbols_def)
  have "amp_loop b (BACK c) (s + 1) = ((BACK ^^ k) (BACK c), s + 1 + k)"
    using drop_Cons_at[OF d] Suc.prems by (intro Suc.IH) simp_all
  then show ?case using p t by (subst amp_loop.simps) (simp add: funpow_swap1)
qed

text \<open>The words of a simple command; what follows is left to the redirections.\<close>

definition finish_args :: "u8 list \<Rightarrow> nat \<Rightarrow> (cmd \<times> nat) res \<Rightarrow> (cmd \<times> nat) res" where
  "finish_args b n r = rbind r (\<lambda>(ret, s). arg_loop b n ret s)"

lemma arg_loop_word:
  assumes "drop s b = w @ ys" "is_word w" "\<not> begins wordchar ys" "\<not> begins ((=) 0) ys" "n + 1 < MAXARGS"
  shows "arg_loop b n (EXEC as) s = finish_args b (n + 1) (parseredirs b (EXEC (as @ [(s, s + length w)])) (skip_ws b (s + length w)))"
proof -
  note wf = word_first[OF assms(2), of ys]
  have "\<not> begins (\<lambda>c. c \<noteq> 0 \<and> c \<in> set [124, 41, 38, 59]) (w @ ys)" using wf by (auto simp: begins_def symbols_def)
  then have p: "peek b s [124, 41, 38, 59] = (False, s)" using peek_here[OF assms(1)] wf by simp
  show ?thesis using assms(5)
    by (subst arg_loop.simps) (simp add: p gettoken_word[OF assms(1-4)] finish_args_def)
qed

lemma arg_loop_text:
  assumes "drop s b = join_words ws @ ys" "list_all is_word ws" "ws \<noteq> []" "stops ys" "n + length ws < MAXARGS"
  shows "\<exists>as'. map (slice b) as' = ws \<and>
    arg_loop b n (EXEC as) s = finish_args b (n + length ws) (parseredirs b (EXEC (as @ as')) (s + length (join_words ws)))"
  using assms
proof (induction ws arbitrary: s n as rule: join_words.induct)
  case (2 w)
  then have d: "drop s b = w @ ys" by simp
  have "drop (s + length w) b = ys" by (rule drop_append_at[OF d])
  then have k: "skip_ws b (s + length w) = s + length w" using stopsD(1)[OF 2(4)] by (intro skip_ws_here) simp
  have "slice b (s, s + length w) = w" using d by (simp add: slice_def)
  then show ?case using arg_loop_word[OF d _ stopsD(2,3)[OF 2(4)], of n as] 2 k by (intro exI[of _ "[(s, s + length w)]"]) simp
next
  case (3 w w2 ws)
  let ?r = "join_words (w2 # ws) @ ys"
  have d: "drop s b = w @ 32 # ?r" using 3(2) by simp
  have d1: "drop (s + length w) b = 32 # ?r" by (rule drop_append_at[OF d])
  have d2: "drop (s + length w + 1) b = ?r" using drop_Cons_at[OF d1] by simp
  have w2: "is_word w2" using 3(3) by simp
  have r: "\<not> begins ws_char ?r" "\<not> begins (\<lambda>c. c \<in> set symbols) ?r"
    using word_first[OF w2] by (cases ws; simp)+
  have "takeWhile (\<lambda>c. c \<in> set whitespace) ?r = []" using r(1) by (auto simp: takeWhile_eq_Nil_iff begins_def)
  then have k: "skip_ws b (s + length w) = s + length w + 1" by (simp add: skip_ws_def skip_while_drop d1 whitespace_def)
  have sl: "slice b (s, s + length w) = w" using d by (simp add: slice_def)
  have none: "parseredirs b c (s + length w + 1) = Inr (c, s + length w + 1)" for c
    using r by (intro parseredirs_none[OF d2]) (auto simp: begins_def symbols_def)
  have "arg_loop b n (EXEC as) s = arg_loop b (n + 1) (EXEC (as @ [(s, s + length w)])) (s + length w + 1)"
    using arg_loop_word[OF d, of n as] 3 none by (simp add: k finish_args_def wordchar_def whitespace_def)
  moreover have "\<exists>as'. map (slice b) as' = w2 # ws \<and> arg_loop b (n + 1) (EXEC (as @ [(s, s + length w)])) (s + length w + 1) =
       finish_args b (n + 1 + length (w2 # ws)) (parseredirs b (EXEC ((as @ [(s, s + length w)]) @ as')) (s + length w + 1 + length (join_words (w2 # ws))))"
    by (rule 3(1)[OF d2]) (use 3 in simp_all)
  ultimately show ?case using sl by (elim exE conjE, intro exI[of _ "(s, s + length w) # as'" for as']) (simp add: add.assoc)
qed simp
section \<open>The parser reads what is written\<close>

fun base_args :: "shcmd \<Rightarrow> nat option" where
  "base_args (SExec ws) = Some (length ws)"
| "base_args (SRedir c d f) = base_args c"
| "base_args c = None"

definition complete :: "u8 list \<Rightarrow> shcmd \<Rightarrow> (cmd \<times> nat) res \<Rightarrow> (cmd \<times> nat) res" where
  "complete b c r = (case base_args c of Some n \<Rightarrow> finish_args b n r | None \<Rightarrow> r)"

definition follows :: "u8 list \<Rightarrow> u8 list \<Rightarrow> bool" where
  "follows cs ys \<longleftrightarrow> (ys \<noteq> [] \<longrightarrow> hd ys \<in> set cs)"

lemma follows_simps [simp]: "follows cs []" "follows cs (y # ys) \<longleftrightarrow> y \<in> set cs"
  by (simp_all add: follows_def)

lemma follows_stops: "follows cs ys \<Longrightarrow> set cs \<subseteq> set symbols \<Longrightarrow> stops ys"
  by (auto simp: follows_def stops_def)

lemma follows_not: "follows cs ys \<Longrightarrow> x \<notin> set cs \<Longrightarrow> \<not> begins ((=) x) ys"
  by (auto simp: follows_def begins_def)

definition exec_ok :: "shcmd \<Rightarrow> bool" where
  "exec_ok c \<longleftrightarrow> (\<forall>b s ys. drop s b = show_at c 3 @ ys \<longrightarrow> stops ys \<longrightarrow> \<not> begins ((=) 40) ys \<longrightarrow>
     (\<exists>F c'. command_text (slice b) c' = c \<and> (\<forall>f \<ge> F. parseexec f b s = complete b c (parseredirs b c' (s + length (show_at c 3))))))"

definition pipe_ok :: "shcmd \<Rightarrow> bool" where
  "pipe_ok c \<longleftrightarrow> (\<forall>b s ys. drop s b = show_at c 2 @ ys \<longrightarrow> follows [41, 38, 59] ys \<longrightarrow>
     (\<exists>F c'. command_text (slice b) c' = c \<and> (\<forall>f \<ge> F. parsepipe f b s = Inr (c', s + length (show_at c 2)))))"

definition line_ok :: "shcmd \<Rightarrow> bool" where
  "line_ok c \<longleftrightarrow> (\<forall>b s ys. drop s b = show_at c 0 @ ys \<longrightarrow> follows [41] ys \<longrightarrow>
     (\<exists>F c'. command_text (slice b) c' = c \<and> (\<forall>f \<ge> F. parseline f b s = Inr (c', s + length (show_at c 0)))))"

lemma show_no_ws: "wf_sh c \<Longrightarrow> \<not> begins ws_char ys \<Longrightarrow> \<not> begins ws_char (show_at c n @ ys)"
proof (induction c arbitrary: n ys)
  case (SExec ws)
  then show ?case by (cases ws rule: join_words.cases) (auto dest!: word_first)
next
  case (SRedir c d f)
  then show ?case by (auto simp: whitespace_def)
qed (auto simp: paren_def whitespace_def)

lemma gettoken_end: "drop s b = [] \<Longrightarrow> gettoken b s = (0, s, s, s)"
  using skip_ws_here[of s b] by (simp add: gettoken_def Let_def char_at_drop)

lemma complete_done:
  assumes "drop s b = ys" "follows [124, 41, 38, 59] ys"
  shows "complete b c (parseredirs b c' s) = Inr (c', s)"
proof -
  have st: "stops ys" using assms(2) by (rule follows_stops) (simp add: symbols_def)
  note ws = stopsD(1)[OF st]
  have r: "parseredirs b c' s = Inr (c', s)"
    using assms(2) ws by (intro parseredirs_none[OF assms(1)]) (auto simp: begins_def follows_def)
  have "arg_loop b n c' s = Inr (c', s)" for n
  proof (cases "ys = []")
    case True
    then have p: "peek b s [124, 41, 38, 59] = (False, s)" using peek_here[OF assms(1) ws] by simp
    then show ?thesis using gettoken_end[of s b] True assms(1) by (subst arg_loop.simps) simp
  next
    case False
    then have "begins (\<lambda>c. c \<noteq> 0 \<and> c \<in> set [124, 41, 38, 59]) ys" using assms(2) by (auto simp: follows_def begins_def)
    then have p: "peek b s [124, 41, 38, 59] = (True, s)" using peek_here[OF assms(1) ws] by simp
    then show ?thesis by (subst arg_loop.simps) simp
  qed
  then show ?thesis by (simp add: complete_def r finish_args_def split: option.splits)
qed

lemma Suc_fuel: "F \<le> f \<Longrightarrow> 0 < F \<Longrightarrow> \<exists>g. f = Suc g \<and> F - 1 \<le> g"
  by (cases f) auto

lemma begins_mono: "begins P xs \<Longrightarrow> (\<And>x. P x \<Longrightarrow> Q x) \<Longrightarrow> begins Q xs"
  by (auto simp: begins_def)

lemma join_first:
  assumes "list_all is_word ws" "ws \<noteq> []"
  shows "\<not> begins ws_char (join_words ws @ ys)" "\<not> begins (\<lambda>c. c \<in> set symbols) (join_words ws @ ys)"
proof -
  obtain w ys' where "join_words ws @ ys = w @ ys'" "is_word w" using assms by (cases ws rule: join_words.cases) auto
  then show "\<not> begins ws_char (join_words ws @ ys)" "\<not> begins (\<lambda>c. c \<in> set symbols) (join_words ws @ ys)"
    using word_first[of w ys'] by simp_all
qed

lemma exec_SExec:
  assumes "list_all is_word ws" "length ws < MAXARGS"
  shows "exec_ok (SExec ws)"
  unfolding exec_ok_def
proof (intro allI impI)
  fix b s ys
  assume d: "drop s b = show_at (SExec ws) 3 @ ys" and st: "stops ys" and n: "\<not> begins ((=) 40) ys"
  have t: "\<not> begins ws_char (join_words ws @ ys)" using join_first(1)[OF assms(1)] stopsD(1)[OF st] by (cases "ws = []") simp_all
  have "\<not> begins (\<lambda>c. c \<noteq> 0 \<and> c \<in> set [40]) (join_words ws @ ys)"
  proof (cases "ws = []")
    case True
    then show ?thesis using n begins_mono[of "\<lambda>c. c \<noteq> 0 \<and> c \<in> set [40]" ys "(=) 40"] by auto
  next
    case False
    then show ?thesis using join_first(2)[OF assms(1) False, of ys] begins_mono[of "\<lambda>c. c \<noteq> 0 \<and> c \<in> set [40]" _ "\<lambda>c. c \<in> set symbols"]
      by (auto simp: symbols_def)
  qed
  then have p: "peek b s [40] = (False, s)" using peek_here[of s b "join_words ws @ ys" "[40]"] d t by simp
  have e: "parseexec (Suc f) b s = finish_args b 0 (parseredirs b (EXEC []) s)" for f by (simp add: p finish_args_def)
  show "\<exists>F c'. command_text (slice b) c' = SExec ws \<and>
      (\<forall>f \<ge> F. parseexec f b s = complete b (SExec ws) (parseredirs b c' (s + length (show_at (SExec ws) 3))))"
  proof (cases "ws = []")
    case True
    then have "parseexec f b s = complete b (SExec ws) (parseredirs b (EXEC []) s)" if "f \<ge> 1" for f
      using e that by (cases f) (simp_all add: complete_def)
    then show ?thesis using True by (intro exI[of _ 1] exI[of _ "EXEC []"]) simp
  next
    case False
    have "\<not> begins (\<lambda>c. c = 60 \<or> c = 62) (join_words ws @ ys)"
      using join_first(2)[OF assms(1) False, of ys] begins_mono[of "\<lambda>c. c = 60 \<or> c = 62" _ "\<lambda>c. c \<in> set symbols"] by (auto simp: symbols_def)
    then have "parseredirs b (EXEC []) s = Inr (EXEC [], s)" using d t by (intro parseredirs_none[of _ _ "join_words ws @ ys"]) simp_all
    moreover obtain as' where as': "map (slice b) as' = ws"
      "arg_loop b 0 (EXEC []) s = finish_args b (length ws) (parseredirs b (EXEC as') (s + length (join_words ws)))"
      using arg_loop_text[of s b ws ys 0 "[]"] d assms False st by auto
    ultimately have "parseexec f b s = complete b (SExec ws) (parseredirs b (EXEC as') (s + length (show_at (SExec ws) 3)))" if "f \<ge> 1" for f
      using e that by (cases f) (simp_all add: complete_def finish_args_def[of b 0])
    then show ?thesis using as'(1) by (intro exI[of _ 1] exI[of _ "EXEC as'"]) simp
  qed
qed

lemma exec_SRedir:
  assumes "exec_ok c" "d = 60 \<or> d = 62" "is_word fl"
  shows "exec_ok (SRedir c d fl)"
  unfolding exec_ok_def
proof (intro allI impI)
  fix b s ys
  let ?e = "s + length (show_at c 3)"
  assume d: "drop s b = show_at (SRedir c d fl) 3 @ ys" and st: "stops ys"
  have d1: "drop s b = show_at c 3 @ (d # fl @ ys)" using d by simp
  obtain F c' where c': "command_text (slice b) c' = c" "\<forall>f \<ge> F. parseexec f b s = complete b c (parseredirs b c' ?e)"
    using assms(1)[unfolded exec_ok_def, rule_format, OF d1] assms(2) by (auto simp: symbols_def)
  note d2 = drop_append_at[OF d1]
  note one = parseredirs_one[OF d2 assms(2,3) st, of c']
  have "slice b (?e + 1, ?e + 1 + length fl) = fl" using drop_Cons_at[OF d2] by (simp add: slice_def)
  then have "command_text (slice b) (redir_of d c' (?e + 1, ?e + 1 + length fl)) = SRedir c d fl"
    using c'(1) assms(2) by (auto simp: redir_of_def)
  then show "\<exists>F c'. command_text (slice b) c' = SRedir c d fl \<and>
      (\<forall>f \<ge> F. parseexec f b s = complete b (SRedir c d fl) (parseredirs b c' (s + length (show_at (SRedir c d fl) 3))))"
    using c'(2) one by (intro exI[of _ F] exI[of _ "redir_of d c' (?e + 1, ?e + 1 + length fl)"]) (simp add: complete_def add.assoc)
qed
lemma exec_block:
  assumes "line_ok c" "base_args c = None" "wf_sh c" "show_at c 3 = 40 # show_at c 0 @ [41]"
  shows "exec_ok c"
  unfolding exec_ok_def
proof (intro allI impI)
  fix b s ys
  let ?e = "s + 1 + length (show_at c 0)"
  assume d: "drop s b = show_at c 3 @ ys" and st: "stops ys"
  have d0: "drop s b = 40 # show_at c 0 @ (41 # ys)" using d assms(4) by simp
  have nw: "\<not> begins ws_char (show_at c 0 @ 41 # ys)" by (rule show_no_ws[OF assms(3)]) (simp add: whitespace_def)
  have p: "peek b s [40] = (True, s)" using peek_here[OF d0, of "[40]"] by (simp add: whitespace_def)
  have t: "after_token b s = s + 1" using gettoken_stop[OF d0] nw by (simp add: symbols_def)
  have d1: "drop (s + 1) b = show_at c 0 @ (41 # ys)" using drop_Cons_at[OF d0] by simp
  obtain F c' where c': "command_text (slice b) c' = c" "\<forall>f \<ge> F. parseline f b (s + 1) = Inr (c', ?e)"
    using assms(1)[unfolded line_ok_def, rule_format, OF d1] by auto
  note d2 = drop_append_at[OF d1]
  have p2: "peek b ?e [41] = (True, ?e)" using peek_here[OF d2, of "[41]"] by (simp add: whitespace_def)
  have t2: "after_token b ?e = ?e + 1" using gettoken_stop[OF d2] stopsD(1)[OF st] by (simp add: symbols_def)
  have "parseexec f b s = complete b c (parseredirs b c' (s + length (show_at c 3)))" if f: "f \<ge> Suc (Suc F)" for f
  proof -
    obtain g where g: "f = Suc (Suc g)" "F \<le> g" using f by (cases f; cases "f - 1") auto
    have "parseline g b (after_token b s) = Inr (c', ?e)" unfolding t using c'(2) g(2) by blast
    then have "parseblock (Suc g) b s = parseredirs b c' (after_token b ?e)" using p p2 by simp
    then have "parseblock (Suc g) b s = parseredirs b c' (?e + 1)" unfolding t2 .
    then show ?thesis using p assms(2,4) by (simp add: g complete_def)
  qed
  then show "\<exists>F c'. command_text (slice b) c' = c \<and> (\<forall>f \<ge> F. parseexec f b s = complete b c (parseredirs b c' (s + length (show_at c 3))))"
    using c'(1) by blast
qed

lemma pipe_plain:
  assumes "exec_ok c" "show_at c 2 = show_at c 3"
  shows "pipe_ok c"
  unfolding pipe_ok_def
proof (intro allI impI)
  fix b s ys
  let ?e = "s + length (show_at c 3)"
  assume d: "drop s b = show_at c 2 @ ys" and fo: "follows [41, 38, 59] ys"
  have st: "stops ys" using fo by (rule follows_stops) (simp add: symbols_def)
  have d3: "drop s b = show_at c 3 @ ys" using d assms(2) by simp
  obtain F c' where c': "command_text (slice b) c' = c" "\<forall>f \<ge> F. parseexec f b s = complete b c (parseredirs b c' ?e)"
    using assms(1)[unfolded exec_ok_def, rule_format, OF d3 st follows_not[OF fo]] by auto
  note d1 = drop_append_at[OF d3]
  have "complete b c (parseredirs b c' ?e) = Inr (c', ?e)" using fo by (intro complete_done[OF d1]) (auto simp: follows_def)
  moreover have "peek b ?e [124] = (False, ?e)"
    using peek_here[OF d1 stopsD(1)[OF st], of "[124]"] fo by (auto simp: follows_def begins_def)
  ultimately have "parsepipe f b s = Inr (c', ?e)" if "f \<ge> Suc F" for f
    using c'(2) that by (cases f) simp_all
  then show "\<exists>F c'. command_text (slice b) c' = c \<and> (\<forall>f \<ge> F. parsepipe f b s = Inr (c', s + length (show_at c 2)))"
    using c'(1) assms(2) by auto
qed

lemma pipe_SPipe:
  assumes "exec_ok l" "pipe_ok r" "wf_sh r"
  shows "pipe_ok (SPipe l r)"
  unfolding pipe_ok_def
proof (intro allI impI)
  fix b s ys
  let ?e = "s + length (show_at l 3)"
  assume d: "drop s b = show_at (SPipe l r) 2 @ ys" and fo: "follows [41, 38, 59] ys"
  have st: "stops ys" using fo by (rule follows_stops) (simp add: symbols_def)
  have d3: "drop s b = show_at l 3 @ (124 # show_at r 2 @ ys)" using d by (simp add: paren_def)
  obtain F c' where c': "command_text (slice b) c' = l" "\<forall>f \<ge> F. parseexec f b s = complete b l (parseredirs b c' ?e)"
    using assms(1)[unfolded exec_ok_def, rule_format, OF d3] by (auto simp: symbols_def)
  note d1 = drop_append_at[OF d3]
  have e: "complete b l (parseredirs b c' ?e) = Inr (c', ?e)" by (intro complete_done[OF d1]) simp
  have nw: "\<not> begins ws_char (show_at r 2 @ ys)" by (rule show_no_ws[OF assms(3) stopsD(1)[OF st]])
  have p: "peek b ?e [124] = (True, ?e)" using peek_here[OF d1, of "[124]"] by (simp add: whitespace_def)
  have t: "after_token b ?e = ?e + 1" using gettoken_stop[OF d1] nw by (simp add: symbols_def)
  have d2: "drop (?e + 1) b = show_at r 2 @ ys" using drop_Cons_at[OF d1] by simp
  obtain G r' where r': "command_text (slice b) r' = r" "\<forall>f \<ge> G. parsepipe f b (?e + 1) = Inr (r', ?e + 1 + length (show_at r 2))"
    using assms(2)[unfolded pipe_ok_def, rule_format, OF d2 fo] by auto
  have "parsepipe f b s = Inr (PIPE c' r', s + length (show_at (SPipe l r) 2))" if f: "f \<ge> Suc (max F G)" for f
  proof -
    obtain g where g: "f = Suc g" "F \<le> g" "G \<le> g" using f by (cases f) auto
    have "parsepipe g b (after_token b ?e) = Inr (r', ?e + 1 + length (show_at r 2))" unfolding t using r'(2) g by blast
    moreover have "parseexec g b s = Inr (c', ?e)" using c'(2) g e by simp
    ultimately show ?thesis using g(1) p by (simp add: paren_def)
  qed
  then show "\<exists>F c'. command_text (slice b) c' = SPipe l r \<and> (\<forall>f \<ge> F. parsepipe f b s = Inr (c', s + length (show_at (SPipe l r) 2)))"
    using c'(1) r'(1) by (intro exI[of _ "Suc (max F G)"] exI[of _ "PIPE c' r'"]) simp
qed

text \<open>A pipeline with ampersands behind it.\<close>

lemma pipe_amps:
  assumes "pipe_ok p" "drop s b = show_at p 2 @ replicate k 38 @ ys" "follows [41, 59] ys"
  shows "\<exists>F c'. command_text (slice b) c' = (SBack ^^ k) p \<and> (\<forall>f \<ge> F. \<exists>c0 s0. parsepipe f b s = Inr (c0, s0) \<and>
    amp_loop b c0 s0 = (c', s + length (show_at p 2) + k))"
proof -
  have st: "stops ys" using assms(3) by (rule follows_stops) (simp add: symbols_def)
  have "follows [41, 38, 59] (replicate k 38 @ ys)" using assms(3) by (cases k) (auto simp: follows_def)
  then obtain F c' where c': "command_text (slice b) c' = p" "\<forall>f \<ge> F. parsepipe f b s = Inr (c', s + length (show_at p 2))"
    using assms(1)[unfolded pipe_ok_def, rule_format, OF assms(2)] by auto
  have "amp_loop b c' (s + length (show_at p 2)) = ((BACK ^^ k) c', s + length (show_at p 2) + k)"
    using assms(3) by (intro amp_loop_text[OF drop_append_at[OF assms(2)] st] follows_not[OF assms(3)]) simp
  moreover have "command_text w ((BACK ^^ k) x) = (SBack ^^ k) (command_text w x)" for w x by (induction k) simp_all
  ultimately show ?thesis using c' by (intro exI[of _ F] exI[of _ "(BACK ^^ k) c'"]) auto
qed
lemma line_plain:
  assumes "pipe_ok p" "c = (SBack ^^ k) p" "show_at c 0 = show_at p 2 @ replicate k 38"
  shows "line_ok c"
  unfolding line_ok_def
proof (intro allI impI)
  fix b s ys
  let ?e = "s + length (show_at p 2) + k"
  assume d: "drop s b = show_at c 0 @ ys" and fo: "follows [41] ys"
  have d1: "drop s b = show_at p 2 @ replicate k 38 @ ys" using d assms(3) by simp
  have st: "stops ys" using fo by (rule follows_stops) (simp add: symbols_def)
  have "follows [41, 59] ys" using fo by (auto simp: follows_def)
  from pipe_amps[OF assms(1) d1 this] obtain F c' where c': "command_text (slice b) c' = (SBack ^^ k) p"
    "\<forall>f \<ge> F. \<exists>c0 s0. parsepipe f b s = Inr (c0, s0) \<and> amp_loop b c0 s0 = (c', ?e)" by blast
  have "drop ?e b = ys" using drop_append_at[of s b "show_at p 2 @ replicate k 38" ys] d1 by (simp add: add.assoc)
  then have p: "peek b ?e [59] = (False, ?e)" using peek_here[of ?e b ys "[59]"] stopsD(1)[OF st] fo by (auto simp: follows_def begins_def)
  have "parseline f b s = Inr (c', ?e)" if "f \<ge> Suc F" for f
  proof -
    obtain g where g: "f = Suc g" "F \<le> g" using \<open>f \<ge> Suc F\<close> by (cases f) auto
    then obtain c0 s0 where "parsepipe g b s = Inr (c0, s0)" "amp_loop b c0 s0 = (c', ?e)" using c'(2) by blast
    then show ?thesis using g(1) p by simp
  qed
  then show "\<exists>F c'. command_text (slice b) c' = c \<and> (\<forall>f \<ge> F. parseline f b s = Inr (c', s + length (show_at c 0)))"
    using c'(1) assms(2,3) by (intro exI[of _ "Suc F"] exI[of _ c']) (simp add: add.assoc)
qed

lemma line_SList:
  assumes "pipe_ok p" "l = (SBack ^^ k) p" "show_at l 1 = show_at p 2 @ replicate k 38" "line_ok r" "wf_sh r"
  shows "line_ok (SList l r)"
  unfolding line_ok_def
proof (intro allI impI)
  fix b s ys
  let ?e = "s + length (show_at p 2) + k"
  assume d: "drop s b = show_at (SList l r) 0 @ ys" and fo: "follows [41] ys"
  have d1: "drop s b = show_at p 2 @ replicate k 38 @ (59 # show_at r 0 @ ys)" using d assms(3) by (simp add: paren_def)
  have st: "stops ys" using fo by (rule follows_stops) (simp add: symbols_def)
  from pipe_amps[OF assms(1) d1] obtain F c' where c': "command_text (slice b) c' = l"
    "\<forall>f \<ge> F. \<exists>c0 s0. parsepipe f b s = Inr (c0, s0) \<and> amp_loop b c0 s0 = (c', ?e)" unfolding assms(2) by auto
  have d2: "drop ?e b = 59 # show_at r 0 @ ys" using drop_append_at[of s b "show_at p 2 @ replicate k 38"] d1 by (simp add: add.assoc)
  have p: "peek b ?e [59] = (True, ?e)" using peek_here[OF d2, of "[59]"] by (simp add: whitespace_def)
  have nw: "\<not> begins ws_char (show_at r 0 @ ys)" by (rule show_no_ws[OF assms(5) stopsD(1)[OF st]])
  have t: "after_token b ?e = ?e + 1" using gettoken_stop[OF d2] nw by (simp add: symbols_def)
  have d3: "drop (?e + 1) b = show_at r 0 @ ys" using drop_Cons_at[OF d2] by simp
  obtain G r' where r': "command_text (slice b) r' = r" "\<forall>f \<ge> G. parseline f b (?e + 1) = Inr (r', ?e + 1 + length (show_at r 0))"
    using assms(4)[unfolded line_ok_def, rule_format, OF d3 fo] by auto
  have "parseline f b s = Inr (LIST c' r', s + length (show_at (SList l r) 0))" if f: "f \<ge> Suc (max F G)" for f
  proof -
    obtain g where g: "f = Suc g" "F \<le> g" "G \<le> g" using f by (cases f) auto
    then obtain c0 s0 where "parsepipe g b s = Inr (c0, s0)" "amp_loop b c0 s0 = (c', ?e)" using c'(2) by blast
    moreover have "parseline g b (after_token b ?e) = Inr (r', ?e + 1 + length (show_at r 0))" unfolding t using r'(2) g by blast
    ultimately show ?thesis using g(1) p assms(3) by (simp add: paren_def add.assoc)
  qed
  then show "\<exists>F c'. command_text (slice b) c' = SList l r \<and> (\<forall>f \<ge> F. parseline f b s = Inr (c', s + length (show_at (SList l r) 0)))"
    using c'(1) r'(1) by (intro exI[of _ "Suc (max F G)"] exI[of _ "LIST c' r'"]) simp
qed

lemma strip_backs: "\<exists>k p. c = (SBack ^^ k) p \<and> (\<forall>x. p \<noteq> SBack x) \<and> size p \<le> size c \<and> wf_sh p = wf_sh c \<and>
  show_at c 1 = show_at p 2 @ replicate k 38 \<and> (0 < k \<longrightarrow> size p < size c)"
proof (induction c)
  case (SBack c)
  then obtain k p where "c = (SBack ^^ k) p" "\<forall>x. p \<noteq> SBack x" "size p \<le> size c" "wf_sh p = wf_sh c"
    "show_at c 1 = show_at p 2 @ replicate k 38" by blast
  then show ?case by (intro exI[of _ "Suc k"] exI[of _ p]) (auto simp: paren_def replicate_append_same)
qed (rule exI[of _ 0], simp add: paren_def)+

lemma parse_text: "wf_sh c \<Longrightarrow> exec_ok c \<and> pipe_ok c \<and> line_ok c"
proof (induction c rule: measure_induct_rule[of size])
  case (less c)
  have plain: "line_ok x" if "pipe_ok x" "show_at x 0 = show_at x 2" for x
    using that by (intro line_plain[of x x 0]) simp_all
  show ?case
  proof (cases c)
    case (SExec ws)
    then have e: "exec_ok c" using less.prems exec_SExec by simp
    then show ?thesis using pipe_plain[of c] plain[of c] SExec by simp
  next
    case (SRedir x d f)
    then have "exec_ok c" using less exec_SRedir by simp
    then show ?thesis using pipe_plain[of c] plain[of c] SRedir by simp
  next
    case (SPipe l r)
    then have "pipe_ok c" using less pipe_SPipe by simp
    moreover have "line_ok c" using plain[OF calculation] SPipe by (simp add: paren_def)
    ultimately show ?thesis using exec_block[of c] less.prems SPipe by (simp add: paren_def)
  next
    case (SList l r)
    obtain k p where p: "l = (SBack ^^ k) p" "size p \<le> size l" "wf_sh p = wf_sh l" "show_at l 1 = show_at p 2 @ replicate k 38"
      using strip_backs[of l] by blast
    have "pipe_ok p" using less.IH[of p] less.prems p SList by simp
    then have "line_ok c" using line_SList[OF _ p(1,4), of r] less SList by simp
    moreover have "exec_ok c" using exec_block[OF calculation] less.prems SList by (simp add: paren_def)
    ultimately show ?thesis using pipe_plain[of c] SList by (simp add: paren_def)
  next
    case (SBack x)
    obtain k p where p: "c = (SBack ^^ k) p" "\<forall>x. p \<noteq> SBack x" "wf_sh p = wf_sh c" "show_at c 1 = show_at p 2 @ replicate k 38" "0 < k \<longrightarrow> size p < size c"
      using strip_backs[of c] by blast
    have "0 < k" using p(1,2) SBack by (cases k) auto
    then have "pipe_ok p" using less.IH[of p] less.prems p by simp
    then have "line_ok c" using line_plain[OF _ p(1)] p(4) SBack by (simp add: paren_def)
    moreover have "exec_ok c" using exec_block[OF calculation] less.prems SBack by (simp add: paren_def)
    ultimately show ?thesis using pipe_plain[of c] SBack by (simp add: paren_def)
  qed
qed

section \<open>More fuel changes nothing\<close>

definition refined :: "'a res \<Rightarrow> 'a res \<Rightarrow> bool" where
  "refined r r' \<longleftrightarrow> r = Inl Spins \<or> r' = r"

lemma refined_refl [simp]: "refined r r"
  by (simp add: refined_def)

lemma refined_rbind: "refined r r' \<Longrightarrow> (\<And>x. refined (g x) (g' x)) \<Longrightarrow> refined (rbind r g) (rbind r' g')"
  by (cases r) (auto simp: refined_def)

lemmas parse_calls = parseline.simps parsepipe.simps parseblock.simps parseexec.simps

lemma parse_refined:
  "refined (parseline f b s) (parseline (Suc f) b s)" "refined (parsepipe f b s) (parsepipe (Suc f) b s)"
  "refined (parseblock f b s) (parseblock (Suc f) b s)" "refined (parseexec f b s) (parseexec (Suc f) b s)"
proof (induction f arbitrary: s)
  case 0
  { case 1 show ?case by (simp add: refined_def) next case 2 show ?case by (simp add: refined_def)
  next case 3 show ?case by (simp add: refined_def) next case 4 show ?case by (simp add: refined_def) }
next
  case (Suc f)
  {
    case 1
    show ?case unfolding parseline.simps(2)[of "Suc f" b s] parseline.simps(2)[of f b s]
      by (intro refined_rbind Suc.IH(2)) (auto simp: Let_def simp del: parse_calls intro!: refined_rbind Suc.IH(1) split: prod.splits)
  next
    case 2
    show ?case unfolding parsepipe.simps(2)[of "Suc f" b s] parsepipe.simps(2)[of f b s]
      by (intro refined_rbind Suc.IH(4)) (auto simp: Let_def simp del: parse_calls intro!: refined_rbind Suc.IH(2) split: prod.splits)
  next
    case 3
    show ?case unfolding parseblock.simps(2)[of "Suc f" b s] parseblock.simps(2)[of f b s]
      by (auto simp: Let_def simp del: parse_calls intro!: refined_rbind Suc.IH(1) split: prod.splits)
  next
    case 4
    show ?case unfolding parseexec.simps(2)[of "Suc f" b s] parseexec.simps(2)[of f b s]
      by (auto simp: Let_def simp del: parse_calls intro!: refined_rbind Suc.IH(3) split: prod.splits)
  }
qed

lemma refined_trans: "refined a b \<Longrightarrow> refined b c \<Longrightarrow> refined a c"
  by (auto simp: refined_def)

lemma parseline_refined: "f \<le> f' \<Longrightarrow> refined (parseline f b s) (parseline f' b s)"
  by (induction rule: dec_induct) (auto intro: refined_trans parse_refined(1) simp del: parse_calls)

section \<open>Words become strings\<close>

fun words :: "cmd \<Rightarrow> word_at list" where
  "words (EXEC as) = as"
| "words (REDIR c w m fd) = w # words c"
| "words (PIPE l r) = words l @ words r"
| "words (LIST l r) = words l @ words r"
| "words (BACK c) = words c"

definition word_ok :: "u8 list \<Rightarrow> word_at \<Rightarrow> bool" where
  "word_ok b = (\<lambda>(q, e). q \<le> e \<and> e \<le> length b \<and> (\<forall>i. q \<le> i \<longrightarrow> i < e \<longrightarrow> wordchar (b ! i)) \<and> (e < length b \<longrightarrow> \<not> wordchar (b ! e)))"

definition good :: "u8 list \<Rightarrow> (cmd \<times> nat) res \<Rightarrow> bool" where
  "good b r \<longleftrightarrow> (\<forall>c s. r = Inr (c, s) \<longrightarrow> list_all (word_ok b) (words c))"

lemma good_simps [simp]: "good b (Inl e)" "good b (Inr (c, s)) \<longleftrightarrow> list_all (word_ok b) (words c)"
  by (simp_all add: good_def)

lemma good_rbind: "good b r \<Longrightarrow> (\<And>c s. list_all (word_ok b) (words c) \<Longrightarrow> good b (g (c, s))) \<Longrightarrow> good b (rbind r g)"
  unfolding good_def by (cases r) (simp, fastforce)

lemma gettoken_word_ok:
  assumes "gettoken b s = (97, q, e, s')" "0 \<notin> set b"
  shows "word_ok b (q, e)"
proof -
  let ?P = "\<lambda>c. c \<notin> set whitespace \<and> c \<notin> set symbols"
  have q: "q = skip_ws b s" using assms(1) by (auto simp: gettoken_def Let_def split: prod.splits)
  have c: "char_at b q \<noteq> 0" using gettoken_kind[OF assms(1)] q by simp
  have e: "e = skip_while ?P b q"
    using assms(1) c by (auto simp: gettoken_def Let_def q[symmetric] symbols_def split: if_splits)
  have l: "q < length b" using c by (rule char_at_pos)
  define n where "n = length (takeWhile ?P (drop q b))"
  have en: "e = q + n" by (simp add: e n_def skip_while_drop)
  have nl: "n \<le> length b - q" unfolding n_def using length_takeWhile_le[of ?P "drop q b"] by simp
  have "wordchar (b ! i)" if "q \<le> i" "i < e" for i
  proof -
    have "i - q < n" using that en by simp
    then have "takeWhile ?P (drop q b) ! (i - q) \<in> set (takeWhile ?P (drop q b))" unfolding n_def by (rule nth_mem)
    then have "?P (takeWhile ?P (drop q b) ! (i - q))" by (rule set_takeWhileD[THEN conjunct2])
    then have "?P (drop q b ! (i - q))" using takeWhile_nth[OF \<open>i - q < n\<close>[unfolded n_def]] by simp
    moreover have il: "i < length b" using that en nl l by simp
    moreover have "b ! i \<noteq> 0" using nth_mem[OF il] assms(2) by auto
    ultimately show ?thesis using that en nl l by (simp add: wordchar_def)
  qed
  moreover have "\<not> wordchar (b ! e)" if "e < length b"
    using skip_while_stop[of ?P b q] that by (simp add: e[symmetric] char_at_def wordchar_def)
  ultimately show ?thesis using en nl l by (simp add: word_ok_def)
qed
lemma parseredirs_good: "0 \<notin> set b \<Longrightarrow> list_all (word_ok b) (words c) \<Longrightarrow> good b (parseredirs b c s)"
proof (induction b c s rule: parseredirs.induct)
  case (1 b c s)
  obtain p s1 where p: "peek b s [60, 62] = (p, s1)" by fastforce
  obtain t q0 e0 s2 where g: "gettoken b s1 = (t, q0, e0, s2)" by (metis prod_cases4)
  obtain t2 q e s3 where g2: "gettoken b s2 = (t2, q, e, s3)" by (metis prod_cases4)
  show ?case
  proof (cases "p \<and> t2 = 97")
    case True
    let ?c = "if t = 60 then REDIR c (q, e) O_RDONLY 0 else if t = 62 then REDIR c (q, e) (O_WRONLY OR O_CREATE) 1
      else if t = 43 then REDIR c (q, e) (O_WRONLY OR O_CREATE) 1 else c"
    have "word_ok b (q, e)" using gettoken_word_ok g2 True "1.prems"(1) by blast
    then have "list_all (word_ok b) (words ?c)" using "1.prems"(2) by simp
    then have "good b (parseredirs b ?c s3)"
      using "1.IH"[OF p[symmetric] _ _ g[symmetric] _ _ _ g2[symmetric]] True "1.prems"(1) by blast
    moreover have "parseredirs b c s = parseredirs b ?c s3" using True p g g2 by (subst parseredirs.simps) simp
    ultimately show ?thesis by simp
  next
    case False
    then show ?thesis using p g g2 "1.prems" by (subst parseredirs.simps) auto
  qed
qed

lemma words_push_arg: "list_all P (words c) \<Longrightarrow> P a \<Longrightarrow> list_all P (words (push_arg a c))"
  by (induction a c rule: push_arg.induct) auto

lemma arg_loop_good: "0 \<notin> set b \<Longrightarrow> list_all (word_ok b) (words ret) \<Longrightarrow> good b (arg_loop b argc ret s)"
proof (induction b argc ret s rule: arg_loop.induct)
  case (1 b argc ret s)
  obtain p s1 where p: "peek b s [124, 41, 38, 59] = (p, s1)" by fastforce
  obtain t q e s2 where g: "gettoken b s1 = (t, q, e, s2)" by (metis prod_cases4)
  show ?case
  proof (cases "p \<or> t = 0 \<or> t \<noteq> 97 \<or> MAXARGS \<le> argc + 1")
    case True
    then show ?thesis using p g "1.prems" by (subst arg_loop.simps) auto
  next
    case False
    then have "word_ok b (q, e)" using gettoken_word_ok[of b s1 q e s2] g "1.prems"(1) by simp
    then have "list_all (word_ok b) (words (push_arg (q, e) ret))" using "1.prems"(2) by (rule words_push_arg[rotated])
    then have r: "good b (parseredirs b (push_arg (q, e) ret) s2)" by (rule parseredirs_good[OF "1.prems"(1)])
    have "good b (rbind (parseredirs b (push_arg (q, e) ret) s2) (\<lambda>(ret1, s3). arg_loop b (argc + 1) ret1 s3))"
    proof (cases "parseredirs b (push_arg (q, e) ret) s2")
      case (Inr x)
      obtain c s3 where x: "x = (c, s3)" by fastforce
      have "list_all (word_ok b) (words c)" using r Inr x by simp
      then have "good b (arg_loop b (argc + 1) c s3)"
        using False "1.IH"[OF p[symmetric] _ _ g[symmetric] _ _ _ _ _ _ Inr x[symmetric]] "1.prems"(1) by auto
      then show ?thesis using Inr x by simp
    qed simp
    then show ?thesis using False p g by (subst arg_loop.simps) simp
  qed
qed

lemma amp_loop_words: "words (fst (amp_loop b c s)) = words c"
proof (induction b c s rule: amp_loop.induct)
  case (1 b c s)
  then show ?case by (subst amp_loop.simps) (auto simp: Let_def split: prod.splits)
qed

lemma parse_good:
  assumes "0 \<notin> set b"
  shows "good b (parseline f b s)" "good b (parsepipe f b s)" "good b (parseblock f b s)" "good b (parseexec f b s)"
proof (induction f arbitrary: s)
  case (Suc f)
  {
    case 1
    have "list_all (word_ok b) (words (fst (amp_loop b c s1)))" if "list_all (word_ok b) (words c)" for c s1 using that amp_loop_words by simp
    then show ?case using Suc.IH(1)
      by (auto simp: Let_def intro!: good_rbind Suc.IH(2) split: prod.splits) (metis fst_conv)+
  next
    case 2
    show ?case by (auto simp: Let_def intro!: good_rbind Suc.IH(4) Suc.IH(2) split: prod.splits)
  next
    case 3
    show ?case by (auto simp: Let_def intro!: good_rbind Suc.IH(1) parseredirs_good[OF assms] split: prod.splits)
  next
    case 4
    show ?case using Suc.IH(3) by (auto simp: Let_def intro!: good_rbind parseredirs_good[OF assms] arg_loop_good[OF assms] split: prod.splits)
  }
qed simp_all
lemma nth_upd: "i < length xs \<Longrightarrow> xs[j := v] ! i = (if j = i then v else xs ! i)"
  by (cases "j = i") simp_all

lemma nulterminate_nth:
  "length (nulterminate c x) = length x \<and> (i < length x \<longrightarrow> nulterminate c x ! i = (if i \<in> snd ` set (words c) then 0 else x ! i))"
proof (induction c x arbitrary: i rule: nulterminate.induct)
  case (1 as b)
  have "length (fold (\<lambda>(q, eq) b. b[eq := 0]) as b) = length b \<and>
    (i < length b \<longrightarrow> fold (\<lambda>(q, eq) b. b[eq := 0]) as b ! i = (if i \<in> snd ` set as then 0 else b ! i))" for b :: "u8 list"
  proof (induction as arbitrary: b)
    case (Cons a as)
    from Cons[of "b[snd a := 0]"] show ?case by (auto simp: case_prod_beta nth_upd)
  qed simp
  then show ?case by simp
qed (auto simp: nth_upd)

lemma words_are_strings:
  assumes "list_all (word_ok b) (words c)" "(q, e) \<in> set (words c)" "0 \<notin> set b"
  shows "string_of (nulterminate c (b @ [0])) q = slice b (q, e)"
proof -
  let ?x = "nulterminate c (b @ [0])"
  have ok: "q \<le> e" "e \<le> length b" "\<And>i. q \<le> i \<Longrightarrow> i < e \<Longrightarrow> wordchar (b ! i)"
    using assms(1,2) by (auto simp: list_all_iff word_ok_def)
  have ends: "i \<notin> snd ` set (words c)" if "q \<le> i" "i < e" for i
  proof
    assume "i \<in> snd ` set (words c)"
    then have "i < length b \<longrightarrow> \<not> wordchar (b ! i)" using assms(1) by (force simp: list_all_iff word_ok_def)
    then show False using ok that by simp
  qed
  have nth: "?x ! i = b ! i" if "q \<le> i" "i < e" for i using nulterminate_nth[of c "b @ [0]" i] ends[OF that] ok that by (simp add: nth_append)
  have "?x ! e = 0" using nulterminate_nth[of c "b @ [0]" e] ok(2) assms(2) by force
  have len: "length ?x = Suc (length b)" using nulterminate_nth[of c "b @ [0]" 0] by simp
  have "drop q ?x = slice b (q, e) @ drop e ?x"
  proof (rule nth_equalityI)
    show "length (drop q ?x) = length (slice b (q, e) @ drop e ?x)" using ok len by (simp add: slice_def)
    fix i
    assume "i < length (drop q ?x)"
    then show "drop q ?x ! i = (slice b (q, e) @ drop e ?x) ! i" using ok len nth[of "q + i"] by (auto simp: nth_append slice_def add.commute)
  qed
  moreover have "drop e ?x = 0 # drop (Suc e) ?x" using \<open>?x ! e = 0\<close> ok(2) len Cons_nth_drop_Suc[of e ?x] by simp
  moreover have "x \<noteq> 0" if "x \<in> set (slice b (q, e))" for x
    using that assms(3) by (auto simp: slice_def dest: in_set_takeD in_set_dropD)
  ultimately show ?thesis by (simp add: string_of_def)
qed

lemma command_text_cong: "(\<And>w. w \<in> set (words c) \<Longrightarrow> f w = g w) \<Longrightarrow> command_text f c = command_text g c"
  by (induction c) auto

lemma wf_text_nonzero: "wf_sh c \<Longrightarrow> 0 \<notin> set (show_at c n)"
proof (induction c arbitrary: n)
  case (SExec ws)
  have "list_all is_word ws \<Longrightarrow> 0 \<notin> set (join_words ws)"
    by (induction ws rule: join_words.induct) (auto simp: is_word_def list_all_iff wordchar_def)
  then show ?case using SExec by simp
qed (auto simp: paren_def is_word_def list_all_iff wordchar_def)

text \<open>C8. Whatever command is written out as text, with parentheses where the grammar needs them, the shell parses it back to the
  same command: lists, background commands, pipelines, blocks and redirections nest as written, and after
  \<^verbatim>\<open>nulterminate\<close> every argument and file name that the tree points to is a C string with exactly the bytes of the word.\<close>

theorem parsecmd_reads_commands:
  assumes "wf_sh c"
  shows "\<exists>c' buf. parsecmd (show_at c 0) = Inr (c', buf) \<and> command_text (\<lambda>(q, eq). string_of buf q) c' = c"
proof -
  let ?b = "show_at c 0"
  let ?p = "parseline (parse_fuel (length ?b)) ?b 0"
  have "line_ok c" using parse_text[OF assms] by blast
  from this[unfolded line_ok_def, rule_format, of 0 ?b "[]"] obtain F c' where c': "command_text (slice ?b) c' = c" "\<forall>f \<ge> F. parseline f ?b 0 = Inr (c', length ?b)"
    by auto
  have "ends ?p" by (rule parse_ends(1)) (simp_all add: parse_fuel_def)
  then have "?p \<noteq> Inl Spins" by auto
  then have "parseline (max F (parse_fuel (length ?b))) ?b 0 = ?p"
    using parseline_refined[of "parse_fuel (length ?b)" "max F (parse_fuel (length ?b))" ?b 0] by (simp add: refined_def del: parse_calls)
  then have p: "?p = Inr (c', length ?b)" using c'(2) by simp
  have "snd (peek ?b (length ?b) []) = length ?b" using peek_here[of "length ?b" ?b "[]" "[]"] by simp
  then have "parsecmd ?b = Inr (c', nulterminate c' (?b @ [0]))" using p by (simp add: parsecmd_def)
  moreover have "list_all (word_ok ?b) (words c')" using parse_good(1)[OF wf_text_nonzero[OF assms], of 0 "parse_fuel (length ?b)" 0] p by simp
  then have "command_text (\<lambda>(q, eq). string_of (nulterminate c' (?b @ [0])) q) c' = command_text (slice ?b) c'"
    using words_are_strings wf_text_nonzero[OF assms] by (intro command_text_cong) auto
  ultimately show ?thesis using c'(1) by auto
qed

theorem parsecmd_reads_commands_witness:
  "\<exists>c' buf. parsecmd [108, 115, 62, 102, 124, 40, 119, 99, 38, 41] = Inr (c', buf) \<and>
    command_text (\<lambda>(q, eq). string_of buf q) c' = SPipe (SRedir (SExec [[108, 115]]) 62 [102]) (SBack (SExec [[119, 99]]))"
  using parsecmd_reads_commands[of "SPipe (SRedir (SExec [[108, 115]]) 62 [102]) (SBack (SExec [[119, 99]]))"]
  by (simp add: paren_def is_word_def wordchar_def whitespace_def symbols_def)

end
