(* ===== verification/Mapreduce.thy ===== *)
theory Mapreduce
  imports Stdio "HOL-Library.Multiset"
begin

text \<open>
  The MapReduce library \<^verbatim>\<open>src/P4a/mapreduce.c\<close> and its client \<^verbatim>\<open>src/P4a/wordcount.c\<close>. A C string is the list of its bytes.
  \<open>data_values\<close> is the hash table with open addressing, a slot holds a key and its values; \<open>sorted_data\<close> holds the
  sorted list of keys of every partition. Memory from \<^verbatim>\<open>malloc\<close> that the code reads before writing it (the list heads of
  \<^verbatim>\<open>sorted_data\<close>, the \<^verbatim>\<open>next\<close> of the first value of a key) is taken to be zero, as fresh pages are, and a string that
  \<^verbatim>\<open>strcpy\<close> puts one byte past its \<^verbatim>\<open>malloc\<close> block to stay intact. Reading or writing behind the table is a fault. \<^verbatim>\<open>MR_Emit\<close> is two
  critical sections, one under \<^verbatim>\<open>val_lock\<close> and one under \<^verbatim>\<open>sort_lock\<close>, so what the mapper threads do is a
  sequence of such sections in any order.
\<close>

section \<open>The code\<close>

type_synonym str = "u8 list"
type_synonym item = "str option \<times> str list"

record mr =
  data_values :: "item list"
  sorted_data :: "str list list"

abbreviation SIZE :: nat where "SIZE \<equiv> 100000"

text \<open>Characters are signed, the hash is an \<^verbatim>\<open>unsigned long\<close>.\<close>

fun hash_loop :: "64 word \<Rightarrow> str \<Rightarrow> 64 word" where
  "hash_loop h [] = h"
| "hash_loop h (c # cs) = hash_loop (h * 33 + scast c) cs"

definition MR_DefaultHashPartition :: "str \<Rightarrow> nat \<Rightarrow> nat" where
  "MR_DefaultHashPartition key n = unat (hash_loop 5381 key) mod n"

text \<open>The sign of \<^verbatim>\<open>strcmp\<close>: bytes compare as unsigned characters.\<close>

fun strcmp_gt :: "str \<Rightarrow> str \<Rightarrow> bool" where
  "strcmp_gt [] ys = False"
| "strcmp_gt (x # xs) [] = True"
| "strcmp_gt (x # xs) (y # ys) = (if x = y then strcmp_gt xs ys else y < x)"

text \<open>The probing loop: the first slot that is empty or has the key.\<close>

function find_slot :: "item list \<Rightarrow> str \<Rightarrow> nat \<Rightarrow> nat res" where
  "find_slot t key i =
     (if length t \<le> i then Inl (Fault ''data_values'')
      else case fst (t ! i) of
        None \<Rightarrow> Inr i
      | Some k \<Rightarrow> if k = key then Inr i else find_slot t key (Suc i))"
  by pat_completeness auto
termination by (relation "measure (\<lambda>(t, key, i). length t - i)") auto

declare find_slot.simps [simp del]

definition emit_value :: "str \<Rightarrow> str \<Rightarrow> mr \<Rightarrow> mr res" where
  "emit_value key value s =
     rbind (find_slot (data_values s) key (MR_DefaultHashPartition key SIZE)) (\<lambda>i.
       Inr (s\<lparr>data_values := (data_values s)[i := (Some key, value # snd (data_values s ! i))]\<rparr>))"

fun insert_key :: "str \<Rightarrow> str list \<Rightarrow> str list" where
  "insert_key key [] = [key]"
| "insert_key key (k # ks) =
     (if strcmp_gt key k then k # insert_key key ks else if key = k then k # ks else key # k # ks)"

definition emit_sorted :: "(str \<Rightarrow> nat \<Rightarrow> nat) \<Rightarrow> str \<Rightarrow> mr \<Rightarrow> mr res" where
  "emit_sorted part key s =
     (let p = part key (length (sorted_data s)) in
      if p < length (sorted_data s) then Inr (s\<lparr>sorted_data := (sorted_data s)[p := insert_key key (sorted_data s ! p)]\<rparr>)
      else Inl (Fault ''sorted_data''))"

definition MR_Emit :: "(str \<Rightarrow> nat \<Rightarrow> nat) \<Rightarrow> str \<Rightarrow> str \<Rightarrow> mr \<Rightarrow> mr res" where
  "MR_Emit part key value s = rbind (emit_value key value s) (emit_sorted part key)"

text \<open>\<^verbatim>\<open>get_next\<close> takes the first value of a key; \<open>None\<close> is \<^verbatim>\<open>NULL\<close>.\<close>

definition get_next :: "str \<Rightarrow> mr \<Rightarrow> (str option \<times> mr) res" where
  "get_next key s =
     rbind (find_slot (data_values s) key (MR_DefaultHashPartition key SIZE)) (\<lambda>i.
       let vs = snd (data_values s ! i) in
       Inr (case vs of [] \<Rightarrow> None | v # _ \<Rightarrow> Some v,
            s\<lparr>data_values := (data_values s)[i := (Some key, List.tl vs)]\<rparr>))"

text \<open>\<open>reduce\<close> is the reducer of the client: what it prints for a key.\<close>

fun reduce_thread :: "(str \<Rightarrow> mr \<Rightarrow> ('o \<times> mr) res) \<Rightarrow> str list \<Rightarrow> mr \<Rightarrow> ('o list \<times> mr) res" where
  "reduce_thread reduce [] s = Inr ([], s)"
| "reduce_thread reduce (k # ks) s =
     rbind (reduce k s) (\<lambda>(o1, s1). rbind (reduce_thread reduce ks s1) (\<lambda>(o2, s2). Inr (o1 # o2, s2)))"

text \<open>The critical sections of the mapper threads, in the order in which they are entered.\<close>

datatype crit = EmitValue str str | EmitSorted str

fun run_section :: "(str \<Rightarrow> nat \<Rightarrow> nat) \<Rightarrow> crit \<Rightarrow> mr \<Rightarrow> mr res" where
  "run_section part (EmitValue k v) s = emit_value k v s"
| "run_section part (EmitSorted k) s = emit_sorted part k s"

fun run_sections :: "(str \<Rightarrow> nat \<Rightarrow> nat) \<Rightarrow> crit list \<Rightarrow> mr \<Rightarrow> mr res" where
  "run_sections part [] s = Inr s"
| "run_sections part (x # xs) s = rbind (run_section part x s) (run_sections part xs)"

fun reduce_all :: "(str \<Rightarrow> mr \<Rightarrow> ('o \<times> mr) res) \<Rightarrow> nat list \<Rightarrow> mr \<Rightarrow> 'o list list res" where
  "reduce_all reduce [] s = Inr []"
| "reduce_all reduce (i # is) s =
     rbind (reduce_thread reduce (sorted_data s ! i) s) (\<lambda>(o1, s1). rbind (reduce_all reduce is s1) (\<lambda>os. Inr (o1 # os)))"

text \<open>\<^verbatim>\<open>MR_Run\<close>: \<open>xs\<close> are the sections that the mappers enter, the result is what every reducer thread prints.\<close>

definition MR_Run :: "crit list \<Rightarrow> (str \<Rightarrow> mr \<Rightarrow> ('o \<times> mr) res) \<Rightarrow> nat \<Rightarrow> (str \<Rightarrow> nat \<Rightarrow> nat) \<Rightarrow> 'o list list res" where
  "MR_Run xs reduce num_reducers part =
     rbind (run_sections part xs \<lparr>data_values = replicate SIZE (None, []), sorted_data = replicate num_reducers []\<rparr>)
       (\<lambda>s. reduce_all reduce [0..<num_reducers] s)"

section \<open>Counting words\<close>

text \<open>\<^verbatim>\<open>strsep\<close> with the separators space, tab, newline and carriage return: every separator ends a token, which may be
  empty.\<close>

fun strsep_tokens :: "str \<Rightarrow> str \<Rightarrow> str list" where
  "strsep_tokens acc [] = [acc]"
| "strsep_tokens acc (c # cs) =
     (if c = 32 \<or> c = 9 \<or> c = 10 \<or> c = 13 then acc # strsep_tokens [] cs else strsep_tokens (acc @ [c]) cs)"

text \<open>The keys that \<^verbatim>\<open>Map\<close> emits for a file, line by line.\<close>

function Map_keys :: "u8 list \<Rightarrow> str list" where
  "Map_keys file =
     (case getline file of
        None \<Rightarrow> []
      | Some (line, rest) \<Rightarrow> strsep_tokens [] (c_string line) @ Map_keys rest)"
  by pat_completeness auto
termination by (relation "measure length") (auto dest: getline_shorter)

declare Map_keys.simps [simp del]

text \<open>A mapper thread enters two sections for each key, with the value \<^verbatim>\<open>1\<close>.\<close>

definition Map :: "u8 list \<Rightarrow> crit list" where
  "Map file = concat (map (\<lambda>token. [EmitValue token [49], EmitSorted token]) (Map_keys file))"

text \<open>The loop of \<^verbatim>\<open>Reduce\<close>: count the values until \<^verbatim>\<open>get_next\<close> returns \<^verbatim>\<open>NULL\<close>. The fuel is the number of values in the
  table, of which every round takes one.\<close>

fun count_values :: "nat \<Rightarrow> str \<Rightarrow> mr \<Rightarrow> (nat \<times> mr) res" where
  "count_values 0 key s = Inl Spins"
| "count_values (Suc f) key s =
     rbind (get_next key s) (\<lambda>(v, s1).
       case v of None \<Rightarrow> Inr (0, s1) | Some _ \<Rightarrow> rbind (count_values f key s1) (\<lambda>(n, s2). Inr (Suc n, s2)))"

text \<open>\<^verbatim>\<open>Reduce\<close> prints a line with the key and the count.\<close>

definition Reduce :: "str \<Rightarrow> mr \<Rightarrow> ((str \<times> nat) \<times> mr) res" where
  "Reduce key s =
     rbind (count_values (Suc (sum_list (map (length \<circ> snd) (data_values s)))) key s) (\<lambda>(n, s1). Inr ((key, n), s1))"

text \<open>\<^verbatim>\<open>main\<close> runs up to ten mappers at a time and ten reducers.\<close>

definition wordcount :: "crit list \<Rightarrow> (str \<times> nat) list list res" where
  "wordcount xs = MR_Run xs Reduce 10 MR_DefaultHashPartition"

section \<open>The hash table\<close>

abbreviation hash :: "str \<Rightarrow> nat" where "hash k \<equiv> MR_DefaultHashPartition k SIZE"

text \<open>Every key sits behind its hash with no gap in between, once; an empty slot has no values.\<close>

definition table_ok :: "item list \<Rightarrow> bool" where
  "table_ok t \<longleftrightarrow> length t = SIZE \<and>
     (\<forall>i < length t. \<forall>k. fst (t ! i) = Some k \<longrightarrow> hash k \<le> i \<and> (\<forall>j. hash k \<le> j \<longrightarrow> j < i \<longrightarrow> fst (t ! j) \<noteq> None)) \<and>
     (\<forall>i < length t. \<forall>j < length t. fst (t ! i) \<noteq> None \<longrightarrow> fst (t ! i) = fst (t ! j) \<longrightarrow> i = j) \<and>
     (\<forall>i < length t. fst (t ! i) = None \<longrightarrow> snd (t ! i) = [])"

definition vals :: "item list \<Rightarrow> str \<Rightarrow> str list" where
  "vals t k = (case find_index (\<lambda>x. fst x = Some k) t of Some i \<Rightarrow> snd (t ! i) | None \<Rightarrow> [])"

definition table_keys :: "item list \<Rightarrow> str set" where
  "table_keys t = {k. \<exists>i < length t. fst (t ! i) = Some k}"

lemma find_slot_spec:
  "find_slot t key i = Inr j \<Longrightarrow> i \<le> j \<and> j < length t \<and> (fst (t ! j) = None \<or> fst (t ! j) = Some key) \<and>
     (\<forall>m. i \<le> m \<longrightarrow> m < j \<longrightarrow> fst (t ! m) \<noteq> None \<and> fst (t ! m) \<noteq> Some key)"
proof (induction t key i rule: find_slot.induct)
  case (1 t key i)
  show ?case
  proof (cases "length t \<le> i \<or> fst (t ! i) = None \<or> fst (t ! i) = Some key")
    case True
    then show ?thesis using "1.prems" by (subst (asm) find_slot.simps) (auto split: option.splits if_splits)
  next
    case False
    then obtain k where k: "fst (t ! i) = Some k" "k \<noteq> key" "i < length t" by auto
    then have "find_slot t key (Suc i) = Inr j" using "1.prems" by (subst (asm) find_slot.simps) simp
    then show ?thesis using "1.IH" k by (auto simp: Suc_le_eq) (metis le_neq_implies_less option.inject option.distinct(1))+
  qed
qed

lemma find_slot_total:
  "i \<le> m \<Longrightarrow> m < length t \<Longrightarrow> fst (t ! m) = None \<or> fst (t ! m) = Some key \<Longrightarrow> \<exists>j. find_slot t key i = Inr j"
proof (induction t key i rule: find_slot.induct)
  case (1 t key i)
  show ?case
  proof (cases "fst (t ! i) = None \<or> fst (t ! i) = Some key")
    case True
    then show ?thesis using "1.prems" by (subst find_slot.simps) auto
  next
    case False
    then obtain k where k: "fst (t ! i) = Some k" "k \<noteq> key" by auto
    then have "i \<noteq> m" using "1.prems"(3) by auto
    then have "Suc i \<le> m" using "1.prems"(1) by simp
    then show ?thesis using "1.IH"[of k] "1.prems"(2,3) k by (subst find_slot.simps) simp
  qed
qed

lemma table_okD:
  assumes "table_ok t"
  shows "length t = SIZE"
    "i < length t \<Longrightarrow> fst (t ! i) = Some k \<Longrightarrow> hash k \<le> i"
    "i < length t \<Longrightarrow> fst (t ! i) = Some k \<Longrightarrow> hash k \<le> j \<Longrightarrow> j < i \<Longrightarrow> fst (t ! j) \<noteq> None"
    "i < length t \<Longrightarrow> j < length t \<Longrightarrow> fst (t ! i) = Some k \<Longrightarrow> fst (t ! j) = Some k \<Longrightarrow> i = j"
    "i < length t \<Longrightarrow> fst (t ! i) = None \<Longrightarrow> snd (t ! i) = []"
  using assms unfolding table_ok_def by (blast, blast, blast, simp, blast)

lemma vals_at:
  assumes "table_ok t" "i < length t" "fst (t ! i) = Some k"
  shows "vals t k = snd (t ! i)"
proof -
  have "find_index (\<lambda>x. fst x = Some k) t \<noteq> None" using nth_mem[OF assms(2)] assms(3) unfolding find_index_None by blast
  then obtain j where j: "find_index (\<lambda>x. fst x = Some k) t = Some j" by auto
  have "j = i" using find_index_SomeD[OF j] table_okD(4)[OF assms(1) _ assms(2) _ assms(3)] by blast
  then show ?thesis by (simp add: vals_def j)
qed

lemma vals_absent: "k \<notin> table_keys t \<Longrightarrow> vals t k = []"
  by (auto simp: vals_def table_keys_def dest!: find_index_SomeD split: option.splits)

text \<open>With the invariant, probing finds the slot of a key that is in the table.\<close>

lemma find_slot_key:
  assumes "table_ok t" "find_slot t k (hash k) = Inr j"
  shows "fst (t ! j) = None \<longrightarrow> k \<notin> table_keys t"
proof (intro impI notI)
  assume n: "fst (t ! j) = None" and "k \<in> table_keys t"
  then obtain i where i: "i < length t" "fst (t ! i) = Some k" by (auto simp: table_keys_def)
  note s = find_slot_spec[OF assms(2)]
  have "hash k \<le> i" "\<forall>m. hash k \<le> m \<longrightarrow> m < i \<longrightarrow> fst (t ! m) \<noteq> None" using table_okD(2,3)[OF assms(1) i] by blast+
  then have "\<not> j < i" using n s by blast
  moreover have "\<not> i < j" using s i(2) \<open>hash k \<le> i\<close> by blast
  ultimately have "i = j" by simp
  then show False using i(2) n by simp
qed

lemma find_slot_hit: "find_slot t key i = Inr j \<Longrightarrow> fst (t ! j) \<noteq> None \<Longrightarrow> fst (t ! j) = Some key"
  using find_slot_spec[of t key i j] by auto

lemma vals_found:
  assumes "table_ok t" "find_slot t k (hash k) = Inr j"
  shows "snd (t ! j) = vals t k"
proof (cases "fst (t ! j) = None")
  case True
  then show ?thesis using find_slot_key[OF assms] vals_absent[of k t] find_slot_spec[OF assms(2)] table_okD(5)[OF assms(1)] by simp
next
  case False
  then have "fst (t ! j) = Some k" by (rule find_slot_hit[OF assms(2)])
  then show ?thesis using vals_at[OF assms(1), of j k] find_slot_spec[OF assms(2)] by simp
qed
lemma table_put:
  fixes vs :: "str list"
  assumes "table_ok t" "find_slot t k (hash k) = Inr j"
  defines "t' \<equiv> t[j := (Some k, vs)]"
  shows "table_ok t'" "vals t' k' = (if k' = k then vs else vals t k')" "table_keys t' = insert k (table_keys t)"
proof -
  note s = find_slot_spec[OF assms(2)]
  note ok = table_okD[OF assms(1)]
  have at: "t' ! i = (if i = j then (Some k, vs) else t ! i)" for i using s by (simp add: t'_def)
  have len: "length t' = length t" by (simp add: t'_def)
  have other: "fst (t ! i) \<noteq> Some k" if "i < length t" "i \<noteq> j" for i
  proof
    assume i: "fst (t ! i) = Some k"
    then have "k \<in> table_keys t" using that(1) by (auto simp: table_keys_def)
    then have "fst (t ! j) = Some k" using find_slot_key[OF assms(1,2)] find_slot_hit[OF assms(2)] by argo
    then show False using ok(4)[OF that(1) _ i, of j] s that(2) by simp
  qed
  show ok': "table_ok t'" unfolding table_ok_def
  proof (intro conjI allI impI)
    show "length t' = SIZE" using ok(1) len by simp
    fix i k1 assume i: "i < length t'" "fst (t' ! i) = Some k1"
    show "hash k1 \<le> i"
    proof (cases "i = j")
      case True
      then show ?thesis using i s at by simp
    next
      case False
      then show ?thesis using i ok(2)[of i k1] at len by simp
    qed
    fix m assume m: "hash k1 \<le> m" "m < i"
    show "fst (t' ! m) \<noteq> None"
    proof (cases "i = j")
      case True
      then have "k1 = k" using i at by simp
      then show ?thesis using s m True at by simp
    next
      case False
      then show ?thesis using ok(3)[of i k1 m] i m at len by simp
    qed
  next
    fix i i2 assume i: "i < length t'" "i2 < length t'" "fst (t' ! i) \<noteq> None" "fst (t' ! i) = fst (t' ! i2)"
    show "i = i2"
    proof (cases "i = j \<or> i2 = j")
      case True
      then show ?thesis using i other[of i] other[of i2] at len by (auto split: if_splits)
    next
      case False
      then show ?thesis using i ok(4)[of i i2] at len by auto
    qed
  next
    fix i assume "i < length t'" "fst (t' ! i) = None"
    then show "snd (t' ! i) = []" using ok(5)[of i] at len by (auto split: if_splits)
  qed
  show keys: "table_keys t' = insert k (table_keys t)"
  proof (intro set_eqI iffI)
    fix x assume "x \<in> table_keys t'"
    then show "x \<in> insert k (table_keys t)" using at len by (auto simp: table_keys_def split: if_splits)
  next
    fix x assume x: "x \<in> insert k (table_keys t)"
    show "x \<in> table_keys t'"
    proof (cases "x = k")
      case True
      then show ?thesis using s at len by (auto simp: table_keys_def intro!: exI[of _ j])
    next
      case False
      then obtain i where "i < length t" "fst (t ! i) = Some x" using x by (auto simp: table_keys_def)
      moreover have "i \<noteq> j" using calculation False s by auto
      ultimately show ?thesis using at len by (auto simp: table_keys_def intro!: exI[of _ i])
    qed
  qed
  show "vals t' k' = (if k' = k then vs else vals t k')"
  proof (cases "k' = k")
    case True
    then show ?thesis using vals_at[OF ok', of j k] s at len by simp
  next
    case False
    show ?thesis
    proof (cases "k' \<in> table_keys t")
      case True
      then obtain i where i: "i < length t" "fst (t ! i) = Some k'" by (auto simp: table_keys_def)
      have "i \<noteq> j" using i False s by auto
      then show ?thesis using vals_at[OF assms(1) i] vals_at[OF ok', of i k'] i at len False by simp
    next
      case False
      then show ?thesis using vals_absent[of k' t] vals_absent[of k' t'] keys \<open>k' \<noteq> k\<close> by simp
    qed
  qed
qed

text \<open>Room: as many slots behind the hash as there are other keys.\<close>

lemma card_used:
  assumes "table_ok t"
  shows "card {i. i < length t \<and> fst (t ! i) \<noteq> None} = card (table_keys t)"
proof (rule bij_betw_same_card)
  show "bij_betw (\<lambda>i. the (fst (t ! i))) {i. i < length t \<and> fst (t ! i) \<noteq> None} (table_keys t)"
    unfolding bij_betw_def
  proof
    show "inj_on (\<lambda>i. the (fst (t ! i))) {i. i < length t \<and> fst (t ! i) \<noteq> None}"
      using table_okD(4)[OF assms] by (auto simp: inj_on_def)
    show "(\<lambda>i. the (fst (t ! i))) ` {i. i < length t \<and> fst (t ! i) \<noteq> None} = table_keys t"
      by (force simp: table_keys_def image_iff)
  qed
qed

lemma find_slot_room:
  assumes "table_ok t" "hash k + card (table_keys t) < SIZE \<or> k \<in> table_keys t"
  shows "\<exists>j. find_slot t k (hash k) = Inr j"
  using assms(2)
proof
  assume r: "hash k + card (table_keys t) < SIZE"
  have "\<exists>m. hash k \<le> m \<and> m \<le> hash k + card (table_keys t) \<and> fst (t ! m) = None"
  proof (rule ccontr)
    assume "\<not> ?thesis"
    then have "{hash k..hash k + card (table_keys t)} \<subseteq> {i. i < length t \<and> fst (t ! i) \<noteq> None}"
      using r table_okD(1)[OF assms(1)] by auto
    then have "card {hash k..hash k + card (table_keys t)} \<le> card (table_keys t)"
      unfolding card_used[OF assms(1), symmetric] by (rule card_mono[rotated]) simp
    then show False by simp
  qed
  then show ?thesis using find_slot_total[of "hash k" _ t k] r table_okD(1)[OF assms(1)] by fastforce
next
  assume "k \<in> table_keys t"
  then obtain i where "i < length t" "fst (t ! i) = Some k" by (auto simp: table_keys_def)
  then show ?thesis using find_slot_total[of "hash k" i t k] table_okD(2)[OF assms(1)] by blast
qed
section \<open>Sorted keys\<close>

lemma strcmp_irrefl [simp]: "\<not> strcmp_gt a a"
  by (induction a) simp_all

lemma strcmp_total: "a \<noteq> b \<Longrightarrow> \<not> strcmp_gt a b \<Longrightarrow> strcmp_gt b a"
  proof (induction a b rule: strcmp_gt.induct)
  case (1 ys)
  then show ?case by (cases ys) auto
qed (auto split: if_splits)

lemma strcmp_trans: "strcmp_gt a b \<Longrightarrow> strcmp_gt b c \<Longrightarrow> strcmp_gt a c"
proof (induction a b arbitrary: c rule: strcmp_gt.induct)
  case (3 x xs y ys)
  then show ?case by (cases c) (auto split: if_splits)
qed (auto elim: strcmp_gt.elims)

abbreviation ordered :: "str list \<Rightarrow> bool" where "ordered \<equiv> sorted_wrt (\<lambda>x y. strcmp_gt y x)"

lemma set_insert_key: "set (insert_key k ks) = insert k (set ks)"
  by (induction k ks rule: insert_key.induct) auto

lemma ordered_insert_key: "ordered ks \<Longrightarrow> ordered (insert_key k ks)"
proof (induction k ks rule: insert_key.induct)
  case (2 key k ks)
  then show ?case using strcmp_total[of key k] strcmp_trans[of _ k key] by (auto simp: set_insert_key)
qed simp

lemma ordered_distinct: "ordered ks \<Longrightarrow> distinct ks"
  by (induction ks) auto

section \<open>The mappers\<close>

fun emitted :: "crit list \<Rightarrow> str list" where
  "emitted [] = []"
| "emitted (EmitValue k v # xs) = k # emitted xs"
| "emitted (EmitSorted k # xs) = emitted xs"

fun registered :: "crit list \<Rightarrow> str set" where
  "registered [] = {}"
| "registered (EmitValue k v # xs) = registered xs"
| "registered (EmitSorted k # xs) = insert k (registered xs)"

lemma emitted_append: "emitted (xs @ ys) = emitted xs @ emitted ys"
  by (induction xs rule: emitted.induct) auto

lemma registered_append: "registered (xs @ ys) = registered xs \<union> registered ys"
  by (induction xs rule: registered.induct) auto

lemma run_sections_append: "run_sections part (xs @ ys) s = rbind (run_sections part xs s) (run_sections part ys)"
proof (induction xs arbitrary: s)
  case (Cons x xs)
  then show ?case by (cases "run_section part x s") simp_all
qed simp

text \<open>What the sections \<open>xs\<close> leave behind, in whatever order they ran.\<close>

definition mapped :: "(str \<Rightarrow> nat \<Rightarrow> nat) \<Rightarrow> nat \<Rightarrow> crit list \<Rightarrow> mr \<Rightarrow> bool" where
  "mapped part n xs s \<longleftrightarrow> table_ok (data_values s) \<and> table_keys (data_values s) = set (emitted xs) \<and>
     (\<forall>k. length (vals (data_values s) k) = count_list (emitted xs) k) \<and> length (sorted_data s) = n \<and>
     (\<forall>p < n. ordered (sorted_data s ! p) \<and> set (sorted_data s ! p) = {k \<in> registered xs. part k n = p})"

lemma mapped_start: "mapped part n [] \<lparr>data_values = replicate SIZE (None, []), sorted_data = replicate n []\<rparr>"
  by (auto simp: mapped_def table_ok_def table_keys_def vals_def find_index_None split: option.splits dest!: find_index_SomeD)

lemma emit_value_mapped:
  assumes "mapped part n xs s" "hash k + card (insert k (set (emitted xs))) \<le> SIZE"
  shows "\<exists>s'. emit_value k v s = Inr s' \<and> mapped part n (xs @ [EmitValue k v]) s'"
proof -
  let ?t = "data_values s"
  have ok: "table_ok ?t" "table_keys ?t = set (emitted xs)" using assms(1) by (auto simp: mapped_def)
  have "hash k + card (table_keys ?t) < SIZE \<or> k \<in> table_keys ?t" using assms(2) ok(2) by (auto simp: card_insert_if)
  then obtain j where j: "find_slot ?t k (hash k) = Inr j" using find_slot_room[OF ok(1)] by blast
  let ?vs = "v # snd (?t ! j)"
  note put = table_put[OF ok(1) j, of ?vs]
  have "snd (?t ! j) = vals ?t k" by (rule vals_found[OF ok(1) j])
  then show ?thesis using assms(1) j put
    by (auto simp: emit_value_def mapped_def emitted_append registered_append)
qed

lemma emit_sorted_mapped:
  assumes "mapped part n xs s" "part k n < n"
  shows "\<exists>s'. emit_sorted part k s = Inr s' \<and> mapped part n (xs @ [EmitSorted k]) s'"
  using assms by (auto simp: mapped_def emit_sorted_def Let_def emitted_append registered_append set_insert_key ordered_insert_key nth_list_update)

lemma run_sections_mapped:
  assumes "finite K" "\<forall>k \<in> K. hash k + card K \<le> SIZE" "\<forall>k. part k n < n" "set (emitted xs) \<subseteq> K"
  shows "\<exists>s. run_sections part xs \<lparr>data_values = replicate SIZE (None, []), sorted_data = replicate n []\<rparr> = Inr s \<and> mapped part n xs s"
  using assms(4)
proof (induction xs rule: rev_induct)
  case Nil
  then show ?case by (simp add: mapped_start)
next
  case (snoc x xs)
  then obtain s where s: "run_sections part xs \<lparr>data_values = replicate SIZE (None, []), sorted_data = replicate n []\<rparr> = Inr s" "mapped part n xs s"
    by (auto simp: emitted_append)
  show ?case
  proof (cases x)
    case (EmitValue k v)
    have "insert k (set (emitted xs)) \<subseteq> K" "k \<in> K" using snoc.prems EmitValue by (auto simp: emitted_append)
    then have "hash k + card (insert k (set (emitted xs))) \<le> SIZE"
      using card_mono[OF assms(1), of "insert k (set (emitted xs))"] assms(2) by fastforce
    from emit_value_mapped[OF s(2) this, of v] show ?thesis using s(1) EmitValue by (auto simp: run_sections_append)
  next
    case (EmitSorted k)
    have "part k n < n" using assms(3) by blast
    from emit_sorted_mapped[where k = k, OF s(2) this] show ?thesis using s(1) EmitSorted by (auto simp: run_sections_append)
  qed
qed
section \<open>The reducers\<close>

lemma get_next_vals:
  assumes "table_ok (data_values s)" "k \<in> table_keys (data_values s)"
  shows "\<exists>s'. get_next k s = Inr (case vals (data_values s) k of [] \<Rightarrow> None | v # _ \<Rightarrow> Some v, s') \<and>
     table_ok (data_values s') \<and> table_keys (data_values s') = table_keys (data_values s) \<and>
     vals (data_values s') = (vals (data_values s))(k := List.tl (vals (data_values s) k)) \<and> sorted_data s' = sorted_data s"
proof -
  obtain j where j: "find_slot (data_values s) k (hash k) = Inr j" using find_slot_room[OF assms(1)] assms(2) by blast
  note put = table_put[OF assms(1) j, of "List.tl (vals (data_values s) k)"]
  show ?thesis using put vals_found[OF assms(1) j] assms(2) by (auto simp: get_next_def j Let_def fun_eq_iff insert_absorb)
qed

lemma count_values_length:
  assumes "table_ok (data_values s)" "k \<in> table_keys (data_values s)" "length (vals (data_values s) k) < f"
  shows "\<exists>s'. count_values f k s = Inr (length (vals (data_values s) k), s') \<and>
     table_ok (data_values s') \<and> table_keys (data_values s') = table_keys (data_values s) \<and>
     vals (data_values s') = (vals (data_values s))(k := []) \<and> sorted_data s' = sorted_data s"
  using assms
proof (induction f arbitrary: s)
  case (Suc f)
  obtain s1 where s1: "get_next k s = Inr (case vals (data_values s) k of [] \<Rightarrow> None | v # _ \<Rightarrow> Some v, s1)"
    "table_ok (data_values s1)" "table_keys (data_values s1) = table_keys (data_values s)"
    "vals (data_values s1) = (vals (data_values s))(k := List.tl (vals (data_values s) k))" "sorted_data s1 = sorted_data s"
    using get_next_vals[OF Suc.prems(1,2)] by blast
  show ?case
  proof (cases "vals (data_values s) k")
    case Nil
    then show ?thesis using s1 by (auto simp: fun_eq_iff)
  next
    case (Cons v vs)
    then show ?thesis using Suc.IH[of s1] Suc.prems s1 by (auto simp: fun_eq_iff)
  qed
qed simp

lemma vals_le_sum: "length (vals t k) \<le> sum_list (map (length \<circ> snd) t)"
proof (cases "find_index (\<lambda>x. fst x = Some k) t")
  case (Some i)
  then have "length (snd (t ! i)) \<in> set (map (length \<circ> snd) t)" using find_index_SomeD[OF Some] by auto
  then show ?thesis using Some member_le_sum_list[of "length (snd (t ! i))" "map (length \<circ> snd) t"] by (simp add: vals_def)
qed (simp add: vals_def)

lemma Reduce_counts:
  assumes "table_ok (data_values s)" "k \<in> table_keys (data_values s)"
  shows "\<exists>s'. Reduce k s = Inr ((k, length (vals (data_values s) k)), s') \<and>
     table_ok (data_values s') \<and> table_keys (data_values s') = table_keys (data_values s) \<and>
     vals (data_values s') = (vals (data_values s))(k := []) \<and> sorted_data s' = sorted_data s"
  using count_values_length[OF assms, of "Suc (sum_list (map (length \<circ> snd) (data_values s)))"] vals_le_sum[of "data_values s" k]
  by (auto simp: Reduce_def simp del: count_values.simps)

lemma reduce_thread_counts:
  assumes "table_ok (data_values s)" "set ks \<subseteq> table_keys (data_values s)" "distinct ks"
  shows "\<exists>s'. reduce_thread Reduce ks s = Inr (map (\<lambda>k. (k, length (vals (data_values s) k))) ks, s') \<and>
     table_ok (data_values s') \<and> table_keys (data_values s') = table_keys (data_values s) \<and>
     (\<forall>k. k \<notin> set ks \<longrightarrow> vals (data_values s') k = vals (data_values s) k) \<and> sorted_data s' = sorted_data s"
  using assms
proof (induction ks arbitrary: s)
  case (Cons k ks)
  then obtain s1 where s1: "Reduce k s = Inr ((k, length (vals (data_values s) k)), s1)"
    "table_ok (data_values s1)" "table_keys (data_values s1) = table_keys (data_values s)"
    "vals (data_values s1) = (vals (data_values s))(k := [])" "sorted_data s1 = sorted_data s"
    using Reduce_counts[of s k] by auto
  have same: "map (\<lambda>x. (x, length (vals (data_values s1) x))) ks = map (\<lambda>x. (x, length (vals (data_values s) x))) ks"
    using Cons.prems(3) s1(4) by auto
  show ?case using Cons.IH[of s1, unfolded same] Cons.prems s1 by auto
qed simp

text \<open>The reducer threads work on disjoint sets of keys.\<close>

lemma reduce_all_counts:
  assumes "table_ok (data_values s)" "\<forall>i \<in> set is. set (sorted_data s ! i) \<subseteq> table_keys (data_values s) \<and> distinct (sorted_data s ! i)"
    "distinct is" "\<forall>i \<in> set is. \<forall>j \<in> set is. i \<noteq> j \<longrightarrow> set (sorted_data s ! i) \<inter> set (sorted_data s ! j) = {}"
  shows "reduce_all Reduce is s = Inr (map (\<lambda>i. map (\<lambda>k. (k, length (vals (data_values s) k))) (sorted_data s ! i)) is)"
  using assms
proof (induction "is" arbitrary: s)
  case (Cons i "is")
  then obtain s1 where s1: "reduce_thread Reduce (sorted_data s ! i) s =
      Inr (map (\<lambda>k. (k, length (vals (data_values s) k))) (sorted_data s ! i), s1)"
    "table_ok (data_values s1)" "table_keys (data_values s1) = table_keys (data_values s)"
    "\<forall>k. k \<notin> set (sorted_data s ! i) \<longrightarrow> vals (data_values s1) k = vals (data_values s) k" "sorted_data s1 = sorted_data s"
    using reduce_thread_counts[of s "sorted_data s ! i"] by auto
  have "map (\<lambda>i. map (\<lambda>k. (k, length (vals (data_values s1) k))) (sorted_data s1 ! i)) is =
      map (\<lambda>i. map (\<lambda>k. (k, length (vals (data_values s) k))) (sorted_data s ! i)) is"
    using Cons.prems(3,4) s1(4,5) by (auto simp: disjoint_iff)
  moreover have "reduce_all Reduce is s1 = Inr (map (\<lambda>i. map (\<lambda>k. (k, length (vals (data_values s1) k))) (sorted_data s1 ! i)) is)"
    using Cons.prems s1(2,3,5) by (intro Cons.IH) auto
  ultimately show ?case using s1(1) by simp
qed simp
section \<open>The whole run\<close>

lemma mset_emitted: "mset (emitted xs) = image_mset (\<lambda>x. case x of EmitValue k v \<Rightarrow> k | EmitSorted k \<Rightarrow> k) (filter_mset (\<lambda>x. case x of EmitValue k v \<Rightarrow> True | EmitSorted k \<Rightarrow> False) (mset xs))"
  by (induction xs rule: emitted.induct) auto

lemma registered_set: "registered xs = {k. EmitSorted k \<in> set xs}"
  by (induction xs rule: registered.induct) auto

lemma emitted_Map: "emitted (Map f) = Map_keys f"
proof -
  have "emitted (concat (map (\<lambda>token. [EmitValue token [49], EmitSorted token]) ks)) = ks" for ks by (induction ks) auto
  then show ?thesis by (simp add: Map_def)
qed

lemma registered_Map: "registered (Map f) = set (Map_keys f)"
  by (auto simp: registered_set Map_def)

lemma emitted_concat: "emitted (concat xss) = concat (map emitted xss)"
  by (induction xss) (simp_all add: emitted_append)

lemma schedule_emitted:
  assumes "mset xs = mset (concat (map Map files))"
  shows "mset (emitted xs) = mset (concat (map Map_keys files))" "registered xs = set (concat (map Map_keys files))"
proof -
  have "mset (emitted xs) = mset (emitted (concat (map Map files)))" unfolding mset_emitted assms ..
  then show "mset (emitted xs) = mset (concat (map Map_keys files))" by (simp add: emitted_concat emitted_Map comp_def)
  have "set xs = set (concat (map Map files))" using assms by (rule mset_eq_setD)
  then show "registered xs = set (concat (map Map_keys files))" by (auto simp: registered_set Map_def)
qed

lemma count_list_mset: "count_list xs x = count (mset xs) x"
  by (induction xs) auto



end
