(* ===== verification/Pagemap.thy ===== *)
theory Pagemap
  imports Vm
begin

text \<open>
  What the page tables of \<open>Vm\<close> mean: \<open>pte_of\<close> is the entry that the two-level lookup finds for a virtual address, 0 when
  there is no page table. \<open>space\<close> is the invariant of a page directory with its tables beside the free list. In terms of
  them \<^verbatim>\<open>mappages\<close> maps exactly the pages it is asked to, \<^verbatim>\<open>copyuvm\<close> gives the child a private copy of the
  user memory, and \<^verbatim>\<open>mprotect\<close> takes the write permission from exactly the pages in its range.
\<close>

section \<open>Words in a page\<close>

lemma unat_PDX: "unat (PDX va) = page va div 1024"
proof -
  have "PDX va = take_bit 10 (drop_bit 22 va)" by (simp add: PDX_def take_bit_eq_mask mask_eq_exp_minus_1 and.commute)
  then have "unat (PDX va) = take_bit 10 (drop_bit 22 (unat va))" by (simp add: unsigned_take_bit_eq unsigned_drop_bit_eq take_bit_nat_eq_self[OF unat_less_2p32])
  also have "\<dots> = unat va div 2 ^ 22 mod 1024" by (simp add: take_bit_eq_mod drop_bit_eq_div)
  also have "\<dots> = unat va div 2 ^ 22" using unat_less_2p32[of va] by (simp add: div_less_iff_less_mult)
  finally show ?thesis by (simp add: page_def div_mult2_eq[symmetric])
qed

lemma unat_PTX: "unat (PTX va) = page va mod 1024"
proof -
  have "PTX va = take_bit 10 (drop_bit 12 va)" by (simp add: PTX_def take_bit_eq_mask mask_eq_exp_minus_1 and.commute)
  then have "unat (PTX va) = take_bit 10 (drop_bit 12 (unat va))" by (simp add: unsigned_take_bit_eq unsigned_drop_bit_eq take_bit_nat_eq_self[OF unat_less_2p32])
  then show ?thesis by (simp add: take_bit_eq_mod drop_bit_eq_div page_def)
qed

lemma page_less: "page va < 2 ^ 20"
  using unat_less_2p32[of va] by (simp add: page_def div_less_iff_less_mult)

lemma PDX_less: "PDX va < 1024" and PTX_less: "PTX va < 1024"
  using page_less[of va] by (simp_all add: word_less_nat_alt unat_PDX unat_PTX div_less_iff_less_mult)

lemma same_page_iff: "page x = page y \<longleftrightarrow> PDX x = PDX y \<and> PTX x = PTX y"
proof
  assume "PDX x = PDX y \<and> PTX x = PTX y"
  then have "page x div 1024 = page y div 1024" "page x mod 1024 = page y mod 1024"
    by (metis unat_PDX, metis unat_PTX)
  then show "page x = page y" by (metis div_mult_mod_eq)
next
  assume "page x = page y"
  then show "PDX x = PDX y \<and> PTX x = PTX y" by (simp add: word_unat_eq_iff unat_PDX unat_PTX)
qed

lemma unat_slot: "(i :: u32) < 1024 \<Longrightarrow> unat (4 * i) = 4 * unat i"
  by (simp add: word_less_nat_alt unat_word_ariths)

lemma slot_page:
  assumes "aligned p" "i < 1024"
  shows "page (p + 4 * i) = page p" "unat (p + 4 * i) = unat p + 4 * unat i"
proof -
  have "unat (4 * i) < 4096" using unat_slot[OF assms(2)] assms(2) by (simp add: word_less_nat_alt)
  from page_offset[OF assms(1) this] show "page (p + 4 * i) = page p" "unat (p + 4 * i) = unat p + 4 * unat i"
    using unat_slot[OF assms(2)] by simp_all
qed

lemma slot_bytes:
  assumes "aligned p" "i < 1024" "d < 4"
  shows "page (p + 4 * i + d) = page p" "unat (p + 4 * i + d) = unat p + 4 * unat i + unat d"
proof -
  have d: "unat d < 4" using assms(3) by (simp add: word_less_nat_alt)
  have i: "unat i < 1024" using assms(2) by (simp add: word_less_nat_alt)
  then have u: "unat (4 * i + d) = 4 * unat i + unat d" using d unat_slot[OF assms(2)] by (subst unat_add_noof) simp_all
  have "unat (4 * i + d) < 4096" using i d u by simp
  from page_offset[OF assms(1) this] show "page (p + 4 * i + d) = page p" "unat (p + 4 * i + d) = unat p + 4 * unat i + unat d"
    using u by (simp_all add: add.assoc)
qed

lemma load32_cong:
  assumes "\<And>d. d < 4 \<Longrightarrow> m' (a + d) = m (a + d)"
  shows "load32 m' a = load32 m a"
  using assms[of 0] assms[of 1] assms[of 2] assms[of 3] by (simp add: load32_def)

text \<open>A word at an index of an aligned page depends on that page only, and a store changes only the word at its index.\<close>

lemma load32_slot:
  assumes "aligned p" "i < 1024" "\<And>x. page x = page p \<Longrightarrow> m' x = m x"
  shows "load32 m' (p + 4 * i) = load32 m (p + 4 * i)"
  using slot_bytes(1)[OF assms(1,2)] assms(3) by (intro load32_cong) blast

lemma store32_at: "store32 m a v x = (if x - a < 4 then store32 m a v x else m x)"
proof (cases "x - a < 4")
  case False
  then have "x \<noteq> a" "x \<noteq> a + 1" "x \<noteq> a + 2" "x \<noteq> a + 3" by auto
  then show ?thesis using False by (simp add: store32_def)
qed simp

lemma store32_slot_page:
  assumes "aligned p" "i < 1024" "page x \<noteq> page p"
  shows "store32 m (p + 4 * i) v x = m x"
proof -
  have "page (p + 4 * i + (x - (p + 4 * i))) = page p" if "x - (p + 4 * i) < 4" using slot_bytes(1)[OF assms(1,2) that] .
  then show ?thesis using assms(3) by (subst store32_at) auto
qed

lemma load32_store32_slot:
  assumes "aligned p" "i < 1024" "j < 1024"
  shows "load32 (store32 m (p + 4 * i) v) (p + 4 * j) = (if j = i then v else load32 m (p + 4 * j))"
proof (cases "j = i")
  case False
  have "load32 (store32 m (p + 4 * i) v) (p + 4 * j) = load32 m (p + 4 * j)"
  proof (rule load32_cong)
    fix d :: u32 assume d: "d < 4"
    have "\<not> p + 4 * j + d - (p + 4 * i) < 4"
    proof
      assume lt: "p + 4 * j + d - (p + 4 * i) < 4"
      define e where "e = p + 4 * j + d - (p + 4 * i)"
      have eq: "p + 4 * i + e = p + 4 * j + d" by (simp add: e_def)
      have e4: "e < 4" using lt by (simp only: e_def)
      have "unat p + 4 * unat i + unat e = unat p + 4 * unat j + unat d"
        using slot_bytes(2)[OF assms(1,2) e4] slot_bytes(2)[OF assms(1,3) d] unfolding eq by (rule subst)
      moreover have "unat d < 4" "unat e < 4" using d e4 by (simp_all add: word_less_nat_alt)
      ultimately have "unat i = unat j" by linarith
      then show False using False by (simp add: word_unat_eq_iff)
    qed
    then show "store32 m (p + 4 * i) v (p + 4 * j + d) = m (p + 4 * j + d)" by (subst store32_at) simp
  qed
  then show ?thesis using False by simp
qed simp

section \<open>Page directories\<close>

abbreviation present :: "u32 \<Rightarrow> bool" where "present e \<equiv> e AND PTE_P \<noteq> 0"

definition pde :: "kmem \<Rightarrow> u32 \<Rightarrow> u32 \<Rightarrow> u32" where
  "pde k D i = load32 (mem k) (D + 4 * i)"

definition tab :: "kmem \<Rightarrow> u32 \<Rightarrow> u32 \<Rightarrow> u32" where
  "tab k D i = P2V (PTE_ADDR (pde k D i))"

definition pte_of :: "kmem \<Rightarrow> u32 \<Rightarrow> u32 \<Rightarrow> u32" where
  "pte_of k D va = (if present (pde k D (PDX va)) then load32 (mem k) (tab k D (PDX va) + 4 * PTX va) else 0)"

text \<open>The pages a directory consists of, and the invariant: the tables are pages of the allocator, different from each other
  and from the directory, and none is free.\<close>

definition tables :: "kmem \<Rightarrow> u32 \<Rightarrow> u32 set" where
  "tables k D = insert D (tab k D ` {i. i < 1024 \<and> present (pde k D i)})"

definition dir_ok :: "u32 \<Rightarrow> u32 \<Rightarrow> kmem \<Rightarrow> bool" where
  "dir_ok kend D k \<longleftrightarrow> (\<forall>p \<in> tables k D. kpage kend p) \<and> (\<forall>i < 1024. present (pde k D i) \<longrightarrow> tab k D i \<noteq> D) \<and>
     (\<forall>i < 1024. \<forall>j < 1024. present (pde k D i) \<longrightarrow> present (pde k D j) \<longrightarrow> tab k D i = tab k D j \<longrightarrow> i = j)"

definition space :: "u32 \<Rightarrow> u32 \<Rightarrow> u32 list \<Rightarrow> kmem \<Rightarrow> bool" where
  "space kend D vs k \<longleftrightarrow> free_list kend k vs \<and> dir_ok kend D k \<and> tables k D \<inter> set vs = {}"

definition unchanged :: "u32 set \<Rightarrow> kmem \<Rightarrow> kmem \<Rightarrow> bool" where
  "unchanged S k k' \<longleftrightarrow> (\<forall>x. page x \<notin> page ` S \<longrightarrow> mem k' x = mem k x)"

lemma unchanged_refl [simp]: "unchanged S k k"
  by (simp add: unchanged_def)

lemma unchanged_trans: "unchanged S k k1 \<Longrightarrow> unchanged T k1 k2 \<Longrightarrow> S \<subseteq> U \<Longrightarrow> T \<subseteq> U \<Longrightarrow> unchanged U k k2"
  by (auto simp: unchanged_def image_def) (metis subsetD)

lemma tables_kpage: "dir_ok kend D k \<Longrightarrow> p \<in> tables k D \<Longrightarrow> kpage kend p"
  by (simp add: dir_ok_def)

lemma kpage_aligned: "kpage kend p \<Longrightarrow> aligned p"
  by (simp add: kpage_def)

lemma tab_table: "present (pde k D (PDX va)) \<Longrightarrow> tab k D (PDX va) \<in> tables k D"
  using PDX_less by (auto simp: tables_def)

lemma tab_aligned: "dir_ok kend D k \<Longrightarrow> present (pde k D (PDX va)) \<Longrightarrow> aligned (tab k D (PDX va))"
  by (rule kpage_aligned, rule tables_kpage, assumption, rule tab_table)

text \<open>Nothing about a directory changes when its pages stay as they are.\<close>

lemma pde_frame: "dir_ok kend D k \<Longrightarrow> (\<And>x. page x = page D \<Longrightarrow> mem k' x = mem k x) \<Longrightarrow> i < 1024 \<Longrightarrow> pde k' D i = pde k D i"
  unfolding pde_def by (rule load32_slot) (auto simp: tables_def dest: tables_kpage[THEN kpage_aligned])

lemma dir_frame:
  assumes "dir_ok kend D k" "unchanged S k k'" "\<forall>p \<in> S. aligned p" "S \<inter> tables k D = {}"
  shows "dir_ok kend D k'" "tables k' D = tables k D" "pte_of k' D va = pte_of k D va"
proof -
  have keep: "mem k' x = mem k x" if "page x = page p" "p \<in> tables k D" for x p
  proof -
    have "aligned p" using tables_kpage[OF assms(1) that(2)] by (rule kpage_aligned)
    then have "page x \<notin> page ` S" using that assms(3,4) page_inj[of p] by auto
    then show ?thesis using assms(2) by (simp add: unchanged_def)
  qed
  have pde: "pde k' D i = pde k D i" if "i < 1024" for i
  proof (rule pde_frame[OF assms(1) _ that])
    fix x assume "page x = page D"
    then show "mem k' x = mem k x" by (rule keep) (simp add: tables_def)
  qed
  then show t: "tables k' D = tables k D" by (auto simp: tables_def tab_def image_iff)
  show "dir_ok kend D k'" using assms(1) pde t by (simp add: dir_ok_def tab_def)
  show "pte_of k' D va = pte_of k D va"
  proof (cases "present (pde k D (PDX va))")
    case True
    then have "tab k D (PDX va) \<in> tables k D" using PDX_less by (auto simp: tables_def)
    then have "load32 (mem k') (tab k D (PDX va) + 4 * PTX va) = load32 (mem k) (tab k D (PDX va) + 4 * PTX va)"
      using keep tables_kpage[OF assms(1)] kpage_aligned by (intro load32_slot PTX_less) blast+
    then show ?thesis using pde[OF PDX_less] by (simp add: pte_of_def tab_def)
  qed (simp add: pte_of_def pde[OF PDX_less])
qed

lemma free_list_frame:
  assumes "free_list kend k vs" "unchanged S k k'" "\<forall>p \<in> S. aligned p" "S \<inter> set vs = {}" "freelist k' = freelist k"
  shows "free_list kend k' vs"
proof -
  have "chain (mem k') (freelist k) vs = chain (mem k) (freelist k) vs"
  proof (rule chain_cong, rule load32_other_page)
    fix u x assume u: "u \<in> set vs"
    then show a: "aligned u" using assms(1) by (auto simp: free_list_def kpage_def)
    assume "page x = page u"
    then have "page x \<notin> page ` S" using a u assms(3,4) page_inj[of u] by auto
    then show "mem k' x = mem k x" using assms(2) by (simp add: unchanged_def)
  qed
  then show ?thesis using assms(1,5) by (simp add: free_list_def)
qed

section \<open>Walking\<close>

lemma aligned_add: "aligned a \<Longrightarrow> aligned b \<Longrightarrow> aligned (a + b)"
proof -
  assume a: "aligned a" "aligned b"
  have s: "unat a + unat b = (page a + page b) * 4096" unfolding aligned_eq[OF a(1)] aligned_eq[OF a(2)] by (rule distrib_right[symmetric])
  have "unat (a + b) = (unat a + unat b) mod (1048576 * 4096)" by (simp add: unat_word_ariths)
  also have "\<dots> = ((page a + page b) * 4096) mod (1048576 * 4096)" unfolding s ..
  also have "\<dots> = (page a + page b) mod 1048576 * 4096" by (rule mult_mod_left[symmetric])
  finally show ?thesis unfolding aligned_def by (simp only: mod_mult_self2_is_0)
qed

lemma aligned_V2P: "aligned p \<Longrightarrow> aligned (V2P p)"
proof -
  assume a: "aligned p"
  have "aligned (- KERNBASE)" by (simp add: aligned_def KERNBASE_def)
  from aligned_add[OF a this] show ?thesis by (simp add: V2P_def)
qed

lemma pte_fields:
  assumes "aligned a" "unat f < 4096"
  shows "PTE_ADDR (a OR f) = a" "PTE_FLAGS (a OR f) = f"
proof -
  have f: "f AND 0xFFF = f" using assms(2) by (simp add: word_unat_eq_iff unat_and_0xFFF)
  have a: "a AND 0xFFF = 0" using assms(1) by (simp add: word_unat_eq_iff unat_and_0xFFF aligned_def)
  have "f AND NOT 0xFFF = 0" "a AND NOT 0xFFF = a" using split_mask[of f "0xFFF"] split_mask[of a "0xFFF"] f a by simp_all
  then show "PTE_ADDR (a OR f) = a" "PTE_FLAGS (a OR f) = f"
    using f a by (simp_all add: PTE_ADDR_def PTE_FLAGS_def bit.conj_disj_distrib2)
qed

lemma walk_present:
  "present (pde k D (PDX va)) \<Longrightarrow> walkpgdir D va alloc k = (tab k D (PDX va) + 4 * PTX va, k)"
  by (simp add: walkpgdir_def pde_def tab_def Let_def)

lemma walk_absent: "\<not> present (pde k D (PDX va)) \<Longrightarrow> walkpgdir D va False k = (0, k)"
  by (simp add: walkpgdir_def pde_def Let_def)

lemma slot_nonzero:
  assumes "kpage kend p" "i < 1024"
  shows "p + 4 * i \<noteq> 0"
proof
  assume "p + 4 * i = 0"
  then have "unat p + 4 * unat i = 0" using slot_page(2)[OF kpage_aligned[OF assms(1)] assms(2)] by simp
  then show False using kpage_nonzero[OF assms(1)] by (simp add: unat_eq_zero)
qed

lemma load32_zero: "aligned p \<Longrightarrow> i < 1024 \<Longrightarrow> (\<And>x. page x = page p \<Longrightarrow> m x = 0) \<Longrightarrow> load32 m (p + 4 * i) = 0"
  using load32_slot[of p i m "\<lambda>x. 0"] by (simp add: load32_def)

abbreviation table_flags :: u32 where "table_flags \<equiv> PTE_P OR PTE_W OR PTE_U"

lemma pde_new: "PTE_ADDR (V2P v OR PTE_P OR PTE_W OR PTE_U) = V2P v" "present (V2P v OR PTE_P OR PTE_W OR PTE_U)" if "aligned v"
proof -
  have "V2P v OR PTE_P OR PTE_W OR PTE_U = V2P v OR 7" by (simp add: pte_defs or.assoc)
  then show "PTE_ADDR (V2P v OR PTE_P OR PTE_W OR PTE_U) = V2P v" using pte_fields(1)[OF aligned_V2P[OF that], of 7] by simp
  have "bit (V2P v OR PTE_P OR PTE_W OR PTE_U) 0" by (simp add: bit_or_iff pte_defs)
  then show "present (V2P v OR PTE_P OR PTE_W OR PTE_U)" by (auto simp: pte_defs bit_0 and_one_eq odd_iff_mod_2_eq_one)
qed

text \<open>\<open>walkpgdir\<close> with allocation, when there is no table yet: a cleared page becomes the table and no entry changes.\<close>

lemma walk_new:
  assumes "space kend D (v # vs) k" "\<not> present (pde k D (PDX va))"
  shows "\<exists>k1. walkpgdir D va True k = (v + 4 * PTX va, k1) \<and> space kend D vs k1 \<and> tables k1 D = insert v (tables k D) \<and>
     (\<forall>i < 1024. pde k1 D i = (if i = PDX va then V2P v OR PTE_P OR PTE_W OR PTE_U else pde k D i)) \<and>
     (\<forall>x. pte_of k1 D x = pte_of k D x) \<and> unchanged {D, v} k k1"
proof -
  have sp: "free_list kend k (v # vs)" "dir_ok kend D k" "tables k D \<inter> set (v # vs) = {}" using assms(1) by (auto simp: space_def)
  have v: "kpage kend v" "aligned v" "v \<notin> tables k D" "v \<notin> set vs" using sp by (auto simp: free_list_def kpage_def)
  have D: "D \<in> tables k D" "aligned D" "D \<noteq> v" using tables_kpage[OF sp(2), of D] v(3) by (auto simp: tables_def kpage_def)
  let ?e = "V2P v OR PTE_P OR PTE_W OR PTE_U"
  let ?m = "store32 (memset (mem k) v 0 PGSIZE) (D + 4 * PDX va) ?e"
  define k1 where "k1 = k\<lparr>freelist := load32 (mem k) v, mem := ?m\<rparr>"
  have w: "walkpgdir D va True k = (v + 4 * PTX va, k1)"
    using assms(2) kpage_nonzero[OF v(1)] by (simp add: walkpgdir_def Let_def free_list_kalloc[OF sp(1)] pde_def k1_def)
  have mset: "memset (mem k) v 0 PGSIZE x = (if page x = page v then 0 else mem k x)" for x
    using in_page[OF v(2), of x] by (simp add: memset_at PGSIZE_def)
  have m: "mem k1 x = (if page x = page v then 0 else mem k x)" if "page x \<noteq> page D" for x
    using store32_slot_page[OF D(2) PDX_less that] mset by (simp add: k1_def)
  have un: "unchanged {D, v} k k1" using m by (simp add: unchanged_def)
  have pg: "page D \<noteq> page v" using page_inj[OF D(2) v(2)] D(3) by simp
  have pde1: "pde k1 D i = (if i = PDX va then ?e else pde k D i)" if "i < 1024" for i
  proof -
    have "load32 (memset (mem k) v 0 PGSIZE) (D + 4 * i) = load32 (mem k) (D + 4 * i)"
      using pg by (intro load32_slot[OF D(2) that]) (simp add: mset)
    then show ?thesis using load32_store32_slot[OF D(2) PDX_less that] by (simp add: pde_def k1_def)
  qed
  have tab1: "tab k1 D i = (if i = PDX va then v else tab k D i)" if "i < 1024" for i
    using pde1[OF that] pde_new(1)[OF v(2)] by (simp add: tab_def)
  have pr: "{i. i < 1024 \<and> present (pde k1 D i)} = insert (PDX va) {i. i < 1024 \<and> present (pde k D i)}"
    using pde1 pde_new(2)[OF v(2)] PDX_less[of va] by (auto split: if_splits)
  have t: "tables k1 D = insert v (tables k D)" using tab1 PDX_less[of va] assms(2) unfolding tables_def pr by (auto simp: image_iff)
  have dir: "dir_ok kend D k1"
    using sp(2) v(1,3) D(3) t tab1 pde1 pde_new(2)[OF v(2)] by (auto simp: dir_ok_def tables_def split: if_splits)
  have "free_list kend k1 vs"
  proof (rule free_list_frame[OF free_list_tail[OF sp(1)], of "{D, v}"])
    show "unchanged {D, v} (k\<lparr>freelist := load32 (mem k) v\<rparr>) k1" using un by (simp add: unchanged_def)
    show "{D, v} \<inter> set vs = {}" using sp(3) D(1) v(4) by auto
  qed (use D(2) v(2) in \<open>simp_all add: k1_def\<close>)
  then have "space kend D vs k1" using dir t sp(3) v(4) by (auto simp: space_def)
  moreover have "pte_of k1 D x = pte_of k D x" for x
  proof (cases "PDX x = PDX va")
    case True
    have "load32 (mem k1) (v + 4 * PTX x) = 0" using pg m by (intro load32_zero[OF v(2) PTX_less]) auto
    then show ?thesis using True assms(2) tab1[OF PDX_less] pde1[OF PDX_less] pde_new(2)[OF v(2)] by (simp add: pte_of_def)
  next
    case False
    show ?thesis
    proof (cases "present (pde k D (PDX x))")
      case True
      let ?t = "tab k D (PDX x)"
      have tt: "?t \<in> tables k D" "?t \<noteq> D" using True PDX_less sp(2) by (auto simp: tables_def dir_ok_def)
      then have "aligned ?t" "?t \<noteq> v" using tables_kpage[OF sp(2)] kpage_aligned v(3) by auto
      then have "load32 (mem k1) (?t + 4 * PTX x) = load32 (mem k) (?t + 4 * PTX x)"
        using m page_inj D(2) v(2) tt(2) by (intro load32_slot[OF _ PTX_less]) simp_all
      then show ?thesis using False True tab1[OF PDX_less] pde1[OF PDX_less] by (simp add: pte_of_def)
    qed (use False pde1[OF PDX_less] in \<open>simp add: pte_of_def\<close>)
  qed
  ultimately show ?thesis using w t pde1 un by blast
qed
lemma set_pte:
  fixes w :: u32
  assumes "space kend D vs k" "present (pde k D (PDX va))"
  defines "k' \<equiv> k\<lparr>mem := store32 (mem k) (tab k D (PDX va) + 4 * PTX va) w\<rparr>"
  shows "space kend D vs k'" "tables k' D = tables k D" "i < 1024 \<Longrightarrow> pde k' D i = pde k D i"
    "pte_of k' D x = (if page x = page va then w else pte_of k D x)" "unchanged {tab k D (PDX va)} k k'"
proof -
  let ?t = "tab k D (PDX va)"
  have sp: "free_list kend k vs" "dir_ok kend D k" "tables k D \<inter> set vs = {}" using assms(1) by (auto simp: space_def)
  have t: "?t \<in> tables k D" "?t \<noteq> D" using assms(2) PDX_less sp(2) by (auto simp: tables_def dir_ok_def)
  then have al: "aligned ?t" "aligned D" using tables_kpage[OF sp(2)] kpage_aligned by (auto simp: tables_def)
  have pg: "page D \<noteq> page ?t" using page_inj[OF al] t(2) by auto
  show un: "unchanged {?t} k k'" using store32_slot_page[OF al(1) PTX_less] by (auto simp: unchanged_def k'_def)
  have pde: "pde k' D i = pde k D i" if "i < 1024" for i
    using un pg by (intro pde_frame[OF sp(2) _ that]) (auto simp: unchanged_def)
  then show "i < 1024 \<Longrightarrow> pde k' D i = pde k D i" .
  show tb: "tables k' D = tables k D" using pde by (auto simp: tables_def tab_def image_iff)
  have dir: "dir_ok kend D k'" using sp(2) pde tb by (simp add: dir_ok_def tab_def)
  have "free_list kend k' vs" using sp(3) t(1) al by (intro free_list_frame[OF sp(1) un]) (auto simp: k'_def)
  then show "space kend D vs k'" using dir tb sp(3) by (simp add: space_def)
  show "pte_of k' D x = (if page x = page va then w else pte_of k D x)"
  proof (cases "PDX x = PDX va")
    case True
    then show ?thesis using assms(2) pde[OF PDX_less] load32_store32_slot[OF al(1) PTX_less PTX_less]
      by (simp add: pte_of_def tab_def k'_def same_page_iff)
  next
    case False
    then have "load32 (mem k') (tab k D (PDX x) + 4 * PTX x) = load32 (mem k) (tab k D (PDX x) + 4 * PTX x)"
      if p: "present (pde k D (PDX x))"
    proof -
      let ?u = "tab k D (PDX x)"
      have "?u \<noteq> ?t" using False sp(2) p assms(2) PDX_less by (auto simp: dir_ok_def)
      moreover have "aligned ?u" by (rule tab_aligned[OF sp(2) p])
      ultimately show ?thesis using un page_inj al(1) by (intro load32_slot[OF _ PTX_less]) (auto simp: unchanged_def)
    qed
    then show ?thesis using False pde[OF PDX_less] by (simp add: pte_of_def tab_def same_page_iff)
  qed
qed

section \<open>Mapping pages\<close>

definition absent :: "kmem \<Rightarrow> u32 \<Rightarrow> nat" where
  "absent k D = card {i. i < 1024 \<and> \<not> present (pde k D i)}"

text \<open>A directory grows: it takes tables from the free list, one for each directory entry it fills.\<close>

definition grown :: "u32 \<Rightarrow> u32 \<Rightarrow> kmem \<Rightarrow> u32 list \<Rightarrow> kmem \<Rightarrow> u32 list \<Rightarrow> bool" where
  "grown kend D k vs k1 vs1 \<longleftrightarrow> space kend D vs1 k1 \<and> set vs1 \<subseteq> set vs \<and> tables k D \<subseteq> tables k1 D \<and>
     tables k1 D \<subseteq> tables k D \<union> set vs \<and> unchanged (tables k1 D) k k1 \<and> length vs1 + absent k D = length vs + absent k1 D"

lemma grown_refl: "space kend D vs k \<Longrightarrow> grown kend D k vs k vs"
  by (simp add: grown_def)

lemma grown_trans:
  assumes "grown kend D k vs k1 vs1" "grown kend D k1 vs1 k2 vs2"
  shows "grown kend D k vs k2 vs2"
proof -
  have "unchanged (tables k2 D) k k2"
    by (rule unchanged_trans[of "tables k1 D" _ k1 "tables k2 D"]) (use assms in \<open>auto simp: grown_def\<close>)
  moreover have "length vs2 + absent k D = length vs + absent k2 D" using assms unfolding grown_def by linarith
  ultimately show ?thesis using assms unfolding grown_def by blast
qed

lemma walk_grows:
  assumes "space kend D vs k" "absent k D \<le> length vs"
  shows "\<exists>k1 vs1. walkpgdir D va True k = (tab k1 D (PDX va) + 4 * PTX va, k1) \<and> present (pde k1 D (PDX va)) \<and>
    grown kend D k vs k1 vs1 \<and> (\<forall>x. pte_of k1 D x = pte_of k D x)"
proof (cases "present (pde k D (PDX va))")
  case True
  then show ?thesis using walk_present[OF True] grown_refl[OF assms(1)] by blast
next
  case False
  have fin: "finite {i :: u32. i < 1024 \<and> P i}" for P by simp
  have "{i. i < 1024 \<and> \<not> present (pde k D i)} \<noteq> {}" using False PDX_less by blast
  then have "0 < absent k D" unfolding absent_def card_gt_0_iff using fin by simp
  then obtain v ws where vs: "vs = v # ws" using assms(2) by (cases vs) auto
  obtain k1 where k1: "walkpgdir D va True k = (v + 4 * PTX va, k1)" "space kend D ws k1" "tables k1 D = insert v (tables k D)"
    "\<forall>i < 1024. pde k1 D i = (if i = PDX va then V2P v OR PTE_P OR PTE_W OR PTE_U else pde k D i)"
    "\<forall>x. pte_of k1 D x = pte_of k D x" "unchanged {D, v} k k1"
    using walk_new[of kend D v ws k va] assms(1) False vs by blast
  have al: "aligned v" using assms(1) vs by (auto simp: space_def free_list_def kpage_def)
  have p: "present (pde k1 D (PDX va))" using k1(4) pde_new(2)[OF al] PDX_less by simp
  have t: "tab k1 D (PDX va) = v" using k1(4) pde_new(1)[OF al] PDX_less by (simp add: tab_def)
  have "{i. i < 1024 \<and> \<not> present (pde k D i)} = insert (PDX va) {i. i < 1024 \<and> \<not> present (pde k1 D i)}"
    using k1(4) False PDX_less pde_new(2)[OF al] by (auto split: if_splits)
  then have ab: "absent k D = Suc (absent k1 D)" unfolding absent_def using p fin by (simp add: card_insert_if)
  have "unchanged (tables k1 D) k k1" using k1(3,6) unchanged_trans[OF k1(6) unchanged_refl[of "{}"]] by (auto simp: tables_def)
  then have "grown kend D k vs k1 ws" using k1(2,3) vs ab by (auto simp: grown_def)
  then show ?thesis using k1(1,5) p t by blast
qed

text \<open>The entry of one page.\<close>

lemma map_one:
  assumes "space kend D vs k" "absent k D \<le> length vs"
  shows "\<exists>pte k1 vs1. walkpgdir D va True k = (pte, k1) \<and> pte \<noteq> 0 \<and> load32 (mem k1) pte = pte_of k D va \<and>
    grown kend D k vs (k1\<lparr>mem := store32 (mem k1) pte w\<rparr>) vs1 \<and>
    (\<forall>x. pte_of (k1\<lparr>mem := store32 (mem k1) pte w\<rparr>) D x = (if page x = page va then w else pte_of k D x))"
proof -
  obtain k1 vs1 where k1: "walkpgdir D va True k = (tab k1 D (PDX va) + 4 * PTX va, k1)" "present (pde k1 D (PDX va))"
    "grown kend D k vs k1 vs1" "\<forall>x. pte_of k1 D x = pte_of k D x" using walk_grows[OF assms] by blast
  have sp: "space kend D vs1 k1" using k1(3) by (simp add: grown_def)
  note st = set_pte[OF sp k1(2), where w = w]
  let ?k2 = "k1\<lparr>mem := store32 (mem k1) (tab k1 D (PDX va) + 4 * PTX va) w\<rparr>"
  have t: "tab k1 D (PDX va) \<in> tables k1 D" using k1(2) PDX_less by (auto simp: tables_def)
  have "absent ?k2 D = absent k1 D" unfolding absent_def using st(3) by (metis (no_types, lifting))
  moreover have "unchanged (tables ?k2 D) k1 ?k2" using unchanged_trans[OF st(5) unchanged_refl[of "{}"]] t st(2) by auto
  ultimately have "grown kend D k1 vs1 ?k2 vs1" using st(1,2) by (simp add: grown_def)
  from grown_trans[OF k1(3) this] have "grown kend D k vs ?k2 vs1" .
  moreover have "kpage kend (tab k1 D (PDX va))" using t tables_kpage sp by (auto simp: space_def)
  moreover have "load32 (mem k1) (tab k1 D (PDX va) + 4 * PTX va) = pte_of k1 D va" using k1(2) by (simp add: pte_of_def)
  ultimately show ?thesis
    using k1(1,4) st(4) slot_nonzero[OF _ PTX_less]
    by (intro exI[of _ "tab k1 D (PDX va) + 4 * PTX va"] exI[of _ k1] exI[of _ vs1]) auto
qed
lemma present_leaf: "present (x OR y OR PTE_P)"
proof -
  have "bit (x OR y OR PTE_P) 0" by (simp add: bit_or_iff pte_defs)
  then show ?thesis by (auto simp: pte_defs bit_0 and_one_eq odd_iff_mod_2_eq_one)
qed

lemma page_next:
  assumes "aligned a" "Suc (page a) < 2 ^ 20"
  shows "page (a + PGSIZE) = Suc (page a)" "aligned (a + PGSIZE)"
proof -
  have "unat (a + PGSIZE) = unat a + 4096"
    using unat_add_noof[of a PGSIZE] aligned_eq[OF assms(1)] assms(2) by (simp add: PGSIZE_def)
  then have u: "unat (a + PGSIZE) = Suc (page a) * 4096" using aligned_eq[OF assms(1)] by simp
  show "page (a + PGSIZE) = Suc (page a)" unfolding page_def[of "a + PGSIZE"] u by (rule nonzero_mult_div_cancel_right) simp
  show "aligned (a + PGSIZE)" unfolding aligned_def u by (rule mod_mult_self2_is_0)
qed

definition leaf :: "u32 \<Rightarrow> u32 \<Rightarrow> u32 \<Rightarrow> u32 \<Rightarrow> u32" where
  "leaf a pa perm x = pa + of_nat (4096 * (page x - page a)) OR perm OR PTE_P"

lemma mappages_loop_maps:
  assumes "space kend D vs k" "absent k D \<le> length vs" "aligned a" "page a + n < 2 ^ 20"
    "\<forall>x. page a \<le> page x \<and> page x \<le> page a + n \<longrightarrow> \<not> present (pte_of k D x)"
  shows "\<exists>k1 vs1. mappages_loop D a pa perm n k = Inr (True, k1) \<and> grown kend D k vs k1 vs1 \<and>
    (\<forall>x. pte_of k1 D x = (if page a \<le> page x \<and> page x \<le> page a + n then leaf a pa perm x else pte_of k D x))"
  using assms
proof (induction n arbitrary: a pa k vs)
  case (0 a pa k vs)
  obtain pte k1 vs1 where s: "walkpgdir D a True k = (pte, k1)" "pte \<noteq> 0" "load32 (mem k1) pte = pte_of k D a"
    "grown kend D k vs (k1\<lparr>mem := store32 (mem k1) pte (pa OR perm OR PTE_P)\<rparr>) vs1"
    "\<forall>x. pte_of (k1\<lparr>mem := store32 (mem k1) pte (pa OR perm OR PTE_P)\<rparr>) D x = (if page x = page a then pa OR perm OR PTE_P else pte_of k D x)"
    using map_one[OF 0(1,2), of a "pa OR perm OR PTE_P"] by blast
  have "\<not> present (pte_of k D a)" using 0(5) by simp
  then show ?case using s by (auto simp: leaf_def)
next
  case (Suc n a pa k vs)
  obtain pte k1 vs1 where s: "walkpgdir D a True k = (pte, k1)" "pte \<noteq> 0" "load32 (mem k1) pte = pte_of k D a"
    "grown kend D k vs (k1\<lparr>mem := store32 (mem k1) pte (pa OR perm OR PTE_P)\<rparr>) vs1"
    "\<forall>x. pte_of (k1\<lparr>mem := store32 (mem k1) pte (pa OR perm OR PTE_P)\<rparr>) D x = (if page x = page a then pa OR perm OR PTE_P else pte_of k D x)"
    using map_one[OF Suc.prems(1,2), of a "pa OR perm OR PTE_P"] by blast
  let ?k2 = "k1\<lparr>mem := store32 (mem k1) pte (pa OR perm OR PTE_P)\<rparr>"
  have np: "\<not> present (pte_of k D a)" using Suc.prems(5) by simp
  have a': "page (a + PGSIZE) = Suc (page a)" "aligned (a + PGSIZE)" using page_next[OF Suc.prems(3)] Suc.prems(4) by simp_all
  have "\<exists>k3 vs3. mappages_loop D (a + PGSIZE) (pa + PGSIZE) perm n ?k2 = Inr (True, k3) \<and> grown kend D ?k2 vs1 k3 vs3 \<and>
    (\<forall>x. pte_of k3 D x = (if page (a + PGSIZE) \<le> page x \<and> page x \<le> page (a + PGSIZE) + n
       then leaf (a + PGSIZE) (pa + PGSIZE) perm x else pte_of ?k2 D x))"
  proof (rule Suc.IH)
    show "space kend D vs1 ?k2" "absent ?k2 D \<le> length vs1" using s(4) Suc.prems(2) unfolding grown_def by (blast, linarith)
    show "aligned (a + PGSIZE)" "page (a + PGSIZE) + n < 2 ^ 20" using a' Suc.prems(4) by simp_all
    show "\<forall>x. page (a + PGSIZE) \<le> page x \<and> page x \<le> page (a + PGSIZE) + n \<longrightarrow> \<not> present (pte_of ?k2 D x)"
      using Suc.prems(5) s(5) a'(1) by simp
  qed
  then obtain k3 vs3 where k3: "mappages_loop D (a + PGSIZE) (pa + PGSIZE) perm n ?k2 = Inr (True, k3)" "grown kend D ?k2 vs1 k3 vs3"
    "\<forall>x. pte_of k3 D x = (if page (a + PGSIZE) \<le> page x \<and> page x \<le> page (a + PGSIZE) + n
       then leaf (a + PGSIZE) (pa + PGSIZE) perm x else pte_of ?k2 D x)" by blast
  have lf: "leaf (a + PGSIZE) (pa + PGSIZE) perm x = leaf a pa perm x" if "Suc (page a) \<le> page x" for x
  proof -
    have "4096 * (page x - page a) = 4096 + 4096 * (page x - Suc (page a))" using that by simp
    then have "pa + of_nat (4096 * (page x - page a)) = pa + PGSIZE + of_nat (4096 * (page x - Suc (page a)))"
      by (simp only: of_nat_add) (simp add: PGSIZE_def)
    then show ?thesis by (simp add: leaf_def a'(1) add.assoc)
  qed
  have "pte_of k3 D x = (if page a \<le> page x \<and> page x \<le> page a + Suc n then leaf a pa perm x else pte_of k D x)" for x
    using k3(3) s(5) a'(1) lf[of x] by (auto simp: leaf_def[of a] simp del: of_nat_mult)
  moreover have "mappages_loop D a pa perm (Suc n) k = Inr (True, k3)" using s(1,2,3) np k3(1) by simp
  ultimately show ?case using grown_trans[OF s(4) k3(2)] by blast
qed

text \<open>\<^verbatim>\<open>mappages\<close> maps the pages of its range and no others.\<close>

lemma mappages_maps:
  assumes "space kend D vs k" "absent k D \<le> length vs" "0 < unat sz" "unat va + unat sz \<le> 2 ^ 32"
    "\<forall>x. page va \<le> page x \<and> page x \<le> page (va + sz - 1) \<longrightarrow> \<not> present (pte_of k D x)"
  shows "\<exists>k1 vs1. mappages D va sz pa perm k = Inr (True, k1) \<and> grown kend D k vs k1 vs1 \<and>
    (\<forall>x. pte_of k1 D x = (if page va \<le> page x \<and> page x \<le> page (va + sz - 1) then leaf va pa perm x else pte_of k D x))"
proof -
  let ?l = "va + sz - 1"
  have l: "unat ?l = unat va + unat sz - 1"
  proof -
    have eq: "?l = va + (sz - 1)" by simp
    have u: "unat (sz - 1) = unat sz - 1" using assms(3) by (intro unat_minus_one) auto
    show ?thesis unfolding eq by (subst unat_add_noof) (use u assms(3,4) in linarith)+
  qed
  then have le: "page va \<le> page ?l" using assms(3) by (simp add: page_def div_le_mono)
  have p: "page (PGROUNDDOWN va) = page va" using unat_PGROUNDDOWN[of va] by (simp add: page_def)
  have "unat (PGROUNDDOWN ?l - PGROUNDDOWN va) = page ?l * 4096 - page va * 4096"
    using le by (simp add: unat_sub_if' word_le_nat_alt unat_PGROUNDDOWN)
  then have n: "unat (PGROUNDDOWN ?l - PGROUNDDOWN va) div unat PGSIZE = page ?l - page va" by (simp add: PGSIZE_def diff_mult_distrib[symmetric])
  have "\<exists>k1 vs1. mappages_loop D (PGROUNDDOWN va) pa perm (page ?l - page va) k = Inr (True, k1) \<and> grown kend D k vs k1 vs1 \<and>
    (\<forall>x. pte_of k1 D x = (if page (PGROUNDDOWN va) \<le> page x \<and> page x \<le> page (PGROUNDDOWN va) + (page ?l - page va)
       then leaf (PGROUNDDOWN va) pa perm x else pte_of k D x))"
    using page_less[of ?l] le assms(5) p by (intro mappages_loop_maps[OF assms(1,2)]) auto
  moreover have lf: "leaf (PGROUNDDOWN va) pa perm = leaf va pa perm" by (simp add: fun_eq_iff leaf_def p)
  ultimately show ?thesis using le unfolding mappages_def Let_def n lf p by simp
qed
declare mappages_loop.simps [simp del]

section \<open>The kernel part of an address space\<close>

text \<open>Map entries in ascending order that do not overlap, from page \<open>lo\<close> on.\<close>

fun kmap_ok :: "nat \<Rightarrow> kmap list \<Rightarrow> bool" where
  "kmap_ok lo [] \<longleftrightarrow> True"
| "kmap_ok lo (e # es) \<longleftrightarrow> (let sz = phys_end e - phys_start e in lo \<le> page (virt e) \<and> 0 < unat sz \<and>
     unat (virt e) + unat sz \<le> 2 ^ 32 \<and> kmap_ok (Suc (page (virt e + sz - 1))) es)"

lemma page_last_le:
  assumes "0 < unat sz" "unat va + unat sz \<le> 2 ^ 32"
  shows "page va \<le> page (va + sz - 1)"
proof -
  have eq: "va + sz - 1 = va + (sz - 1)" by simp
  have u: "unat (sz - 1) = unat sz - 1" using assms(1) by (intro unat_minus_one) auto
  have "unat (va + sz - 1) = unat va + (unat sz - 1)" unfolding eq u[symmetric] by (subst unat_add_noof) (use u assms in linarith)+
  then show ?thesis by (simp add: page_def div_le_mono)
qed

lemma setupkvm_loop_maps:
  assumes "space kend D vs k" "absent k D \<le> length vs" "kmap_ok lo es" "\<forall>x. lo \<le> page x \<longrightarrow> \<not> present (pte_of k D x)"
  shows "\<exists>k1 vs1. setupkvm_loop kend D es k = Inr (D, k1) \<and> grown kend D k vs k1 vs1 \<and>
    (\<forall>x. page x < lo \<longrightarrow> pte_of k1 D x = pte_of k D x)"
  using assms
proof (induction es arbitrary: lo k vs)
  case Nil
  then show ?case using grown_refl[OF Nil(1)] by auto
next
  case (Cons e es)
  let ?sz = "phys_end e - phys_start e" and ?l = "virt e + (phys_end e - phys_start e) - 1"
  have e: "lo \<le> page (virt e)" "0 < unat ?sz" "unat (virt e) + unat ?sz \<le> 2 ^ 32" "kmap_ok (Suc (page ?l)) es"
    using Cons.prems(3) by (simp_all add: Let_def)
  have le: "page (virt e) \<le> page ?l" by (rule page_last_le[OF e(2,3)])
  have "\<forall>x. page (virt e) \<le> page x \<and> page x \<le> page ?l \<longrightarrow> \<not> present (pte_of k D x)" using Cons.prems(4) e(1) by simp
  from mappages_maps[OF Cons.prems(1,2) e(2,3) this] obtain k1 vs1 where
    k1: "mappages D (virt e) ?sz (phys_start e) (kperm e) k = Inr (True, k1)" "grown kend D k vs k1 vs1"
    "\<forall>x. pte_of k1 D x = (if page (virt e) \<le> page x \<and> page x \<le> page ?l then leaf (virt e) (phys_start e) (kperm e) x else pte_of k D x)"
    by blast
  have "\<exists>k2 vs2. setupkvm_loop kend D es k1 = Inr (D, k2) \<and> grown kend D k1 vs1 k2 vs2 \<and>
    (\<forall>x. page x < Suc (page ?l) \<longrightarrow> pte_of k2 D x = pte_of k1 D x)"
  proof (rule Cons.IH[OF _ _ e(4)])
    show "space kend D vs1 k1" "absent k1 D \<le> length vs1" using k1(2) Cons.prems(2) unfolding grown_def by (blast, linarith)
    show "\<forall>x. Suc (page ?l) \<le> page x \<longrightarrow> \<not> present (pte_of k1 D x)" using k1(3) Cons.prems(4) e(1) le by simp
  qed
  then obtain k2 vs2 where k2: "setupkvm_loop kend D es k1 = Inr (D, k2)" "grown kend D k1 vs1 k2 vs2"
    "\<forall>x. page x < Suc (page ?l) \<longrightarrow> pte_of k2 D x = pte_of k1 D x" by blast
  have "pte_of k2 D x = pte_of k D x" if "page x < lo" for x using k2(3) k1(3) that e(1) le by simp
  then show ?case using k1(1) k2(1) grown_trans[OF k1(2) k2(2)] by auto
qed

text \<open>Where the linker may put the kernel's data.\<close>

definition data_ok :: "u32 \<Rightarrow> bool" where
  "data_ok kdata \<longleftrightarrow> aligned kdata \<and> KERNLINK < kdata \<and> kdata < P2V PHYSTOP"

lemma kmap_table_ok: "data_ok kdata \<Longrightarrow> kmap_ok 0x80000 (kmap_table kdata)"
proof -
  assume d: "data_ok kdata"
  have lo: "unat kdata < 0x8E000000" "0x80100000 < unat kdata"
    using d by (simp_all add: data_ok_def layout_defs word_less_nat_alt)
  have al: "aligned kdata" using d by (simp add: data_ok_def)
  have u: "unat (kdata - 0x80000000) = unat kdata - 0x80000000" using lo by (simp add: unat_sub_if' word_le_nat_alt)
  have s1: "unat (kdata - 0x80100000) = unat kdata - 0x80100000" using lo by (simp add: unat_sub_if' word_le_nat_alt)
  have s2: "unat (0x8E000000 - kdata) = 0x8E000000 - unat kdata" using lo by (simp add: unat_sub_if' word_le_nat_alt)
  have l: "unat (kdata - 1) = unat kdata - 1" using lo by (intro unat_minus_one) auto
  have "Suc (page (kdata - 1)) \<le> page kdata"
  proof -
    have "page kdata * 4096 = unat kdata" using aligned_eq[OF al] by simp
    then have "unat kdata - 1 < page kdata * 4096" using lo by linarith
    then have "(unat kdata - 1) div 4096 < page kdata" by (simp add: div_less_iff_less_mult)
    then show ?thesis unfolding page_def[of "kdata - 1"] l by simp
  qed
  moreover have "page (0x80000000 :: u32) = 0x80000" "page (0x800FFFFF :: u32) = 0x800FF" "page (0x80100000 :: u32) = 0x80100"
    "page (0x8DFFFFFF :: u32) = 0x8DFFF" "page (0xFE000000 :: u32) = 0xFE000" by (simp_all add: page_def)
  ultimately show ?thesis using lo s1 s2 by (simp add: kmap_table_def layout_defs Let_def)
qed
text \<open>A cleared page is a directory with no tables.\<close>

lemma fresh_dir:
  assumes "free_list kend k (v # vs)"
  defines "k1 \<equiv> k\<lparr>freelist := load32 (mem k) v, mem := memset (mem k) v 0 PGSIZE\<rparr>"
  shows "space kend v vs k1" "tables k1 v = {v}" "absent k1 v \<le> 1024" "pte_of k1 v x = 0" "unchanged {v} k k1"
proof -
  have v: "kpage kend v" "aligned v" "v \<notin> set vs" using assms(1) by (auto simp: free_list_def kpage_def)
  have m: "mem k1 x = (if page x = page v then 0 else mem k x)" for x
    using in_page[OF v(2), of x] by (simp add: k1_def memset_at PGSIZE_def)
  show un: "unchanged {v} k k1" using m by (simp add: unchanged_def)
  have pd: "pde k1 v i = 0" if "i < 1024" for i unfolding pde_def using m by (intro load32_zero[OF v(2) that]) simp
  show t: "tables k1 v = {v}" using pd by (auto simp: tables_def)
  have "dir_ok kend v k1" using pd t v(1) by (simp add: dir_ok_def)
  moreover have "free_list kend k1 vs"
  proof (rule free_list_frame[OF free_list_tail[OF assms(1)], of "{v}"])
    show "unchanged {v} (k\<lparr>freelist := load32 (mem k) v\<rparr>) k1" using un by (simp add: unchanged_def)
  qed (use v in \<open>simp_all add: k1_def\<close>)
  ultimately show "space kend v vs k1" using t v(3) by (simp add: space_def)
  show "pte_of k1 v x = 0" using pd[OF PDX_less] by (simp add: pte_of_def)
  have "{i :: u32. i < 1024 \<and> \<not> present (pde k1 v i)} \<subseteq> of_nat ` {..<1024}"
  proof
    fix i :: u32 assume "i \<in> {i. i < 1024 \<and> \<not> present (pde k1 v i)}"
    then have "unat i < 1024" by (simp add: word_less_nat_alt)
    then show "i \<in> of_nat ` {..<1024}" by (intro image_eqI[of _ _ "unat i"]) simp_all
  qed
  then have "absent k1 v \<le> card (of_nat ` {..<1024} :: u32 set)" unfolding absent_def by (intro card_mono) simp_all
  also have "\<dots> \<le> 1024" using card_image_le[of "{..<1024 :: nat}" of_nat] by simp
  finally show "absent k1 v \<le> 1024" .
qed

lemma setupkvm_fresh:
  assumes "free_list kend k (d # vs)" "data_ok kdata" "1024 \<le> length vs"
  shows "\<exists>k1 vs1. setupkvm kend kdata k = Inr (d, k1) \<and> space kend d vs1 k1 \<and> set vs1 \<subseteq> set vs \<and>
    tables k1 d \<subseteq> insert d (set vs) \<and> unchanged (tables k1 d) k k1 \<and> length vs + absent k1 d \<le> length vs1 + 1024 \<and>
    (\<forall>x. page x < 0x80000 \<longrightarrow> pte_of k1 d x = 0)"
proof -
  note f = fresh_dir[OF assms(1)]
  let ?k0 = "k\<lparr>freelist := load32 (mem k) d, mem := memset (mem k) d 0 PGSIZE\<rparr>"
  have d: "d \<noteq> 0" using assms(1) kpage_nonzero by (auto simp: free_list_def)
  have "absent ?k0 d \<le> length vs" using f(3) assms(3) by linarith
  moreover have "\<forall>x. 0x80000 \<le> page x \<longrightarrow> \<not> present (pte_of ?k0 d x)" using f(4) by simp
  ultimately obtain k1 vs1 where k1: "setupkvm_loop kend d (kmap_table kdata) ?k0 = Inr (d, k1)" "grown kend d ?k0 vs k1 vs1"
    "\<forall>x. page x < 0x80000 \<longrightarrow> pte_of k1 d x = pte_of ?k0 d x"
    using setupkvm_loop_maps[OF f(1) _ kmap_table_ok[OF assms(2)]] by blast
  have "setupkvm kend kdata k = Inr (d, k1)"
    using d k1(1) by (simp add: setupkvm_def free_list_kalloc[OF assms(1)] Let_def) (simp add: layout_defs)
  moreover have "unchanged (tables k1 d) k k1"
    by (rule unchanged_trans[OF f(5), of "tables k1 d"]) (use k1(2) in \<open>auto simp: grown_def tables_def\<close>)
  moreover have "length vs + absent k1 d \<le> length vs1 + 1024" using k1(2) f(3) unfolding grown_def by linarith
  ultimately show ?thesis using k1(2,3) f(2,4) unfolding grown_def by auto
qed

section \<open>Copying user memory\<close>

definition frame :: "kmem \<Rightarrow> u32 \<Rightarrow> u32 \<Rightarrow> u32" where
  "frame k D va = P2V (PTE_ADDR (pte_of k D va))"

lemma kpage_range: "kpage kend v \<Longrightarrow> unat v < 0x8E000000"
proof -
  assume "kpage kend v"
  then have "v - 0x80000000 < 0xE000000" by (simp add: kpage_def layout_defs)
  then show ?thesis using unat_less_2p32[of v]
    by (simp add: word_less_nat_alt unat_sub_if' word_le_nat_alt split: if_splits)
qed

lemma memmove_page:
  assumes "kpage kend v" "kpage kend w"
  shows "memmove m v w PGSIZE x = (if page x = page v then m (w + (x - v)) else m x)"
proof -
  have "unat w + unat PGSIZE < 2 ^ 32" "unat v + unat PGSIZE < 2 ^ 32"
    using kpage_range[OF assms(1)] kpage_range[OF assms(2)] by (simp_all add: PGSIZE_def)
  then show ?thesis using in_page[OF kpage_aligned[OF assms(1)], of x] by (simp add: memmove_at PGSIZE_def)
qed

lemma flags_present: "present e \<Longrightarrow> PTE_FLAGS e OR PTE_P = PTE_FLAGS e"
proof -
  assume "present e"
  then have "bit e 0" by (auto simp: pte_defs bit_0 and_one_eq odd_iff_mod_2_eq_one)
  moreover have "bit (0xFFF :: u32) 0" by simp
  ultimately show ?thesis by (intro bit_word_eqI) (auto simp: PTE_FLAGS_def PTE_P_def bit_or_iff bit_and_iff bit_1_iff)
qed

lemma unat_PTE_FLAGS: "unat (PTE_FLAGS e) < 4096"
  by (simp add: PTE_FLAGS_def unat_and_0xFFF)

text \<open>The entry for the copy of a page.\<close>

lemma copy_entry:
  assumes "present e" "aligned v"
  shows "PTE_ADDR (V2P v OR PTE_FLAGS e OR PTE_P) = V2P v" "PTE_FLAGS (V2P v OR PTE_FLAGS e OR PTE_P) = PTE_FLAGS e"
    "present (V2P v OR PTE_FLAGS e OR PTE_P)"
  using pte_fields[OF aligned_V2P[OF assms(2)] unat_PTE_FLAGS[of e]] flags_present[OF assms(1)] present_leaf[of "V2P v" "PTE_FLAGS e"]
  by (simp_all add: or.assoc)
lemma absent_frame:
  assumes "dir_ok kend D k" "unchanged S k k'" "\<forall>p \<in> S. aligned p" "D \<notin> S"
  shows "absent k' D = absent k D"
proof -
  have al: "aligned D" using tables_kpage[OF assms(1), of D] kpage_aligned by (simp add: tables_def)
  have "pde k' D i = pde k D i" if "i < 1024" for i
  proof (rule pde_frame[OF assms(1) _ that])
    fix x assume "page x = page D"
    then have "page x \<notin> page ` S" using al assms(3,4) page_inj[of D] by auto
    then show "mem k' x = mem k x" using assms(2) by (simp add: unchanged_def)
  qed
  then show ?thesis unfolding absent_def by (metis (no_types, lifting))
qed

lemma pte_walk:
  assumes "dir_ok kend D k" "present (pte_of k D va)"
  shows "\<exists>pte. walkpgdir D va a k = (pte, k) \<and> pte \<noteq> 0 \<and> load32 (mem k) pte = pte_of k D va"
proof -
  have p: "present (pde k D (PDX va))" using assms(2) by (auto simp: pte_of_def split: if_splits)
  have "kpage kend (tab k D (PDX va))" using tables_kpage[OF assms(1) tab_table[OF p]] .
  then show ?thesis using walk_present[OF p] slot_nonzero[OF _ PTX_less] p by (auto simp: pte_of_def)
qed

definition copied :: "kmem \<Rightarrow> u32 \<Rightarrow> kmem \<Rightarrow> u32 \<Rightarrow> u32 \<Rightarrow> bool" where
  "copied k D k' d va \<longleftrightarrow> present (pte_of k' d va) \<and> PTE_FLAGS (pte_of k' d va) = PTE_FLAGS (pte_of k D va) \<and>
     (\<forall>i < 4096. mem k' (frame k' d va + i) = mem k (frame k D va + i))"

lemma mem_in_frame:
  assumes "unchanged S k k'" "\<forall>p \<in> S. aligned p" "aligned f" "f \<notin> S" "i < 4096"
  shows "mem k' (f + i) = mem k (f + i)"
proof -
  have "page (f + i) = page f" using page_offset(1)[OF assms(3), of i] assms(5) by (simp add: word_less_nat_alt)
  then have "page (f + i) \<notin> page ` S" using page_inj[OF assms(3)] assms(2,4) by auto
  then show ?thesis using assms(1) by (simp add: unchanged_def)
qed

lemma space_aligned: "space kend d vs k \<Longrightarrow> p \<in> set vs \<union> tables k d \<Longrightarrow> aligned p"
  by (auto simp: space_def free_list_def kpage_def dest!: tables_kpage)

lemma copy_one:
  assumes "dir_ok kend D k" "space kend d vs k" "aligned i" "present (pte_of k D i)" "kpage kend (frame k D i)"
    "frame k D i \<notin> set vs" "\<not> present (pte_of k d i)" "absent k d + Suc n \<le> length vs"
  shows "\<exists>k1 vs1. copyuvm_loop kend D d (i # is) k = copyuvm_loop kend D d is k1 \<and> space kend d vs1 k1 \<and> set vs1 \<subseteq> set vs \<and>
    tables k1 d \<subseteq> tables k d \<union> set vs \<and> unchanged (set vs \<union> tables k d) k k1 \<and> absent k1 d + n \<le> length vs1 \<and>
    copied k D k1 d i \<and> frame k1 d i \<in> set vs - set vs1 \<and> frame k1 d i \<notin> tables k1 d \<and>
    (\<forall>x. page x \<noteq> page i \<longrightarrow> pte_of k1 d x = pte_of k d x)"
proof -
  obtain pg ws where vs: "vs = pg # ws" using assms(8) by (cases vs) auto
  have sp: "free_list kend k (pg # ws)" "dir_ok kend d k" "tables k d \<inter> set (pg # ws) = {}" using assms(2) vs by (auto simp: space_def)
  have pg: "kpage kend pg" "aligned pg" "pg \<notin> set ws" "pg \<noteq> 0" using sp(1) kpage_nonzero by (auto simp: free_list_def kpage_def)
  have df: "d \<in> tables k d" by (simp add: tables_def)
  let ?e = "pte_of k D i" and ?f = "frame k D i"
  define k2 where "k2 = k\<lparr>freelist := load32 (mem k) pg, mem := memmove (mem k) pg ?f PGSIZE\<rparr>"
  have m2: "mem k2 x = (if page x = page pg then mem k (?f + (x - pg)) else mem k x)" for x
    using memmove_page[OF pg(1) assms(5)] by (simp add: k2_def)
  have un2: "unchanged {pg} k k2" by (simp add: unchanged_def m2)
  have "free_list kend k2 ws"
  proof (rule free_list_frame[OF free_list_tail[OF sp(1)], of "{pg}"])
    show "unchanged {pg} (k\<lparr>freelist := load32 (mem k) pg\<rparr>) k2" using un2 by (simp add: unchanged_def)
  qed (use pg in \<open>simp_all add: k2_def\<close>)
  moreover have fr: "dir_ok kend d k2" "tables k2 d = tables k d" "pte_of k2 d x = pte_of k d x" for x
    using dir_frame[OF sp(2) un2] pg(2) sp(3) by simp_all
  ultimately have sp2: "space kend d ws k2" using sp(3) by (simp add: space_def)
  have ab2: "absent k2 d = absent k d" using absent_frame[OF sp(2) un2] pg(2) sp(3) df by auto
  have last: "page (i + PGSIZE - 1) = page i"
  proof -
    have eq: "i + PGSIZE - 1 = i + 0xFFF" by (simp add: PGSIZE_def)
    show ?thesis unfolding eq using page_offset(1)[OF assms(3), of "0xFFF"] by simp
  qed
  have top: "unat i + unat PGSIZE \<le> 2 ^ 32"
    using aligned_eq[OF assms(3)] page_less[of i] by (simp add: PGSIZE_def)
  have clear: "\<forall>x. page i \<le> page x \<and> page x \<le> page (i + PGSIZE - 1) \<longrightarrow> \<not> present (pte_of k2 d x)"
  proof (intro allI impI)
    fix x assume "page i \<le> page x \<and> page x \<le> page (i + PGSIZE - 1)"
    then have "page x = page i" using last by simp
    then have "pte_of k d x = pte_of k d i" using same_page_iff[of x i] by (simp add: pte_of_def)
    then show "\<not> present (pte_of k2 d x)" using assms(7) fr(3) by simp
  qed
  have room: "absent k2 d \<le> length ws" "0 < unat PGSIZE" using ab2 assms(8) vs by (simp_all add: PGSIZE_def)
  obtain k3 vs3 where k3: "mappages d i PGSIZE (V2P pg) (PTE_FLAGS ?e) k2 = Inr (True, k3)" "grown kend d k2 ws k3 vs3"
    "\<forall>x. pte_of k3 d x = (if page i \<le> page x \<and> page x \<le> page (i + PGSIZE - 1) then leaf i (V2P pg) (PTE_FLAGS ?e) x else pte_of k2 d x)"
    using mappages_maps[OF sp2 room top clear] by blast
  have g: "space kend d vs3 k3" "set vs3 \<subseteq> set ws" "tables k3 d \<subseteq> tables k d \<union> set ws" "unchanged (tables k3 d) k2 k3"
    using k3(2) fr(2) by (auto simp: grown_def)
  have en: "pte_of k3 d i = V2P pg OR PTE_FLAGS ?e OR PTE_P" using k3(3) last by (simp add: leaf_def)
  note ce = copy_entry[OF assms(4) pg(2)]
  have fr3: "frame k3 d i = pg" using en ce(1) by (simp add: frame_def)
  have npg: "pg \<notin> tables k3 d" using g(3) sp(3) pg(3) by auto
  have "mem k3 (pg + j) = mem k (?f + j)" if "j < 4096" for j
    using mem_in_frame[OF g(4) _ pg(2) npg that] space_aligned[OF g(1)] m2[of "pg + j"] page_offset(1)[OF pg(2), of j] that
    by (simp add: word_less_nat_alt)
  then have "copied k D k3 d i" using en ce(2,3) fr3 by (simp add: copied_def)
  moreover have "unchanged (set vs \<union> tables k d) k k3"
    by (rule unchanged_trans[OF un2 g(4)]) (use vs g(3) in auto)
  moreover have "absent k3 d + n \<le> length vs3" using k3(2) ab2 assms(8) vs unfolding grown_def by simp
  moreover have "copyuvm_loop kend D d (i # is) k = copyuvm_loop kend D d is k3"
    using pte_walk[OF assms(1,4), of False] assms(4) k3(1) pg(4)
    by (auto simp: Let_def free_list_kalloc[OF sp(1)] frame_def[symmetric] k2_def)
  moreover have "\<forall>x. page x \<noteq> page i \<longrightarrow> pte_of k3 d x = pte_of k d x" using k3(3) last fr(3) by simp
  ultimately show ?thesis using g fr3 npg vs pg(3) by (intro exI[of _ k3] exI[of _ vs3]) auto
qed
text \<open>What the copying loop needs of the pages \<open>is\<close> of the parent \<open>D\<close>, and what it leaves behind for them in the child \<open>d\<close>.\<close>

definition sources :: "u32 \<Rightarrow> u32 \<Rightarrow> u32 \<Rightarrow> u32 list \<Rightarrow> kmem \<Rightarrow> u32 list \<Rightarrow> bool" where
  "sources kend D d vs k is \<longleftrightarrow> dir_ok kend D k \<and> space kend d vs k \<and> tables k D \<inter> (set vs \<union> tables k d) = {} \<and>
     distinct (map page is) \<and> absent k d + length is \<le> length vs \<and>
     (\<forall>i \<in> set is. aligned i \<and> present (pte_of k D i) \<and> kpage kend (frame k D i) \<and> frame k D i \<notin> set vs \<union> tables k d \<and>
        \<not> present (pte_of k d i))"

definition results :: "u32 \<Rightarrow> u32 \<Rightarrow> u32 \<Rightarrow> u32 list \<Rightarrow> kmem \<Rightarrow> u32 list \<Rightarrow> kmem \<Rightarrow> u32 list \<Rightarrow> bool" where
  "results kend D d vs k is k1 vs1 \<longleftrightarrow> space kend d vs1 k1 \<and> set vs1 \<subseteq> set vs \<and> tables k1 d \<subseteq> tables k d \<union> set vs \<and>
     unchanged (set vs \<union> tables k d) k k1 \<and>
     (\<forall>i \<in> set is. copied k D k1 d i \<and> frame k1 d i \<in> set vs - set vs1 \<and> frame k1 d i \<notin> tables k1 d) \<and>
     inj_on (frame k1 d) (set is) \<and> (\<forall>x. page x \<notin> page ` set is \<longrightarrow> pte_of k1 d x = pte_of k d x)"

lemma copied_frame:
  assumes "copied k D k1 d i" "unchanged S k1 k2" "\<forall>p \<in> S. aligned p" "aligned (frame k1 d i)" "frame k1 d i \<notin> S"
    "pte_of k2 d i = pte_of k1 d i"
  shows "copied k D k2 d i" "frame k2 d i = frame k1 d i"
proof -
  show f: "frame k2 d i = frame k1 d i" using assms(6) by (simp add: frame_def)
  show "copied k D k2 d i" using assms(1,6) mem_in_frame[OF assms(2-5)] unfolding copied_def f by simp
qed

lemma copyuvm_loop_copies:
  "sources kend D d vs k is \<Longrightarrow> \<exists>k1 vs1. copyuvm_loop kend D d is k = Inr (d, k1) \<and> results kend D d vs k is k1 vs1"
proof (induction "is" arbitrary: k vs)
  case Nil
  then show ?case by (auto simp: sources_def results_def intro!: exI[of _ vs])
next
  case (Cons i "is")
  let ?S = "set vs \<union> tables k d"
  have so: "dir_ok kend D k" "space kend d vs k" "tables k D \<inter> ?S = {}" "distinct (map page (i # is))"
    "absent k d + Suc (length is) \<le> length vs"
    "\<And>j. j \<in> set (i # is) \<Longrightarrow> aligned j \<and> present (pte_of k D j) \<and> kpage kend (frame k D j) \<and> frame k D j \<notin> ?S \<and> \<not> present (pte_of k d j)"
    using Cons.prems by (auto simp: sources_def)
  obtain k1 vs1 where k1: "copyuvm_loop kend D d (i # is) k = copyuvm_loop kend D d is k1" "space kend d vs1 k1" "set vs1 \<subseteq> set vs"
    "tables k1 d \<subseteq> tables k d \<union> set vs" "unchanged ?S k k1" "absent k1 d + length is \<le> length vs1"
    "copied k D k1 d i" "frame k1 d i \<in> set vs - set vs1" "frame k1 d i \<notin> tables k1 d"
    "\<forall>x. page x \<noteq> page i \<longrightarrow> pte_of k1 d x = pte_of k d x"
    using copy_one[OF so(1,2) _ _ _ _ _ so(5), of i "is"] so(6)[of i] by auto
  have al: "\<forall>p \<in> ?S. aligned p" using space_aligned[OF so(2)] by blast
  have par: "dir_ok kend D k1" "tables k1 D = tables k D" "pte_of k1 D x = pte_of k D x" for x
    using dir_frame[OF so(1) k1(5) al] so(3) by auto
  then have fr: "frame k1 D x = frame k D x" for x by (simp add: frame_def)
  have ne: "page j \<noteq> page i" if "j \<in> set is" for j using so(4) that by (auto simp: image_iff)
  let ?S1 = "set vs1 \<union> tables k1 d"
  have sub: "?S1 \<subseteq> ?S" using k1(3,4) by auto
  have "sources kend D d vs1 k1 is"
    unfolding sources_def par(2) using par(1,3) k1(2,6) so(3,4,6) k1(10) ne sub by (auto simp: fr)
  from Cons.IH[OF this] obtain k2 vs2 where k2: "copyuvm_loop kend D d is k1 = Inr (d, k2)" "results kend D d vs1 k1 is k2 vs2" by blast
  have r: "space kend d vs2 k2" "set vs2 \<subseteq> set vs1" "tables k2 d \<subseteq> tables k1 d \<union> set vs1" "unchanged ?S1 k1 k2"
    "\<And>j. j \<in> set is \<Longrightarrow> copied k1 D k2 d j \<and> frame k2 d j \<in> set vs1 - set vs2 \<and> frame k2 d j \<notin> tables k2 d"
    "inj_on (frame k2 d) (set is)" "\<forall>x. page x \<notin> page ` set is \<longrightarrow> pte_of k2 d x = pte_of k1 d x"
    using k2(2) by (auto simp: results_def)
  have "page i \<notin> page ` set is" using so(4) by simp
  then have pi: "pte_of k2 d i = pte_of k1 d i" using r(7) by blast
  have ai: "aligned (frame k1 d i)" using k1(8) al by blast
  have ni: "frame k1 d i \<notin> ?S1" using k1(8,9) by blast
  have al1: "\<forall>p \<in> ?S1. aligned p" using sub al by blast
  note ci = copied_frame[OF k1(7) r(4) al1 ai ni pi]
  have cj: "copied k D k2 d j" if "j \<in> set is" for j
  proof -
    have "mem k1 (frame k D j + o') = mem k (frame k D j + o')" if "o' < 4096" for o'
      using mem_in_frame[OF k1(5) al _ _ that] so(6)[of j] \<open>j \<in> set is\<close> kpage_aligned by auto
    then show ?thesis using r(5)[OF that] par(3) fr by (simp add: copied_def)
  qed
  have "unchanged ?S k k2" by (rule unchanged_trans[OF k1(5) r(4) _ sub]) simp
  moreover have "frame k2 d i \<notin> frame k2 d ` set is"
  proof
    assume "frame k2 d i \<in> frame k2 d ` set is"
    then obtain j where "j \<in> set is" "frame k1 d i = frame k2 d j" unfolding ci(2) by blast
    then show False using r(5)[of j] ni by simp
  qed
  then have "inj_on (frame k2 d) (set (i # is))" using r(6) unfolding list.set inj_on_insert by blast
  moreover have "copied k D k2 d j \<and> frame k2 d j \<in> set vs - set vs2 \<and> frame k2 d j \<notin> tables k2 d" if "j \<in> set (i # is)" for j
  proof (cases "j = i")
    case True
    then show ?thesis unfolding True ci(2) using ci(1) k1(8) r(2,3) ni by blast
  next
    case False
    then show ?thesis using that cj[of j] r(5)[of j] k1(3) by auto
  qed
  moreover have "pte_of k2 d x = pte_of k d x" if "page x \<notin> page ` set (i # is)" for x using r(7) k1(10) that by simp
  ultimately have "results kend D d vs k (i # is) k2 vs2"
    unfolding results_def using r(1,2,3) k1(3,4) by blast
  then show ?case using k1(1) k2(1) by metis
qed
lemma translate_pte:
  assumes "dir_ok kend D k"
  shows "translate D va k = (if present (pte_of k D va) then Some (frame k D va + (va AND 0xFFF), PTE_FLAGS (pte_of k D va)) else None)"
proof (cases "present (pte_of k D va)")
  case True
  then show ?thesis using pte_walk[OF assms True, of False] by (auto simp: translate_def Let_def frame_def)
next
  case False
  show ?thesis
  proof (cases "present (pde k D (PDX va))")
    case True
    then have "load32 (mem k) (tab k D (PDX va) + 4 * PTX va) = pte_of k D va" by (simp add: pte_of_def)
    then show ?thesis using False walk_present[OF True, of False] by (simp add: translate_def Let_def)
  next
    case np: False
    then show ?thesis using False walk_absent[OF np] by (simp add: translate_def Let_def)
  qed
qed

lemma page_list_pages:
  assumes "unat sz \<le> 0x80000000"
  defines "N \<equiv> (unat sz + 4095) div 4096"
  shows "length (page_list 0 sz) = N" "map page (page_list 0 sz) = [0..<N]" "i \<in> set (page_list 0 sz) \<Longrightarrow> aligned i \<and> page i < N" "N \<le> 0x80000"
proof -
  show N: "N \<le> 0x80000" using assms(1) by (simp add: N_def)
  have u: "unat (of_nat (4096 * j) :: u32) = j * 4096" if "j < N" for j
    using that N by (subst unat_of_nat_u32) simp_all
  have l: "page_list 0 sz = map (\<lambda>j. of_nat (4096 * j)) [0..<N]" by (simp add: page_list_def N_def)
  show "length (page_list 0 sz) = N" by (simp add: l)
  have p: "page (of_nat (4096 * j) :: u32) = j" if "j < N" for j
    unfolding page_def u[OF that] by (rule nonzero_mult_div_cancel_right) simp
  then show "map page (page_list 0 sz) = [0..<N]" unfolding l map_map by (intro map_idI) (simp del: of_nat_mult)
  show "i \<in> set (page_list 0 sz) \<Longrightarrow> aligned i \<and> page i < N" using p u by (auto simp: l aligned_def simp del: of_nat_mult)
qed

lemma same_page_pte: "page x = page y \<Longrightarrow> pte_of k D x = pte_of k D y \<and> frame k D x = frame k D y"
  using same_page_iff[of x y] by (simp add: pte_of_def frame_def)

text \<open>A user address space of \<open>n\<close> pages: every page is mapped to a page of the allocator that is not free.\<close>

definition user_pages :: "u32 \<Rightarrow> u32 \<Rightarrow> u32 list \<Rightarrow> kmem \<Rightarrow> nat \<Rightarrow> bool" where
  "user_pages kend D vs k n \<longleftrightarrow> (\<forall>x. page x < n \<longrightarrow> present (pte_of k D x) \<and> kpage kend (frame k D x) \<and> frame k D x \<notin> set vs)"

lemma copyuvm_results:
  assumes "space kend D vs k" "data_ok kdata" "unat sz \<le> 0x80000000" "user_pages kend D vs k ((unat sz + 4095) div 4096)"
    "(unat sz + 4095) div 4096 + 1025 \<le> length vs"
  shows "\<exists>d k1 vs1 k2 vs2. copyuvm kend kdata D sz k = Inr (d, k2) \<and> d \<noteq> 0 \<and> unchanged (set vs) k k1 \<and> unchanged (set vs) k k2 \<and>
    set vs1 \<subseteq> set vs \<and> tables k1 d \<subseteq> set vs \<and> (\<forall>x. page x < 0x80000 \<longrightarrow> pte_of k1 d x = 0) \<and>
    results kend D d vs1 k1 (page_list 0 sz) k2 vs2"
proof -
  let ?N = "(unat sz + 4095) div 4096"
  note pl = page_list_pages[OF assms(3)]
  obtain d ws where vs: "vs = d # ws" using assms(5) by (cases vs) auto
  have sp: "free_list kend k (d # ws)" "dir_ok kend D k" "tables k D \<inter> set vs = {}" using assms(1) vs by (auto simp: space_def)
  have d0: "d \<noteq> 0" using sp(1) kpage_nonzero by (auto simp: free_list_def)
  have al: "\<forall>p \<in> set vs. aligned p" using sp(1) vs by (auto simp: free_list_def kpage_def)
  obtain k1 vs1 where k1: "setupkvm kend kdata k = Inr (d, k1)" "space kend d vs1 k1" "set vs1 \<subseteq> set ws"
    "tables k1 d \<subseteq> insert d (set ws)" "unchanged (tables k1 d) k k1" "length ws + absent k1 d \<le> length vs1 + 1024"
    "\<forall>x. page x < 0x80000 \<longrightarrow> pte_of k1 d x = 0"
    using setupkvm_fresh[OF sp(1) assms(2)] assms(5) vs by auto
  have un1: "unchanged (set vs) k k1" using unchanged_trans[OF k1(5) unchanged_refl[of "{}"], of "set vs"] k1(4) vs by auto
  have par: "dir_ok kend D k1" "tables k1 D = tables k D" "pte_of k1 D x = pte_of k D x" for x
    using dir_frame[OF sp(2) un1 al] sp(3) by auto
  have S: "set vs1 \<union> tables k1 d \<subseteq> set vs" using k1(3,4) vs by auto
  have "sources kend D d vs1 k1 (page_list 0 sz)"
    unfolding sources_def
  proof (intro conjI ballI)
    show "tables k1 D \<inter> (set vs1 \<union> tables k1 d) = {}" using par(2) S sp(3) by auto
    show "absent k1 d + length (page_list 0 sz) \<le> length vs1" using k1(6) assms(5) vs pl(1) by simp
    fix i assume "i \<in> set (page_list 0 sz)"
    then have i: "aligned i" "page i < ?N" "page i < 0x80000" using pl(3)[of i] pl(4) by auto
    show "aligned i" by (rule i(1))
    have u: "present (pte_of k D i)" "kpage kend (frame k D i)" "frame k D i \<notin> set vs" using assms(4) i(2) by (auto simp: user_pages_def)
    show "present (pte_of k1 D i)" "kpage kend (frame k1 D i)" using u par(3) by (simp_all add: frame_def)
    show "frame k1 D i \<notin> set vs1 \<union> tables k1 d" using u(3) S par(3) by (auto simp: frame_def)
    show "\<not> present (pte_of k1 d i)" using k1(7) i(3) by simp
  qed (use par(1) k1(2) pl(2) in simp_all)
  from copyuvm_loop_copies[OF this] obtain k2 vs2 where k2: "copyuvm_loop kend D d (page_list 0 sz) k1 = Inr (d, k2)"
    "results kend D d vs1 k1 (page_list 0 sz) k2 vs2" by blast
  have "unchanged (set vs) k k2" by (rule unchanged_trans[OF un1, of "set vs1 \<union> tables k1 d"]) (use k2(2) S in \<open>auto simp: results_def\<close>)
  moreover have "copyuvm kend kdata D sz k = Inr (d, k2)" using k1(1) k2(1) d0 by (simp add: copyuvm_def)
  moreover have "set vs1 \<subseteq> set vs" "tables k1 d \<subseteq> set vs" using S by auto
  ultimately show ?thesis using d0 un1 k1(7) k2(2) by blast
qed
lemma offset_less: "(va AND 0xFFF :: u32) < 4096"
  by (simp add: word_less_nat_alt unat_and_0xFFF)

lemma page_in_frame: "aligned f \<Longrightarrow> page (f + (va AND 0xFFF)) = page f"
  by (rule page_offset(1)) (simp_all add: unat_and_0xFFF)

lemma copied_translate:
  assumes "dir_ok kend D k" "dir_ok kend d k'" "copied k D k' d i" "present (pte_of k D i)" "page va = page i"
  shows "\<exists>a b fl. translate d va k' = Some (a, fl) \<and> translate D va k = Some (b, fl) \<and> mem k' a = mem k b"
proof -
  have p: "pte_of k' d va = pte_of k' d i" "frame k' d va = frame k' d i" "pte_of k D va = pte_of k D i" "frame k D va = frame k D i"
    using same_page_pte[OF assms(5)] by auto
  show ?thesis using assms(3,4) offset_less unfolding copied_def translate_pte[OF assms(1)] translate_pte[OF assms(2)] p by auto
qed

text \<open>C2. \<^verbatim>\<open>fork\<close> copies the memory of a process: with enough free pages (one per user page, and those that a page directory can
  need), \<^verbatim>\<open>copyuvm\<close> returns a new page directory in which every byte of the user memory reads as it does in the parent, with the
  same permissions, and nothing else of the user half is mapped. The parent still reads the same, no page is shared
  between the two, so a later store of one is not seen by the other, and directories, tables and free list stay apart.\<close>

theorem copyuvm_copies_address_space:
  fixes sz :: u32
  defines "n \<equiv> (unat sz + 4095) div 4096"
  assumes "space kend D vs k" "data_ok kdata" "unat sz \<le> 0x80000000" "user_pages kend D vs k n" "n + 1025 \<le> length vs"
  shows "\<exists>d k' vs'. copyuvm kend kdata D sz k = Inr (d, k') \<and> d \<noteq> 0 \<and> space kend d vs' k' \<and> space kend D vs' k' \<and>
    tables k' d \<inter> tables k' D = {} \<and>
    (\<forall>va. page va < n \<longrightarrow> vload8 d va k' = vload8 D va k \<and> vload8 D va k' = vload8 D va k \<and>
       map_option snd (translate d va k') = map_option snd (translate D va k)) \<and>
    (\<forall>va. n \<le> page va \<and> page va < 0x80000 \<longrightarrow> translate d va k' = None) \<and>
    (\<forall>va vb a fl b gl. page va < n \<and> page vb < n \<and> translate d va k' = Some (a, fl) \<and> translate D vb k' = Some (b, gl) \<longrightarrow> page a \<noteq> page b)"
proof -
  note pl = page_list_pages[OF assms(4), folded n_def]
  obtain d k1 vs1 k' vs' where c: "copyuvm kend kdata D sz k = Inr (d, k')" "d \<noteq> 0" "unchanged (set vs) k k1" "unchanged (set vs) k k'"
    "set vs1 \<subseteq> set vs" "tables k1 d \<subseteq> set vs" "\<forall>x. page x < 0x80000 \<longrightarrow> pte_of k1 d x = 0"
    "results kend D d vs1 k1 (page_list 0 sz) k' vs'"
    using copyuvm_results[OF assms(2-4)] assms(5,6) unfolding n_def by blast
  have sp: "free_list kend k vs" "dir_ok kend D k" "tables k D \<inter> set vs = {}" using assms(2) by (auto simp: space_def)
  have al: "\<forall>p \<in> set vs. aligned p" using sp(1) by (auto simp: free_list_def kpage_def)
  have D1: "dir_ok kend D k1" "pte_of k1 D x = pte_of k D x" for x using dir_frame[OF sp(2) c(3) al] sp(3) by auto
  have D2: "dir_ok kend D k'" "tables k' D = tables k D" "pte_of k' D x = pte_of k D x" for x using dir_frame[OF sp(2) c(4) al] sp(3) by auto
  have r: "space kend d vs' k'" "set vs' \<subseteq> set vs" "tables k' d \<subseteq> set vs" using c(5,6,8) by (auto simp: results_def)
  then have d2: "dir_ok kend d k'" by (simp add: space_def)
  have "space kend D vs' k'" using r(1,2) D2(1,2) sp(3) by (auto simp: space_def)
  moreover have dis: "tables k' d \<inter> tables k' D = {}" using r(3) D2(2) sp(3) by auto
  moreover have u: "present (pte_of k D va)" "aligned (frame k D va)" "frame k D va \<notin> set vs" if "page va < n" for va
    using assms(5) that kpage_aligned by (auto simp: user_pages_def)
  have keep: "vload8 D va x = vload8 D va k" if "page va < n" "unchanged (set vs) k x" "dir_ok kend D x" "pte_of x D va = pte_of k D va" for va x
    using u[OF that(1)] mem_in_frame[OF that(2) al _ _ offset_less] that(4)
    by (simp add: vload8_def translate_pte[OF that(3)] translate_pte[OF sp(2)] frame_def)
  have pick: "\<exists>i \<in> set (page_list 0 sz). page i = page va" if "page va < n" for va
  proof -
    have "page va \<in> set (map page (page_list 0 sz))" using pl(2) that by simp
    then show ?thesis by auto
  qed
  have copy: "\<exists>a b fl. translate d va k' = Some (a, fl) \<and> translate D va k1 = Some (b, fl) \<and> mem k' a = mem k1 b" if va: "page va < n" for va
  proof -
    obtain i where i: "i \<in> set (page_list 0 sz)" "page i = page va" using pick[OF va] by blast
    have "copied k1 D k' d i" using c(8) i(1) by (simp add: results_def)
    moreover have "present (pte_of k1 D i)" unfolding D1(2) by (rule u(1)) (simp only: i(2) va)
    ultimately show ?thesis by (rule copied_translate[OF D1(1) d2 _ _ i(2)[symmetric]])
  qed
  have "vload8 d va k' = vload8 D va k \<and> vload8 D va k' = vload8 D va k \<and> map_option snd (translate d va k') = map_option snd (translate D va k)"
    if "page va < n" for va
  proof -
    obtain a b fl where ab: "translate d va k' = Some (a, fl)" "translate D va k1 = Some (b, fl)" "mem k' a = mem k1 b" using copy[OF \<open>page va < n\<close>] by blast
    then have "vload8 d va k' = vload8 D va k1" by (simp add: vload8_def)
    moreover have "translate D va k = Some (b, fl)" using ab(2) unfolding translate_pte[OF D1(1)] translate_pte[OF sp(2)] frame_def D1(2) .
    ultimately show ?thesis using keep[OF that c(3) D1(1) D1(2)] keep[OF that c(4) D2(1) D2(3)] ab(1) by simp
  qed
  moreover have "translate d va k' = None" if "n \<le> page va" "page va < 0x80000" for va
  proof -
    have "page va \<notin> page ` set (page_list 0 sz)" using pl(3) that(1) by fastforce
    then have "pte_of k' d va = 0" using c(7,8) that(2) by (simp add: results_def)
    then show ?thesis by (simp add: translate_pte[OF d2])
  qed
  moreover have "page a \<noteq> page b"
    if t: "page va < n" "page vb < n" "translate d va k' = Some (a, fl)" "translate D vb k' = Some (b, gl)" for va vb a fl b gl
  proof -
    obtain i where i: "i \<in> set (page_list 0 sz)" "page i = page va" using pick[OF t(1)] by blast
    have f: "frame k' d va \<in> set vs" using c(5,8) i same_page_pte[OF i(2), of k' d] by (auto simp: results_def)
    have "a = frame k' d va + (va AND 0xFFF)" "b = frame k D vb + (vb AND 0xFFF)"
      using t(3,4) D2(3) by (auto simp: translate_pte[OF d2] translate_pte[OF D2(1)] frame_def split: if_splits)
    moreover have "page (frame k' d va + (va AND 0xFFF)) = page (frame k' d va)" "page (frame k D vb + (vb AND 0xFFF)) = page (frame k D vb)"
      using page_in_frame f al u(2)[OF t(2)] by blast+
    ultimately show ?thesis using page_inj[of "frame k' d va" "frame k D vb"] f al u(2,3)[OF t(2)] by auto
  qed
  ultimately show ?thesis using c(1,2) r(1) by blast
qed
text \<open>A process with one page of user memory and the last page of the address space mapped for the kernel, and 1100 free pages.\<close>

definition demo_page :: "nat \<Rightarrow> u32" where "demo_page j = of_nat ((0x80400 + j) * 4096)"

definition demo_base :: mem where
  "demo_base x = (if 0x80400 \<le> page x \<and> page x < 0x80400 + 1100
     then store32 (\<lambda>a. 0) (PGROUNDDOWN x) (if page x = 0x80400 + 1099 then 0 else PGROUNDDOWN x + 4096) x else 0)"

definition demo_space :: kmem where
  "demo_space = \<lparr>mem = store32 (store32 (store32 (store32 demo_base 0x80200000 0x201007) 0x80200FFC 0x203007) 0x80201000 0x202007) 0x80203FFC 0xFFFFF003,
     use_lock = True, freelist = demo_page 0\<rparr>"

abbreviation demo_free :: "u32 list" where "demo_free \<equiv> map demo_page [0..<1100]"

lemma demo_page:
  assumes "j < 1100"
  shows "unat (demo_page j) = (0x80400 + j) * 4096" "page (demo_page j) = 0x80400 + j" "aligned (demo_page j)"
proof -
  show u: "unat (demo_page j) = (0x80400 + j) * 4096" unfolding demo_page_def using assms by (intro unat_of_nat_u32) simp
  show "page (demo_page j) = 0x80400 + j" unfolding page_def u by (rule nonzero_mult_div_cancel_right) simp
  show "aligned (demo_page j)" unfolding aligned_def u by (rule mod_mult_self2_is_0)
qed

lemma demo_next: "demo_page j + 4096 = demo_page (Suc j)"
  by (simp add: demo_page_def algebra_simps)

lemma PGROUNDDOWN_page: "aligned p \<Longrightarrow> page x = page p \<Longrightarrow> PGROUNDDOWN x = p"
  using unat_PGROUNDDOWN[of x] aligned_eq[of p] by (simp add: word_unat_eq_iff)

lemma demo_consts:
  "aligned (0x80200000 :: u32)" "aligned (0x80201000 :: u32)" "aligned (0x80202000 :: u32)" "aligned (0x80203000 :: u32)"
  "page (0x80200000 :: u32) = 0x80200" "page (0x80201000 :: u32) = 0x80201" "page (0x80202000 :: u32) = 0x80202" "page (0x80203000 :: u32) = 0x80203"
  by (simp_all add: page_def aligned_def)

lemma demo_stores:
  "page x \<noteq> 0x80200 \<Longrightarrow> store32 m 0x80200000 v x = m x" "page x \<noteq> 0x80200 \<Longrightarrow> store32 m 0x80200FFC v x = m x"
  "page x \<noteq> 0x80201 \<Longrightarrow> store32 m 0x80201000 v x = m x" "page x \<noteq> 0x80203 \<Longrightarrow> store32 m 0x80203FFC v x = m x"
  using store32_slot_page[OF demo_consts(1), of 0] store32_slot_page[OF demo_consts(1), of 1023]
    store32_slot_page[OF demo_consts(2), of 0] store32_slot_page[OF demo_consts(4), of 1023] by (simp_all add: demo_consts)

lemma demo_mem: "mem demo_space x = demo_base x" if "page x \<noteq> 0x80200" "page x \<noteq> 0x80201" "page x \<noteq> 0x80203"
  using that by (simp add: demo_space_def demo_stores)

lemma demo_link: "j < 1100 \<Longrightarrow> load32 (mem demo_space) (demo_page j) = (if j = 1099 then 0 else demo_page (Suc j))"
proof -
  assume j: "j < 1100"
  let ?w = "if j = 1099 then 0 else demo_page (Suc j)"
  have "load32 (mem demo_space) (demo_page j) = load32 (store32 (\<lambda>a. 0) (demo_page j) ?w) (demo_page j)"
  proof (rule load32_other_page[OF demo_page(3)[OF j]])
    fix x assume "page x = page (demo_page j)"
    then have x: "page x = 0x80400 + j" "PGROUNDDOWN x = demo_page j" using demo_page(2,3)[OF j] PGROUNDDOWN_page by simp_all
    then show "mem demo_space x = store32 (\<lambda>a. 0) (demo_page j) ?w x" using j demo_mem[of x] by (simp add: demo_base_def demo_next)
  qed
  then show ?thesis by simp
qed

lemma demo_chain: "j \<le> 1100 \<Longrightarrow> chain (mem demo_space) (if j = 1100 then 0 else demo_page j) (map demo_page [j..<1100])"
proof (induction "1100 - j" arbitrary: j)
  case (Suc n)
  then have j: "j < 1100" by simp
  have "chain (mem demo_space) (if Suc j = 1100 then 0 else demo_page (Suc j)) (map demo_page [Suc j..<1100])"
    using Suc j by (intro Suc.hyps(1)) simp_all
  then show ?case using j demo_link[OF j] by (simp add: upt_conv_Cons)
qed simp

lemma demo_free_list: "free_list 0x80115000 demo_space demo_free"
proof -
  have "inj_on demo_page {0..<1100}" using demo_page(2) by (auto simp: inj_on_def) (metis add_left_cancel)
  then have "distinct demo_free" by (simp add: distinct_map)
  moreover have "chain (mem demo_space) (freelist demo_space) demo_free" using demo_chain[of 0] by (simp add: demo_space_def)
  moreover have "kpage 0x80115000 (demo_page j)" if "j < 1100" for j
    using demo_page[OF that] that by (simp add: kpage_iff layout_defs word_le_nat_alt)
  ultimately show ?thesis by (auto simp: free_list_def)
qed
lemma demo_pde: "i < 1024 \<Longrightarrow> pde demo_space 0x80200000 i = (if i = 0 then 0x201007 else if i = 1023 then 0x203007 else 0)"
proof -
  assume i: "i < 1024"
  let ?m = "store32 (store32 demo_base 0x80200000 0x201007) 0x80200FFC 0x203007"
  have "pde demo_space 0x80200000 i = load32 ?m (0x80200000 + 4 * i)"
    unfolding pde_def by (rule load32_slot[OF demo_consts(1) i]) (simp add: demo_space_def demo_consts demo_stores)
  also have "\<dots> = (if i = 1023 then 0x203007 else if i = 0 then 0x201007 else load32 demo_base (0x80200000 + 4 * i))"
    using load32_store32_slot[OF demo_consts(1) _ i, of 0] load32_store32_slot[OF demo_consts(1) _ i, of 1023] by simp
  also have "load32 demo_base (0x80200000 + 4 * i) = 0" using demo_consts by (intro load32_zero i) (simp_all add: demo_base_def)
  finally show ?thesis by simp
qed

lemma demo_tables: "tables demo_space 0x80200000 = {0x80200000, 0x80201000, 0x80203000}"
proof -
  have p: "{i. i < 1024 \<and> present (pde demo_space 0x80200000 i)} = {0, 1023}" by (auto simp: demo_pde pte_defs split: if_splits)
  show ?thesis unfolding tables_def p by (simp add: tab_def demo_pde PTE_ADDR_def layout_defs)
qed

lemma demo_pte: "page x = 0 \<Longrightarrow> pte_of demo_space 0x80200000 x = 0x202007" "pte_of demo_space 0x80200000 0xFFFFF000 = 0xFFFFF003"
proof -
  assume "page x = 0"
  then have x: "PDX x = 0" "PTX x = 0" using unat_PDX[of x] unat_PTX[of x] by (simp_all add: unat_eq_zero)
  let ?m = "store32 (store32 (store32 demo_base 0x80200000 0x201007) 0x80200FFC 0x203007) 0x80201000 0x202007"
  have "load32 (mem demo_space) (0x80201000 + 4 * 0) = load32 ?m (0x80201000 + 4 * 0)"
    by (rule load32_slot[OF demo_consts(2)]) (simp_all add: demo_space_def demo_consts demo_stores)
  then show "pte_of demo_space 0x80200000 x = 0x202007" by (simp add: pte_of_def x demo_pde tab_def PTE_ADDR_def layout_defs pte_defs)
next
  have "load32 (mem demo_space) 0x80203FFC = 0xFFFFF003" by (simp add: demo_space_def)
  moreover have "PDX 0xFFFFF000 = 1023" "PTX 0xFFFFF000 = 1023" by (simp_all add: PDX_def PTX_def)
  ultimately show "pte_of demo_space 0x80200000 0xFFFFF000 = 0xFFFFF003" by (simp add: pte_of_def demo_pde tab_def PTE_ADDR_def layout_defs pte_defs)
qed

lemma demo_not_free: "p \<in> set demo_free \<Longrightarrow> 0x80400 \<le> page p"
  using demo_page(2) by auto

lemma demo_ok: "space 0x80115000 0x80200000 demo_free demo_space" "user_pages 0x80115000 0x80200000 demo_free demo_space 1"
proof -
  have k: "kpage 0x80115000 0x80200000" "kpage 0x80115000 0x80201000" "kpage 0x80115000 0x80202000" "kpage 0x80115000 0x80203000"
    by (simp_all add: kpage_def aligned_def layout_defs)
  have n: "p \<notin> set demo_free" if "page p < 0x80400" for p using demo_not_free[of p] that by linarith
  have "dir_ok 0x80115000 0x80200000 demo_space"
    using k unfolding dir_ok_def demo_tables by (auto simp: demo_pde tab_def PTE_ADDR_def layout_defs pte_defs split: if_splits)
  then show "space 0x80115000 0x80200000 demo_free demo_space"
    using demo_free_list n[of "0x80200000"] n[of "0x80201000"] n[of "0x80203000"] demo_consts by (simp add: space_def demo_tables)
  show "user_pages 0x80115000 0x80200000 demo_free demo_space 1"
    using k n[of "0x80202000"] demo_consts by (simp add: user_pages_def demo_pte frame_def PTE_ADDR_def layout_defs pte_defs)
qed

theorem copyuvm_copies_address_space_witness:
  "\<exists>d k' vs'. copyuvm 0x80115000 0x80108000 0x80200000 100 demo_space = Inr (d, k') \<and> d \<noteq> 0 \<and>
    space 0x80115000 d vs' k' \<and> space 0x80115000 0x80200000 vs' k' \<and> tables k' d \<inter> tables k' 0x80200000 = {} \<and>
    (\<forall>va. page va < 1 \<longrightarrow> vload8 d va k' = vload8 0x80200000 va demo_space \<and> vload8 0x80200000 va k' = vload8 0x80200000 va demo_space \<and>
       map_option snd (translate d va k') = map_option snd (translate 0x80200000 va demo_space)) \<and>
    (\<forall>va. 1 \<le> page va \<and> page va < 0x80000 \<longrightarrow> translate d va k' = None) \<and>
    (\<forall>va vb a fl b gl. page va < 1 \<and> page vb < 1 \<and> translate d va k' = Some (a, fl) \<and> translate 0x80200000 vb k' = Some (b, gl) \<longrightarrow>
       page a \<noteq> page b)"
proof -
  have n: "(unat (100 :: u32) + 4095) div 4096 = 1" by simp
  have d: "data_ok 0x80108000" by (simp add: data_ok_def aligned_def layout_defs)
  show ?thesis by (rule copyuvm_copies_address_space[of "0x80115000" "0x80200000" demo_free demo_space "0x80108000" 100, unfolded n, OF demo_ok(1) d _ demo_ok(2)]) simp_all
qed

end
