(* ===== verification/Protect.thy ===== *)
theory Protect
  imports Pagemap
begin

text \<open>
  Page protection, \<^verbatim>\<open>mprotect\<close> and \<^verbatim>\<open>munprotect\<close> of \<^verbatim>\<open>src/src/vm.c\<close>: in the intended range of arguments they change the write
  permission of exactly the pages they are given; when the address computation wraps around, the test of the
  arguments lets kernel pages through.
\<close>

section \<open>The loop over byte addresses\<close>

lemma protect_loop_ptes:
  assumes "space kend D vs k" "\<forall>i \<in> set is. present (pde k D (PDX (of_int i)))" "\<And>e. f (f e) = f e"
  shows "\<exists>k'. protect_loop D f is k = Inr k' \<and> space kend D vs k' \<and> tables k' D = tables k D \<and> unchanged (tables k D) k k' \<and>
    (\<forall>x. pte_of k' D x = (if \<exists>i \<in> set is. page (of_int i) = page x then f (pte_of k D x) else pte_of k D x))"
  using assms(1,2)
proof (induction "is" arbitrary: k)
  case (Cons i "is")
  let ?va = "of_int i :: u32"
  have p: "present (pde k D (PDX ?va))" using Cons.prems(2) by simp
  let ?a = "tab k D (PDX ?va) + 4 * PTX ?va"
  let ?k1 = "k\<lparr>mem := store32 (mem k) ?a (f (load32 (mem k) ?a))\<rparr>"
  note st = set_pte[OF Cons.prems(1) p, where w = "f (load32 (mem k) ?a)"]
  have ld: "load32 (mem k) ?a = pte_of k D ?va" using p by (simp add: pte_of_def)
  have "kpage kend (tab k D (PDX ?va))" using tables_kpage[OF _ tab_table[OF p]] Cons.prems(1) by (auto simp: space_def)
  then have nz: "?a \<noteq> 0" by (rule slot_nonzero[OF _ PTX_less])
  have "\<forall>j \<in> set is. present (pde ?k1 D (PDX (of_int j)))" using Cons.prems(2) st(3)[OF PDX_less] by simp
  from Cons.IH[OF st(1) this] obtain k' where k': "protect_loop D f is ?k1 = Inr k'" "space kend D vs k'" "tables k' D = tables ?k1 D"
    "unchanged (tables ?k1 D) ?k1 k'"
    "\<forall>x. pte_of k' D x = (if \<exists>i \<in> set is. page (of_int i) = page x then f (pte_of ?k1 D x) else pte_of ?k1 D x)" by blast
  have "protect_loop D f (i # is) k = Inr k'" using k'(1) nz walk_present[OF p, of False] by simp
  moreover have "unchanged (tables k D) k k'" by (rule unchanged_trans[OF st(5)]) (use k'(4) st(2) tab_table[OF p] in auto)
  moreover have "pte_of k' D x = (if \<exists>j \<in> set (i # is). page (of_int j) = page x then f (pte_of k D x) else pte_of k D x)" for x
    using k'(5) st(4)[of x] ld assms(3) same_page_pte[of x ?va k D] by auto
  ultimately show ?case using k'(2,3) st(2) by auto
qed simp

lemma sint_small: "unat (c :: u32) < 2 ^ 31 \<Longrightarrow> sint c = int (unat c)"
proof -
  assume "unat c < 2 ^ 31"
  then have "int (unat c) < int (2 ^ 31)" by (simp only: of_nat_less_iff)
  then show ?thesis by (simp add: sint_u32)
qed

text \<open>The addresses visited, and the pages they lie in.\<close>

lemma range_pages:
  assumes "aligned addr" "unat addr + n * 4096 < 0x80000000" "0 < n"
  shows "(\<exists>i \<in> set [sint addr..sint (addr + of_nat (n * 4096)) - 1]. page (of_int i) = page x) \<longleftrightarrow> page addr \<le> page x \<and> page x < page addr + n"
proof -
  have e: "unat (addr + of_nat (n * 4096)) = unat addr + n * 4096" using assms(2) by (subst unat_add_noof) (simp_all add: unat_of_nat_u32 del: of_nat_mult)
  have s1: "sint addr = int (unat addr)" by (rule sint_small) (use assms(2) in simp)
  have "sint (addr + of_nat (n * 4096)) = int (unat (addr + of_nat (n * 4096)))" by (rule sint_small, unfold e) (use assms(2) in simp)
  then have s: "sint addr = int (unat addr)" "sint (addr + of_nat (n * 4096)) = int (unat addr + n * 4096)" unfolding e using s1 by blast+
  have pa: "unat addr = page addr * 4096" using assms(1) by (rule aligned_eq)
  show ?thesis
  proof
    assume "\<exists>i \<in> set [sint addr..sint (addr + of_nat (n * 4096)) - 1]. page (of_int i) = page x"
    then obtain i where i: "int (unat addr) \<le> i" "i < int (unat addr + n * 4096)" "page (of_int i) = page x" unfolding s by auto
    then obtain j where j: "i = int j" "unat addr \<le> j" "j < unat addr + n * 4096" by (metis nonneg_int_cases of_nat_0_le_iff of_nat_le_iff of_nat_less_iff order_trans)
    have "page (of_int i :: u32) = j div 4096" using j assms(2) by (simp add: page_def unat_of_nat_u32)
    moreover have "page addr \<le> j div 4096" "j div 4096 < page addr + n"
      using j(2,3) pa by (simp_all add: less_eq_div_iff_mult_less_eq div_less_iff_less_mult algebra_simps)
    ultimately show "page addr \<le> page x \<and> page x < page addr + n" using i(3) by simp
  next
    assume x: "page addr \<le> page x \<and> page x < page addr + n"
    then have "page addr * 4096 \<le> page x * 4096" "page x * 4096 < (page addr + n) * 4096" by simp_all
    then have "unat addr \<le> page x * 4096" "page x * 4096 < unat addr + n * 4096" using pa by (simp_all add: algebra_simps)
    moreover have "page (of_int (int (page x * 4096)) :: u32) = page x"
      using calculation assms(2) by (simp add: page_def[of "of_nat (page x * 4096)"] unat_of_nat_u32 del: of_nat_mult)
    moreover have "int (page x * 4096) \<in> set [int (unat addr)..int (unat addr + n * 4096) - 1]"
      unfolding set_upto atLeastAtMost_iff using calculation(1,2) by linarith
    ultimately show "\<exists>i \<in> set [sint addr..sint (addr + of_nat (n * 4096)) - 1]. page (of_int i) = page x"
      unfolding s by blast
  qed
qed
section \<open>Protecting and unprotecting\<close>

text \<open>Arguments in the intended range, for a process of size \<open>sz\<close> whose pages are all mapped.\<close>

definition protectable :: "u32 \<Rightarrow> u32 \<Rightarrow> u32 \<Rightarrow> u32 list \<Rightarrow> kmem \<Rightarrow> u32 \<Rightarrow> u32 \<Rightarrow> bool" where
  "protectable kend D sz vs k addr len \<longleftrightarrow> space kend D vs k \<and> sz < KERNBASE \<and> aligned addr \<and> 0 < unat len \<and>
     unat addr + unat len * 4096 \<le> unat sz \<and>
     (\<forall>x. page addr \<le> page x \<and> page x < page addr + unat len \<longrightarrow>
        present (pte_of k D x) \<and> kpage kend (frame k D x) \<and> frame k D x \<notin> tables k D)"

lemma protect_exact:
  assumes "protectable kend D sz vs k addr len" "\<And>e. f (f e) = f e"
  shows "\<exists>k'. protect D sz f addr len k = Inr (True, k') \<and> space kend D vs k' \<and> tables k' D = tables k D \<and> unchanged (tables k D) k k' \<and>
    (\<forall>x. pte_of k' D x = (if page addr \<le> page x \<and> page x < page addr + unat len then f (pte_of k D x) else pte_of k D x))"
proof -
  have pr: "space kend D vs k" "sz < KERNBASE" "aligned addr" "0 < unat len" "unat addr + unat len * 4096 \<le> unat sz"
    "\<And>x. page addr \<le> page x \<and> page x < page addr + unat len \<Longrightarrow> present (pte_of k D x)"
    using assms(1) by (auto simp: protectable_def)
  have sz: "unat sz < 0x80000000" using pr(2) by (simp add: KERNBASE_def word_less_nat_alt)
  have lm: "len * PGSIZE = of_nat (unat len * 4096)" by (simp add: PGSIZE_def)
  have ea: "addr + len * PGSIZE = addr + of_nat (unat len * 4096)" "len * PGSIZE + addr = addr + of_nat (unat len * 4096)"
    unfolding lm by (rule refl, rule add.commute)
  have "unat (addr + of_nat (unat len * 4096)) = unat addr + unat len * 4096"
    using pr(5) sz by (subst unat_add_noof) (simp_all add: unat_of_nat_u32 del: of_nat_mult)
  then have le: "\<not> sz < addr + of_nat (unat len * 4096)" using pr(5) by (simp add: word_less_nat_alt)
  have sl: "sint len = int (unat len)" by (rule sint_small) (use pr(5) sz in simp)
  then have pos: "\<not> sint len \<le> 0" using pr(4) by linarith
  note rp = range_pages[OF pr(3) _ pr(4)]
  have rg: "unat addr + unat len * 4096 < 0x80000000" using pr(5) sz by simp
  let ?is = "[sint addr..sint (addr + of_nat (unat len * 4096)) - 1]"
  have "\<forall>i \<in> set ?is. present (pde k D (PDX (of_int i)))"
  proof
    fix i assume "i \<in> set ?is"
    then have "page addr \<le> page (of_int i) \<and> page (of_int i) < page addr + unat len" using rp[OF rg, of "of_int i"] by blast
    then have "present (pte_of k D (of_int i))" by (rule pr(6))
    then show "present (pde k D (PDX (of_int i)))" by (auto simp: pte_of_def split: if_splits)
  qed
  from protect_loop_ptes[where f = f, OF pr(1) this assms(2)] obtain k' where k': "protect_loop D f ?is k = Inr k'" "space kend D vs k'"
    "tables k' D = tables k D" "unchanged (tables k D) k k'"
    "\<forall>x. pte_of k' D x = (if \<exists>i \<in> set ?is. page (of_int i) = page x then f (pte_of k D x) else pte_of k D x)" by blast
  have "protect D sz f addr len k = Inr (True, k')"
    unfolding protect_def ea using k'(1) le pos pr(3) by (simp add: aligned_def PGSIZE_def)
  then show ?thesis using k' rp[OF rg] by auto
qed
lemma bit_small: "bit (1 :: u32) n \<longleftrightarrow> n = 0" "bit (2 :: u32) n \<longleftrightarrow> n = 1" "bit (0xFFF :: u32) n \<longleftrightarrow> n < 12"
proof -
  have two: "(2 :: u32) = push_bit 1 1" and m: "(0xFFF :: u32) = mask 12" by (simp_all add: mask_eq_exp_minus_1)
  show "bit (1 :: u32) n \<longleftrightarrow> n = 0" by (auto simp: bit_1_iff)
  show "bit (2 :: u32) n \<longleftrightarrow> n = 1" unfolding two bit_push_bit_iff by (auto simp: bit_1_iff)
  show "bit (0xFFF :: u32) n \<longleftrightarrow> n < 12" unfolding m bit_mask_iff by auto
qed

lemma present_bit: "present e \<longleftrightarrow> bit e 0"
  by (auto simp: pte_defs bit_0 and_one_eq odd_iff_mod_2_eq_one)

lemma write_bit:
  "present (e AND NOT PTE_W) \<longleftrightarrow> present e" "present (e OR PTE_W) \<longleftrightarrow> present e"
  "PTE_ADDR (e AND NOT PTE_W) = PTE_ADDR e" "PTE_ADDR (e OR PTE_W) = PTE_ADDR e"
  "PTE_FLAGS (e AND NOT PTE_W) AND PTE_W = 0" "PTE_FLAGS (e OR PTE_W) AND PTE_W \<noteq> 0"
  "(e AND NOT PTE_W) AND NOT PTE_W = e AND NOT PTE_W" "(e OR PTE_W) OR PTE_W = e OR PTE_W"
proof -
  define m :: u32 where "m = 0xFFF"
  have bm: "bit m n \<longleftrightarrow> n < 12" and bw: "bit PTE_W n \<longleftrightarrow> n = 1" for n unfolding m_def PTE_W_def by (rule bit_small)+
  note b = bit_and_iff bit_or_iff bit_not_iff bm bw
  have ad: "PTE_ADDR x = x AND NOT m" and fl: "PTE_FLAGS x = x AND m" for x by (simp_all add: PTE_ADDR_def PTE_FLAGS_def m_def)
  show "present (e AND NOT PTE_W) \<longleftrightarrow> present e" "present (e OR PTE_W) \<longleftrightarrow> present e" unfolding present_bit by (simp_all add: b)
  show "PTE_ADDR (e AND NOT PTE_W) = PTE_ADDR e" unfolding ad by (rule bit_word_eqI) (auto simp: b)
  show "PTE_ADDR (e OR PTE_W) = PTE_ADDR e" unfolding ad by (rule bit_word_eqI) (auto simp: b)
  show "PTE_FLAGS (e AND NOT PTE_W) AND PTE_W = 0" unfolding fl by (rule bit_word_eqI) (auto simp: b)
  have "bit (PTE_FLAGS (e OR PTE_W) AND PTE_W) 1" unfolding fl by (simp add: b)
  then show "PTE_FLAGS (e OR PTE_W) AND PTE_W \<noteq> 0" by auto
  show "(e AND NOT PTE_W) AND NOT PTE_W = e AND NOT PTE_W" by (rule bit_word_eqI) (auto simp: b)
  show "(e OR PTE_W) OR PTE_W = e OR PTE_W" by (rule bit_word_eqI) (auto simp: b)
qed

abbreviation pages_in :: "u32 \<Rightarrow> u32 \<Rightarrow> u32 \<Rightarrow> bool" where
  "pages_in addr len va \<equiv> page addr \<le> page va \<and> page va < page addr + unat len"

text \<open>C12. \<^verbatim>\<open>mprotect\<close> takes the write permission from exactly the pages in its range: there every store traps and every byte still
  reads the same, elsewhere translation does not change. \<^verbatim>\<open>munprotect\<close> with the same arguments makes the range writable again.\<close>

theorem mprotect_protects_range:
  assumes "protectable kend D sz vs k addr len"
  shows "\<exists>k1 k2. mprotect D sz addr len k = Inr (True, k1) \<and> munprotect D sz addr len k1 = Inr (True, k2) \<and>
    (\<forall>va b. pages_in addr len va \<longrightarrow> vstore8 D va b k1 = Inl (Fault ''page fault'') \<and> vload8 D va k1 = vload8 D va k \<and>
       (\<exists>k3. vstore8 D va b k2 = Inr k3) \<and> vload8 D va k2 = vload8 D va k) \<and>
    (\<forall>va. \<not> pages_in addr len va \<longrightarrow> translate D va k1 = translate D va k \<and> translate D va k2 = translate D va k)"
proof -
  obtain k1 where k1: "mprotect D sz addr len k = Inr (True, k1)" "space kend D vs k1" "tables k1 D = tables k D" "unchanged (tables k D) k k1"
    "\<forall>x. pte_of k1 D x = (if pages_in addr len x then pte_of k D x AND NOT PTE_W else pte_of k D x)"
    using protect_exact[OF assms, of "\<lambda>e. e AND NOT PTE_W"] write_bit(7) unfolding mprotect_def by blast
  have pr: "present (pte_of k D x)" "aligned (frame k D x)" "frame k D x \<notin> tables k D" if "pages_in addr len x" for x
    using assms that kpage_aligned by (auto simp: protectable_def)
  have f1: "frame k1 D x = frame k D x" for x using k1(5) write_bit(3) by (simp add: frame_def)
  have "protectable kend D sz vs k1 addr len" using assms k1(2,3,5) f1 write_bit(1) by (auto simp: protectable_def)
  from protect_exact[OF this, of "\<lambda>e. e OR PTE_W"] obtain k2 where k2: "munprotect D sz addr len k1 = Inr (True, k2)" "space kend D vs k2"
    "unchanged (tables k D) k1 k2" "\<forall>x. pte_of k2 D x = (if pages_in addr len x then pte_of k1 D x OR PTE_W else pte_of k1 D x)"
    using write_bit(8) k1(3) unfolding munprotect_def by auto
  have f2: "frame k2 D x = frame k D x" for x using k2(4) write_bit(4) f1[of x] by (simp add: frame_def)
  have un2: "unchanged (tables k D) k k2" by (rule unchanged_trans[OF k1(4) k2(3)]) simp_all
  have d: "dir_ok kend D k" "dir_ok kend D k1" "dir_ok kend D k2" using assms k1(2) k2(2) by (auto simp: protectable_def space_def)
  note tr = translate_pte[OF d(1)] translate_pte[OF d(2)] translate_pte[OF d(3)]
  have al: "\<forall>p \<in> tables k D. aligned p" using tables_kpage[OF d(1)] kpage_aligned by blast
  have "vstore8 D va b k1 = Inl (Fault ''page fault'') \<and> vload8 D va k1 = vload8 D va k \<and> (\<exists>k3. vstore8 D va b k2 = Inr k3) \<and> vload8 D va k2 = vload8 D va k"
    if "pages_in addr len va" for va b
    using pr[OF that] k1(5) k2(4) that f1 f2 write_bit mem_in_frame[OF k1(4) al _ _ offset_less] mem_in_frame[OF un2 al _ _ offset_less]
    by (simp add: vload8_def vstore8_def tr)
  moreover have "translate D va k1 = translate D va k \<and> translate D va k2 = translate D va k" if "\<not> pages_in addr len va" for va
    using that k1(5) k2(4) f1 f2 by (auto simp: tr)
  ultimately show ?thesis using k1(1) k2(1) by blast
qed

theorem mprotect_protects_range_witness:
  "\<exists>k1 k2. mprotect 0x80200000 4096 0 1 demo_space = Inr (True, k1) \<and> munprotect 0x80200000 4096 0 1 k1 = Inr (True, k2) \<and>
    (\<forall>va b. pages_in 0 1 va \<longrightarrow> vstore8 0x80200000 va b k1 = Inl (Fault ''page fault'') \<and>
       vload8 0x80200000 va k1 = vload8 0x80200000 va demo_space \<and>
       (\<exists>k3. vstore8 0x80200000 va b k2 = Inr k3) \<and> vload8 0x80200000 va k2 = vload8 0x80200000 va demo_space) \<and>
    (\<forall>va. \<not> pages_in 0 1 va \<longrightarrow> translate 0x80200000 va k1 = translate 0x80200000 va demo_space \<and>
       translate 0x80200000 va k2 = translate 0x80200000 va demo_space)"
proof (rule mprotect_protects_range)
  have "frame demo_space 0x80200000 x = 0x80202000" if "page x = 0" for x
    using that by (simp add: frame_def demo_pte PTE_ADDR_def layout_defs)
  then show "protectable 0x80115000 0x80200000 4096 demo_free demo_space 0 1"
    using demo_ok by (simp add: protectable_def user_pages_def demo_tables KERNBASE_def page_def[of 0])
qed

text \<open>C35. The range check wraps around: for every kernel page address, \<^verbatim>\<open>mprotect\<close> with a length that reaches the end of the address
  space passes the test \<^verbatim>\<open>(uint)addr+len*PGSIZE>myproc()->sz\<close> whatever the size of the process is. For the last page it clears the
  write permission of a kernel mapping and reports success.\<close>

theorem mprotect_wraps_into_kernel:
  assumes "space kend D vs k" "present (pde k D 1023)"
  shows "(\<forall>addr. aligned addr \<and> KERNBASE \<le> addr \<longrightarrow> addr + of_nat ((2 ^ 32 - unat addr) div 4096) * PGSIZE = 0) \<and>
    (\<exists>k'. mprotect D sz 0xFFFFF000 1 k = Inr (True, k') \<and> pte_of k' D 0xFFFFF000 = pte_of k D 0xFFFFF000 AND NOT PTE_W)"
proof
  show "\<forall>addr. aligned addr \<and> KERNBASE \<le> addr \<longrightarrow> addr + of_nat ((2 ^ 32 - unat addr) div 4096) * PGSIZE = 0"
  proof (intro allI impI)
    fix addr assume "aligned addr \<and> KERNBASE \<le> addr"
    then have "(2 ^ 32 - unat addr) div 4096 * 4096 = 2 ^ 32 - unat addr" by (simp add: aligned_eq diff_mult_distrib[symmetric])
    then have "of_nat ((2 ^ 32 - unat addr) div 4096) * PGSIZE = (of_nat (2 ^ 32 - unat addr) :: u32)"
      unfolding PGSIZE_def by (metis of_nat_mult of_nat_numeral)
    also have "\<dots> = - addr" using unat_less_2p32[of addr] by (simp add: of_nat_diff)
    finally show "addr + of_nat ((2 ^ 32 - unat addr) div 4096) * PGSIZE = 0" by simp
  qed
  define lo :: int where "lo = - 4096"
  have "sint (0xFFFFF000 :: u32) = lo" "sint (1 * PGSIZE + 0xFFFFF000) = 0" by (simp_all add: PGSIZE_def lo_def)
  then have r: "[sint (0xFFFFF000 :: u32)..sint (1 * PGSIZE + 0xFFFFF000) - 1] = [lo.. - 1]" by simp
  have p: "page (of_int i :: u32) = 0xFFFFF" if "i \<in> set [lo.. - 1]" for i
  proof -
    have i: "lo \<le> i" "i \<le> - 1" using that by (simp_all add: set_upto)
    define j where "j = nat (i + 4096)"
    have j: "i = int j - 4096" "j < 4096" using i unfolding j_def lo_def by linarith+
    have "(of_int i :: u32) = 0xFFFFF000 + of_nat j" by (simp add: j(1))
    moreover have "aligned (0xFFFFF000 :: u32)" by (simp add: aligned_def)
    moreover have "unat (of_nat j :: u32) < 4096" using j(2) by (simp add: unat_of_nat_u32)
    ultimately have "page (of_int i :: u32) = page (0xFFFFF000 :: u32)" using page_offset(1) by simp
    then show ?thesis by (simp add: page_def)
  qed
  have z: "0xFFFFF000 + 1 * PGSIZE = 0" by (simp add: PGSIZE_def)
  have t: "page (0xFFFFF000 :: u32) = 0xFFFFF" by (simp add: page_def)
  have "PDX (of_int i) = 1023" if "i \<in> set [lo.. - 1]" for i using p[OF that] unat_PDX[of "of_int i"] by (simp add: word_unat_eq_iff)
  then have "\<forall>i \<in> set [lo.. - 1]. present (pde k D (PDX (of_int i)))" using assms(2) by simp
  from protect_loop_ptes[OF assms(1) this, of "\<lambda>e. e AND NOT PTE_W"] write_bit(7) obtain k' where
    k': "protect_loop D (\<lambda>e. e AND NOT PTE_W) [lo.. - 1] k = Inr k'"
    "\<forall>x. pte_of k' D x = (if \<exists>i \<in> set [lo.. - 1]. page (of_int i) = page x then pte_of k D x AND NOT PTE_W else pte_of k D x)" by blast
  have "\<exists>i \<in> set [lo.. - 1]. page (of_int i) = page (0xFFFFF000 :: u32)" unfolding t using p[of "- 1"] by (intro bexI[of _ "- 1"]) (simp_all add: set_upto lo_def)
  then have "pte_of k' D 0xFFFFF000 = pte_of k D 0xFFFFF000 AND NOT PTE_W" using k'(2) by simp
  moreover have "mprotect D sz 0xFFFFF000 1 k = Inr (True, k')"
    unfolding mprotect_def protect_def r z using k'(1) by (simp add: PGSIZE_def)
  ultimately show "\<exists>k'. mprotect D sz 0xFFFFF000 1 k = Inr (True, k') \<and> pte_of k' D 0xFFFFF000 = pte_of k D 0xFFFFF000 AND NOT PTE_W" by blast
qed

theorem mprotect_wraps_into_kernel_witness:
  "\<exists>k'. mprotect 0x80200000 4096 0xFFFFF000 1 demo_space = Inr (True, k') \<and> pte_of k' 0x80200000 0xFFFFF000 = 0xFFFFF003 AND NOT PTE_W"
  using mprotect_wraps_into_kernel[OF demo_ok(1), of 4096] by (simp add: demo_pde demo_pte pte_defs)

end
