(* ===== verification/Filedata.thy ===== *)
theory Filedata
  imports Fs
begin

text \<open>
  What the block, inode and file layers of \<open>Fs\<close> promise in terms of the block contents that the cache and the running
  transaction show: \<open>block_at\<close>. \<open>contents\<close> is the byte string that a file holds; \<^verbatim>\<open>readi\<close> returns a slice of it and
  \<^verbatim>\<open>writei\<close> replaces a slice. \<^verbatim>\<open>balloc\<close> takes a clear bit of the bitmap and \<^verbatim>\<open>bfree\<close> clears it again.
\<close>

section \<open>Blocks as the running operation sees them\<close>

definition block_at :: "'d fs \<Rightarrow> u32 \<Rightarrow> block" where
  "block_at s n = view (bc (fy s)) (ldev (lg (fy s))) n"

text \<open>Nothing changed but the state of the cache.\<close>

definition same_fs :: "u32 \<Rightarrow> 'd fs \<Rightarrow> 'd fs \<Rightarrow> bool" where
  "same_fs pid s s' \<longleftrightarrow> log_inv pid (fy s') \<and> lg (fy s') = lg (fy s) \<and> block_at s' = block_at s \<and>
     icache s' = icache s \<and> sbk s' = sbk s \<and> devs s' = devs s"

lemma same_fs_refl: "log_inv pid (fy s) \<Longrightarrow> same_fs pid s s"
  by (simp add: same_fs_def)

lemma same_fs_trans: "same_fs pid a b \<Longrightarrow> same_fs pid b c \<Longrightarrow> same_fs pid a c"
  by (simp add: same_fs_def)

lemma log_inv_dev: "log_inv pid y \<Longrightarrow> ldev (lg y) \<noteq> 0"
  by (simp add: log_inv_def log_wf_def)

lemma fs_read:
  assumes inv: "log_inv pid (fy s)" and dev: "dev = ldev (lg (fy s))" and n: "n < FSSIZE"
  shows "\<exists>i s1 s2. fbread pid dev n s = Inr (i, s1) \<and> blk s1 i = block_at s n \<and> fbrelse pid i s1 = Inr s2 \<and>
    same_fs pid s s2 \<and> icache s1 = icache s \<and> sbk s1 = sbk s"
proof -
  have ok: "bio_ok pid {} (bc (fy s))" and d: "dev \<noteq> 0" using inv log_inv_dev[OF inv] dev by (simp_all add: log_inv_def)
  obtain i b1 b2 where b: "bread pid dev n (bc (fy s)) = Inr (i, b1)" "data (bufs b1 ! i) = view (bc (fy s)) dev n"
    "brelse pid i b1 = Inr b2" "same_view pid (bc (fy s)) b2" by (rule read_one[OF ok d n log_room[OF inv]])
  have "same_fs pid s (s\<lparr>fy := (fy s)\<lparr>bc := b2\<rparr>\<rparr>)"
    using inv b(4) d dev by (auto simp: same_fs_def same_view_def log_inv_def fun_eq_iff block_at_def)
  then show ?thesis using b(1-3) dev by (auto simp: fbread_def fbrelse_def blk_def block_at_def)
qed

text \<open>One logged update of a block.\<close>

definition put_block :: "u32 \<Rightarrow> u32 \<Rightarrow> block \<Rightarrow> 'd fs \<Rightarrow> 'd fs \<Rightarrow> bool" where
  "put_block pid n x s s' \<longleftrightarrow> log_inv pid (fy s') \<and> lg (fy s') = log_add n (lg (fy s)) \<and> block_at s' = (block_at s)(n := x) \<and>
     icache s' = icache s \<and> sbk s' = sbk s \<and> devs s' = devs s"

lemma fs_write:
  assumes inv: "log_inv pid (fy s)" and op: "log_open (lg (fy s))" and n: "home (lg (fy s)) n" and dev: "dev = ldev (lg (fy s))"
  shows "\<exists>i s1 s2. fbread pid dev n s = Inr (i, s1) \<and> blk s1 i = block_at s n \<and>
    flog_put pid i (g (block_at s n)) s1 = Inr s2 \<and> put_block pid n (g (block_at s n)) s s2"
proof -
  have ok: "bio_ok pid {} (bc (fy s))" and d: "ldev (lg (fy s)) \<noteq> 0" using inv log_inv_dev[OF inv] by (simp_all add: log_inv_def)
  have fs: "n < FSSIZE" using n by (simp add: home_def)
  obtain i b1 b2 where b: "bread pid (ldev (lg (fy s))) n (bc (fy s)) = Inr (i, b1)" "data (bufs b1 ! i) = view (bc (fy s)) (ldev (lg (fy s))) n"
    by (rule read_one[OF ok d fs log_room[OF inv]])
  obtain y where y: "log_update pid (ldev (lg (fy s))) n g (fy s) = Inr y"
    "updated pid n (g (view (bc (fy s)) (ldev (lg (fy s))) n)) (fy s) y" by (rule log_update_spec[OF inv op n])
  have wf: "log_wf (lg (fy s))" using inv by (simp add: log_inv_def)
  have "ldev (lg y) = ldev (lg (fy s))" using updatedD(2)[OF y(2)] log_add_facts(4)[OF wf op n] by simp
  then have "put_block pid n (g (block_at s n)) s (s\<lparr>fy := y\<rparr>)" using updatedD[OF y(2)] d by (auto simp: put_block_def block_at_def fun_eq_iff)
  moreover have "flog_put pid i (g (block_at s n)) (s\<lparr>fy := (fy s)\<lparr>bc := b1\<rparr>\<rparr>) = Inr (s\<lparr>fy := y\<rparr>)"
    using y(1) b by (auto simp: log_update_def flog_put_def fbrelse_def rbind_eq_Inr block_at_def)
  ultimately show ?thesis using b dev by (auto simp: fbread_def blk_def block_at_def)
qed

section \<open>The contents of a file\<close>

definition file_addr :: "'d fs \<Rightarrow> nat \<Rightarrow> nat \<Rightarrow> u32" where
  "file_addr s ip b = (if b < NDIRECT then addrs (node s ip) ! b
     else get32 (block_at s (addrs (node s ip) ! NDIRECT)) (4 * (b - NDIRECT)))"

definition contents :: "'d fs \<Rightarrow> nat \<Rightarrow> u8 list" where
  "contents s ip = map (\<lambda>j. block_at s (file_addr s ip (j div BSIZE)) ! (j mod BSIZE)) [0..<unat (isize (node s ip))]"

text \<open>The invariant of a file in an operation: every block below its size is allocated, in the area of the file system, once.\<close>

definition file_ok :: "u32 \<Rightarrow> nat \<Rightarrow> 'd fs \<Rightarrow> bool" where
  "file_ok pid ip s \<longleftrightarrow> log_inv pid (fy s) \<and> ip < length (icache s) \<and> idev (node s ip) = ldev (lg (fy s)) \<and> itype (node s ip) \<noteq> T_DEV \<and>
     length (addrs (node s ip)) = Suc NDIRECT \<and> unat (isize (node s ip)) \<le> MAXFILE * BSIZE \<and>
     (\<forall>b. b * BSIZE < unat (isize (node s ip)) \<longrightarrow> file_addr s ip b \<noteq> 0 \<and> home (lg (fy s)) (file_addr s ip b) \<and>
        length (block_at s (file_addr s ip b)) = BSIZE \<and>
        (NDIRECT \<le> b \<longrightarrow> addrs (node s ip) ! NDIRECT \<noteq> 0 \<and> home (lg (fy s)) (addrs (node s ip) ! NDIRECT))) \<and>
     (\<forall>b c. b * BSIZE < unat (isize (node s ip)) \<longrightarrow> c * BSIZE < unat (isize (node s ip)) \<longrightarrow> file_addr s ip b = file_addr s ip c \<longrightarrow> b = c) \<and>
     (\<forall>b. b * BSIZE < unat (isize (node s ip)) \<longrightarrow> NDIRECT * BSIZE < unat (isize (node s ip)) \<longrightarrow> file_addr s ip b \<noteq> addrs (node s ip) ! NDIRECT)"

lemma file_okD:
  assumes "file_ok pid ip s"
  shows "log_inv pid (fy s)" "idev (node s ip) = ldev (lg (fy s))" "itype (node s ip) \<noteq> T_DEV" "unat (isize (node s ip)) \<le> MAXFILE * BSIZE"
    "b * BSIZE < unat (isize (node s ip)) \<Longrightarrow> file_addr s ip b \<noteq> 0 \<and> home (lg (fy s)) (file_addr s ip b) \<and> length (block_at s (file_addr s ip b)) = BSIZE"
    "b * BSIZE < unat (isize (node s ip)) \<Longrightarrow> NDIRECT \<le> b \<Longrightarrow> addrs (node s ip) ! NDIRECT \<noteq> 0 \<and> home (lg (fy s)) (addrs (node s ip) ! NDIRECT)"
    "b * BSIZE < unat (isize (node s ip)) \<Longrightarrow> c * BSIZE < unat (isize (node s ip)) \<Longrightarrow> file_addr s ip b = file_addr s ip c \<Longrightarrow> b = c"
    "b * BSIZE < unat (isize (node s ip)) \<Longrightarrow> NDIRECT * BSIZE < unat (isize (node s ip)) \<Longrightarrow> file_addr s ip b \<noteq> addrs (node s ip) ! NDIRECT"
  using assms unfolding file_ok_def by blast+

lemma same_file: "same_fs pid s s' \<Longrightarrow> file_addr s' ip b = file_addr s ip b \<and> contents s' ip = contents s ip"
  by (simp add: same_fs_def file_addr_def contents_def)

lemma same_file_ok: "same_fs pid s s' \<Longrightarrow> file_ok pid ip s \<Longrightarrow> file_ok pid ip s'"
  using same_file[of pid s s' ip] unfolding file_ok_def same_fs_def by simp

lemma home_less: "home l f \<Longrightarrow> f < FSSIZE"
  by (simp add: home_def)

text \<open>For a block below the size \<^verbatim>\<open>bmap\<close> only looks the address up.\<close>

lemma bmap_lookup:
  assumes ok: "file_ok pid ip s" and b: "b * BSIZE < unat (isize (node s ip))"
  shows "\<exists>s1. bmap pid ip (of_nat b) s = Inr (file_addr s ip b, s1) \<and> same_fs pid s s1"
proof -
  have lim: "b < MAXFILE" using b file_okD(4)[OF ok] by simp
  have u: "unat (of_nat b :: u32) = b" using lim by (intro unat_of_nat_u32) simp
  note f = file_okD(5)[OF ok b]
  show ?thesis
  proof (cases "b < NDIRECT")
    case True
    then show ?thesis using u f same_fs_refl[OF file_okD(1)[OF ok]]
      by (auto simp: bmap_def bmap_slot_def file_addr_def)
  next
    case False
    let ?a = "addrs (node s ip) ! NDIRECT"
    have a: "?a \<noteq> 0" "home (lg (fy s)) ?a" using file_okD(6)[OF ok b] False by auto
    obtain i s1 s2 where r: "fbread pid (idev (node s ip)) ?a s = Inr (i, s1)" "blk s1 i = block_at s ?a" "fbrelse pid i s1 = Inr s2"
      "same_fs pid s s2" using fs_read[OF file_okD(1)[OF ok] file_okD(2)[OF ok] home_less[OF a(2)]] by blast
    have "get32 (block_at s ?a) (4 * (b - NDIRECT)) = file_addr s ip b" using False by (simp add: file_addr_def)
    then show ?thesis using u False lim a(1) r f by (simp add: bmap_def bmap_slot_def Let_def)
  qed
qed
lemma div_block: "unat (off div of_nat BSIZE :: u32) = unat off div BSIZE" "off div of_nat BSIZE = (of_nat (unat off div BSIZE) :: u32)"
proof -
  show u: "unat (off div of_nat BSIZE :: u32) = unat off div BSIZE" by (simp add: unat_div)
  then show "off div of_nat BSIZE = (of_nat (unat off div BSIZE) :: u32)" by (metis unat_of_nat_u32 unat_less_2p32 word_unat_eq_iff)
qed

lemma within_block:
  assumes "r + j < BSIZE" "r = q mod BSIZE"
  shows "(q + j) div BSIZE = q div BSIZE" "(q + j) mod BSIZE = r + j"
proof -
  have "q + j = (q div BSIZE) * BSIZE + (r + j)" using assms(2) by simp
  then show "(q + j) div BSIZE = q div BSIZE" "(q + j) mod BSIZE = r + j" using assms(1) by (simp_all only: div_mult_self3 mod_mult_self3 div_less mod_less)
qed

lemma length_contents [simp]: "length (contents s ip) = unat (isize (node s ip))"
  by (simp add: contents_def)

lemma nth_contents: "j < unat (isize (node s ip)) \<Longrightarrow> contents s ip ! j = block_at s (file_addr s ip (j div BSIZE)) ! (j mod BSIZE)"
  by (simp add: contents_def)

lemma chunk_le: "chunk off n \<le> n" "unat off mod BSIZE + chunk off n \<le> BSIZE"
  by (simp_all add: chunk_def)

lemma block_slice:
  assumes "file_ok pid ip s" "m \<le> BSIZE - q mod BSIZE" "q + m \<le> unat (isize (node s ip))" "0 < m"
  shows "take m (drop (q mod BSIZE) (block_at s (file_addr s ip (q div BSIZE)))) = take m (drop q (contents s ip))"
proof (rule nth_equalityI)
  have "q div BSIZE * BSIZE \<le> q" by simp
  then have "q div BSIZE * BSIZE < unat (isize (node s ip))" using assms(3,4) by linarith
  then have l: "length (block_at s (file_addr s ip (q div BSIZE))) = BSIZE" using file_okD(5)[OF assms(1)] by blast
  show "length (take m (drop (q mod BSIZE) (block_at s (file_addr s ip (q div BSIZE))))) = length (take m (drop q (contents s ip)))"
    using l assms(2,3) by simp
  fix j assume "j < length (take m (drop (q mod BSIZE) (block_at s (file_addr s ip (q div BSIZE)))))"
  then have j: "j < m" "q mod BSIZE + j < BSIZE" using l assms(2) by auto
  then show "take m (drop (q mod BSIZE) (block_at s (file_addr s ip (q div BSIZE)))) ! j = take m (drop q (contents s ip)) ! j"
    using within_block[OF j(2) refl] l assms(3) nth_contents[of "q + j" s ip] by simp
qed

lemma unat_off_step:
  assumes "unat off + n \<le> 71680" "m \<le> n"
  shows "unat (off + of_nat m :: u32) = unat off + m"
proof -
  have m: "unat (of_nat m :: u32) = m" using assms by (intro unat_of_nat_u32) simp
  then show ?thesis using assms by (subst unat_add_noof) simp_all
qed

lemma readi_loop_slice:
  "file_ok pid ip s \<Longrightarrow> unat off + n \<le> unat (isize (node s ip)) \<Longrightarrow>
   \<exists>s1. readi_loop pid ip off n s = Inr (take n (drop (unat off) (contents s ip)), s1) \<and> same_fs pid s s1"
proof (induction n arbitrary: off s rule: less_induct)
  case (less n)
  note ok = less.prems(1)
  show ?case
  proof (cases "n = 0")
    case True
    then show ?thesis using same_fs_refl[OF file_okD(1)[OF ok]] by simp
  next
    case False
    let ?m = "chunk off n" and ?q = "unat off"
    have m: "0 < ?m" "?m \<le> n" "?m \<le> BSIZE - ?q mod BSIZE" using False chunk_le[of off n] by auto
    have "?q div BSIZE * BSIZE \<le> ?q" by simp
    then have b: "?q div BSIZE * BSIZE < unat (isize (node s ip))" using less.prems(2) False by linarith
    obtain s1 where s1: "bmap pid ip (off div of_nat BSIZE) s = Inr (file_addr s ip (?q div BSIZE), s1)" "same_fs pid s s1"
      using bmap_lookup[OF ok b] unfolding div_block(2)[symmetric] by blast
    have f: "file_ok pid ip s1" "file_addr s1 ip = file_addr s ip" "contents s1 ip = contents s ip" "node s1 ip = node s ip" "block_at s1 = block_at s"
      using same_file_ok[OF s1(2) ok] same_file[OF s1(2)] s1(2) by (auto simp: same_fs_def)
    have h: "home (lg (fy s1)) (file_addr s ip (?q div BSIZE))" using file_okD(5)[OF f(1), of "?q div BSIZE"] b f(2,4) by simp
    obtain i s2 s3 where r: "fbread pid (idev (node s1 ip)) (file_addr s ip (?q div BSIZE)) s1 = Inr (i, s2)"
      "blk s2 i = block_at s1 (file_addr s ip (?q div BSIZE))" "fbrelse pid i s2 = Inr s3" "same_fs pid s1 s3"
      using fs_read[OF file_okD(1)[OF f(1)] file_okD(2)[OF f(1)] home_less[OF h]] by blast
    have s3: "same_fs pid s s3" by (rule same_fs_trans[OF s1(2) r(4)])
    have f3: "file_ok pid ip s3" "contents s3 ip = contents s ip" "node s3 ip = node s ip"
      using same_file_ok[OF s3 ok] same_file[OF s3] s3 by (auto simp: same_fs_def)
    have sz: "unat (isize (node s ip)) \<le> 71680" using file_okD(4)[OF ok] by simp
    have st: "unat (off + of_nat ?m) = ?q + ?m" using unat_off_step[OF _ m(2)] less.prems(2) sz by simp
    have "n - ?m < n" "unat (off + of_nat ?m) + (n - ?m) \<le> unat (isize (node s3 ip))" using m(1,2) less.prems(2) f3(3) st by simp_all
    from less.IH[OF this(1) f3(1) this(2)] obtain s4 where s4: "readi_loop pid ip (off + of_nat ?m) (n - ?m) s3 =
      Inr (take (n - ?m) (drop (?q + ?m) (contents s ip)), s4)" "same_fs pid s3 s4" unfolding f3(2) st by blast
    have sl: "take ?m (drop (?q mod BSIZE) (blk s2 i)) = take ?m (drop ?q (contents s ip))"
      unfolding r(2) f(5) using m less.prems(2) by (intro block_slice[OF ok]) simp_all
    have "take n (drop ?q (contents s ip)) = take ?m (drop ?q (contents s ip)) @ take (n - ?m) (drop (?q + ?m) (contents s ip))"
      using take_add[of ?m "n - ?m" "drop ?q (contents s ip)"] m(2) by (simp add: add.commute)
    then have "readi_loop pid ip off n s = Inr (take n (drop ?q (contents s ip)), s4)"
      using False s1(1) r(1,3) s4(1) sl by (subst readi_loop.simps) (simp add: Let_def)
    then show ?thesis using same_fs_trans[OF s3 s4(2)] by blast
  qed
qed
text \<open>Replacing bytes of one block of the file.\<close>

definition overwrite :: "nat \<Rightarrow> 'a list \<Rightarrow> 'a list \<Rightarrow> 'a list" where
  "overwrite q ys xs = take q xs @ ys @ drop (q + length ys) xs"

lemma length_overwrite: "q + length ys \<le> length xs \<Longrightarrow> length (overwrite q ys xs) = length xs"
  by (simp add: overwrite_def)

lemma nth_overwrite: "q + length ys \<le> length xs \<Longrightarrow> j < length xs \<Longrightarrow> overwrite q ys xs ! j = (if q \<le> j \<and> j < q + length ys then ys ! (j - q) else xs ! j)"
  by (auto simp: overwrite_def nth_append min_def)

lemma overwrite_overwrite:
  assumes "q + length ys + length zs \<le> length xs"
  shows "overwrite (q + length ys) zs (overwrite q ys xs) = overwrite q (ys @ zs) xs"
proof -
  have l: "q + length ys \<le> length xs" "q + length (ys @ zs) \<le> length xs" "q + length ys + length zs \<le> length (overwrite q ys xs)"
    using assms by (simp_all add: length_overwrite)
  show ?thesis using l
    by (intro nth_equalityI) (auto simp: length_overwrite nth_overwrite nth_append)
qed

lemma put_slice:
  assumes ok: "file_ok pid ip s" and b: "b * BSIZE < unat (isize (node s ip))" and r: "r + length ys \<le> BSIZE"
    and fit: "b * BSIZE + r + length ys \<le> unat (isize (node s ip))" and home: "\<And>n. home (lg (fy s1)) n = home (lg (fy s)) n"
    and dev: "ldev (lg (fy s1)) = ldev (lg (fy s))"
    and put: "put_block pid (file_addr s ip b) (overwrite r ys (block_at s (file_addr s ip b))) s s1"
  shows "file_ok pid ip s1" "contents s1 ip = overwrite (b * BSIZE + r) ys (contents s ip)"
    "c * BSIZE < unat (isize (node s ip)) \<Longrightarrow> file_addr s1 ip c = file_addr s ip c"
proof -
  let ?a = "file_addr s ip b"
  have p: "log_inv pid (fy s1)" "block_at s1 = (block_at s)(?a := overwrite r ys (block_at s ?a))" "icache s1 = icache s"
    using put by (auto simp: put_block_def)
  have fa: "file_addr s1 ip c = file_addr s ip c" if c: "c * BSIZE < unat (isize (node s ip))" for c
  proof (cases "c < NDIRECT")
    case False
    then have "NDIRECT * BSIZE < unat (isize (node s ip))" using c by simp
    then have "?a \<noteq> addrs (node s ip) ! NDIRECT" using file_okD(8)[OF ok b] by blast
    then show ?thesis using p(2,3) by (simp add: file_addr_def)
  qed (simp add: file_addr_def p(3))
  then show "c * BSIZE < unat (isize (node s ip)) \<Longrightarrow> file_addr s1 ip c = file_addr s ip c" .
  have la: "length (block_at s ?a) = BSIZE" using file_okD(5)[OF ok b] by blast
  then have len: "length (block_at s1 n) = length (block_at s n)" for n using p(2) r length_overwrite[of r ys "block_at s ?a"] by auto
  show "file_ok pid ip s1"
    using ok p(1) fa unfolding file_ok_def p(3) home dev len by simp
  show "contents s1 ip = overwrite (b * BSIZE + r) ys (contents s ip)"
  proof (rule nth_equalityI)
    show "length (contents s1 ip) = length (overwrite (b * BSIZE + r) ys (contents s ip))"
      using fit by (subst length_overwrite) (simp_all add: p(3))
    fix j assume "j < length (contents s1 ip)"
    then have j: "j < unat (isize (node s ip))" by (simp add: p(3))
    let ?c = "j div BSIZE"
    have "?c * BSIZE \<le> j" by simp
    then have cj: "?c * BSIZE < unat (isize (node s ip))" using j by linarith
    have lhs: "contents s1 ip ! j = block_at s1 (file_addr s ip ?c) ! (j mod BSIZE)" using nth_contents[of j s1 ip] j fa[OF cj] by (simp add: p(3))
    have rhs: "overwrite (b * BSIZE + r) ys (contents s ip) ! j =
        (if b * BSIZE + r \<le> j \<and> j < b * BSIZE + r + length ys then ys ! (j - (b * BSIZE + r)) else contents s ip ! j)"
      using fit j by (intro nth_overwrite) simp_all
    show "contents s1 ip ! j = overwrite (b * BSIZE + r) ys (contents s ip) ! j"
    proof (cases "?c = b")
      case True
      have jj: "j = b * BSIZE + j mod BSIZE" using True div_mult_mod_eq[of j BSIZE] by simp
      have "contents s1 ip ! j = overwrite r ys (block_at s ?a) ! (j mod BSIZE)" using lhs True p(2) by simp
      also have "\<dots> = (if r \<le> j mod BSIZE \<and> j mod BSIZE < r + length ys then ys ! (j mod BSIZE - r) else block_at s ?a ! (j mod BSIZE))"
        using r la by (intro nth_overwrite) simp_all
      also have "block_at s ?a ! (j mod BSIZE) = contents s ip ! j" using nth_contents[OF j] True by simp
      finally show ?thesis unfolding rhs using jj by (smt (verit) add.assoc add_diff_cancel_left add_le_cancel_left add_less_cancel_left)
    next
      case False
      have "file_addr s ip ?c \<noteq> ?a" using file_okD(7)[OF ok cj b] False by blast
      then have same: "contents s1 ip ! j = contents s ip ! j" using lhs p(2) nth_contents[OF j] by simp
      have nr: "\<not> (b * BSIZE + r \<le> j \<and> j < b * BSIZE + r + length ys)"
      proof
        assume a: "b * BSIZE + r \<le> j \<and> j < b * BSIZE + r + length ys"
        then have "b * BSIZE \<le> j" "j < Suc b * BSIZE" using r by simp_all
        then have "?c = b" by (intro div_nat_eqI) simp_all
        then show False using False by simp
      qed
      show ?thesis unfolding rhs if_not_P[OF nr] by (rule same)
    qed
  qed
qed
text \<open>The blocks that a write of \<open>n\<close> bytes at offset \<open>q\<close> touches, and the room the log must have for them.\<close>

definition touched :: "nat \<Rightarrow> nat \<Rightarrow> nat" where
  "touched q n = (if n = 0 then 0 else (q mod BSIZE + n + BSIZE - 1) div BSIZE)"

definition log_space :: "nat \<Rightarrow> log \<Rightarrow> bool" where
  "log_space k l \<longleftrightarrow> 1 \<le> outstanding l \<and> lsize l = of_nat LOGSIZE \<and> lhn l + int k < int LOGSIZE"

lemma touched_step:
  assumes "0 < n" "m = min n (BSIZE - q mod BSIZE)"
  shows "Suc (touched (q + m) (n - m)) \<le> touched q n"
proof (cases "m = n")
  case True
  then show ?thesis using assms(1) by (simp add: touched_def)
next
  case False
  then have m: "m = BSIZE - q mod BSIZE" "m < n" using assms by auto
  have lt: "q mod BSIZE < BSIZE" by simp
  have "q + m = (q div BSIZE) * BSIZE + (q mod BSIZE + m)" by simp
  also have "q mod BSIZE + m = BSIZE" using m(1) lt by simp
  finally have "(q + m) mod BSIZE = 0" by simp
  moreover have "q mod BSIZE + n + BSIZE - 1 = (n - m + BSIZE - 1) + BSIZE" using m lt by simp
  ultimately show ?thesis using m(2) assms(1) by (simp add: touched_def)
qed

lemma log_space_step:
  assumes "log_space k l" "Suc k' \<le> k" "log_wf l" "home l f"
  shows "log_open l" "log_space k' (log_add f l)"
proof -
  show op: "log_open l" using assms(1,2) by (simp add: log_space_def log_open_def)
  note la = log_add_facts[OF assms(3) op assms(4)]
  have "lhn (log_add f l) + int k' < int LOGSIZE" using la(9) assms(1,2) unfolding log_space_def by linarith
  then show "log_space k' (log_add f l)" using assms(1) la(5,6) by (simp add: log_space_def)
qed

text \<open>Blocks that are not part of the file, and all other files, stay as they are.\<close>

definition only_file :: "nat \<Rightarrow> 'd fs \<Rightarrow> 'd fs \<Rightarrow> bool" where
  "only_file ip s s' \<longleftrightarrow> icache s' = icache s \<and> sbk s' = sbk s \<and> devs s' = devs s \<and> ldev (lg (fy s')) = ldev (lg (fy s)) \<and>
     (\<forall>b. b * BSIZE < unat (isize (node s ip)) \<longrightarrow> file_addr s' ip b = file_addr s ip b) \<and>
     (\<forall>n. (\<forall>b. b * BSIZE < unat (isize (node s ip)) \<longrightarrow> n \<noteq> file_addr s ip b) \<longrightarrow> block_at s' n = block_at s n)"

lemma only_file_trans: "only_file ip a b \<Longrightarrow> only_file ip b c \<Longrightarrow> only_file ip a c"
  unfolding only_file_def by simp

lemma only_file_same: "same_fs pid s s' \<Longrightarrow> only_file ip s s'"
  using same_file[of pid s s' ip] by (auto simp: only_file_def same_fs_def)

lemma writei_loop_overwrites:
  "file_ok pid ip s \<Longrightarrow> unat off + length src \<le> unat (isize (node s ip)) \<Longrightarrow> log_space (touched (unat off) (length src)) (lg (fy s)) \<Longrightarrow>
   \<exists>s1. writei_loop pid ip off src s = Inr (off + of_nat (length src), s1) \<and> file_ok pid ip s1 \<and> only_file ip s s1 \<and>
     contents s1 ip = overwrite (unat off) src (contents s ip)"
proof (induction "length src" arbitrary: off src s rule: less_induct)
  case less
  note ok = less.prems(1)
  show ?case
  proof (cases "src = []")
    case True
    then show ?thesis using ok only_file_same[OF same_fs_refl[OF file_okD(1)[OF ok]]] by (simp add: overwrite_def)
  next
    case False
    let ?n = "length src" and ?q = "unat off" and ?m = "chunk off (length src)"
    have m: "0 < ?m" "?m \<le> ?n" "?q mod BSIZE + ?m \<le> BSIZE" using False chunk_le[of off ?n] by auto
    have qd: "?q = ?q div BSIZE * BSIZE + ?q mod BSIZE" by simp
    then have b: "?q div BSIZE * BSIZE < unat (isize (node s ip))" using less.prems(2) m(1,2) by linarith
    let ?a = "file_addr s ip (?q div BSIZE)"
    obtain s1 where s1: "bmap pid ip (off div of_nat BSIZE) s = Inr (?a, s1)" "same_fs pid s s1"
      using bmap_lookup[OF ok b] unfolding div_block(2)[symmetric] by blast
    have f: "file_ok pid ip s1" "file_addr s1 ip = file_addr s ip" "contents s1 ip = contents s ip" "node s1 ip = node s ip" "block_at s1 = block_at s"
      "lg (fy s1) = lg (fy s)" using same_file_ok[OF s1(2) ok] same_file[OF s1(2)] s1(2) by (auto simp: same_fs_def)
    have h: "home (lg (fy s1)) ?a" using file_okD(5)[OF f(1), of "?q div BSIZE"] b f(2,4) by simp
    have wf: "log_wf (lg (fy s1))" using file_okD(1)[OF f(1)] by (simp add: log_inv_def)
    have ts: "Suc (touched (?q + ?m) (?n - ?m)) \<le> touched ?q ?n" using False by (intro touched_step) (simp_all add: chunk_def)
    note ls = log_space_step[OF less.prems(3) ts, folded f(6), OF wf h]
    let ?ys = "take ?m src"
    have ly: "length ?ys = ?m" using m(2) by simp
    obtain i s2 s3 where w: "fbread pid (idev (node s1 ip)) ?a s1 = Inr (i, s2)" "blk s2 i = block_at s1 ?a"
      "flog_put pid i (overwrite (?q mod BSIZE) ?ys (block_at s1 ?a)) s2 = Inr s3" "put_block pid ?a (overwrite (?q mod BSIZE) ?ys (block_at s1 ?a)) s1 s3"
      using fs_write[OF file_okD(1)[OF f(1)] ls(1) h file_okD(2)[OF f(1)]] by blast
    have l3: "lg (fy s3) = log_add ?a (lg (fy s1))" "icache s3 = icache s1" "sbk s3 = sbk s1" "devs s3 = devs s1"
      "block_at s3 = (block_at s1)(?a := overwrite (?q mod BSIZE) ?ys (block_at s1 ?a))" using w(4) by (auto simp: put_block_def)
    note la = log_add_facts[OF wf ls(1) h, folded l3(1)]
    have hm: "home (lg (fy s3)) n = home (lg (fy s1)) n" for n by (simp add: home_def la(3))
    have fit: "?q div BSIZE * BSIZE + ?q mod BSIZE + length ?ys \<le> unat (isize (node s1 ip))"
      using less.prems(2) m(2) unfolding ly qd[symmetric] f(4) by linarith
    note ps = put_slice[OF f(1) _ _ fit hm la(4), unfolded ly f(2,4), OF b m(3) w(4)[unfolded f(2)]]
    have c3: "contents s3 ip = overwrite ?q ?ys (contents s ip)" using ps(2) f(3) by simp
    have o3: "only_file ip s1 s3" unfolding only_file_def f(2,4) using ps(3) l3 la(4) b by auto
    have st: "unat (off + of_nat ?m) = ?q + ?m"
      using unat_off_step[OF _ m(2)] less.prems(2) file_okD(4)[OF ok] by simp
    have n3: "node s3 ip = node s ip" using l3(2) f(4) by simp
    have "\<exists>s4. writei_loop pid ip (off + of_nat ?m) (drop ?m src) s3 = Inr (off + of_nat ?m + of_nat (length (drop ?m src)), s4) \<and>
      file_ok pid ip s4 \<and> only_file ip s3 s4 \<and> contents s4 ip = overwrite (unat (off + of_nat ?m)) (drop ?m src) (contents s3 ip)"
    proof (rule less.hyps[OF _ ps(1)])
      show "length (drop ?m src) < length src" using m(1,2) by simp
      show "unat (off + of_nat ?m) + length (drop ?m src) \<le> unat (isize (node s3 ip))" using less.prems(2) m(2) unfolding st n3 by simp
      show "log_space (touched (unat (off + of_nat ?m)) (length (drop ?m src))) (lg (fy s3))" using ls(2) unfolding st l3(1) by simp
    qed
    then obtain s4 where s4: "writei_loop pid ip (off + of_nat ?m) (drop ?m src) s3 = Inr (off + of_nat ?m + of_nat (length (drop ?m src)), s4)"
      "file_ok pid ip s4" "only_file ip s3 s4" "contents s4 ip = overwrite (unat (off + of_nat ?m)) (drop ?m src) (contents s3 ip)" by blast
    have "off + of_nat ?m + of_nat (length (drop ?m src)) = off + of_nat ?n"
      using m(2) by (simp add: of_nat_diff)
    moreover have "contents s4 ip = overwrite ?q src (contents s ip)"
      using overwrite_overwrite[of ?q ?ys "drop ?m src" "contents s ip"] s4(4) c3 st ly less.prems(2) m(2) by simp
    moreover have "writei_loop pid ip off src s = writei_loop pid ip (off + of_nat ?m) (drop ?m src) s3"
      using False s1(1) w(1,2,3) ly by (subst writei_loop.simps) (simp add: Let_def overwrite_def)
    moreover have "only_file ip s s4" by (rule only_file_trans[OF only_file_same[OF s1(2)] only_file_trans[OF o3 s4(3)]])
    ultimately show ?thesis using s4(1,2) by auto
  qed
qed
section \<open>Reading and writing\<close>

lemma readi_slice:
  assumes "file_ok pid ip s" "off \<le> isize (node s ip)" "unat off + unat n < 2 ^ 32"
  shows "\<exists>s1. readi pid devsw ip off n s = Inr (Some (take (unat n) (drop (unat off) (contents s ip))), s1) \<and> same_fs pid s s1"
proof -
  let ?sz = "isize (node s ip)"
  let ?n = "if off + n > ?sz then ?sz - off else n"
  have u: "unat (off + n) = unat off + unat n" using assms(3) by (rule unat_add_noof)
  then have no: "\<not> (off > ?sz \<or> off + n < off)" using assms(2) by (auto simp: word_less_nat_alt word_le_nat_alt)
  have n1: "unat ?n = min (unat n) (unat ?sz - unat off)"
    using u assms(2) by (auto simp: word_less_nat_alt word_le_nat_alt unat_sub_if')
  then have "unat off + unat ?n \<le> unat ?sz" using assms(2) by (auto simp: word_le_nat_alt)
  then obtain s1 where s1: "readi_loop pid ip off (unat ?n) s = Inr (take (unat ?n) (drop (unat off) (contents s ip)), s1)" "same_fs pid s s1"
    using readi_loop_slice[OF assms(1)] by blast
  have "take (unat ?n) (drop (unat off) (contents s ip)) = take (unat n) (drop (unat off) (contents s ip))"
    unfolding n1 by (simp add: min_def)
  then show ?thesis using s1 no file_okD(3)[OF assms(1)] by (auto simp: readi_def Let_def)
qed

lemma writei_in_place:
  assumes ok: "file_ok pid ip s" and fit: "unat off + length src \<le> unat (isize (node s ip))"
    and log: "log_space (touched (unat off) (length src)) (lg (fy s))"
  shows "\<exists>s1. writei pid devsw ip src off s = Inr (Some (length src), s1) \<and> file_ok pid ip s1 \<and> only_file ip s s1 \<and>
    contents s1 ip = overwrite (unat off) src (contents s ip)"
proof -
  let ?sz = "isize (node s ip)"
  have sz: "unat ?sz \<le> 71680" using file_okD(4)[OF ok] by simp
  have n: "unat (of_nat (length src) :: u32) = length src" using fit sz by (intro unat_of_nat_u32) simp
  have u: "unat (off + of_nat (length src)) = unat off + length src" using fit sz n by (subst unat_add_noof) simp_all
  obtain s1 where s1: "writei_loop pid ip off src s = Inr (off + of_nat (length src), s1)" "file_ok pid ip s1" "only_file ip s s1"
    "contents s1 ip = overwrite (unat off) src (contents s ip)" using writei_loop_overwrites[OF ok fit log] by blast
  have c1: "\<not> (off > ?sz \<or> off + of_nat (length src) < off)" using fit u by (auto simp: word_less_nat_alt)
  have c2: "\<not> off + of_nat (length src) > of_nat (MAXFILE * BSIZE)" using fit sz u by (simp add: word_less_nat_alt)
  have "node s1 ip = node s ip" using s1(3) by (simp add: only_file_def)
  then have c3: "\<not> (of_nat (length src) > (0 :: u32) \<and> off + of_nat (length src) > isize (node s1 ip))" using fit u by (auto simp: word_less_nat_alt)
  have "writei pid devsw ip src off s = Inr (Some (length src), s1)"
    unfolding writei_def Let_def if_not_P[OF c1] if_not_P[OF c2] s1(1) if_not_P[OF file_okD(3)[OF ok]]
    by (simp only: rbind_simps case_prod_conv if_not_P[OF c3])
  then show ?thesis using s1 by blast
qed

text \<open>C3. A file is a string of bytes. For a write that stays within the file and fits into the running transaction, \<^verbatim>\<open>writei\<close> returns the
  number of bytes and replaces exactly these bytes of the contents; the blocks of other files, the superblock and all inodes
  stay as they are. Every later \<^verbatim>\<open>readi\<close> returns the bytes of the new contents in its range, cut off at the end of the file,
  and fails when it starts behind the end.\<close>

theorem file_write_then_read:
  assumes "file_ok pid ip s" "unat off + length src \<le> unat (isize (node s ip))" "log_space (touched (unat off) (length src)) (lg (fy s))"
  shows "\<exists>s1. writei pid devsw ip src off s = Inr (Some (length src), s1) \<and> file_ok pid ip s1 \<and> only_file ip s s1 \<and>
    (\<forall>o1 n. unat o1 + unat n < 2 ^ 32 \<longrightarrow>
      (o1 \<le> isize (node s ip) \<longrightarrow>
        (\<exists>s2. readi pid devsw ip o1 n s1 = Inr (Some (take (unat n) (drop (unat o1) (overwrite (unat off) src (contents s ip)))), s2) \<and> same_fs pid s1 s2)) \<and>
      (\<not> o1 \<le> isize (node s ip) \<longrightarrow> readi pid devsw ip o1 n s1 = Inr (None, s1)))"
proof -
  obtain s1 where s1: "writei pid devsw ip src off s = Inr (Some (length src), s1)" "file_ok pid ip s1" "only_file ip s s1"
    "contents s1 ip = overwrite (unat off) src (contents s ip)" using writei_in_place[OF assms] by blast
  have sz: "isize (node s1 ip) = isize (node s ip)" using s1(3) by (simp add: only_file_def)
  have "readi pid devsw ip o1 n s1 = Inr (None, s1)" if "\<not> o1 \<le> isize (node s ip)" for o1 n
    using that file_okD(3)[OF s1(2)] sz by (simp add: readi_def Let_def not_le)
  then show ?thesis using s1(1-3) readi_slice[OF s1(2), unfolded sz s1(4)] by blast
qed
text \<open>A file of five bytes in block 100, inside an operation.\<close>

definition demo_fs :: "unit fs" where
  "demo_fs = \<lparr>fy = demo_fsys\<lparr>lg := (lg demo_fsys)\<lparr>outstanding := 1\<rparr>\<rparr>,
     sbk = \<lparr>sb_size = 1000, sb_nblocks = 941, sb_ninodes = 200, sb_nlog = 30, sb_logstart = 2, sb_inodestart = 32, sb_bmapstart = 58\<rparr>,
     icache = [\<lparr>idev = 1, inum = 7, iref = 1, iholder = Some 5, ivalid = True, itype = T_FILE, imajor = 0, iminor = 0, inlink = 1,
       isize = 5, addrs = 100 # replicate 12 0\<rparr>], devs = ()\<rparr>"

lemma demo_file_ok: "file_ok 5 0 demo_fs"
proof -
  have inv: "log_inv 5 (fy demo_fs)" using demo_idle[of 5] by (simp add: log_idle_def log_inv_def demo_fs_def log_wf_def home_def)
  have v: "block_at demo_fs 100 = replicate BSIZE 0"
    by (simp add: block_at_def demo_fs_def demo_fsys_def boot_bio_ok demo_disk_def)
  have b: "b * BSIZE < 5 \<longleftrightarrow> b = 0" for b by (cases b) simp_all
  show ?thesis using inv v unfolding file_ok_def by (simp add: demo_fs_def demo_fsys_def file_addr_def b home_def FSSIZE_def)
qed
theorem file_write_then_read_witness:
  "\<exists>s1. writei 5 [] 0 [65, 66] 1 demo_fs = Inr (Some 2, s1) \<and> file_ok 5 0 s1 \<and> only_file 0 demo_fs s1 \<and>
    (\<forall>o1 n. unat o1 + unat n < 2 ^ 32 \<longrightarrow>
      (o1 \<le> 5 \<longrightarrow>
        (\<exists>s2. readi 5 [] 0 o1 n s1 = Inr (Some (take (unat n) (drop (unat o1) (overwrite 1 [65, 66] (contents demo_fs 0)))), s2) \<and> same_fs 5 s1 s2)) \<and>
      (\<not> o1 \<le> 5 \<longrightarrow> readi 5 [] 0 o1 n s1 = Inr (None, s1)))"
proof -
  have sz: "isize (node demo_fs 0) = 5" by (simp add: demo_fs_def)
  have l: "length [65 :: u8, 66] = 2" and u: "unat (1 :: u32) = 1" by simp_all
  have "log_space (touched 1 2) (lg (fy demo_fs))" by (simp add: demo_fs_def demo_fsys_def log_space_def touched_def)
  then show ?thesis by (rule file_write_then_read[OF demo_file_ok, of 1 "[65, 66]" "[]", unfolded sz l u, rotated]) simp
qed

end
