(* ===== verification/Bitmap.thy ===== *)
theory Bitmap
  imports Filedata
begin

text \<open>
  The block allocator of \<^verbatim>\<open>src/src/fs.c\<close>, \<^verbatim>\<open>balloc\<close> and \<^verbatim>\<open>bfree\<close>, as a set of block numbers: the bits of the bitmap block. The
  image has \<^verbatim>\<open>FSSIZE\<close> = 1000 blocks, so one bitmap block holds all bits.
\<close>

section \<open>Bits\<close>

definition used :: "'d fs \<Rightarrow> nat \<Rightarrow> bool" where
  "used s b \<longleftrightarrow> block_at s (sb_bmapstart (sbk s)) ! (b div 8) AND bit_mask b \<noteq> 0"

lemma bit_mask_bit: "bit (bit_mask b) n \<longleftrightarrow> n = b mod 8"
proof -
  have "b mod 8 < 8" by simp
  then show ?thesis unfolding bit_mask_def bit_push_bit_iff bit_1_iff by auto
qed

lemma and_bit_mask: "(x :: u8) AND bit_mask b \<noteq> 0 \<longleftrightarrow> bit x (b mod 8)"
proof
  assume "x AND bit_mask b \<noteq> 0"
  then obtain n where "bit (x AND bit_mask b) n" using bit_eq_iff[of "x AND bit_mask b" 0] by auto
  then show "bit x (b mod 8)" by (auto simp: bit_and_iff bit_mask_bit)
next
  assume "bit x (b mod 8)"
  then have "bit (x AND bit_mask b) (b mod 8)" by (simp add: bit_and_iff bit_mask_bit)
  then show "x AND bit_mask b \<noteq> 0" by auto
qed

lemma same_bit: "b div 8 = c div 8 \<Longrightarrow> b mod 8 = c mod 8 \<Longrightarrow> b = (c :: nat)"
  by (metis div_mult_mod_eq)

lemma set_bit_used:
  assumes "b div 8 < length x"
  shows "x[b div 8 := x ! (b div 8) OR bit_mask b] ! (c div 8) AND bit_mask c \<noteq> 0 \<longleftrightarrow> c = b \<or> x ! (c div 8) AND bit_mask c \<noteq> 0"
proof (cases "c div 8 = b div 8")
  case True
  have "bit (x ! (b div 8) OR bit_mask b) (c mod 8) \<longleftrightarrow> bit (x ! (b div 8)) (c mod 8) \<or> c mod 8 = b mod 8" by (simp only: bit_or_iff bit_mask_bit)
  moreover have "c mod 8 = b mod 8 \<longleftrightarrow> c = b" using same_bit[OF True] by blast
  ultimately show ?thesis unfolding and_bit_mask True nth_list_update_eq[OF assms] by blast
next
  case False
  then have "c \<noteq> b" by blast
  then show ?thesis using False unfolding nth_list_update_neq[OF False[symmetric]] by blast
qed

lemma clear_set_bit:
  assumes "x ! (b div 8) AND bit_mask b = 0" "b div 8 < length x"
  defines "y \<equiv> x[b div 8 := x ! (b div 8) OR bit_mask b]"
  shows "y[b div 8 := y ! (b div 8) AND NOT (bit_mask b)] = x"
proof -
  have "\<not> bit (x ! (b div 8)) (b mod 8)" using assms(1) and_bit_mask by blast
  then have "(x ! (b div 8) OR bit_mask b) AND NOT (bit_mask b) = x ! (b div 8)"
    by (intro bit_word_eqI) (auto simp: bit_and_iff bit_or_iff bit_not_iff bit_mask_bit)
  then show ?thesis using assms(2) by (simp add: y_def)
qed

section \<open>Allocating and freeing\<close>

text \<open>The bitmap is one block of the file system; a clear bit stands for a block of the data area.\<close>

definition bitmap_ok :: "u32 \<Rightarrow> 'd fs \<Rightarrow> bool" where
  "bitmap_ok pid s \<longleftrightarrow> log_inv pid (fy s) \<and> unat (sb_size (sbk s)) \<le> 1000 \<and> home (lg (fy s)) (sb_bmapstart (sbk s)) \<and>
     length (block_at s (sb_bmapstart (sbk s))) = BSIZE \<and>
     (\<forall>b < unat (sb_size (sbk s)). \<not> used s b \<longrightarrow> home (lg (fy s)) (of_nat b) \<and> of_nat b \<noteq> sb_bmapstart (sbk s))"

lemma BBLOCK_bitmap:
  assumes "unat b < 1000"
  shows "BBLOCK b sb = sb_bmapstart sb"
proof -
  have "b div of_nat BPB = 0" using assms by (simp add: word_arith_nat_div unat_div)
  then show ?thesis by (simp add: BBLOCK_def)
qed

lemma find_upt: "find P [0..<n] = Some b \<longleftrightarrow> b < n \<and> P b \<and> (\<forall>c < b. \<not> P c)"
proof
  assume "find P [0..<n] = Some b"
  then obtain i where i: "i < n" "P ([0..<n] ! i)" "b = [0..<n] ! i" "\<forall>j < i. \<not> P ([0..<n] ! j)" unfolding find_Some_iff by auto
  then show "b < n \<and> P b \<and> (\<forall>c < b. \<not> P c)" by simp
next
  assume "b < n \<and> P b \<and> (\<forall>c < b. \<not> P c)"
  then show "find P [0..<n] = Some b" unfolding find_Some_iff by (intro exI[of _ b]) simp
qed

lemma free_bit_Some:
  "free_bit x n = Some b \<longleftrightarrow> b < n \<and> x ! (b div 8) AND bit_mask b = 0 \<and> (\<forall>c < b. x ! (c div 8) AND bit_mask c \<noteq> 0)"
  unfolding free_bit_def find_upt ..

lemma first_free: "\<exists>b < n. \<not> P b \<Longrightarrow> \<exists>b < (n :: nat). \<not> P b \<and> (\<forall>c < b. P c)"
proof -
  assume "\<exists>b < n. \<not> P b"
  then obtain b where b: "b < n" "\<not> P b" by blast
  define l where "l = (LEAST b. \<not> P b)"
  have "\<not> P l" unfolding l_def by (rule LeastI[of "\<lambda>b. \<not> P b", OF b(2)])
  moreover have "l \<le> b" unfolding l_def by (rule Least_le[of "\<lambda>b. \<not> P b", OF b(2)])
  moreover have "P c" if "c < l" for c using not_less_Least[of c "\<lambda>b. \<not> P b"] that unfolding l_def by blast
  ultimately show ?thesis using b(1) by (intro exI[of _ l]) simp
qed

lemma balloc_spec:
  assumes ok: "bitmap_ok pid s" and free: "\<exists>b < unat (sb_size (sbk s)). \<not> used s b" and room: "log_space (2 + k) (lg (fy s))"
  defines "bm \<equiv> sb_bmapstart (sbk s)"
  shows "\<exists>b s1. balloc pid (ldev (lg (fy s))) s = Inr (of_nat b, s1) \<and> b < unat (sb_size (sbk s)) \<and> \<not> used s b \<and> (\<forall>c < b. used s c) \<and>
    log_inv pid (fy s1) \<and> log_space k (lg (fy s1)) \<and> (\<forall>n. home (lg (fy s1)) n = home (lg (fy s)) n) \<and> ldev (lg (fy s1)) = ldev (lg (fy s)) \<and>
    block_at s1 = (block_at s)(bm := (block_at s bm)[b div 8 := block_at s bm ! (b div 8) OR bit_mask b], of_nat b := replicate BSIZE 0) \<and>
    icache s1 = icache s \<and> sbk s1 = sbk s \<and> devs s1 = devs s"
proof -
  have inv: "log_inv pid (fy s)" "unat (sb_size (sbk s)) \<le> 1000" "home (lg (fy s)) bm" "length (block_at s bm) = BSIZE"
    "\<And>b. b < unat (sb_size (sbk s)) \<Longrightarrow> \<not> used s b \<Longrightarrow> home (lg (fy s)) (of_nat b) \<and> of_nat b \<noteq> bm"
    using ok by (auto simp: bitmap_ok_def bm_def)
  have wf: "log_wf (lg (fy s))" using inv(1) by (simp add: log_inv_def)
  obtain b where b: "b < unat (sb_size (sbk s))" "\<not> used s b" "\<forall>c < b. used s c" using first_free[OF free] by blast
  have fb: "free_bit (block_at s bm) (min BPB (unat (sb_size (sbk s)) - 0)) = Some b"
    using b inv(2) by (auto simp: free_bit_Some used_def bm_def)
  let ?g = "\<lambda>x. x[b div 8 := x ! (b div 8) OR bit_mask b]"
  note st = log_space_step[OF room, of "1 + k", OF _ wf inv(3)]
  obtain i s1 s2 where w: "fbread pid (ldev (lg (fy s))) bm s = Inr (i, s1)" "blk s1 i = block_at s bm"
    "flog_put pid i (?g (block_at s bm)) s1 = Inr s2" "put_block pid bm (?g (block_at s bm)) s s2"
    using fs_write[OF inv(1) st(1) inv(3) refl, of ?g] by auto
  have p2: "log_inv pid (fy s2)" "lg (fy s2) = log_add bm (lg (fy s))" "block_at s2 = (block_at s)(bm := ?g (block_at s bm))"
    "icache s2 = icache s" "sbk s2 = sbk s" "devs s2 = devs s" using w(4) by (auto simp: put_block_def)
  have sp2: "log_space (1 + k) (lg (fy s2))" using st(2) p2(2) by simp
  note la = log_add_facts[OF wf st(1) inv(3), folded p2(2)]
  have hm2: "home (lg (fy s2)) n = home (lg (fy s)) n" for n by (simp add: home_def la(3))
  have nb: "home (lg (fy s2)) (of_nat b)" "(of_nat b :: u32) \<noteq> bm" using inv(5)[OF b(1,2)] hm2 by simp_all
  note st2 = log_space_step[OF sp2, of k, OF _ la(1) nb(1)]
  obtain j s3 s4 where z: "fbread pid (ldev (lg (fy s))) (of_nat b) s2 = Inr (j, s3)"
    "flog_put pid j (replicate BSIZE 0) s3 = Inr s4" "put_block pid (of_nat b) (replicate BSIZE 0) s2 s4"
    using fs_write[OF p2(1) st2(1) nb(1), of "ldev (lg (fy s))" "\<lambda>_. replicate BSIZE 0"] la(4) by auto
  have p4: "log_inv pid (fy s4)" "lg (fy s4) = log_add (of_nat b) (lg (fy s2))" "block_at s4 = (block_at s2)(of_nat b := replicate BSIZE 0)"
    "icache s4 = icache s2" "sbk s4 = sbk s2" "devs s4 = devs s2" using z(3) by (auto simp: put_block_def)
  note lb = log_add_facts[OF la(1) st2(1) nb(1), folded p4(2)]
  have "BBLOCK (of_nat 0) (sbk s) = bm" by (simp add: BBLOCK_def bm_def)
  then have "balloc pid (ldev (lg (fy s))) s = Inr (of_nat b, s4)"
    unfolding balloc_def using w(1-3) z(1,2) fb b(1) by (subst balloc_from.simps) (simp add: bzero_def)
  moreover have "log_space k (lg (fy s4))" using st2(2) p4(2) by simp
  moreover have "home (lg (fy s4)) n = home (lg (fy s)) n" for n using hm2 by (simp add: home_def lb(3))
  ultimately show ?thesis using b p2 p4 la(4) lb(4) by (intro exI[of _ b] exI[of _ s4]) simp
qed

lemma balloc_full:
  assumes ok: "bitmap_ok pid s" and full: "\<forall>b < unat (sb_size (sbk s)). used s b"
  shows "balloc pid (ldev (lg (fy s))) s = Inl (Panic ''balloc: out of blocks'')"
proof (cases "sb_size (sbk s) = 0")
  case True
  then show ?thesis unfolding balloc_def by (subst balloc_from.simps) simp
next
  case False
  let ?bm = "sb_bmapstart (sbk s)"
  have inv: "log_inv pid (fy s)" "unat (sb_size (sbk s)) \<le> 1000" "?bm < FSSIZE" using ok by (auto simp: bitmap_ok_def home_def)
  have pos: "0 < unat (sb_size (sbk s))" using False unat_gt_0 by blast
  obtain i s1 s2 where r: "fbread pid (ldev (lg (fy s))) ?bm s = Inr (i, s1)" "blk s1 i = block_at s ?bm" "fbrelse pid i s1 = Inr s2"
    using fs_read[OF inv(1) refl inv(3)] by blast
  have "\<not> free_bit (block_at s ?bm) (min BPB (unat (sb_size (sbk s)) - 0)) = Some b" for b
    using full unfolding free_bit_Some used_def by auto
  then have fb: "free_bit (block_at s ?bm) (min BPB (unat (sb_size (sbk s)) - 0)) = None" by blast
  have last: "balloc_from pid (ldev (lg (fy s))) (sbk s) (0 + BPB) s2 = Inl (Panic ''balloc: out of blocks'')"
    using inv(2) by (subst balloc_from.simps) simp
  have "BBLOCK (of_nat 0) (sbk s) = ?bm" by (simp add: BBLOCK_def)
  then show ?thesis unfolding balloc_def using r fb pos last by (subst balloc_from.simps) simp
qed

lemma bfree_spec:
  assumes ok: "bitmap_ok pid s" and b: "b < unat (sb_size (sbk s))" and room: "log_space (Suc k) (lg (fy s))"
  defines "bm \<equiv> sb_bmapstart (sbk s)"
  shows "\<not> used s b \<Longrightarrow> bfree pid (ldev (lg (fy s))) (of_nat b) s = Inl (Panic ''freeing free block'')"
    "used s b \<Longrightarrow> \<exists>s1. bfree pid (ldev (lg (fy s))) (of_nat b) s = Inr s1 \<and>
      put_block pid bm ((block_at s bm)[b div 8 := block_at s bm ! (b div 8) AND NOT (bit_mask b)]) s s1"
proof -
  let ?g = "\<lambda>x. x[b div 8 := x ! (b div 8) AND NOT (bit_mask b)]"
  have inv: "log_inv pid (fy s)" "b < 1000" "home (lg (fy s)) bm" using ok b by (auto simp: bitmap_ok_def bm_def)
  have wf: "log_wf (lg (fy s))" using inv(1) by (simp add: log_inv_def)
  have u: "unat (of_nat b :: u32) = b" using inv(2) by (simp add: unat_of_nat_u32)
  have bb: "BBLOCK (of_nat b) (sbk s) = bm" "b mod BPB = b" using inv(2) u BBLOCK_bitmap[of "of_nat b"] by (simp_all add: bm_def)
  obtain i s1 s2 where w: "fbread pid (ldev (lg (fy s))) bm s = Inr (i, s1)" "blk s1 i = block_at s bm"
    "flog_put pid i (?g (block_at s bm)) s1 = Inr s2" "put_block pid bm (?g (block_at s bm)) s s2"
    using fs_write[OF inv(1) log_space_step(1)[OF room order_refl wf inv(3)] inv(3) refl, of ?g] by auto
  have e: "bfree pid (ldev (lg (fy s))) (of_nat b) s =
      (if \<not> used s b then Inl (Panic ''freeing free block'') else Inr s2)"
    unfolding bfree_def bb(1) w(1) used_def bm_def[symmetric] by (simp only: rbind_simps prod.case Let_def u bb(2) w(2,3) not_not)
  show "\<not> used s b \<Longrightarrow> bfree pid (ldev (lg (fy s))) (of_nat b) s = Inl (Panic ''freeing free block'')" by (simp add: e)
  show "used s b \<Longrightarrow> \<exists>s1. bfree pid (ldev (lg (fy s))) (of_nat b) s = Inr s1 \<and> put_block pid bm (?g (block_at s bm)) s s1"
    using w(4) unfolding e by auto
qed

lemma bfree_after_balloc:
  assumes ok: "bitmap_ok pid s" and b: "b < unat (sb_size (sbk s))" "\<not> used s b"
    and i1: "log_inv pid (fy s1)" "log_space 2 (lg (fy s1))" "\<And>n. home (lg (fy s1)) n = home (lg (fy s)) n" "ldev (lg (fy s1)) = ldev (lg (fy s))"
      "block_at s1 = (block_at s)(bm := (block_at s bm)[b div 8 := block_at s bm ! (b div 8) OR bit_mask b], of_nat b := replicate BSIZE 0)"
      "sbk s1 = sbk s"
    and bm: "bm = sb_bmapstart (sbk s)"
  shows "(\<forall>c. used s1 c \<longleftrightarrow> c = b \<or> used s c) \<and> (\<exists>s2. bfree pid (ldev (lg (fy s))) (of_nat b) s1 = Inr s2 \<and>
    block_at s2 = (block_at s)(of_nat b := replicate BSIZE 0) \<and> bfree pid (ldev (lg (fy s))) (of_nat b) s2 = Inl (Panic ''freeing free block''))"
proof -
  have o: "unat (sb_size (sbk s)) \<le> 1000" "home (lg (fy s)) bm" "length (block_at s bm) = BSIZE"
    "\<And>b. b < unat (sb_size (sbk s)) \<Longrightarrow> \<not> used s b \<Longrightarrow> home (lg (fy s)) (of_nat b) \<and> of_nat b \<noteq> bm"
    using ok unfolding bm by (auto simp: bitmap_ok_def)
  have nb: "(of_nat b :: u32) \<noteq> bm" using o(4)[OF b] by simp
  have lb: "b div 8 < length (block_at s bm)" using b(1) o(1,3) by simp
  have bm1: "block_at s1 bm = (block_at s bm)[b div 8 := block_at s bm ! (b div 8) OR bit_mask b]" using i1(5) nb by simp
  have u1: "used s1 c \<longleftrightarrow> c = b \<or> used s c" for c unfolding used_def i1(6) bm[symmetric] bm1 by (rule set_bit_used[OF lb])
  have ok1: "bitmap_ok pid s1" using i1 o u1 bm1 by (simp add: bitmap_ok_def bm[symmetric])
  have pre1: "b < unat (sb_size (sbk s1))" "log_space (Suc 1) (lg (fy s1))" "used s1 b" using b(1) i1(2,6) u1[of b] by (simp_all add: numeral_2_eq_2)
  obtain s2 where s2: "bfree pid (ldev (lg (fy s))) (of_nat b) s1 = Inr s2"
    "put_block pid bm ((block_at s1 bm)[b div 8 := block_at s1 bm ! (b div 8) AND NOT (bit_mask b)]) s1 s2"
    using bfree_spec(2)[OF ok1 pre1, unfolded i1(4,6) bm[symmetric]] by blast
  have "block_at s bm ! (b div 8) AND bit_mask b = 0" using b(2) by (simp add: used_def bm)
  note cl = clear_set_bit[OF this lb, folded bm1]
  have p2: "log_inv pid (fy s2)" "lg (fy s2) = log_add bm (lg (fy s1))" "block_at s2 = (block_at s1)(bm := block_at s bm)" "sbk s2 = sbk s"
    using s2(2) i1(6) unfolding put_block_def cl by auto
  have e2: "block_at s2 = (block_at s)(of_nat b := replicate BSIZE 0)" unfolding p2(3) i1(5) using nb by auto
  have u2: "used s2 c = used s c" for c unfolding used_def p2(4) e2 bm[symmetric] using nb by simp
  have wf1: "log_wf (lg (fy s1))" using i1(1) by (simp add: log_inv_def)
  have h1: "home (lg (fy s1)) bm" using o(2) i1(3) by simp
  note st = log_space_step[OF i1(2), of 1, OF _ wf1 h1]
  note la = log_add_facts[OF wf1 st(1) h1, folded p2(2)]
  have "home (lg (fy s2)) n = home (lg (fy s)) n" for n using i1(3) by (simp add: home_def la(3))
  then have ok2: "bitmap_ok pid s2" using p2 o u2 e2 nb by (simp add: bitmap_ok_def bm[symmetric])
  have pre2: "b < unat (sb_size (sbk s2))" "log_space (Suc 0) (lg (fy s2))" "\<not> used s2 b" using b p2(2,4) st(2) u2 by simp_all
  have "bfree pid (ldev (lg (fy s))) (of_nat b) s2 = Inl (Panic ''freeing free block'')"
    using bfree_spec(1)[OF ok2 pre2] la(4) i1(4) by simp
  then show ?thesis using u1 s2(1) e2 by blast
qed

text \<open>C13. The block allocator. With a clear bit in the bitmap, \<^verbatim>\<open>balloc\<close> returns the block of the first one, marks exactly this bit, fills the
  block with zeros and leaves all other blocks alone; \<^verbatim>\<open>bfree\<close> of the block gives the old bitmap back, and freeing it a second
  time panics. With no clear bit \<^verbatim>\<open>balloc\<close> panics.\<close>

theorem balloc_bfree_roundtrip:
  assumes ok: "bitmap_ok pid s" and room: "log_space 4 (lg (fy s))"
  shows "((\<forall>b < unat (sb_size (sbk s)). used s b) \<longrightarrow> balloc pid (ldev (lg (fy s))) s = Inl (Panic ''balloc: out of blocks'')) \<and>
    ((\<exists>b < unat (sb_size (sbk s)). \<not> used s b) \<longrightarrow>
      (\<exists>b s1 s2. balloc pid (ldev (lg (fy s))) s = Inr (of_nat b, s1) \<and> b < unat (sb_size (sbk s)) \<and> \<not> used s b \<and> (\<forall>c < b. used s c) \<and>
        (\<forall>c. used s1 c \<longleftrightarrow> c = b \<or> used s c) \<and> block_at s1 (of_nat b) = replicate BSIZE 0 \<and>
        (\<forall>n. n \<noteq> of_nat b \<longrightarrow> n \<noteq> sb_bmapstart (sbk s) \<longrightarrow> block_at s1 n = block_at s n) \<and>
        bfree pid (ldev (lg (fy s))) (of_nat b) s1 = Inr s2 \<and> block_at s2 = (block_at s)(of_nat b := replicate BSIZE 0) \<and>
        bfree pid (ldev (lg (fy s))) (of_nat b) s2 = Inl (Panic ''freeing free block'')))"
proof (intro conjI impI)
  assume "\<forall>b < unat (sb_size (sbk s)). used s b"
  then show "balloc pid (ldev (lg (fy s))) s = Inl (Panic ''balloc: out of blocks'')" by (rule balloc_full[OF ok])
next
  assume free: "\<exists>b < unat (sb_size (sbk s)). \<not> used s b"
  let ?bm = "sb_bmapstart (sbk s)"
  have r4: "log_space (2 + 2) (lg (fy s))" using room by simp
  obtain b s1 where b: "balloc pid (ldev (lg (fy s))) s = Inr (of_nat b, s1)" "b < unat (sb_size (sbk s))" "\<not> used s b" "\<forall>c < b. used s c"
    and i1: "log_inv pid (fy s1)" "log_space 2 (lg (fy s1))" "\<And>n. home (lg (fy s1)) n = home (lg (fy s)) n" "ldev (lg (fy s1)) = ldev (lg (fy s))"
      "block_at s1 = (block_at s)(?bm := (block_at s ?bm)[b div 8 := block_at s ?bm ! (b div 8) OR bit_mask b], of_nat b := replicate BSIZE 0)"
      "sbk s1 = sbk s"
    using balloc_spec[OF ok free r4] by blast
  have rest: "block_at s1 (of_nat b) = replicate BSIZE 0" "\<forall>n. n \<noteq> of_nat b \<longrightarrow> n \<noteq> ?bm \<longrightarrow> block_at s1 n = block_at s n"
    unfolding i1(5) by simp_all
  show "\<exists>b s1 s2. balloc pid (ldev (lg (fy s))) s = Inr (of_nat b, s1) \<and> b < unat (sb_size (sbk s)) \<and> \<not> used s b \<and> (\<forall>c < b. used s c) \<and>
        (\<forall>c. used s1 c \<longleftrightarrow> c = b \<or> used s c) \<and> block_at s1 (of_nat b) = replicate BSIZE 0 \<and>
        (\<forall>n. n \<noteq> of_nat b \<longrightarrow> n \<noteq> ?bm \<longrightarrow> block_at s1 n = block_at s n) \<and>
        bfree pid (ldev (lg (fy s))) (of_nat b) s1 = Inr s2 \<and> block_at s2 = (block_at s)(of_nat b := replicate BSIZE 0) \<and>
        bfree pid (ldev (lg (fy s))) (of_nat b) s2 = Inl (Panic ''freeing free block'')"
    using b rest bfree_after_balloc[OF ok b(2,3) i1 refl] by blast
qed

text \<open>A disk whose first 64 blocks are in use.\<close>

definition demo_map :: "unit fs" where
  "demo_map = demo_fs\<lparr>fy := (fy demo_fs)\<lparr>bc := boot_bio (demo_disk(1 := (demo_disk 1)(58 := replicate 8 255 @ replicate 504 0)))\<rparr>\<rparr>"

lemma demo_map_used: "b < 1000 \<Longrightarrow> used demo_map b \<longleftrightarrow> b < 64"
proof -
  assume b: "b < 1000"
  have x: "block_at demo_map (sb_bmapstart (sbk demo_map)) = replicate 8 255 @ replicate 504 0"
    by (simp add: demo_map_def demo_fs_def demo_fsys_def block_at_def boot_bio_ok)
  have "b mod 8 < 8" by simp
  then have "bit (255 :: u8) (b mod 8)" using bit_mask_iff[where 'a = u8, of 8 "b mod 8"] by (simp add: mask_eq_exp_minus_1)
  then have "(255 :: u8) AND bit_mask b \<noteq> 0" using and_bit_mask by blast
  moreover have "b < 64 \<longleftrightarrow> b div 8 < 8" "b div 8 - 8 < 504" using b by auto
  ultimately show ?thesis unfolding used_def x by (auto simp: nth_append)
qed

lemma demo_map_ok: "bitmap_ok 5 demo_map"
proof -
  have l: "length (block_at demo_map 58) = BSIZE" by (simp add: demo_map_def demo_fs_def demo_fsys_def block_at_def boot_bio_ok)
  have i: "log_inv 5 (fy demo_map)" using demo_idle[of 5]
    by (simp add: log_idle_def log_inv_def demo_map_def demo_fs_def demo_fsys_def log_wf_def home_def boot_bio_ok)
  have h: "home (lg (fy demo_map)) (of_nat b) \<and> (of_nat b :: u32) \<noteq> 58" if "b < 1000" "\<not> b < 64" for b
  proof -
    have u: "unat (of_nat b :: u32) = b" using that by (simp add: unat_of_nat_u32)
    then have "(of_nat b :: u32) \<noteq> 58" using that by auto
    then show ?thesis using that u by (simp add: home_def demo_map_def demo_fs_def demo_fsys_def FSSIZE_def word_less_nat_alt)
  qed
  have sb: "sb_size (sbk demo_map) = 1000" "sb_bmapstart (sbk demo_map) = 58" by (simp_all add: demo_map_def demo_fs_def)
  have "home (lg (fy demo_map)) 58" by (simp add: home_def demo_map_def demo_fs_def demo_fsys_def FSSIZE_def)
  then show ?thesis using l i h demo_map_used unfolding bitmap_ok_def sb by simp
qed

theorem balloc_bfree_roundtrip_witness:
  "\<exists>b s1 s2. balloc 5 1 demo_map = Inr (of_nat b, s1) \<and> b < 1000 \<and> \<not> used demo_map b \<and> (\<forall>c < b. used demo_map c) \<and>
    (\<forall>c. used s1 c \<longleftrightarrow> c = b \<or> used demo_map c) \<and> block_at s1 (of_nat b) = replicate BSIZE 0 \<and>
    (\<forall>n. n \<noteq> of_nat b \<longrightarrow> n \<noteq> 58 \<longrightarrow> block_at s1 n = block_at demo_map n) \<and>
    bfree 5 1 (of_nat b) s1 = Inr s2 \<and> block_at s2 = (block_at demo_map)(of_nat b := replicate BSIZE 0) \<and>
    bfree 5 1 (of_nat b) s2 = Inl (Panic ''freeing free block'')"
proof -
  have sb: "sb_size (sbk demo_map) = 1000" "sb_bmapstart (sbk demo_map) = 58" "ldev (lg (fy demo_map)) = 1" "unat (1000 :: u32) = 1000"
    by (simp_all add: demo_map_def demo_fs_def demo_fsys_def)
  have sp: "log_space 4 (lg (fy demo_map))" by (simp add: demo_map_def demo_fs_def demo_fsys_def log_space_def)
  have "\<exists>b < 1000. \<not> used demo_map b" using demo_map_used[of 64] by (intro exI[of _ 64]) simp
  then show ?thesis using balloc_bfree_roundtrip[OF demo_map_ok sp, unfolded sb, THEN conjunct2] by blast
qed

end
