(* ===== verification/Xcheck.thy ===== *)
theory Xcheck
  imports Stdio Bytes
begin

text \<open>
  The file system checker \<^verbatim>\<open>src/P5/xcheck.c\<close>. The image is the list of bytes that \<^verbatim>\<open>mmap\<close> gives; the program ends with
  an error message on the standard error stream (\<open>Error\<close>) or by an access outside the image or a table (\<open>Crash\<close>, which C leaves
  undefined); the line it prints about the superblock is left out. The contents of memory from \<^verbatim>\<open>malloc\<close> are a parameter \<open>fresh\<close>. The counters are integers: an image of at most
  65535 inodes changes each of them less than \<open>2 ^ 31\<close> times.
\<close>

datatype xstop = Error string | Crash

type_synonym 'a xres = "xstop + 'a"

definition T_UNLOCATED :: u16 where "T_UNLOCATED = 0"
definition XT_DIR :: u16 where "XT_DIR = 1"
definition XT_FILE :: u16 where "XT_FILE = 2"
definition XT_DEV :: u16 where "XT_DEV = 3"

record xsuper =
  xs_size :: u32
  xs_nblocks :: u32
  xs_ninodes :: u32
  xs_nlog :: u32
  xs_logstart :: u32
  xs_inodestart :: u32
  xs_bmapstart :: u32

record xdinode =
  xtype :: u16
  xmajor :: u16
  xminor :: u16
  xnlink :: u16
  xisize :: u32
  xaddrs :: "u32 list"

section \<open>Reading the image\<close>

definition byte_at :: "u8 list \<Rightarrow> nat \<Rightarrow> u8 xres" where
  "byte_at img p = (if p < length img then Inr (img ! p) else Inl Crash)"

definition get_int_from_mem :: "u8 list \<Rightarrow> nat \<Rightarrow> u32 xres" where
  "get_int_from_mem img p =
     rbind (byte_at img p) (\<lambda>a. rbind (byte_at img (p + 1)) (\<lambda>b.
     rbind (byte_at img (p + 2)) (\<lambda>c. rbind (byte_at img (p + 3)) (\<lambda>d.
       Inr (ucast a OR push_bit 8 (ucast b) OR push_bit 8 (ucast c) OR push_bit 8 (ucast d))))))"

definition get_short_from_mem :: "u8 list \<Rightarrow> nat \<Rightarrow> u16 xres" where
  "get_short_from_mem img p =
     rbind (byte_at img p) (\<lambda>a. rbind (byte_at img (p + 1)) (\<lambda>b. Inr (ucast a OR push_bit 8 (ucast b))))"

text \<open>The global \<^verbatim>\<open>sb\<close> is zero before, and its log fields are never set.\<close>

definition construct_super_block :: "u8 list \<Rightarrow> nat \<Rightarrow> xsuper xres" where
  "construct_super_block img p =
     rbind (get_int_from_mem img p) (\<lambda>a. rbind (get_int_from_mem img (p + 4)) (\<lambda>b.
     rbind (get_int_from_mem img (p + 8)) (\<lambda>c. rbind (get_int_from_mem img (p + 20)) (\<lambda>d.
     rbind (get_int_from_mem img (p + 24)) (\<lambda>e.
       Inr \<lparr>xs_size = a, xs_nblocks = b, xs_ninodes = c, xs_nlog = 0, xs_logstart = 0, xs_inodestart = d, xs_bmapstart = e\<rparr>)))))"

text \<open>A loop whose body may stop the program, over the values of its counter.\<close>

fun rmap :: "('a \<Rightarrow> 'e + 'b) \<Rightarrow> 'a list \<Rightarrow> 'e + 'b list" where
  "rmap f [] = Inr []"
| "rmap f (x # xs) = rbind (f x) (\<lambda>y. rbind (rmap f xs) (\<lambda>ys. Inr (y # ys)))"

fun rfold :: "('a \<Rightarrow> 's \<Rightarrow> 'e + 's) \<Rightarrow> 'a list \<Rightarrow> 's \<Rightarrow> 'e + 's" where
  "rfold f [] s = Inr s"
| "rfold f (x # xs) s = rbind (f x s) (rfold f xs)"

text \<open>The body of the loop of \<^verbatim>\<open>construct_inodes\<close>, with \<^verbatim>\<open>inode_start\<close> at \<open>p\<close>.\<close>

definition read_inode :: "u8 list \<Rightarrow> nat \<Rightarrow> xdinode xres" where
  "read_inode img p =
     rbind (get_short_from_mem img p) (\<lambda>t. rbind (get_short_from_mem img (p + 2)) (\<lambda>mj.
     rbind (get_short_from_mem img (p + 4)) (\<lambda>mn. rbind (get_short_from_mem img (p + 6)) (\<lambda>nl.
     rbind (get_int_from_mem img (p + 8)) (\<lambda>sz. rbind (rmap (\<lambda>j. get_int_from_mem img (p + 12 + j * 4)) [0..<13]) (\<lambda>as.
       Inr \<lparr>xtype = t, xmajor = mj, xminor = mn, xnlink = nl, xisize = sz, xaddrs = as\<rparr>))))))"

definition construct_inodes :: "(nat \<Rightarrow> int) \<Rightarrow> u8 list \<Rightarrow> xsuper \<Rightarrow> (xdinode list \<times> int list) xres" where
  "construct_inodes fresh img sb =
     rbind (rmap (\<lambda>i. read_inode img (unat (xs_inodestart sb * 512) + 64 * i)) [0..<unat (xs_ninodes sb)]) (\<lambda>inodes.
       Inr (inodes, map (\<lambda>i. if xtype (inodes ! i) \<noteq> T_UNLOCATED then 1 else fresh i) [0..<length inodes]))"

section \<open>The inodes\<close>

definition check_inode_type :: "xdinode \<Rightarrow> unit xres" where
  "check_inode_type ip =
     (if xtype ip \<noteq> XT_DEV \<and> xtype ip \<noteq> XT_FILE \<and> xtype ip \<noteq> XT_DIR \<and> xtype ip \<noteq> T_UNLOCATED then Inl (Error ''bad inode.'') else Inr ())"

definition check_inode_data_blocks :: "xsuper \<Rightarrow> xdinode \<Rightarrow> unit xres" where
  "check_inode_data_blocks sb ip =
     (if list_ex (\<lambda>i. xaddrs ip ! i > xs_size sb) [0..<12] then Inl (Error ''bad direct address in inode'')
      else if xaddrs ip ! 12 > xs_size sb then Inl (Error ''bad indirect address in inode'') else Inr ())"

text \<open>\<^verbatim>\<open>inuse_inode[i] += k\<close> and \<^verbatim>\<open>inuse_block[i] += k\<close>.\<close>

definition bump :: "int \<Rightarrow> int \<Rightarrow> int list \<Rightarrow> int list xres" where
  "bump i k u = (if 0 \<le> i \<and> nat i < length u then Inr (u[nat i := u ! nat i + k]) else Inl Crash)"

text \<open>\<^verbatim>\<open>strncpy(name, dir_ptr + 2, 14)\<close>. Directory entries are aligned, so that the 14 bytes are in the image or outside it.\<close>

definition entry_name :: "u8 list \<Rightarrow> nat \<Rightarrow> u8 list xres" where
  "entry_name img p = (if p + 15 < length img then Inr (c_string (take 14 (drop (p + 2) img))) else Inl Crash)"

text \<open>The inner loop of \<^verbatim>\<open>check_dir\<close> over the directory entries at \<open>p\<close>, \<open>p + 16\<close>, ...; \<open>True\<close> says that the function returned.\<close>

fun check_entries :: "u8 list \<Rightarrow> int \<Rightarrow> nat \<Rightarrow> nat \<Rightarrow> int list \<Rightarrow> (bool \<times> int list) xres" where
  "check_entries img node p 0 u = Inr (False, u)"
| "check_entries img node p (Suc n) u =
     rbind (get_short_from_mem img p) (\<lambda>w. rbind (entry_name img p) (\<lambda>name.
       let inum = sint w in
       if inum = 0 then Inr (True, u)
       else rbind (bump inum 1 u) (\<lambda>u1.
         rbind (if name = [46] then if node \<noteq> inum then Inl (Error ''directory not properly formatted.'') else bump inum (- 1) u1
                else if name = [46, 46] then if node = 1 \<and> node \<noteq> inum then Inl (Error ''root directory does not exist.'') else bump inum (- 1) u1
                else Inr u1) (\<lambda>u2.
           check_entries img node (p + 16) n u2))))"

fun check_dir_blocks :: "u8 list \<Rightarrow> int \<Rightarrow> u32 list \<Rightarrow> int list \<Rightarrow> int list xres" where
  "check_dir_blocks img node [] u = Inr u"
| "check_dir_blocks img node (a # as) u =
     (if a = 0 then Inr u
      else rbind (check_entries img node (unat (a * 512)) 32 u) (\<lambda>(r, u1). if r then Inr u1 else check_dir_blocks img node as u1))"

definition check_dir :: "u8 list \<Rightarrow> xdinode \<Rightarrow> nat \<Rightarrow> int list \<Rightarrow> int list xres" where
  "check_dir img ip n u =
     rbind (if n \<noteq> 1 then bump (int n) (- 1) u else Inr u) (check_dir_blocks img (int n) (take 12 (xaddrs ip)))"

text \<open>The bodies of the two loops of \<^verbatim>\<open>check_inodes\<close>.\<close>

definition check_inode :: "u8 list \<Rightarrow> xsuper \<Rightarrow> xdinode list \<Rightarrow> nat \<Rightarrow> int list \<Rightarrow> int list xres" where
  "check_inode img sb inodes i u =
     rbind (check_inode_type (inodes ! i)) (\<lambda>_. rbind (check_inode_data_blocks sb (inodes ! i)) (\<lambda>_.
       if xtype (inodes ! i) = T_UNLOCATED then Inr u
       else if xtype (inodes ! i) = XT_DIR then check_dir img (inodes ! i) i u
       else bump (int i) (- 1) u))"

definition check_refs :: "xdinode list \<Rightarrow> int list \<Rightarrow> nat \<Rightarrow> unit xres" where
  "check_refs inodes u i =
     (if xtype (inodes ! i) = T_UNLOCATED
      then if u ! i > 0 then Inl (Error ''inode referred to in directory but marked free.'') else Inr ()
      else if xtype (inodes ! i) = XT_DIR
      then if u ! i \<noteq> 1 then Inl (Error ''directory appears more than once in file system.'') else Inr ()
      else if xtype (inodes ! i) = XT_FILE
      then if u ! i \<noteq> 1 then Inl (Error ''bad reference count for file.'') else Inr ()
      else if u ! i \<noteq> 1 then Inl (Error ''inode marked use but not found in a directory.'') else Inr ())"

definition check_inodes :: "u8 list \<Rightarrow> xsuper \<Rightarrow> xdinode list \<Rightarrow> int list \<Rightarrow> unit xres" where
  "check_inodes img sb inodes u =
     rbind (rfold (check_inode img sb inodes) [0..<length inodes] u) (\<lambda>u1.
     rbind (rmap (check_refs inodes u1) [0..<length inodes]) (\<lambda>_. Inr ()))"

section \<open>The bitmap\<close>

definition mark_eserved_blocks :: "xsuper \<Rightarrow> int list \<Rightarrow> int list xres" where
  "mark_eserved_blocks sb u = rfold (\<lambda>i u. if i < length u then Inr (u[i := 1]) else Inl Crash) [0..<Suc (unat (xs_bmapstart sb))] u"

definition mark_block :: "string \<Rightarrow> u32 \<Rightarrow> int list \<Rightarrow> int list xres" where
  "mark_block msg x u = rbind (bump (sint x) 1 u) (\<lambda>u1. if u1 ! unat x > 1 then Inl (Error msg) else Inr u1)"

definition mark_indirect_add :: "u8 list \<Rightarrow> u32 \<Rightarrow> int list \<Rightarrow> int list xres" where
  "mark_indirect_add img x u =
     rfold (\<lambda>k u. rbind (get_int_from_mem img (unat (512 * x) + k * 4)) (\<lambda>y.
       if y \<noteq> 0 then mark_block ''indirect address used more than once.'' y u else Inr u)) [0..<128] u"

text \<open>The body of the inner loop of \<^verbatim>\<open>mark_add\<close>.\<close>

definition mark_addr :: "u8 list \<Rightarrow> xdinode \<Rightarrow> nat \<Rightarrow> int list \<Rightarrow> int list xres" where
  "mark_addr img ip j u =
     (let x = xaddrs ip ! j in
      if x \<noteq> 0
      then rbind (mark_block ''direct address used more than once.'' x u) (\<lambda>u1. if j = 12 then mark_indirect_add img x u1 else Inr u1)
      else Inr u)"

definition mark_add :: "u8 list \<Rightarrow> xdinode list \<Rightarrow> int list \<Rightarrow> int list xres" where
  "mark_add img inodes u = rfold (\<lambda>i. rfold (mark_addr img (inodes ! i)) [0..<13]) [0..<length inodes] u"

definition mark_used_blocks :: "(nat \<Rightarrow> int) \<Rightarrow> u8 list \<Rightarrow> xsuper \<Rightarrow> xdinode list \<Rightarrow> int list xres" where
  "mark_used_blocks fresh img sb inodes =
     rbind (mark_eserved_blocks sb (map fresh [0..<unat (xs_size sb)])) (mark_add img inodes)"

text \<open>The test of bit \<open>i + j\<close>, with \<^verbatim>\<open>val\<close> the byte of the bitmap that holds it.\<close>

definition check_bit :: "u8 \<Rightarrow> nat \<Rightarrow> int list \<Rightarrow> nat \<Rightarrow> unit xres" where
  "check_bit val i u j =
     (let mask = sint val AND push_bit j 1 in
      if \<not> i + j < length u then Inl Crash
      else if mask = 0 \<and> u ! (i + j) = 1 then Inl (Error ''address used by inode but marked free in bitmap.'')
      else if mask > 0 \<and> u ! (i + j) = 0 then Inl (Error ''bitmap marks block in use but it is not in use.'')
      else Inr ())"

definition check_bitmap :: "(nat \<Rightarrow> int) \<Rightarrow> u8 list \<Rightarrow> xsuper \<Rightarrow> xdinode list \<Rightarrow> unit xres" where
  "check_bitmap fresh img sb inodes =
     rbind (mark_used_blocks fresh img sb inodes) (\<lambda>u.
     rbind (rmap (\<lambda>k. rbind (byte_at img (unat (xs_bmapstart sb * 512) + k)) (\<lambda>val.
       rmap (check_bit val (8 * k) u) [0..<8])) [0..<125]) (\<lambda>_. Inr ()))"

definition check :: "(nat \<Rightarrow> int) \<Rightarrow> (nat \<Rightarrow> int) \<Rightarrow> u8 list \<Rightarrow> unit xres" where
  "check fresh1 fresh2 img =
     rbind (construct_super_block img 512) (\<lambda>sb. rbind (construct_inodes fresh1 img sb) (\<lambda>(inodes, u).
     rbind (check_inodes img sb inodes u) (\<lambda>_. check_bitmap fresh2 img sb inodes)))"

text \<open>The program with its arguments, over a map from file names to contents: the message on the standard error stream and
  the exit status. \<^verbatim>\<open>mmap\<close> fills the last page with zeros and refuses an empty file; for a file that is not there the size is
  never set.\<close>

definition pages :: "u8 list \<Rightarrow> u8 list" where
  "pages x = x @ replicate ((4096 - length x mod 4096) mod 4096) 0"

definition xcheck_main :: "(nat \<Rightarrow> int) \<Rightarrow> (nat \<Rightarrow> int) \<Rightarrow> (string \<Rightarrow> u8 list option) \<Rightarrow> string list \<Rightarrow> (string \<times> nat) option" where
  "xcheck_main fresh1 fresh2 files argv =
     (if length argv < 2 then Some (''Usage: xcheck <file_system_image>'', 1)
      else case files (argv ! 1) of
        None \<Rightarrow> None
      | Some x \<Rightarrow>
          if x = [] then Some ('''', 1)
          else case check fresh1 fresh2 (pages x) of
            Inl (Error msg) \<Rightarrow> Some (''ERROR: '' @ msg, 1)
          | Inl Crash \<Rightarrow> None
          | Inr _ \<Rightarrow> Some ('''', 0))"

section \<open>What the image holds\<close>

definition int_at :: "u8 list \<Rightarrow> nat \<Rightarrow> u32" where
  "int_at img p = ucast (img ! p) OR push_bit 8 (ucast (img ! (p + 1))) OR push_bit 8 (ucast (img ! (p + 2))) OR push_bit 8 (ucast (img ! (p + 3)))"

definition super_of :: "u8 list \<Rightarrow> xsuper" where
  "super_of img = \<lparr>xs_size = int_at img 512, xs_nblocks = int_at img 516, xs_ninodes = int_at img 520, xs_nlog = 0, xs_logstart = 0,
     xs_inodestart = int_at img 532, xs_bmapstart = int_at img 536\<rparr>"

definition dinode_at :: "u8 list \<Rightarrow> nat \<Rightarrow> xdinode" where
  "dinode_at img p = \<lparr>xtype = get16 img p, xmajor = get16 img (p + 2), xminor = get16 img (p + 4), xnlink = get16 img (p + 6),
     xisize = int_at img (p + 8), xaddrs = map (\<lambda>j. int_at img (p + 12 + j * 4)) [0..<13]\<rparr>"

definition nodes_of :: "u8 list \<Rightarrow> xdinode list" where
  "nodes_of img = map (\<lambda>i. dinode_at img (unat (xs_inodestart (super_of img)) * 512 + 64 * i)) [0..<unat (xs_ninodes (super_of img))]"

lemma get_int: "p + 3 < length img \<Longrightarrow> get_int_from_mem img p = Inr (int_at img p)"
  by (simp add: get_int_from_mem_def byte_at_def int_at_def)

lemma get_short: "p + 1 < length img \<Longrightarrow> get_short_from_mem img p = Inr (get16 img p)"
  by (simp add: get_short_from_mem_def byte_at_def get16_def)

lemma int_at_bound: "unat (int_at img p) < 65536"
proof -
  have "take_bit 16 (int_at img p) = int_at img p"
    by (rule bit_word_eqI) (auto simp: int_at_def bit_take_bit_iff bit_or_iff bit_push_bit_iff bit_ucast_iff dest: bit_imp_le_length)
  then have "unat (int_at img p) = take_bit 16 (unat (int_at img p))" by (metis unsigned_take_bit_eq)
  then show ?thesis by (simp add: take_bit_eq_mod)
qed

lemma get32_bytes: "unat (get32 img p) < 65536 \<Longrightarrow> img ! (p + 2) = 0 \<and> img ! (p + 3) = 0"
proof -
  assume "unat (get32 img p) < 65536"
  then have "take_bit 16 (unat (get32 img p)) = unat (get32 img p)" by (simp add: take_bit_eq_mod)
  then have "take_bit 16 (get32 img p) = get32 img p" by (simp add: word_unat_eq_iff unsigned_take_bit_eq)
  then have z: "\<not> bit (get32 img p) n" if "16 \<le> n" for n using that by (metis bit_take_bit_iff not_less)
  have "\<not> bit (img ! (p + 2)) n \<and> \<not> bit (img ! (p + 3)) n" if "n < 8" for n
    using z[of "n + 16"] z[of "n + 24"] that by (auto simp: get32_def bit_or_iff bit_push_bit_iff bit_ucast_iff)
  then show ?thesis by (auto intro!: bit_word_eqI)
qed

text \<open>C36. The checker reads a 32-bit field of the image as the kernel does exactly when its value is below 65536, because it shifts the two upper
  bytes by 8 instead of 16 and 24 bits.\<close>

theorem get_int_reads_small_fields:
  assumes "p + 3 < length img"
  shows "get_int_from_mem img p = Inr (get32 img p) \<longleftrightarrow> unat (get32 img p) < 65536"
proof
  assume "unat (get32 img p) < 65536"
  then have "img ! (p + 2) = 0" "img ! (p + 3) = 0" using get32_bytes by blast+
  then show "get_int_from_mem img p = Inr (get32 img p)" by (simp add: get_int[OF assms] int_at_def get32_def)
qed (use int_at_bound[of img p] get_int[OF assms] in auto)

theorem get_int_reads_small_fields_witness: "get_int_from_mem [0, 0, 1, 0] 0 \<noteq> Inr (get32 [0, 0, 1, 0] 0) \<and> get_int_from_mem [7, 2, 0, 0] 0 = Inr (get32 [7, 2, 0, 0] 0)"
  using get_int_reads_small_fields[of 0 "[0, 0, 1, 0]"] get_int_reads_small_fields[of 0 "[7, 2, 0, 0]"] by (simp add: get32_def)

lemma mult_512: "unat a < 65536 \<Longrightarrow> unat (a * 512 :: u32) = unat a * 512" "unat a < 65536 \<Longrightarrow> unat (512 * a :: u32) = unat a * 512"
  by (simp_all add: unat_word_ariths)

lemma rmap_Inr: "(\<And>x. x \<in> set xs \<Longrightarrow> f x = Inr (g x)) \<Longrightarrow> rmap f xs = Inr (map g xs)"
  by (induction xs) simp_all

lemma rmap_ok: "(\<exists>ys. rmap f xs = Inr ys) \<longleftrightarrow> (\<forall>x \<in> set xs. \<exists>y. f x = Inr y)"
  by (induction xs) (auto simp: rbind_eq_Inr)

lemma read_inode_at:
  assumes "p + 64 \<le> length img"
  shows "read_inode img p = Inr (dinode_at img p)"
proof -
  have "rmap (\<lambda>j. get_int_from_mem img (p + 12 + j * 4)) [0..<13] = Inr (map (\<lambda>j. int_at img (p + 12 + j * 4)) [0..<13])"
    using assms by (intro rmap_Inr get_int) auto
  then show ?thesis using assms by (simp add: read_inode_def get_short get_int dinode_at_def del: upt_Suc upt_rec_numeral)
qed

text \<open>The tables that the superblock announces lie in the image.\<close>

definition tables_ok :: "u8 list \<Rightarrow> bool" where
  "tables_ok img \<longleftrightarrow> (let sb = super_of img in 1024 \<le> length img \<and> 1000 \<le> unat (xs_size sb) \<and> unat (xs_size sb) * 512 \<le> length img \<and>
     unat (xs_inodestart sb) * 512 + 64 * unat (xs_ninodes sb) \<le> length img \<and> unat (xs_bmapstart sb) * 512 + 125 \<le> length img)"

lemma tables_okD:
  assumes "tables_ok img"
  shows "1024 \<le> length img" "1000 \<le> unat (xs_size (super_of img))" "unat (xs_size (super_of img)) * 512 \<le> length img"
    "unat (xs_inodestart (super_of img)) * 512 + 64 * unat (xs_ninodes (super_of img)) \<le> length img"
    "unat (xs_bmapstart (super_of img)) * 512 + 125 \<le> length img"
  using assms unfolding tables_ok_def Let_def by blast+

lemma super_bounds: "unat (xs_size (super_of img)) < 65536" "unat (xs_inodestart (super_of img)) < 65536"
  "unat (xs_bmapstart (super_of img)) < 65536" "unat (xs_ninodes (super_of img)) < 65536"
  using int_at_bound by (simp_all add: super_of_def)

lemma check_reads:
  assumes "tables_ok img"
  shows "check f1 f2 img = rbind (check_inodes img (super_of img) (nodes_of img)
    (map (\<lambda>i. if xtype (nodes_of img ! i) \<noteq> T_UNLOCATED then 1 else f1 i) [0..<length (nodes_of img)]))
      (\<lambda>_. check_bitmap f2 img (super_of img) (nodes_of img))"
proof -
  have "construct_super_block img 512 = Inr (super_of img)"
    using tables_okD(1)[OF assms] by (simp add: construct_super_block_def get_int super_of_def)
  moreover have "rmap (\<lambda>i. read_inode img (unat (xs_inodestart (super_of img) * 512) + 64 * i)) [0..<unat (xs_ninodes (super_of img))] = Inr (nodes_of img)"
    unfolding nodes_of_def mult_512(1)[OF super_bounds(2)] using tables_okD(4)[OF assms] by (intro rmap_Inr read_inode_at) auto
  ultimately show ?thesis by (simp add: check_def construct_inodes_def)
qed

section \<open>The blocks in use\<close>

text \<open>The block numbers an inode mentions, with those in its indirect block.\<close>

definition indirect_refs :: "u8 list \<Rightarrow> u32 \<Rightarrow> u32 list" where
  "indirect_refs img x = filter (\<lambda>y. y \<noteq> 0) (map (\<lambda>k. int_at img (unat x * 512 + k * 4)) [0..<128])"

definition addr_refs :: "u8 list \<Rightarrow> xdinode \<Rightarrow> nat \<Rightarrow> u32 list" where
  "addr_refs img ip j = (let x = xaddrs ip ! j in if x = 0 then [] else if j = 12 then x # indirect_refs img x else [x])"

definition block_refs :: "u8 list \<Rightarrow> xdinode \<Rightarrow> u32 list" where
  "block_refs img ip = concat (map (addr_refs img ip) [0..<13])"

text \<open>Marking blocks: a block outside the table or marked before is refused.\<close>

fun marks :: "u32 list \<Rightarrow> int list \<Rightarrow> int list option" where
  "marks [] u = Some u"
| "marks (x # xs) u = (if unat x < length u \<and> u ! unat x = 0 then marks xs (u[unat x := 1]) else None)"

definition marking :: "nat \<Rightarrow> int list \<Rightarrow> bool" where
  "marking n u \<longleftrightarrow> length u = n \<and> set u \<subseteq> {0, 1}"

definition marker :: "nat \<Rightarrow> (int list \<Rightarrow> int list xres) \<Rightarrow> u32 list \<Rightarrow> bool" where
  "marker n f xs \<longleftrightarrow> (\<forall>u u'. marking n u \<longrightarrow> (f u = Inr u' \<longleftrightarrow> marks xs u = Some u'))"

lemma marking_update: "marking n u \<Longrightarrow> marking n (u[i := 1])"
  unfolding marking_def using set_update_subset_insert[of u i 1] by auto

lemma marks_marking: "marks xs u = Some u' \<Longrightarrow> marking n u \<Longrightarrow> marking n u'"
  by (induction xs arbitrary: u) (auto simp: marking_update split: if_splits)

lemma marks_append: "marks (xs @ ys) u = Option.bind (marks xs u) (marks ys)"
  by (induction xs arbitrary: u) simp_all

lemma marker_Inr: "marker n Inr []"
  by (simp add: marker_def)

lemma marker_append:
  assumes "marker n f xs" "marker n g ys"
  shows "marker n (\<lambda>u. rbind (f u) g) (xs @ ys)"
  unfolding marker_def
proof (intro allI impI)
  fix u u' assume u: "marking n u"
  have "f u = Inr v \<and> g v = Inr u' \<longleftrightarrow> marks xs u = Some v \<and> marks ys v = Some u'" for v
    using assms u marks_marking[of xs u v n] unfolding marker_def by blast
  then show "(rbind (f u) g = Inr u') = (marks (xs @ ys) u = Some u')" unfolding rbind_eq_Inr marks_append bind_eq_Some_conv by blast
qed

lemma marker_rfold: "(\<And>i. i \<in> set is \<Longrightarrow> marker n (f i) (g i)) \<Longrightarrow> marker n (rfold f is) (concat (map g is))"
proof (induction "is")
  case (Cons i "is")
  then show ?case using marker_append[of n "f i" "g i" "rfold f is"] by simp
qed (simp add: marker_def)

lemma marks_spec:
  "marks xs u = Some u' \<longleftrightarrow> distinct xs \<and> (\<forall>x \<in> set xs. unat x < length u \<and> u ! unat x = 0) \<and>
     u' = map (\<lambda>b. if b \<in> unat ` set xs then 1 else u ! b) [0..<length u]"
proof (induction xs arbitrary: u)
  case Nil
  then show ?case by (auto simp: map_nth)
next
  case (Cons x xs)
  have nth: "unat x < length u \<Longrightarrow> u[unat x := 1] ! b = (if b = unat x then 1 else u ! b)" for b by simp
  have inj: "unat y = unat x \<longleftrightarrow> y = x" for y by (simp add: word_unat_eq_iff)
  show ?case
  proof (cases "unat x < length u \<and> u ! unat x = 0")
    case True
    have "(\<forall>y \<in> set xs. unat y < length u \<and> u[unat x := 1] ! unat y = 0) \<longleftrightarrow> x \<notin> set xs \<and> (\<forall>y \<in> set xs. unat y < length u \<and> u ! unat y = 0)"
      using True by (auto simp: nth inj)
    moreover have "map (\<lambda>b. if b \<in> unat ` set xs then 1 else u[unat x := 1] ! b) [0..<length u] =
        map (\<lambda>b. if b \<in> unat ` set (x # xs) then 1 else u ! b) [0..<length u]"
      using True by (intro map_cong refl) (auto simp: nth)
    ultimately show ?thesis using True by (auto simp: Cons.IH simp del: map_eq_conv)
  qed auto
qed

lemma mark_block_marker:
  assumes "n < 2 ^ 31"
  shows "marker n (mark_block msg x) [x]"
  unfolding marker_def
proof (intro allI impI)
  fix u u' assume u: "marking n u"
  obtain k where k: "unat x = k" "uint x = int k" by simp
  have x: "(0 \<le> sint x \<and> nat (sint x) < length u) = (unat x < length u)" "unat x < length u \<Longrightarrow> nat (sint x) = unat x"
    using u assms k uint_bound_u32[of x] unfolding marking_def sint_u32 k(2) by auto
  have "u ! unat x = 0 \<or> u ! unat x = 1" if "unat x < length u" using u nth_mem[OF that] unfolding marking_def by auto
  then show "(mark_block msg x u = Inr u') = (marks [x] u = Some u')"
    unfolding mark_block_def bump_def x(1) by (cases "unat x < length u") (auto simp: x(2))
qed

lemma marker_cong: "marker n f xs \<Longrightarrow> (\<And>u. marking n u \<Longrightarrow> f u = g u) \<Longrightarrow> marker n g xs"
  by (simp add: marker_def)

lemma mark_indirect_marker:
  assumes n: "n < 65536" "n * 512 \<le> length img" and x: "unat x < n"
  shows "marker n (mark_indirect_add img x) (indirect_refs img x)"
proof -
  have ux: "unat (512 * x) = unat x * 512" using x n(1) by (intro mult_512(2)) simp
  have rd: "get_int_from_mem img (unat (512 * x) + k * 4) = Inr (int_at img (unat x * 512 + k * 4))" if "k < 128" for k
    unfolding ux using x n(2) that by (intro get_int) linarith
  let ?f = "\<lambda>k u. rbind (get_int_from_mem img (unat (512 * x) + k * 4)) (\<lambda>y. if y \<noteq> 0 then mark_block ''indirect address used more than once.'' y u else Inr u)"
  let ?y = "\<lambda>k. int_at img (unat x * 512 + k * 4)"
  have "marker n (?f k) (if ?y k = 0 then [] else [?y k])" if "k \<in> set [0..<128]" for k
    using that rd[of k] mark_block_marker[of n _ "?y k"] n(1) marker_Inr by (cases "?y k = 0") simp_all
  then have "marker n (rfold ?f [0..<128]) (concat (map (\<lambda>k. if ?y k = 0 then [] else [?y k]) [0..<128]))" by (rule marker_rfold)
  moreover have "concat (map (\<lambda>k. if ?y k = 0 then [] else [?y k]) ks) = filter (\<lambda>y. y \<noteq> 0) (map ?y ks)" for ks
    by (induction ks) simp_all
  ultimately show ?thesis unfolding mark_indirect_add_def[abs_def] indirect_refs_def by simp
qed

lemma mark_addr_marker:
  assumes "n < 65536" "n * 512 \<le> length img"
  shows "marker n (mark_addr img ip j) (addr_refs img ip j)"
proof -
  let ?x = "xaddrs ip ! j"
  note mb = mark_block_marker[of n "''direct address used more than once.''" ?x]
  show ?thesis
  proof (cases "?x \<noteq> 0 \<and> j = 12")
    case False
    then show ?thesis using mb assms(1) marker_Inr unfolding marker_def
      by (auto simp: mark_addr_def addr_refs_def Let_def rbind_eq_Inr)
  next
    case True
    show ?thesis
    proof (cases "unat ?x < n")
      case True': True
      have "marker n (\<lambda>u. rbind (mark_block ''direct address used more than once.'' ?x u) (mark_indirect_add img ?x)) ([?x] @ indirect_refs img ?x)"
        using mb assms(1) mark_indirect_marker[OF assms True'] by (intro marker_append) simp_all
      then show ?thesis using True by (auto simp: mark_addr_def[abs_def] addr_refs_def Let_def)
    next
      case False
      then have "marks [?x] u = None" if "marking n u" for u using that by (simp add: marking_def)
      then have "\<not> mark_block ''direct address used more than once.'' ?x u = Inr v" if "marking n u" for u v
        using mb assms(1) that unfolding marker_def by force
      then show ?thesis using True False unfolding marker_def by (auto simp: mark_addr_def addr_refs_def Let_def rbind_eq_Inr marking_def)
    qed
  qed
qed

lemma mark_add_marker:
  assumes "n < 65536" "n * 512 \<le> length img"
  shows "marker n (mark_add img inodes) (concat (map (block_refs img) inodes))"
proof -
  have "marker n (rfold (mark_addr img (inodes ! i)) [0..<13]) (block_refs img (inodes ! i))" for i
    unfolding block_refs_def by (rule marker_rfold) (rule mark_addr_marker[OF assms])
  then have "marker n (rfold (\<lambda>i. rfold (mark_addr img (inodes ! i)) [0..<13]) [0..<length inodes]) (concat (map (\<lambda>i. block_refs img (inodes ! i)) [0..<length inodes]))"
    by (intro marker_rfold)
  moreover have "map (\<lambda>i. block_refs img (inodes ! i)) [0..<length inodes] = map (block_refs img) inodes"
    by (rule nth_equalityI) simp_all
  ultimately show ?thesis unfolding mark_add_def[abs_def] by simp
qed

lemma mark_eserved:
  "k \<le> length u \<Longrightarrow> rfold (\<lambda>i u. if i < length u then Inr (u[i := 1]) else Inl Crash) [0..<k] u = Inr (map (\<lambda>b. if b < k then 1 else u ! b) [0..<length u])"
  "length u < k \<Longrightarrow> rfold (\<lambda>i u. if i < length u then Inr (u[i := 1]) else Inl Crash) [0..<k] u = (Inl Crash :: int list xres)"
proof -
  have app: "rfold f (xs @ ys) v = rbind (rfold f xs v) (rfold f ys)" for f :: "nat \<Rightarrow> int list \<Rightarrow> int list xres" and xs ys v
    by (induction xs arbitrary: v) (auto simp: rbind_def split: sum.splits)
  show 1: "k \<le> length u \<Longrightarrow> rfold (\<lambda>i u. if i < length u then Inr (u[i := 1]) else Inl Crash) [0..<k] u =
      (Inr (map (\<lambda>b. if b < k then 1 else u ! b) [0..<length u]) :: int list xres)" for k
  proof (induction k)
    case (Suc k)
    have "(map (\<lambda>b. if b < k then 1 else u ! b) [0..<length u])[k := 1] = map (\<lambda>b. if b < Suc k then 1 else u ! b) [0..<length u]"
      using Suc.prems by (intro nth_equalityI) (auto simp: nth_list_update_if)
    then show ?case using Suc by (simp add: app)
  qed (simp add: map_nth)
  assume "length u < k"
  then have "[0..<k] = [0..<length u] @ length u # [Suc (length u)..<k]" using upt_add_eq_append[of 0 "length u" "k - length u"] by (simp add: upt_conv_Cons)
  then show "rfold (\<lambda>i u. if i < length u then Inr (u[i := 1]) else Inl Crash) [0..<k] u = (Inl Crash :: int list xres)"
    using 1[of "length u"] by (simp add: app)
qed

lemma mask_bit:
  assumes "j < 8"
  shows "sint (val :: u8) AND push_bit j 1 = 0 \<longleftrightarrow> \<not> bit val j" "sint val AND push_bit j 1 > 0 \<longleftrightarrow> bit val j"
proof -
  have b: "bit (sint val AND push_bit j 1) k \<longleftrightarrow> k = j \<and> bit val j" for k
    using assms by (auto simp: bit_and_iff bit_exp_iff bit_sint_iff)
  show 1: "sint val AND push_bit j 1 = 0 \<longleftrightarrow> \<not> bit val j" using b bit_eq_iff[of "sint val AND push_bit j 1" 0] by auto
  have "0 \<le> sint val AND push_bit j 1" by (simp add: push_bit_eq_mult)
  then show "sint val AND push_bit j 1 > 0 \<longleftrightarrow> bit val j" using 1 by (metis order_less_le)
qed

lemma check_bit_ok:
  assumes "j < 8" "set u \<subseteq> {0, 1}" "i + j < length u"
  shows "(\<exists>y. check_bit val i u j = Inr y) \<longleftrightarrow> (bit val j \<longleftrightarrow> u ! (i + j) = 1)"
proof -
  have "u ! (i + j) \<in> {0, 1}" using assms(2) nth_mem[OF assms(3)] by blast
  then show ?thesis using assms(3) unfolding check_bit_def Let_def mask_bit(1)[OF assms(1)] mask_bit(2)[OF assms(1)] by auto
qed

lemma bits_split: "(\<forall>k < 125. \<forall>j < 8. P (8 * k + j)) \<longleftrightarrow> (\<forall>b < (1000 :: nat). P b)"
proof
  assume P: "\<forall>k < 125. \<forall>j < 8. P (8 * k + j)"
  show "\<forall>b < 1000. P b"
  proof (intro allI impI)
    fix b :: nat assume "b < 1000"
    then have "b div 8 < 125" "b mod 8 < 8" by auto
    then have "P (8 * (b div 8) + b mod 8)" using P by blast
    then show "P b" by simp
  qed
qed auto

definition bitmap_right :: "u8 list \<Rightarrow> bool" where
  "bitmap_right img \<longleftrightarrow> (let sb = super_of img; refs = concat (map (block_refs img) (nodes_of img)) in
     unat (xs_bmapstart sb) < unat (xs_size sb) \<and> distinct refs \<and>
     (\<forall>x \<in> set refs. unat (xs_bmapstart sb) < unat x \<and> unat x < unat (xs_size sb)) \<and>
     (\<forall>b < 1000. bit (img ! (unat (xs_bmapstart sb) * 512 + b div 8)) (b mod 8) \<longleftrightarrow> b \<le> unat (xs_bmapstart sb) \<or> b \<in> unat ` set refs))"

lemma check_bits_ok:
  assumes "off + 125 \<le> length img" "set u \<subseteq> {0, 1}" "1000 \<le> length u"
  shows "(\<exists>ys. rmap (\<lambda>k. rbind (byte_at img (off + k)) (\<lambda>val. rmap (check_bit val (8 * k) u) [0..<8])) [0..<125] = Inr ys) \<longleftrightarrow>
    (\<forall>b < 1000. bit (img ! (off + b div 8)) (b mod 8) \<longleftrightarrow> u ! b = 1)"
proof -
  have "byte_at img (off + k) = Inr (img ! (off + k))" if "k < 125" for k using that assms(1) by (simp add: byte_at_def)
  then have "(\<exists>ys. rmap (\<lambda>k. rbind (byte_at img (off + k)) (\<lambda>val. rmap (check_bit val (8 * k) u) [0..<8])) [0..<125] = Inr ys) \<longleftrightarrow>
    (\<forall>k < 125. \<forall>j < 8. bit (img ! (off + k)) j \<longleftrightarrow> u ! (8 * k + j) = 1)"
    unfolding rmap_ok using check_bit_ok[OF _ assms(2)] assms(3) by (auto simp: rmap_ok)
  also have "\<dots> \<longleftrightarrow> (\<forall>k < 125. \<forall>j < 8. bit (img ! (off + (8 * k + j) div 8)) ((8 * k + j) mod 8) \<longleftrightarrow> u ! (8 * k + j) = 1)" by auto
  finally show ?thesis unfolding bits_split[of "\<lambda>b. bit (img ! (off + b div 8)) (b mod 8) \<longleftrightarrow> u ! b = 1"] .
qed

lemma check_bitmap_ok:
  assumes t: "tables_ok img" and f: "\<And>i. f i = 0"
  shows "check_bitmap f img (super_of img) (nodes_of img) = Inr () \<longleftrightarrow> bitmap_right img"
proof -
  let ?sb = "super_of img" and ?R = "concat (map (block_refs img) (nodes_of img))"
  let ?n = "unat (xs_size ?sb)" and ?m = "unat (xs_bmapstart ?sb)"
  have n: "?n < 65536" "?n * 512 \<le> length img" "1000 \<le> ?n" using super_bounds tables_okD[OF t] by simp_all
  let ?u = "map (\<lambda>b. if b < Suc ?m then 1 else 0 :: int) [0..<?n]"
  have z: "map f [0..<?n] = replicate ?n 0" using f by (intro nth_equalityI) simp_all
  show ?thesis
  proof (cases "?m < ?n")
    case False
    then have "mark_eserved_blocks ?sb (map f [0..<?n]) = Inl Crash" unfolding mark_eserved_blocks_def by (intro mark_eserved(2)) simp
    then show ?thesis using False by (simp add: check_bitmap_def mark_used_blocks_def bitmap_right_def Let_def)
  next
    case True
    have "map (\<lambda>b. if b < Suc ?m then 1 else replicate ?n 0 ! b) [0..<length (replicate ?n (0 :: int))] = ?u" by simp
    then have r: "mark_eserved_blocks ?sb (map f [0..<?n]) = Inr ?u"
      unfolding mark_eserved_blocks_def z using mark_eserved(1)[of "Suc ?m" "replicate ?n 0"] True by simp
    have mk: "marking ?n ?u" by (auto simp: marking_def)
    have ma: "mark_add img (nodes_of img) ?u = Inr v \<longleftrightarrow> marks ?R ?u = Some v" for v
      using mark_add_marker[OF n(1,2), of "nodes_of img"] mk unfolding marker_def by blast
    have off: "unat (xs_bmapstart ?sb * 512) = ?m * 512" by (rule mult_512(1)[OF super_bounds(3)])
    have cb: "(\<exists>ys. rmap (\<lambda>k. rbind (byte_at img (?m * 512 + k)) (\<lambda>val. rmap (check_bit val (8 * k) v) [0..<8])) [0..<125] = Inr ys) \<longleftrightarrow>
      (\<forall>b < 1000. bit (img ! (?m * 512 + b div 8)) (b mod 8) \<longleftrightarrow> v ! b = 1)" if "marks ?R ?u = Some v" for v
      using marks_marking[OF that mk] n(3) by (intro check_bits_ok[OF tables_okD(5)[OF t]]) (simp_all add: marking_def)
    have "check_bitmap f img ?sb (nodes_of img) = Inr () \<longleftrightarrow>
      (\<exists>v. marks ?R ?u = Some v \<and> (\<forall>b < 1000. bit (img ! (?m * 512 + b div 8)) (b mod 8) \<longleftrightarrow> v ! b = 1))"
      unfolding check_bitmap_def mark_used_blocks_def r rbind_simps rbind_eq_Inr ma off
      using cb by blast
    also have "\<dots> \<longleftrightarrow> bitmap_right img"
    proof -
      have a: "(unat x < length ?u \<and> ?u ! unat x = 0) = (?m < unat x \<and> unat x < ?n)" for x :: u32 by (auto split: if_splits)
      have b: "map (\<lambda>b. if b \<in> unat ` set ?R then 1 else ?u ! b) [0..<length ?u] ! b = 1 \<longleftrightarrow> b \<le> ?m \<or> b \<in> unat ` set ?R" if "b < 1000" for b
        using that n(3) by (auto simp del: set_concat split: if_splits)
      show ?thesis unfolding marks_spec bitmap_right_def Let_def a using True b by (simp del: set_concat)
    qed
    finally show ?thesis .
  qed
qed

section \<open>The links\<close>

definition entry_at :: "u8 list \<Rightarrow> nat \<Rightarrow> int \<times> u8 list" where
  "entry_at img p = (sint (get16 img p), c_string (take 14 (drop (p + 2) img)))"

text \<open>The entries of a directory up to the first free one.\<close>

definition dirents :: "u8 list \<Rightarrow> u32 list \<Rightarrow> (int \<times> u8 list) list" where
  "dirents img as = takeWhile (\<lambda>e. fst e \<noteq> 0) (concat (map (\<lambda>a. map (\<lambda>k. entry_at img (unat a * 512 + 16 * k)) [0..<32]) (takeWhile (\<lambda>a. a \<noteq> 0) as)))"

definition entry_ok :: "int \<Rightarrow> nat \<Rightarrow> int \<times> u8 list \<Rightarrow> bool" where
  "entry_ok node n e \<longleftrightarrow> 0 \<le> fst e \<and> nat (fst e) < n \<and> (snd e = [46] \<longrightarrow> fst e = node) \<and> (snd e = [46, 46] \<longrightarrow> node = 1 \<longrightarrow> fst e = 1)"

definition named :: "(int \<times> u8 list) list \<Rightarrow> nat list" where
  "named es = map (\<lambda>e. nat (fst e)) (filter (\<lambda>e. snd e \<noteq> [46] \<and> snd e \<noteq> [46, 46]) es)"

definition add_delta :: "(nat \<Rightarrow> int) \<Rightarrow> int list \<Rightarrow> int list" where
  "add_delta d u = map (\<lambda>i. u ! i + d i) [0..<length u]"

abbreviation counts :: "nat list \<Rightarrow> nat \<Rightarrow> int" where
  "counts xs i \<equiv> int (count_list xs i)"

lemma length_add_delta [simp]: "length (add_delta d u) = length u"
  by (simp add: add_delta_def)

lemma add_delta_add: "add_delta d2 (add_delta d1 u) = add_delta (\<lambda>i. d1 i + d2 i) u"
  unfolding add_delta_def by (intro nth_equalityI) simp_all

lemma add_delta_zero: "add_delta (\<lambda>i. 0) u = u"
  unfolding add_delta_def by (intro nth_equalityI) simp_all

lemma bump_add: "bump i k u = Inr u' \<longleftrightarrow> 0 \<le> i \<and> nat i < length u \<and> u' = add_delta (\<lambda>j. if j = nat i then k else 0) u"
proof -
  have "u[nat i := u ! nat i + k] = add_delta (\<lambda>j. if j = nat i then k else 0) u" if "nat i < length u"
    using that unfolding add_delta_def by (intro nth_equalityI) (simp_all add: nth_list_update_if)
  then show ?thesis by (auto simp: bump_def)
qed

lemma entry_name_at: "p + 15 < length img \<Longrightarrow> entry_name img p = Inr (snd (entry_at img p))"
  by (simp add: entry_name_def entry_at_def)

text \<open>One directory entry.\<close>

lemma check_entry_ok:
  "rbind (bump inum 1 u) (\<lambda>u1.
     if name = [46] then if node \<noteq> inum then Inl (Error ''directory not properly formatted.'') else bump inum (- 1) u1
     else if name = [46, 46] then if node = 1 \<and> node \<noteq> inum then Inl (Error ''root directory does not exist.'') else bump inum (- 1) u1
     else Inr u1) = Inr u2 \<longleftrightarrow> entry_ok node (length u) (inum, name) \<and> u2 = add_delta (counts (named [(inum, name)])) u"
proof -
  have z: "add_delta (\<lambda>i. (if i = nat inum then 1 else 0) + (if i = nat inum then - 1 else 0)) u = u"
    using add_delta_zero[of u] by (simp add: if_distrib cong: if_cong)
  have o: "(\<lambda>i. counts (named [(inum, name)]) i) = (\<lambda>i. if i = nat inum then 1 else 0)" if "name \<noteq> [46]" "name \<noteq> [46, 46]"
    using that by (auto simp: named_def)
  have n: "named [(i, [46])] = []" "named [(i, [46, 46])] = []" for i by (simp_all add: named_def)
  show ?thesis
    by (cases "name = [46]"; cases "name = [46, 46]")
      (auto simp: rbind_eq_Inr bump_add add_delta_add z o n entry_ok_def add_delta_zero)
qed

lemma check_entries_ok:
  assumes "p + 16 * n \<le> length img"
  shows "check_entries img node p n u = Inr (r, u') \<longleftrightarrow>
    (let E = map (\<lambda>k. entry_at img (p + 16 * k)) [0..<n]; F = takeWhile (\<lambda>e. fst e \<noteq> 0) E in
     list_all (entry_ok node (length u)) F \<and> u' = add_delta (counts (named F)) u \<and> (r \<longleftrightarrow> \<not> list_all (\<lambda>e. fst e \<noteq> 0) E))"
  using assms
proof (induction n arbitrary: p u)
  case 0
  then show ?case by (auto simp: named_def add_delta_zero)
next
  case (Suc n)
  let ?e = "entry_at img p"
  have m: "map (\<lambda>k. entry_at img (p + 16 * k)) [0..<Suc n] = ?e # map (\<lambda>k. entry_at img (p + 16 + 16 * k)) [0..<n]"
    by (simp add: upt_conv_Cons map_Suc_upt[symmetric] add.assoc del: upt_Suc)
  have rd: "get_short_from_mem img p = Inr (get16 img p)" "entry_name img p = Inr (snd ?e)"
    using Suc.prems by (simp_all add: get_short entry_name_at)
  have i: "sint (get16 img p) = fst ?e" by (simp add: entry_at_def)
  show ?case
  proof (cases "fst ?e = 0")
    case True
    then show ?thesis unfolding m using rd i by (auto simp: Let_def named_def add_delta_zero)
  next
    case False
    have "check_entries img node p (Suc n) u = Inr (r, u') \<longleftrightarrow>
      (\<exists>u2. (entry_ok node (length u) ?e \<and> u2 = add_delta (counts (named [?e])) u) \<and> check_entries img node (p + 16) n u2 = Inr (r, u'))"
      unfolding check_entries.simps rd rbind_simps i Let_def if_not_P[OF False] rbind_assoc[symmetric] rbind_eq_Inr[of "rbind (bump _ _ _) _"]
      using check_entry_ok[of "fst ?e" u "snd ?e" node] by simp
    also have "\<dots> \<longleftrightarrow> (let E = map (\<lambda>k. entry_at img (p + 16 * k)) [0..<Suc n]; F = takeWhile (\<lambda>e. fst e \<noteq> 0) E in
     list_all (entry_ok node (length u)) F \<and> u' = add_delta (counts (named F)) u \<and> (r \<longleftrightarrow> \<not> list_all (\<lambda>e. fst e \<noteq> 0) E))"
    proof -
      have nm: "counts (named [?e]) i + counts (named F) i = counts (named (?e # F)) i" for F i by (simp add: named_def)
      show ?thesis unfolding m using Suc.prems False by (auto simp: Suc.IH Let_def add_delta_add nm)
    qed
    finally show ?thesis .
  qed
qed

lemma named_append: "counts (named (xs @ ys)) i = counts (named xs) i + counts (named ys) i"
  by (simp add: named_def)

lemma check_dir_blocks_ok:
  assumes "\<And>a. a \<in> set as \<Longrightarrow> unat a < 65535 \<and> unat a * 512 + 512 \<le> length img"
  shows "check_dir_blocks img node as u = Inr u' \<longleftrightarrow>
    list_all (entry_ok node (length u)) (dirents img as) \<and> u' = add_delta (counts (named (dirents img as))) u"
  using assms
proof (induction as arbitrary: u)
  case Nil
  then show ?case by (auto simp: dirents_def named_def add_delta_zero)
next
  case (Cons a as)
  have a: "unat (a * 512) = unat a * 512" "unat a * 512 + 16 * 32 \<le> length img" using Cons.prems[of a] mult_512(1)[of a] by simp_all
  let ?E = "map (\<lambda>k. entry_at img (unat a * 512 + 16 * k)) [0..<32]"
  let ?F = "takeWhile (\<lambda>e. fst e \<noteq> 0) ?E"
  note ce = check_entries_ok[OF a(2), of node u, unfolded Let_def]
  show ?case
  proof (cases "a = 0")
    case True
    then show ?thesis by (auto simp: dirents_def named_def add_delta_zero)
  next
    case False
    have d: "dirents img (a # as) = (if list_all (\<lambda>e. fst e \<noteq> 0) ?E then ?E @ dirents img as else ?F)"
    proof (cases "list_all (\<lambda>e. fst e \<noteq> 0) ?E")
      case True
      then have "\<And>e. e \<in> set ?E \<Longrightarrow> fst e \<noteq> 0" unfolding list_all_iff by blast
      note takeWhile_append2[of ?E "\<lambda>e. fst e \<noteq> 0", OF this]
      then show ?thesis using False True by (simp add: dirents_def del: upt_Suc upt_rec_numeral)
    next
      case F: False
      then obtain e where "e \<in> set ?E" "\<not> fst e \<noteq> 0" unfolding list_all_iff by blast
      from takeWhile_append1[of e ?E "\<lambda>e. fst e \<noteq> 0", OF this] show ?thesis using False F by (simp add: dirents_def del: upt_Suc upt_rec_numeral)
    qed
    have f: "?F = ?E" if "list_all (\<lambda>e. fst e \<noteq> 0) ?E" using that by (simp add: list_all_iff takeWhile_eq_all_conv)
    have step: "check_dir_blocks img node (a # as) u = Inr u' \<longleftrightarrow>
      (\<exists>r u1. check_entries img node (unat a * 512) 32 u = Inr (r, u1) \<and> (if r then u' = u1 else check_dir_blocks img node as u1 = Inr u'))"
      using False a(1) by (auto simp: rbind_eq_Inr split: if_splits)
    have ih: "check_dir_blocks img node as v = Inr u' \<longleftrightarrow>
      list_all (entry_ok node (length v)) (dirents img as) \<and> u' = add_delta (counts (named (dirents img as))) v" for v
      using Cons.prems by (intro Cons.IH) simp
    show ?thesis
    proof (cases "list_all (\<lambda>e. fst e \<noteq> 0) ?E")
      case True
      show ?thesis unfolding step ce d if_P[OF True] f[OF True] using True by (simp add: ih add_delta_add named_append del: upt_Suc upt_rec_numeral) blast
    next
      case False
      show ?thesis unfolding step ce d if_not_P[OF False] using False by (simp del: upt_Suc upt_rec_numeral) blast
    qed
  qed
qed

text \<open>The number of names of inode \<open>i\<close> in the directories.\<close>

definition links :: "u8 list \<Rightarrow> xdinode list \<Rightarrow> nat \<Rightarrow> nat" where
  "links img inodes i = (\<Sum>ip \<leftarrow> inodes. if xtype ip = XT_DIR then count_list (named (dirents img (take 12 (xaddrs ip)))) i else 0)"

definition readable :: "u8 list \<Rightarrow> xdinode \<Rightarrow> bool" where
  "readable img ip \<longleftrightarrow> (\<forall>a \<in> set (take 12 (xaddrs ip)). unat a < 65535 \<and> unat a * 512 + 512 \<le> length img)"

definition inode_delta :: "u8 list \<Rightarrow> xdinode list \<Rightarrow> nat \<Rightarrow> nat \<Rightarrow> int" where
  "inode_delta img inodes n i =
     (if xtype (inodes ! n) = XT_DIR then counts (named (dirents img (take 12 (xaddrs (inodes ! n))))) i else 0) -
     (if i = n \<and> xtype (inodes ! n) \<noteq> T_UNLOCATED \<and> \<not> (xtype (inodes ! n) = XT_DIR \<and> n = 1) then 1 else 0)"

definition inode_ok :: "u8 list \<Rightarrow> xsuper \<Rightarrow> xdinode list \<Rightarrow> nat \<Rightarrow> bool" where
  "inode_ok img sb inodes n \<longleftrightarrow> xtype (inodes ! n) \<in> {T_UNLOCATED, XT_DIR, XT_FILE, XT_DEV} \<and> (\<forall>j < 13. xaddrs (inodes ! n) ! j \<le> xs_size sb) \<and>
     (xtype (inodes ! n) = XT_DIR \<longrightarrow> list_all (entry_ok (int n) (length inodes)) (dirents img (take 12 (xaddrs (inodes ! n)))))"

lemma rbind_unit: "rbind x (\<lambda>_. y) = Inr z \<longleftrightarrow> x = Inr () \<and> y = Inr z" for x :: "unit xres"
  by (cases x) simp_all

lemma check_inode_ok:
  assumes "readable img (inodes ! n)" "n < length inodes" "length u = length inodes"
  shows "check_inode img sb inodes n u = Inr u' \<longleftrightarrow> inode_ok img sb inodes n \<and> u' = add_delta (inode_delta img inodes n) u"
proof -
  let ?ip = "inodes ! n"
  have T: "T_UNLOCATED \<noteq> XT_DIR" by (simp add: T_UNLOCATED_def XT_DIR_def)
  have t: "check_inode_type ?ip = Inr () \<longleftrightarrow> xtype ?ip \<in> {T_UNLOCATED, XT_DIR, XT_FILE, XT_DEV}" by (auto simp: check_inode_type_def)
  have thirteen: "(\<forall>j < 13. P j) \<longleftrightarrow> (\<forall>j < 12. P j) \<and> P (12 :: nat)" for P using less_Suc_eq[of _ 12] by auto
  have b: "check_inode_data_blocks sb ?ip = Inr () \<longleftrightarrow> (\<forall>j < 13. xaddrs ?ip ! j \<le> xs_size sb)"
    unfolding thirteen by (auto simp: check_inode_data_blocks_def list_ex_iff not_less)
  have db: "check_dir_blocks img (int n) (take 12 (xaddrs ?ip)) v = Inr w \<longleftrightarrow>
    list_all (entry_ok (int n) (length v)) (dirents img (take 12 (xaddrs ?ip))) \<and> w = add_delta (counts (named (dirents img (take 12 (xaddrs ?ip))))) v" for v w
    using assms(1) unfolding readable_def by (intro check_dir_blocks_ok) blast
  let ?d = "inode_delta img inodes n"
  have body: "(if xtype ?ip = T_UNLOCATED then Inr u else if xtype ?ip = XT_DIR then check_dir img ?ip n u else bump (int n) (- 1) u) = Inr u' \<longleftrightarrow>
    (xtype ?ip = XT_DIR \<longrightarrow> list_all (entry_ok (int n) (length inodes)) (dirents img (take 12 (xaddrs ?ip)))) \<and> u' = add_delta ?d u"
  proof -
    consider "xtype ?ip = T_UNLOCATED" | "xtype ?ip = XT_DIR" "n = 1" | "xtype ?ip = XT_DIR" "n \<noteq> 1" | "xtype ?ip \<noteq> T_UNLOCATED" "xtype ?ip \<noteq> XT_DIR" by blast
    then show ?thesis
    proof cases
      case 1
      then have "?d = (\<lambda>i. 0)" using T by (auto simp: inode_delta_def)
      then show ?thesis using 1 T by (auto simp: add_delta_zero)
    next
      case 2
      then have "?d = counts (named (dirents img (take 12 (xaddrs ?ip))))" by (auto simp: inode_delta_def)
      then show ?thesis using 2 T assms(3) db[of u u'] by (simp add: check_dir_def)
    next
      case 3
      then have "?d = (\<lambda>i. (if i = n then - 1 else 0) + counts (named (dirents img (take 12 (xaddrs ?ip)))) i)" using T by (auto simp: inode_delta_def)
      then show ?thesis using 3 T assms(2,3) by (auto simp: check_dir_def rbind_eq_Inr db bump_add add_delta_add)
    next
      case 4
      then have "?d = (\<lambda>i. if i = n then - 1 else 0)" by (auto simp: inode_delta_def)
      then show ?thesis using 4 assms(2,3) by (simp add: bump_add)
    qed
  qed
  have "check_inode img sb inodes n u = Inr u' \<longleftrightarrow> check_inode_type ?ip = Inr () \<and> check_inode_data_blocks sb ?ip = Inr () \<and>
    (if xtype ?ip = T_UNLOCATED then Inr u else if xtype ?ip = XT_DIR then check_dir img ?ip n u else bump (int n) (- 1) u) = Inr u'"
    unfolding check_inode_def rbind_unit ..
  then show ?thesis unfolding t b body inode_ok_def by blast
qed

lemma check_loop_ok:
  assumes "\<And>n. n < k \<Longrightarrow> readable img (inodes ! n)" "k \<le> length inodes" "length u = length inodes"
  shows "rfold (check_inode img sb inodes) [0..<k] u = Inr u' \<longleftrightarrow>
    (\<forall>n < k. inode_ok img sb inodes n) \<and> u' = add_delta (\<lambda>i. \<Sum>n<k. inode_delta img inodes n i) u"
  using assms
proof (induction k arbitrary: u')
  case 0
  then show ?case by (auto simp: add_delta_zero)
next
  case (Suc k)
  have app: "rfold f (xs @ [x]) v = rbind (rfold f xs v) (f x)" for f :: "nat \<Rightarrow> int list \<Rightarrow> int list xres" and xs x v
    by (induction xs arbitrary: v) (auto simp: rbind_def split: sum.splits)
  have ih: "rfold (check_inode img sb inodes) [0..<k] u = Inr v \<longleftrightarrow>
    (\<forall>n < k. inode_ok img sb inodes n) \<and> v = add_delta (\<lambda>i. \<Sum>n<k. inode_delta img inodes n i) u" for v
    using Suc.prems by (intro Suc.IH) auto
  have st: "check_inode img sb inodes k v = Inr u' \<longleftrightarrow> inode_ok img sb inodes k \<and> u' = add_delta (inode_delta img inodes k) v" if "length v = length inodes" for v
    using Suc.prems that by (intro check_inode_ok) auto
  have "rfold (check_inode img sb inodes) [0..<Suc k] u = Inr u' \<longleftrightarrow> (\<forall>n < k. inode_ok img sb inodes n) \<and>
    check_inode img sb inodes k (add_delta (\<lambda>i. \<Sum>n<k. inode_delta img inodes n i) u) = Inr u'"
    by (simp add: app rbind_eq_Inr ih)
  then show ?case using Suc.prems(3) by (auto simp: st add_delta_add less_Suc_eq)
qed

lemma delta_links:
  assumes "i < length inodes"
  shows "(\<Sum>n<length inodes. inode_delta img inodes n i) = int (links img inodes i) -
    (if xtype (inodes ! i) \<noteq> T_UNLOCATED \<and> \<not> (xtype (inodes ! i) = XT_DIR \<and> i = 1) then 1 else 0)"
proof -
  let ?c = "\<lambda>ip. if xtype ip = XT_DIR then count_list (named (dirents img (take 12 (xaddrs ip)))) i else 0"
  let ?p = "\<lambda>n. xtype (inodes ! n) \<noteq> T_UNLOCATED \<and> \<not> (xtype (inodes ! n) = XT_DIR \<and> n = 1)"
  have "links img inodes i = (\<Sum>n<length inodes. ?c (inodes ! n))"
    unfolding links_def sum_list_sum_nth by (simp add: atLeast0LessThan)
  then have l: "int (links img inodes i) = (\<Sum>n<length inodes. int (?c (inodes ! n)))" by simp
  have "(\<Sum>n<length inodes. inode_delta img inodes n i) = (\<Sum>n<length inodes. int (?c (inodes ! n)) - (if n = i then if ?p n then 1 else 0 else 0))"
    by (intro sum.cong) (auto simp: inode_delta_def)
  also have "\<dots> = int (links img inodes i) - (\<Sum>n<length inodes. if n = i then if ?p n then 1 else 0 else 0)"
    unfolding l by (rule sum_subtractf)
  also have "(\<Sum>n<length inodes. if n = i then if ?p n then 1 else 0 :: int else 0) = (if ?p i then 1 else 0)"
    using assms by (simp add: sum.delta')
  finally show ?thesis .
qed

lemma check_inodes_ok:
  assumes r: "\<And>n. n < length inodes \<Longrightarrow> readable img (inodes ! n)" and f: "\<And>i. f i = 0"
  shows "check_inodes img sb inodes (map (\<lambda>i. if xtype (inodes ! i) \<noteq> T_UNLOCATED then 1 else f i) [0..<length inodes]) = Inr () \<longleftrightarrow>
    (\<forall>n < length inodes. inode_ok img sb inodes n \<and>
      links img inodes n = (if xtype (inodes ! n) = T_UNLOCATED \<or> xtype (inodes ! n) = XT_DIR \<and> n = 1 then 0 else 1))"
proof -
  let ?u = "map (\<lambda>i. if xtype (inodes ! i) \<noteq> T_UNLOCATED then 1 else f i) [0..<length inodes]"
  let ?v = "add_delta (\<lambda>i. \<Sum>n<length inodes. inode_delta img inodes n i) ?u"
  have v: "?v ! i = int (links img inodes i) + (if xtype (inodes ! i) = XT_DIR \<and> i = 1 then 1 else 0)" if "i < length inodes" for i
    using that delta_links[OF that, of img] by (auto simp: add_delta_def f T_UNLOCATED_def XT_DIR_def)
  have c: "(\<exists>y. check_refs inodes ?v i = Inr y) \<longleftrightarrow>
      links img inodes i = (if xtype (inodes ! i) = T_UNLOCATED \<or> xtype (inodes ! i) = XT_DIR \<and> i = 1 then 0 else 1)" if "i < length inodes" for i
    unfolding check_refs_def v[OF that] by (auto simp: T_UNLOCATED_def XT_DIR_def)
  have lp: "rfold (check_inode img sb inodes) [0..<length inodes] ?u = Inr w \<longleftrightarrow> (\<forall>n < length inodes. inode_ok img sb inodes n) \<and> w = ?v" for w
    by (rule check_loop_ok[OF r]) simp_all
  have "check_inodes img sb inodes ?u = Inr () \<longleftrightarrow> (\<forall>n < length inodes. inode_ok img sb inodes n) \<and> (\<exists>ys. rmap (check_refs inodes ?v) [0..<length inodes] = Inr ys)"
    unfolding check_inodes_def rbind_eq_Inr lp by blast
  then show ?thesis unfolding rmap_ok using c by auto
qed

section \<open>Consistent images\<close>

text \<open>Every inode has a known type and lies in exactly one directory entry (the root in none, a free inode in none); the
  entries of a directory name inodes of the table, and the dot entries are right; no block belongs to two places or to the
  metadata, and the bitmap holds exactly the metadata and the blocks that inodes mention.\<close>

definition consistent :: "u8 list \<Rightarrow> bool" where
  "consistent img \<longleftrightarrow> (let inodes = nodes_of img in
     (\<forall>n < length inodes. xtype (inodes ! n) \<in> {T_UNLOCATED, XT_DIR, XT_FILE, XT_DEV} \<and>
        (xtype (inodes ! n) = XT_DIR \<longrightarrow> list_all (entry_ok (int n) (length inodes)) (dirents img (take 12 (xaddrs (inodes ! n))))) \<and>
        links img inodes n = (if xtype (inodes ! n) = T_UNLOCATED \<or> xtype (inodes ! n) = XT_DIR \<and> n = 1 then 0 else 1))) \<and>
     bitmap_right img"

lemma bitmap_right_addrs:
  assumes t: "tables_ok img" and b: "bitmap_right img" and n: "n < length (nodes_of img)" and j: "j < 13"
  shows "unat (xaddrs (nodes_of img ! n) ! j) < unat (xs_size (super_of img))"
proof (cases "xaddrs (nodes_of img ! n) ! j = 0")
  case True
  then show ?thesis using tables_okD(2)[OF t] by simp
next
  case False
  then have "xaddrs (nodes_of img ! n) ! j \<in> set (addr_refs img (nodes_of img ! n) j)" by (simp add: addr_refs_def Let_def)
  then have "xaddrs (nodes_of img ! n) ! j \<in> set (block_refs img (nodes_of img ! n))" using j by (auto simp: block_refs_def)
  then have "xaddrs (nodes_of img ! n) ! j \<in> set (concat (map (block_refs img) (nodes_of img)))" using nth_mem[OF n] by auto
  then show ?thesis using b unfolding bitmap_right_def Let_def by blast
qed

lemma length_addrs: "n < length (nodes_of img) \<Longrightarrow> length (xaddrs (nodes_of img ! n)) = 13"
  by (simp add: nodes_of_def dinode_at_def)

lemma bitmap_right_readable:
  assumes t: "tables_ok img" and b: "bitmap_right img" and n: "n < length (nodes_of img)"
  shows "readable img (nodes_of img ! n)"
  unfolding readable_def
proof
  fix a assume "a \<in> set (take 12 (xaddrs (nodes_of img ! n)))"
  then obtain j where j: "j < 12" "a = xaddrs (nodes_of img ! n) ! j" using length_addrs[OF n] by (auto simp: in_set_conv_nth)
  then have "unat a < unat (xs_size (super_of img))" using bitmap_right_addrs[OF t b n, of j] by simp
  then show "unat a < 65535 \<and> unat a * 512 + 512 \<le> length img" using super_bounds(1)[of img] tables_okD(3)[OF t] by auto
qed


text \<open>An image of a disk of 1000 blocks with two inodes, of which the second is an empty root directory in block 4.\<close>

definition demo_byte :: "nat \<Rightarrow> u8" where
  "demo_byte i = (case map_of [(512, 232), (513, 3), (520, 2), (532, 2), (536, 3), (1088, 1), (1094, 1), (1096, 32), (1100, 4), (1536, 31),
     (2048, 1), (2050, 46), (2064, 1), (2066, 46), (2067, 46)] i of None \<Rightarrow> 0 | Some b \<Rightarrow> b)"

definition demo_image :: "u8 list" where
  "demo_image = map demo_byte [0..<512000]"

lemma demo_nth: "length demo_image = 512000" "i < 512000 \<Longrightarrow> demo_image ! i = demo_byte i"
  unfolding demo_image_def by (simp_all del: upt_rec_numeral)

lemma demo_super: "super_of demo_image = \<lparr>xs_size = 1000, xs_nblocks = 0, xs_ninodes = 2, xs_nlog = 0, xs_logstart = 0, xs_inodestart = 2, xs_bmapstart = 3\<rparr>"
  by (simp add: super_of_def int_at_def demo_nth demo_byte_def)

lemma demo_nodes: "nodes_of demo_image = [\<lparr>xtype = 0, xmajor = 0, xminor = 0, xnlink = 0, xisize = 0, xaddrs = [0, 0, 0, 0, 0, 0, 0, 0, 0, 0, 0, 0, 0]\<rparr>,
    \<lparr>xtype = 1, xmajor = 0, xminor = 0, xnlink = 1, xisize = 32, xaddrs = [4, 0, 0, 0, 0, 0, 0, 0, 0, 0, 0, 0, 0]\<rparr>]"
proof -
  have two: "[0..<2] = [0, 1]" by (simp add: upt_rec)
  have th: "[0..<13] = [0, 1, 2, 3, 4, 5, 6, 7, 8, 9, 10, 11, 12]" by (simp add: upt_rec)
  show ?thesis by (simp add: nodes_of_def demo_super two th dinode_at_def int_at_def get16_def demo_nth demo_byte_def)
qed

lemma demo_image_tables: "tables_ok demo_image"
  by (simp add: tables_ok_def demo_super demo_nth)

lemma demo_dirents: "dirents demo_image [4, 0, 0, 0, 0, 0, 0, 0, 0, 0, 0, 0] = [(1, [46]), (1, [46, 46])]"
proof -
  have e: "entry_at demo_image p = (sint (get16 demo_image p), c_string (map (\<lambda>k. demo_byte (p + 2 + k)) [0..<14]))" if "p + 16 < 512000" for p
  proof -
    have "take 14 (drop (p + 2) demo_image) = map (\<lambda>k. demo_byte (p + 2 + k)) [0..<14]"
      using that by (intro nth_equalityI) (simp_all add: demo_nth)
    then show ?thesis by (simp add: entry_at_def)
  qed
  have v: "[0..<14] = 0 # 1 # 2 # [3..<14]" by (simp add: upt_rec)
  have u: "[0..<32] = 0 # 1 # 2 # [3..<32]" by (simp add: upt_rec)
  show ?thesis by (simp add: dirents_def u v e get16_def demo_nth demo_byte_def c_string_def del: upt_rec_numeral)
qed

lemma demo_consistent: "consistent demo_image"
proof -
  have u: "[0..<13] = [0, 1, 2, 3, 4, 5, 6, 7, 8, 9, 10, 11, 12]" by (simp add: upt_rec)
  have refs: "concat (map (block_refs demo_image) (nodes_of demo_image)) = [4]"
    by (simp add: demo_nodes block_refs_def u addr_refs_def)
  have bits: "bit (31 :: u8) n \<longleftrightarrow> n < 5" for n
    using bit_mask_iff[where 'a = u8, of 5 n] bit_imp_le_length[of "31 :: u8" n] by (auto simp: mask_eq_exp_minus_1)
  have "bit (demo_image ! (1536 + b div 8)) (b mod 8) \<longleftrightarrow> b \<le> 3 \<or> b = 4" if "b < 1000" for b
  proof (cases "b < 8")
    case True
    then have "b div 8 = 0" "b mod 8 = b" by simp_all
    moreover have "demo_image ! (1536 + 0) = 31" by (simp add: demo_nth demo_byte_def)
    ultimately have "bit (demo_image ! (1536 + b div 8)) (b mod 8) \<longleftrightarrow> b < 5" by (simp only: bits)
    then show ?thesis by auto
  next
    case False
    then have "b div 8 \<noteq> 0" "b div 8 < 125" using that by auto
    then show ?thesis using False by (simp add: demo_nth demo_byte_def)
  qed
  then have b: "bitmap_right demo_image" unfolding bitmap_right_def refs Let_def by (simp add: demo_super)
  show ?thesis unfolding consistent_def Let_def
    using b demo_dirents by (auto simp: demo_nodes less_Suc_eq T_UNLOCATED_def XT_DIR_def links_def entry_ok_def named_def)
qed


end
