(* ===== verification/Malloc.thy ===== *)
theory Malloc
  imports Mmu
begin

text \<open>
  The memory allocator of user programs and the thread functions, \<^verbatim>\<open>src/src/ulib.c\<close>. A header occupies eight bytes: the
  pointer to the next free block and the size in units of headers. Free blocks form a circular list in the order of their
  addresses, through the static header \<^verbatim>\<open>base\<close>, whose address is the parameter \<open>base\<close>. The two loops follow pointers in memory,
  so they are \<^theory_text>\<open>partial_function (option)\<close>; the theorems show that they return. The system call \<^verbatim>\<open>sbrk\<close> is a parameter with the
  laws of the locale \<open>program_break\<close>, which the function \<open>usbrk\<close>, the call as the process sees it, satisfies.
\<close>

record uheap =
  umem :: mem
  freep :: u32
  brk :: u32

type_synonym sbrk = "u32 \<Rightarrow> uheap \<Rightarrow> u32 \<times> uheap"

text \<open>\<^verbatim>\<open>p->s.ptr\<close> and \<^verbatim>\<open>p->s.size\<close>.\<close>

abbreviation hptr :: "mem \<Rightarrow> u32 \<Rightarrow> u32" where "hptr m p \<equiv> load32 m p"
abbreviation hsize :: "mem \<Rightarrow> u32 \<Rightarrow> u32" where "hsize m p \<equiv> load32 m (p + 4)"

section \<open>The code\<close>

partial_function (option) free_find :: "mem \<Rightarrow> u32 \<Rightarrow> u32 \<Rightarrow> u32 option" where
  "free_find m bp p =
     (if bp > p \<and> bp < hptr m p then Some p
      else if p \<ge> hptr m p \<and> (bp > p \<or> bp < hptr m p) then Some p
      else free_find m bp (hptr m p))"

definition free :: "u32 \<Rightarrow> uheap \<Rightarrow> uheap option" where
  "free ap s =
     (let bp = ap - 8; m = umem s in
      case free_find m bp (freep s) of None \<Rightarrow> None
      | Some p \<Rightarrow>
          let m2 = (if bp + 8 * hsize m bp = hptr m p
                    then let m1 = store32 m (bp + 4) (hsize m bp + hsize m (hptr m p)) in store32 m1 bp (hptr m1 (hptr m1 p))
                    else store32 m bp (hptr m p));
              m4 = (if p + 8 * hsize m2 p = bp
                    then let m3 = store32 m2 (p + 4) (hsize m2 p + hsize m2 bp) in store32 m3 p (hptr m3 bp)
                    else store32 m2 p bp) in
          Some (s\<lparr>umem := m4, freep := p\<rparr>))"

definition morecore :: "sbrk \<Rightarrow> u32 \<Rightarrow> uheap \<Rightarrow> (u32 \<times> uheap) option" where
  "morecore sbrk nu s =
     (let nu1 = (if nu < 4096 then 4096 else nu); (p, s1) = sbrk (nu1 * 8) s in
      if p = - 1 then Some (0, s1)
      else case free (p + 8) (s1\<lparr>umem := store32 (umem s1) (p + 4) nu1\<rparr>) of None \<Rightarrow> None | Some s2 \<Rightarrow> Some (freep s2, s2))"

text \<open>The block that is taken from the free block \<open>p\<close> behind \<open>prevp\<close>.\<close>

definition take_block :: "u32 \<Rightarrow> u32 \<Rightarrow> u32 \<Rightarrow> uheap \<Rightarrow> u32 \<times> uheap" where
  "take_block nunits prevp p s =
     (let m = umem s in
      if hsize m p = nunits then (p + 8, s\<lparr>umem := store32 m prevp (hptr m p), freep := prevp\<rparr>)
      else let m1 = store32 m (p + 4) (hsize m p - nunits); q = p + 8 * hsize m1 p in
        (q + 8, s\<lparr>umem := store32 m1 (q + 4) nunits, freep := prevp\<rparr>))"

partial_function (option) malloc_loop :: "sbrk \<Rightarrow> u32 \<Rightarrow> u32 \<Rightarrow> u32 \<Rightarrow> uheap \<Rightarrow> (u32 \<times> uheap) option" where
  "malloc_loop sbrk nunits prevp p s =
     (if hsize (umem s) p \<ge> nunits then Some (take_block nunits prevp p s)
      else if p = freep s
      then Option.bind (morecore sbrk nunits s) (\<lambda>(r, s1).
        if r = 0 then Some (0, s1) else malloc_loop sbrk nunits r (hptr (umem s1) r) s1)
      else malloc_loop sbrk nunits p (hptr (umem s) p) s)"

definition malloc :: "sbrk \<Rightarrow> u32 \<Rightarrow> u32 \<Rightarrow> uheap \<Rightarrow> (u32 \<times> uheap) option" where
  "malloc sbrk base nbytes s =
     (let nunits = (nbytes + 8 - 1) div 8 + 1;
          s1 = (if freep s = 0 then s\<lparr>umem := store32 (store32 (umem s) base base) (base + 4) 0, freep := base\<rparr> else s) in
      malloc_loop sbrk nunits (freep s1) (hptr (umem s1) (freep s1)) s1)"

text \<open>The thread functions, over the system calls \<^verbatim>\<open>clone\<close> and \<^verbatim>\<open>join\<close>.\<close>

definition thread_create :: "sbrk \<Rightarrow> u32 \<Rightarrow> (u32 \<Rightarrow> u32 \<Rightarrow> u32 \<Rightarrow> u32 \<Rightarrow> uheap \<Rightarrow> int \<times> uheap) \<Rightarrow> u32 \<Rightarrow> u32 \<Rightarrow> u32 \<Rightarrow> uheap \<Rightarrow> (int \<times> uheap) option" where
  "thread_create sbrk base clone start_routine arg1 arg2 s =
     (case malloc sbrk base 4096 s of None \<Rightarrow> None | Some (stack, s1) \<Rightarrow> Some (clone start_routine arg1 arg2 stack s1))"

definition thread_join :: "(uheap \<Rightarrow> (int \<times> u32) \<times> uheap) \<Rightarrow> uheap \<Rightarrow> int \<times> uheap" where
  "thread_join join s = (let ((r, stack), s1) = join s in (r, s1))"

text \<open>\<^verbatim>\<open>sbrk\<close> as the process sees it: \<open>grows\<close> tells whether \<^verbatim>\<open>allocuvm\<close> gets the pages; new pages hold zeros.\<close>

definition usbrk :: "(u32 \<Rightarrow> u32 \<Rightarrow> bool) \<Rightarrow> sbrk" where
  "usbrk grows n s =
     (let sz = brk s; new = sz + n;
          r = (if sint n > 0 then if new \<ge> KERNBASE then 0 else if new < sz then sz else if grows sz new then new else 0
               else if sint n < 0 then if new \<ge> sz then sz else new
               else sz) in
      if sint n \<noteq> 0 \<and> r = 0 then (- 1, s)
      else (sz, s\<lparr>brk := r, umem := (\<lambda>x. if PGROUNDUP sz \<le> x \<and> x < PGROUNDUP r then 0 else umem s x)\<rparr>))"

section \<open>Words in memory\<close>

definition ld :: "mem \<Rightarrow> nat \<Rightarrow> nat" where "ld m x = unat (load32 m (of_nat x))"
definition st :: "mem \<Rightarrow> nat \<Rightarrow> nat \<Rightarrow> mem" where "st m x v = store32 m (of_nat x) (of_nat v)"

lemma st_other:
  assumes "y < x \<or> x + 4 \<le> y" "x + 4 \<le> 2 ^ 32" "y < 2 ^ 32"
  shows "st m x v (of_nat y) = m (of_nat y)"
proof -
  have "(of_nat y :: u32) \<noteq> of_nat (x + k)" if "k < 4" for k
  proof
    assume "(of_nat y :: u32) = of_nat (x + k)"
    then have "unat (of_nat y :: u32) = unat (of_nat (x + k) :: u32)" by simp
    then show False using assms that by (simp add: unat_of_nat_u32 del: of_nat_add)
  qed
  from this[of 0] this[of 1] this[of 2] this[of 3] show ?thesis by (simp add: st_def store32_def add.commute)
qed

lemma ld_cong:
  assumes "\<And>k. k < 4 \<Longrightarrow> m' (of_nat (x + k)) = m (of_nat (x + k))"
  shows "ld m' x = ld m x"
  using assms[of 0] assms[of 1] assms[of 2] assms[of 3] by (simp add: ld_def load32_def add.commute)

lemma ld_st_same: "v < 2 ^ 32 \<Longrightarrow> ld (st m x v) x = v"
  by (simp add: ld_def st_def unat_of_nat_u32)

lemma ld_st_other: "y + 4 \<le> x \<or> x + 4 \<le> y \<Longrightarrow> x + 4 \<le> 2 ^ 32 \<Longrightarrow> y + 4 \<le> 2 ^ 32 \<Longrightarrow> ld (st m x v) y = ld m y"
  by (rule ld_cong) (rule st_other, auto)

lemma ld_bound: "ld m x < 2 ^ 32"
  unfolding ld_def by (rule unat_less_2p32)

lemma of_nat_ld: "of_nat (ld m x) = load32 m (of_nat x)"
  by (simp add: ld_def)

section \<open>The free list\<close>

text \<open>A block is its address and its size in units; the header of \<^verbatim>\<open>base\<close> has size 0.\<close>

type_synonym blk = "nat \<times> nat"

definition bend :: "blk \<Rightarrow> nat" where "bend x = fst x + 8 * max 1 (snd x)"

definition before :: "blk \<Rightarrow> blk \<Rightarrow> bool" where "before x y \<longleftrightarrow> bend x \<le> fst y"

definition apart :: "blk \<Rightarrow> blk \<Rightarrow> bool" where "apart x y \<longleftrightarrow> bend x \<le> fst y \<or> bend y \<le> fst x"

text \<open>The blocks \<open>xs\<close> are linked from address \<open>a\<close> on, and the last one points to \<open>e\<close>.\<close>

fun seg :: "mem \<Rightarrow> nat \<Rightarrow> blk list \<Rightarrow> nat \<Rightarrow> bool" where
  "seg m a [] e \<longleftrightarrow> a = e"
| "seg m a (x # xs) e \<longleftrightarrow> a = fst x \<and> ld m (fst x + 4) = snd x \<and> seg m (ld m (fst x)) xs e"

lemma blocks_append: "seg m a (xs @ ys) e \<longleftrightarrow> (\<exists>c. seg m a xs c \<and> seg m c ys e)"
  by (induction xs arbitrary: a) auto

lemma seg_frame:
  "(\<And>x. x \<in> set xs \<Longrightarrow> ld m' (fst x) = ld m (fst x) \<and> ld m' (fst x + 4) = ld m (fst x + 4)) \<Longrightarrow> seg m' a xs e = seg m a xs e"
  by (induction xs arbitrary: a) auto

definition start :: "blk list \<Rightarrow> nat \<Rightarrow> nat" where "start xs e = (case xs of [] \<Rightarrow> e | x # _ \<Rightarrow> fst x)"

lemma start_simps [simp]: "start [] e = e" "start (x # xs) e = fst x"
  by (simp_all add: start_def)

lemma seg_start: "seg m a xs e \<Longrightarrow> a = start xs e"
  by (cases xs) auto

lemma seg_next:
  assumes "seg m a (xs @ x # ys) e"
  shows "ld m (fst x) = start ys e" "ld m (fst x + 4) = snd x" "seg m (start ys e) ys e" "seg m a xs (fst x)"
proof -
  have s: "seg m a xs (fst x)" "ld m (fst x + 4) = snd x" "seg m (ld m (fst x)) ys e" using assms by (auto simp: blocks_append)
  moreover note seg_start[OF s(3)]
  ultimately show "ld m (fst x) = start ys e" "ld m (fst x + 4) = snd x" "seg m (start ys e) ys e" "seg m a xs (fst x)" by simp_all
qed

lemma bend_gt: "fst x + 8 \<le> bend x" "fst x + 8 * snd x \<le> bend x"
  by (simp_all add: bend_def)

lemma before_less: "before x y \<Longrightarrow> fst x + 8 \<le> fst y"
  using bend_gt[of x] by (simp add: before_def)

lemma sorted_split:
  assumes "sorted_wrt before (A @ p # B)"
  shows "\<And>x. x \<in> set A \<Longrightarrow> before x p" "\<And>x. x \<in> set B \<Longrightarrow> before p x" "sorted_wrt before A" "sorted_wrt before B"
    "\<And>x y. x \<in> set A \<Longrightarrow> y \<in> set B \<Longrightarrow> before x y"
  using assms by (auto simp: sorted_wrt_append)

section \<open>The search of free\<close>

lemma of_nat_less: "a < 2 ^ 32 \<Longrightarrow> b < 2 ^ 32 \<Longrightarrow> (of_nat a :: u32) < of_nat b \<longleftrightarrow> a < b"
  and of_nat_eq: "a < 2 ^ 32 \<Longrightarrow> b < 2 ^ 32 \<Longrightarrow> (of_nat a :: u32) = of_nat b \<longleftrightarrow> a = b"
  and of_nat_le: "a < 2 ^ 32 \<Longrightarrow> b < 2 ^ 32 \<Longrightarrow> (of_nat a :: u32) \<le> of_nat b \<longleftrightarrow> a \<le> b"
  by (simp_all add: word_less_nat_alt word_le_nat_alt word_unat_eq_iff unat_of_nat_u32)

definition stops :: "mem \<Rightarrow> nat \<Rightarrow> nat \<Rightarrow> bool" where
  "stops m b p \<longleftrightarrow> p < b \<and> b < ld m p \<or> ld m p \<le> p \<and> (p < b \<or> b < ld m p)"

lemma free_find_step:
  assumes "p < 2 ^ 32" "b < 2 ^ 32"
  shows "free_find m (of_nat b) (of_nat p) = (if stops m b p then Some (of_nat p) else free_find m (of_nat b) (of_nat (ld m p)))"
proof -
  have l: "load32 m (of_nat p) = of_nat (ld m p)" by (simp add: of_nat_ld)
  note b = ld_bound[of m p]
  show ?thesis
    by (subst free_find.simps) (simp only: l of_nat_less[OF assms] of_nat_less[OF assms(2) b] of_nat_le[OF b assms(1)] stops_def, auto)
qed

lemma free_find_walk:
  assumes "seg m a xs e" "b < 2 ^ 32" "\<And>x. x \<in> set xs \<Longrightarrow> fst x < 2 ^ 32 \<and> \<not> stops m b (fst x)"
  shows "free_find m (of_nat b) (of_nat a) = free_find m (of_nat b) (of_nat e)"
  using assms(1,3)
proof (induction xs arbitrary: a)
  case (Cons x xs)
  then show ?case using free_find_step[of "fst x" b m] assms(2) by simp
qed simp

lemma start_sorted:
  assumes "sorted_wrt before (x # ys @ p # zs)"
  shows "fst x < start (ys @ [p]) e" "start (ys @ [p]) e \<le> fst p"
  using assms by (cases ys; auto dest!: before_less simp: sorted_wrt_append)+

lemma free_find_spec:
  assumes F: "F = A @ p # B" "seg m base F base" "sorted_wrt before F" "\<And>x. x \<in> set F \<Longrightarrow> base \<le> fst x \<and> fst x < 2 ^ 32"
    and b: "b < 2 ^ 32" "fst p < b" "\<And>x. x \<in> set B \<Longrightarrow> b < fst x" and x: "x \<in> set F"
  shows "free_find m (of_nat b) (of_nat (fst x)) = Some (of_nat (fst p))"
proof -
  note sp = seg_next[OF F(2)[unfolded F(1)]] and so = sorted_split[OF F(3)[unfolded F(1)]]
  have bp: "base < b" using F(1) F(4)[of p] b(2) by simp
  have A: "fst y < 2 ^ 32 \<and> \<not> stops m b (fst y)" if "y \<in> set A" for y
  proof -
    obtain A1 A2 where y: "A = A1 @ y # A2" using split_list[OF \<open>y \<in> set A\<close>] by blast
    have "ld m (fst y) = start (A2 @ p # B) base" using seg_next(1)[of m base A1 y "A2 @ p # B" base] F(1,2) y by simp
    also have "\<dots> = start (A2 @ [p]) base" by (cases A2) simp_all
    finally have n: "ld m (fst y) = start (A2 @ [p]) base" .
    have "sorted_wrt before (y # A2 @ p # B)" using F(1,3) y by (simp add: sorted_wrt_append)
    then show ?thesis using start_sorted[of y A2 p B base] n b(2) F(1,4) that unfolding stops_def by auto
  qed
  have B: "fst y < 2 ^ 32 \<and> \<not> stops m b (fst y)" if "y \<in> set B" for y
  proof -
    obtain B1 B2 where y: "B = B1 @ y # B2" using split_list[OF \<open>y \<in> set B\<close>] by blast
    have n: "ld m (fst y) = start B2 base" using seg_next(1)[of m base "A @ p # B1" y B2 base] F(1,2) y by simp
    have "start B2 base = base \<or> fst y < start B2 base" using so(4) y by (cases B2) (auto simp: sorted_wrt_append dest!: before_less)
    then show ?thesis using n b(3)[OF that] bp F(1,4) that unfolding stops_def by auto
  qed
  have "stops m b (fst p)"
  proof (cases B)
    case Nil
    then show ?thesis using sp(1) b(2) F(1,4) by (auto simp: stops_def)
  next
    case (Cons y ys)
    then show ?thesis using sp(1) b(2) b(3)[of y] by (simp add: stops_def)
  qed
  then have P: "free_find m (of_nat b) (of_nat (fst p)) = Some (of_nat (fst p))" using free_find_step[of "fst p" b m] F(1,4) b(1) by simp
  consider "x \<in> set A" | "x = p" | "x \<in> set B" using x F(1) by auto
  then show ?thesis
  proof cases
    case 1
    then obtain A1 A2 where y: "A = A1 @ x # A2" using split_list by fast
    then have sg: "seg m (fst x) (x # A2) (fst p)" using sp(4) by (auto simp: blocks_append dest: seg_start)
    have "free_find m (of_nat b) (of_nat (fst x)) = free_find m (of_nat b) (of_nat (fst p))"
      by (rule free_find_walk[OF sg b(1)]) (use A y in auto)
    then show ?thesis using P by simp
  next
    case 3
    then obtain B1 B2 where y: "B = B1 @ x # B2" using split_list by fast
    then have sg: "seg m (fst x) (x # B2) base" using sp(3) by (auto simp: blocks_append dest: seg_start)
    have "free_find m (of_nat b) (of_nat (fst x)) = free_find m (of_nat b) (of_nat base)"
      by (rule free_find_walk[OF sg b(1)]) (use B y in auto)
    also have "\<dots> = Some (of_nat (fst p))" using free_find_walk[OF sp(4) b(1)] A P by simp
    finally show ?thesis .
  qed (simp add: P)
qed

section \<open>Well-formed heaps\<close>

text \<open>The free list \<open>F\<close> is sorted, starts with \<^verbatim>\<open>base\<close> and is linked in a circle; \<open>L\<close> gives the sizes of the blocks that are in use, by
  the addresses of their headers. All blocks are disjoint and end below the program break.\<close>

definition heap :: "nat \<Rightarrow> uheap \<Rightarrow> blk list \<Rightarrow> (nat \<Rightarrow> nat option) \<Rightarrow> bool" where
  "heap base s F L \<longleftrightarrow> F \<noteq> [] \<and> hd F = (base, 0) \<and> sorted_wrt before F \<and> (\<forall>x \<in> set (tl F). 0 < snd x) \<and>
     seg (umem s) base F base \<and> (\<exists>x \<in> set F. freep s = of_nat (fst x)) \<and> (\<forall>x \<in> set F. bend x \<le> unat (brk s)) \<and>
     unat (brk s) < 2 ^ 31 \<and> 0 < base \<and>
     (\<forall>a n. L a = Some n \<longrightarrow> 0 < n \<and> base + 8 \<le> a \<and> a + 8 * n \<le> unat (brk s) \<and> ld (umem s) (a + 4) = n \<and> (\<forall>x \<in> set F. apart (a, n) x)) \<and>
     (\<forall>a n a' n'. L a = Some n \<longrightarrow> L a' = Some n' \<longrightarrow> a \<noteq> a' \<longrightarrow> apart (a, n) (a', n'))"

lemma heapD:
  assumes "heap base s F L"
  shows "F \<noteq> []" "hd F = (base, 0)" "sorted_wrt before F" "\<And>x. x \<in> set (tl F) \<Longrightarrow> 0 < snd x" "seg (umem s) base F base"
    "\<exists>x \<in> set F. freep s = of_nat (fst x)" "\<And>x. x \<in> set F \<Longrightarrow> bend x \<le> unat (brk s)" "unat (brk s) < 2 ^ 31" "0 < base"
    "\<And>a n. L a = Some n \<Longrightarrow> 0 < n \<and> base + 8 \<le> a \<and> a + 8 * n \<le> unat (brk s) \<and> ld (umem s) (a + 4) = n \<and> (\<forall>x \<in> set F. apart (a, n) x)"
    "\<And>a n a' n'. L a = Some n \<Longrightarrow> L a' = Some n' \<Longrightarrow> a \<noteq> a' \<Longrightarrow> apart (a, n) (a', n')"
  using assms unfolding heap_def by blast+

lemma heapI:
  assumes "F = (base, 0) # G" "sorted_wrt before F" "\<And>x. x \<in> set G \<Longrightarrow> 0 < snd x" "seg (umem s) base F base"
    "x \<in> set F" "freep s = of_nat (fst x)" "\<And>x. x \<in> set F \<Longrightarrow> bend x \<le> unat (brk s)" "unat (brk s) < 2 ^ 31" "0 < base"
    "\<And>a n. L a = Some n \<Longrightarrow> 0 < n \<and> base + 8 \<le> a \<and> a + 8 * n \<le> unat (brk s) \<and> ld (umem s) (a + 4) = n"
    "\<And>a n x. L a = Some n \<Longrightarrow> x \<in> set F \<Longrightarrow> apart (a, n) x"
    "\<And>a n a' n'. L a = Some n \<Longrightarrow> L a' = Some n' \<Longrightarrow> a \<noteq> a' \<Longrightarrow> apart (a, n) (a', n')"
  shows "heap base s F L"
proof -
  have "F \<noteq> []" "hd F = (base, 0)" "tl F = G" using assms(1) by simp_all
  then show ?thesis unfolding heap_def using assms by blast
qed

lemma heap_base:
  assumes "heap base s F L" "x \<in> set F"
  shows "base \<le> fst x" "fst x + 8 \<le> unat (brk s)" "fst x < 2 ^ 31" "x \<noteq> (base, 0) \<Longrightarrow> 0 < snd x" "x \<noteq> (base, 0) \<Longrightarrow> base + 8 \<le> fst x"
proof -
  note h = heapD[OF assms(1)]
  obtain G where G: "F = (base, 0) # G" using h(1,2) by (cases F) auto
  then have g: "x = (base, 0) \<or> x \<in> set G" using assms(2) by simp
  have b: "before (base, 0) x" if "x \<in> set G" using h(3) G that by simp
  show "base \<le> fst x" using g b before_less[of "(base, 0)" x] by auto
  show "x \<noteq> (base, 0) \<Longrightarrow> 0 < snd x" using g h(4)[of x] G by auto
  show "x \<noteq> (base, 0) \<Longrightarrow> base + 8 \<le> fst x" using g b before_less[of "(base, 0)" x] by auto
  show "fst x + 8 \<le> unat (brk s)" "fst x < 2 ^ 31" using h(7)[OF assms(2)] bend_gt(1)[of x] h(8) by linarith+
qed

lemma live_bound: "heap base s F L \<Longrightarrow> L b = Some n \<Longrightarrow> b + 8 * n < 2 ^ 32"
  using heapD(8,10)[of base s F L] by fastforce

text \<open>Memory changes in the headers at \<open>xs\<close> only.\<close>

definition only :: "mem \<Rightarrow> mem \<Rightarrow> nat list \<Rightarrow> bool" where
  "only m m' xs \<longleftrightarrow> (\<forall>y < 2 ^ 32. (\<forall>x \<in> set xs. y < x \<or> x + 8 \<le> y) \<longrightarrow> m' (of_nat y) = m (of_nat y))"

lemma only_ld:
  assumes "only m m' xs" "\<And>x. x \<in> set xs \<Longrightarrow> y + 4 \<le> x \<or> x + 8 \<le> y" "y + 4 \<le> 2 ^ 32"
  shows "ld m' y = ld m y"
proof (rule ld_cong)
  fix k :: nat assume k: "k < 4"
  have "y + k < x \<or> x + 8 \<le> y + k" if "x \<in> set xs" for x using assms(2)[OF that] k by linarith
  moreover have "y + k < 2 ^ 32" using assms(3) k by linarith
  ultimately show "m' (of_nat (y + k)) = m (of_nat (y + k))" using assms(1) unfolding only_def by blast
qed

lemma only_st: "a = x \<or> a = x + 4 \<Longrightarrow> x + 8 \<le> 2 ^ 32 \<Longrightarrow> only m (st m a v) [x]"
  unfolding only_def by (auto intro!: st_other)

lemma only_trans: "only m m1 xs \<Longrightarrow> only m1 m2 ys \<Longrightarrow> only m m2 (xs @ ys)"
  by (simp add: only_def ball_Un)

lemma only_mono: "only m m' xs \<Longrightarrow> set xs \<subseteq> set ys \<Longrightarrow> only m m' ys"
  unfolding only_def by blast

lemma only_st2:
  assumes "x + 8 \<le> 2 ^ 32"
  shows "only m (st (st m (x + 4) v) x w) [x]"
proof -
  have "only m (st m (x + 4) v) [x]" "only (st m (x + 4) v) (st (st m (x + 4) v) x w) [x]" using assms by (simp_all add: only_st)
  from only_trans[OF this] show ?thesis by (rule only_mono) simp
qed

section \<open>Freeing a block\<close>

text \<open>The two halves of \<^verbatim>\<open>free\<close> on natural numbers.\<close>

definition up :: "mem \<Rightarrow> nat \<Rightarrow> nat \<Rightarrow> mem" where
  "up m a p = (if a + 8 * ld m (a + 4) = ld m p
     then let m1 = st m (a + 4) (ld m (a + 4) + ld m (ld m p + 4)) in st m1 a (ld m1 (ld m1 p))
     else st m a (ld m p))"

definition down :: "mem \<Rightarrow> nat \<Rightarrow> nat \<Rightarrow> mem" where
  "down m a p = (if p + 8 * ld m (p + 4) = a
     then let m3 = st m (p + 4) (ld m (p + 4) + ld m (a + 4)) in st m3 p (ld m3 a)
     else st m p a)"

lemma free_nat:
  assumes "free_find (umem s) (of_nat a) (freep s) = Some (of_nat p)"
    and "a + 8 * ld (umem s) (a + 4) < 2 ^ 32" "p + 8 * ld (up (umem s) a p) (p + 4) < 2 ^ 32"
  shows "free (of_nat (a + 8)) s = Some (s\<lparr>umem := down (up (umem s) a p) a p, freep := of_nat p\<rparr>)"
proof -
  have bp: "(of_nat (a + 8) :: u32) - 8 = of_nat a" by simp
  have o: "load32 m (of_nat x) = of_nat (ld m x)" "load32 m (of_nat x + 4) = of_nat (ld m (x + 4))" for m x
    using of_nat_ld[of m x] of_nat_ld[of m "x + 4"] by simp_all
  have s: "store32 m (of_nat x) (of_nat v) = st m x v" "store32 m (of_nat x + 4) (of_nat v) = st m (x + 4) v" for m x v by (simp_all add: st_def)
  have al: "a < 2 ^ 32" using assms(2) by linarith
  have e1: "(of_nat a + 8 * of_nat (ld (umem s) (a + 4)) :: u32) = of_nat (ld (umem s) p) \<longleftrightarrow> a + 8 * ld (umem s) (a + 4) = ld (umem s) p"
    using of_nat_eq[OF assms(2) ld_bound] by simp
  have e2: "(of_nat p + 8 * of_nat (ld (up (umem s) a p) (p + 4)) :: u32) = of_nat a \<longleftrightarrow> p + 8 * ld (up (umem s) a p) (p + 4) = a"
    using of_nat_eq[OF assms(3) al] by simp
  have u: "(if of_nat a + 8 * load32 (umem s) (of_nat a + 4) = load32 (umem s) (of_nat p)
      then let m1 = store32 (umem s) (of_nat a + 4) (load32 (umem s) (of_nat a + 4) + load32 (umem s) (load32 (umem s) (of_nat p) + 4))
           in store32 m1 (of_nat a) (load32 m1 (load32 m1 (of_nat p)))
      else store32 (umem s) (of_nat a) (load32 (umem s) (of_nat p))) = up (umem s) a p"
    unfolding up_def Let_def o e1 s of_nat_add[symmetric] ..
  have d: "(if of_nat p + 8 * load32 m (of_nat p + 4) = of_nat a
      then let m3 = store32 m (of_nat p + 4) (load32 m (of_nat p + 4) + load32 m (of_nat a + 4)) in store32 m3 (of_nat p) (load32 m3 (of_nat a))
      else store32 m (of_nat p) (of_nat a)) = down m a p" if "m = up (umem s) a p" for m
    using that unfolding down_def Let_def o e2 s of_nat_add[symmetric] by (simp only: e2)
  show ?thesis unfolding free_def Let_def bp assms(1) option.case u[unfolded Let_def] d[OF refl, unfolded Let_def] ..
qed

lemma up_spec:
  assumes B: "seg m (start B base) B base" "ld m p = start B base" and n: "ld m (a + 4) = n" "0 < n" and a: "p + 8 \<le> a" "base < a"
    and BB: "\<And>x. x \<in> set B \<Longrightarrow> a + 8 * n \<le> fst x \<and> bend x < 2 ^ 31" and lim: "a + 8 * n < 2 ^ 31"
  obtains n' B' where "only m (up m a p) [a]" "ld (up m a p) a = start B' base" "ld (up m a p) (a + 4) = n'"
    "n' = n \<and> B' = B \<or> (\<exists>k. B = (a + 8 * n, k) # B' \<and> n' = n + k)"
proof (cases "a + 8 * n = start B base")
  case True
  then obtain k C where C: "B = (a + 8 * n, k) # C" using a(2) by (cases B) auto
  have k: "ld m (a + 8 * n + 4) = k" "ld m (a + 8 * n) = start C base" using B(1) C by (auto dest: seg_start)
  have kb: "a + 8 * n + 8 * k < 2 ^ 31" using BB[of "(a + 8 * n, k)"] C bend_gt(2)[of "(a + 8 * n, k)"] by simp
  define m1 where "m1 = st m (a + 4) (n + k)"
  have l1: "ld m1 p = a + 8 * n" "ld m1 (a + 8 * n) = start C base" "ld m1 (a + 4) = n + k"
    unfolding m1_def using a(1) n(2) lim kb B(2) True k(2) by (simp_all add: ld_st_other ld_st_same)
  have u: "up m a p = st m1 a (start C base)"
    unfolding up_def Let_def n(1) B(2) True[symmetric] k(1) m1_def[symmetric] l1(1,2) by simp
  have o: "only m (up m a p) [a]" unfolding u m1_def using lim n(2) by (intro only_st2) simp
  have "ld (up m a p) a = start C base" "ld (up m a p) (a + 4) = n + k"
    unfolding u using ld_st_same[of "start C base" m1 a] ld_st_other[of "a + 4" a m1] l1(3) lim ld_bound[of m "a + 8 * n"] k(2) by simp_all
  then show ?thesis using that[OF o] C by blast
next
  case False
  then have u: "up m a p = st m a (start B base)" unfolding up_def n(1) B(2) by simp
  have "only m (up m a p) [a]" unfolding u using lim by (intro only_st) simp_all
  moreover have "ld (up m a p) a = start B base" "ld (up m a p) (a + 4) = n"
    unfolding u using ld_st_same[of "start B base" m a] ld_st_other[of "a + 4" a m] lim ld_bound[of m p] B(2) n(1) by simp_all
  ultimately show ?thesis using that by blast
qed

lemma down_spec:
  assumes "ld m (p + 4) = k" "ld m a = nx" "ld m (a + 4) = n" "p + 8 \<le> a" "a + 8 * n < 2 ^ 31"
  shows "only m (down m a p) [p]" "ld (down m a p) p = (if p + 8 * k = a then nx else a)" "ld (down m a p) (p + 4) = (if p + 8 * k = a then k + n else k)"
proof -
  define m3 where "m3 = st m (p + 4) (k + n)"
  have d: "down m a p = (if p + 8 * k = a then st m3 p nx else st m p a)"
    unfolding down_def Let_def assms(1,3) m3_def[symmetric] using ld_st_other[of a "p + 4" m "k + n"] assms(2,4,5) by (simp add: m3_def)
  have "only m (st m3 p nx) [p]" unfolding m3_def using assms(4,5) by (intro only_st2) simp
  moreover have "only m (st m p a) [p]" using assms(4,5) by (intro only_st) simp_all
  ultimately show "only m (down m a p) [p]" unfolding d by simp
  show "ld (down m a p) p = (if p + 8 * k = a then nx else a)"
    unfolding d using ld_st_same[of nx m3 p] ld_st_same[of a m p] ld_bound[of m a] assms by simp
  have "k + n < 2 ^ 32" if "p + 8 * k = a" using assms(5) that by simp
  then show "ld (down m a p) (p + 4) = (if p + 8 * k = a then k + n else k)"
    unfolding d m3_def using ld_st_other[of "p + 4" p] ld_st_same[of "k + n" m "p + 4"] assms by simp
qed

lemma apart_join:
  assumes "apart y (u, s1)" "apart y (u + 8 * s1, s2)" "0 < s1" "0 < s2"
  shows "apart y (u, s1 + s2)"
  using assms bend_gt(1)[of y] unfolding apart_def bend_def by (auto simp: max_def split: if_splits)

lemma apart_sym: "apart x y \<longleftrightarrow> apart y x"
  by (auto simp: apart_def)

text \<open>The contents of the blocks in use stay.\<close>

definition same_on :: "(nat \<Rightarrow> nat option) \<Rightarrow> mem \<Rightarrow> mem \<Rightarrow> bool" where
  "same_on L m m' \<longleftrightarrow> (\<forall>a n y. L a = Some n \<longrightarrow> a \<le> y \<longrightarrow> y < a + 8 * n \<longrightarrow> m' (of_nat y) = m (of_nat y))"

lemma only_same_on:
  assumes o: "only m m' xs" and x: "\<And>a n x. L a = Some n \<Longrightarrow> x \<in> set xs \<Longrightarrow> x + 8 \<le> a \<or> a + 8 * n \<le> x"
    and l: "\<And>a n. L a = Some n \<Longrightarrow> a + 8 * n < 2 ^ 32"
  shows "same_on L m m'"
  unfolding same_on_def
proof (intro allI impI)
  fix a n y assume y: "L a = Some n" "a \<le> y" "y < a + 8 * n"
  have "y < x \<or> x + 8 \<le> y" if "x \<in> set xs" for x using x[OF y(1) that] y(2,3) by linarith
  moreover have "y < 2 ^ 32" using l[OF y(1)] y(3) by linarith
  ultimately show "m' (of_nat y) = m (of_nat y)" using o unfolding only_def by blast
qed

lemma same_on_size: "same_on L m m' \<Longrightarrow> L a = Some n \<Longrightarrow> 0 < n \<Longrightarrow> ld m' (a + 4) = ld m (a + 4)"
proof (rule ld_cong)
  fix k :: nat assume a: "same_on L m m'" "L a = Some n" "0 < n" "k < 4"
  have "a \<le> a + 4 + k" "a + 4 + k < a + 8 * n" using a(3,4) by auto
  then show "m' (of_nat (a + 4 + k)) = m (of_nat (a + 4 + k))" using a(1,2) unfolding same_on_def by blast
qed

lemma split_sorted:
  assumes "sorted_wrt before F" "hd F = (base, 0)" "F \<noteq> []" "base < a"
  obtains A p B where "F = A @ p # B" "fst p < a" "\<And>x. x \<in> set B \<Longrightarrow> a \<le> fst x"
proof -
  let ?P = "\<lambda>x. fst x < a"
  have ne: "takeWhile ?P F \<noteq> []" using assms(2-4) by (cases F) auto
  have "F = butlast (takeWhile ?P F) @ last (takeWhile ?P F) # dropWhile ?P F" using append_butlast_last_id[OF ne] by (metis append.assoc append_Cons append_Nil takeWhile_dropWhile_id)
  moreover have "fst (last (takeWhile ?P F)) < a" using set_takeWhileD[OF last_in_set[OF ne]] by simp
  moreover have "a \<le> fst x" if x: "x \<in> set (dropWhile ?P F)" for x
  proof -
    obtain z C where z: "dropWhile ?P F = z # C" using x by (cases "dropWhile ?P F") auto
    then have "\<not> fst z < a" by (simp add: dropWhile_eq_Cons_conv)
    moreover have "sorted_wrt before (z # C)" using assms(1) z by (metis sorted_wrt_append takeWhile_dropWhile_id)
    ultimately show ?thesis using x z before_less[of z x] by auto
  qed
  ultimately show ?thesis using that by blast
qed

lemma free_list:
  assumes h: "heap base s F L" and a: "L a = Some n"
  obtains A p B where "F = A @ p # B" "bend p \<le> a" "\<And>x. x \<in> set B \<Longrightarrow> a + 8 * n \<le> fst x"
    "free_find (umem s) (of_nat a) (freep s) = Some (of_nat (fst p))"
proof -
  note hD = heapD[OF h] and hb = heap_base[OF h]
  have n: "0 < n" "base + 8 \<le> a" "a + 8 * n \<le> unat (brk s)" "\<And>x. x \<in> set F \<Longrightarrow> apart (a, n) x" using hD(10)[OF a] by auto
  have ba: "base < a" using n(2) by simp
  obtain A p B where F: "F = A @ p # B" "fst p < a" "\<And>x. x \<in> set B \<Longrightarrow> a \<le> fst x" by (rule split_sorted[OF hD(3,2,1) ba]) blast
  have B: "a + 8 * n \<le> fst x" if x: "x \<in> set B" for x
    using F(3)[OF x] n(4)[of x] F(1) x bend_gt[of x] n(1) unfolding apart_def by (auto simp: bend_def)
  have p: "bend p \<le> a" using n(4)[of p] F(1,2) n(1) unfolding apart_def by (auto simp: bend_def)
  obtain x where x: "x \<in> set F" "freep s = of_nat (fst x)" using hD(6) by blast
  have "a < 2 ^ 32" using n(1,3) hD(8) by simp
  moreover have "base \<le> fst x \<and> fst x < 2 ^ 32" if y: "x \<in> set F" for x using hb(1,3)[OF y] by simp
  moreover have "a < fst x" if y: "x \<in> set B" for x using B[OF y] n(1) by simp
  ultimately have "free_find (umem s) (of_nat a) (of_nat (fst x)) = Some (of_nat (fst p))"
    using F(2) x(1) by (intro free_find_spec[OF F(1) hD(5,3)]) simp_all
  then show ?thesis using that[OF F(1) p B] x(2) by simp
qed

text \<open>What the block and the rest of the list look like when the block has swallowed the one behind it.\<close>

lemma up_tail:
  assumes "n' = n \<and> B' = B \<or> (\<exists>k. B = (a + 8 * n, k) # B' \<and> n' = n + k)" "0 < n" "\<forall>x \<in> set B. 0 < snd x \<and> a + 8 * n \<le> fst x"
    and "seg m (start B base) B base" "sorted_wrt before B"
  shows "n \<le> n'" "set B' \<subseteq> set B" "seg m (start B' base) B' base" "sorted_wrt before ((a, n') # B')"
    "apart y (a, n) \<Longrightarrow> (\<And>x. x \<in> set B \<Longrightarrow> apart y x) \<Longrightarrow> apart y (a, n')"
    "a + 8 * n \<le> e \<Longrightarrow> (\<And>x. x \<in> set B \<Longrightarrow> bend x \<le> e) \<Longrightarrow> a + 8 * n' \<le> e"
proof -
  have "n \<le> n' \<and> set B' \<subseteq> set B \<and> seg m (start B' base) B' base \<and> sorted_wrt before ((a, n') # B') \<and>
    (apart y (a, n) \<longrightarrow> (\<forall>x \<in> set B. apart y x) \<longrightarrow> apart y (a, n')) \<and> (a + 8 * n \<le> e \<longrightarrow> (\<forall>x \<in> set B. bend x \<le> e) \<longrightarrow> a + 8 * n' \<le> e)" for y e
    using assms(1)
  proof
    assume "n' = n \<and> B' = B"
    then show ?thesis using assms(2-5) by (auto simp: before_def bend_def)
  next
    assume "\<exists>k. B = (a + 8 * n, k) # B' \<and> n' = n + k"
    then obtain k where k: "B = (a + 8 * n, k) # B'" "n' = n + k" by blast
    have pos: "0 < k" using assms(3) k(1) by force
    have sg: "seg m (start B' base) B' base" using seg_next(3)[of m _ "[]" "(a + 8 * n, k)" B' base] assms(4) k(1) by simp
    have "before (a, n') x" if "x \<in> set B'" for x using assms(2,5) k pos that by (auto simp: before_def bend_def)
    then show ?thesis using assms(2,5) k pos sg apart_join[of y a n k] by (auto simp: bend_def)
  qed
  then show "n \<le> n'" "set B' \<subseteq> set B" "seg m (start B' base) B' base" "sorted_wrt before ((a, n') # B')"
    "apart y (a, n) \<Longrightarrow> (\<And>x. x \<in> set B \<Longrightarrow> apart y x) \<Longrightarrow> apart y (a, n')"
    "a + 8 * n \<le> e \<Longrightarrow> (\<And>x. x \<in> set B \<Longrightarrow> bend x \<le> e) \<Longrightarrow> a + 8 * n' \<le> e" by blast+
qed

text \<open>The memory after \<^verbatim>\<open>free\<close>: the block, perhaps with the one behind it, follows \<open>p\<close> or has become a part of it.\<close>

lemma free_memory:
  assumes h: "heap base s F L" and a: "L a = Some n"
  obtains A p B n' B' m where "F = A @ p # B" "bend p \<le> a" "n' = n \<and> B' = B \<or> (\<exists>k. B = (a + 8 * n, k) # B' \<and> n' = n + k)"
    "\<forall>x \<in> set B. 0 < snd x \<and> a + 8 * n \<le> fst x" "free (of_nat (a + 8)) s = Some (s\<lparr>umem := m, freep := of_nat (fst p)\<rparr>)"
    "only (umem s) m [a, fst p]" "seg m base A (fst p)" "seg m (start B' base) B' base" "ld m a = start B' base" "ld m (a + 4) = n'"
    "ld m (fst p) = (if fst p + 8 * snd p = a then start B' base else a)" "ld m (fst p + 4) = (if fst p + 8 * snd p = a then snd p + n' else snd p)"
proof -
  note hD = heapD[OF h] and hb = heap_base[OF h]
  have n: "0 < n" "base + 8 \<le> a" "a + 8 * n \<le> unat (brk s)" "ld (umem s) (a + 4) = n" using hD(10)[OF a] by auto
  obtain A p B where F: "F = A @ p # B" "bend p \<le> a" "\<And>x. x \<in> set B \<Longrightarrow> a + 8 * n \<le> fst x"
    "free_find (umem s) (of_nat a) (freep s) = Some (of_nat (fst p))" by (rule free_list[OF h a]) blast
  note sg = seg_next[OF hD(5)[unfolded F(1)]] and so = sorted_split[OF hD(3)[unfolded F(1)]]
  have pa: "fst p + 8 \<le> a" "fst p + 8 * snd p \<le> a" using F(2) bend_gt[of p] by simp_all
  have lim: "a + 8 * n < 2 ^ 31" "base < a" using n hD(8) by simp_all
  have BB: "a + 8 * n \<le> fst x \<and> bend x < 2 ^ 31" if x: "x \<in> set B" for x using F(3)[OF x] hD(7)[of x] F(1) hD(8) x by simp
  let ?m2 = "up (umem s) a (fst p)" and ?m = "down (up (umem s) a (fst p)) a (fst p)"
  obtain n' B' where u: "only (umem s) ?m2 [a]" "ld ?m2 a = start B' base" "ld ?m2 (a + 4) = n'"
    "n' = n \<and> B' = B \<or> (\<exists>k. B = (a + 8 * n, k) # B' \<and> n' = n + k)"
    by (rule up_spec[OF sg(3) sg(1) n(4,1) pa(1) lim(2) BB lim(1)]) blast
  have ps: "ld ?m2 (fst p + 4) = snd p" using only_ld[OF u(1), of "fst p + 4"] pa(1) lim sg(2) by simp
  have "0 < snd x" if x: "x \<in> set B" for x using hD(4)[of x] F(1) x by (cases A) simp_all
  then have posB: "\<forall>x \<in> set B. 0 < snd x \<and> a + 8 * n \<le> fst x" using F(3) by blast
  note ut = up_tail[OF u(4) n(1) posB sg(3) so(4)]
  have "a + 8 * n' \<le> unat (brk s)" using hD(7) F(1) by (intro ut(6)[OF n(3)]) simp
  then have lim': "a + 8 * n' < 2 ^ 31" using hD(8) by simp
  note d = down_spec[OF ps u(2,3) pa(1) lim']
  have fr: "free (of_nat (a + 8)) s = Some (s\<lparr>umem := ?m, freep := of_nat (fst p)\<rparr>)"
    using lim pa n(4) ps by (intro free_nat[OF F(4)]) simp_all
  have o: "only (umem s) ?m [a, fst p]" using only_trans[OF u(1) d(1)] by simp
  have keep: "ld ?m y = ld (umem s) y \<and> ld ?m (y + 4) = ld (umem s) (y + 4)" if "y + 8 \<le> fst p \<or> a + 8 \<le> y" "y < 2 ^ 31" for y
    by (intro conjI only_ld[OF o]) (use that pa(1) in auto)
  have "fst x + 8 \<le> fst p \<and> fst x < 2 ^ 31" if x: "x \<in> set A" for x using before_less[OF so(1)[OF x]] hb(3)[of x] x F(1) by simp
  then have sA: "seg ?m base A (fst p)" using seg_frame[of A ?m "umem s"] keep sg(4) by blast
  have "a + 8 \<le> fst x \<and> fst x < 2 ^ 31" if x: "x \<in> set B'" for x using F(3)[of x] ut(2) x n(1) hb(3)[of x] F(1) by auto
  then have sB: "seg ?m (start B' base) B' base" using seg_frame[of B' ?m "umem s"] keep ut(3) by blast
  have "ld ?m a = start B' base" "ld ?m (a + 4) = n'" using only_ld[OF d(1), of a] only_ld[OF d(1), of "a + 4"] pa(1) lim u(2,3) by simp_all
  then show ?thesis using that[OF F(1,2) u(4) posB fr o sA sB _ _ d(2,3)] by blast
qed

text \<open>A free list with fewer blocks in use.\<close>

lemma heap_remove:
  assumes h: "heap base s F L" and F': "F' = (base, 0) # G" "sorted_wrt before F'" "\<And>y. y \<in> set G \<Longrightarrow> 0 < snd y" "seg m' base F' base" "r \<in> set F'"
    and sub: "\<And>y. y \<in> set F' \<Longrightarrow> bend y \<le> unat (brk s)" "\<And>y b k. y \<in> set F' \<Longrightarrow> (L(a := None)) b = Some k \<Longrightarrow> apart (b, k) y"
    and same: "same_on (L(a := None)) (umem s) m'"
  shows "heap base (s\<lparr>umem := m', freep := of_nat (fst r)\<rparr>) F' (L(a := None))"
proof (rule heapI[OF F'(1,2,3) _ F'(5)])
  note hD = heapD[OF h]
  fix b k assume b: "(L(a := None)) b = Some k"
  then have L: "L b = Some k" "b \<noteq> a" by (auto split: if_splits)
  show "0 < k \<and> base + 8 \<le> b \<and> b + 8 * k \<le> unat (brk (s\<lparr>umem := m', freep := of_nat (fst r)\<rparr>)) \<and> ld (umem (s\<lparr>umem := m', freep := of_nat (fst r)\<rparr>)) (b + 4) = k"
    using hD(10)[OF L(1)] same_on_size[OF same b] by simp
  show "apart (b, k) (b', k')" if "(L(a := None)) b' = Some k'" "b \<noteq> b'" for b' k' using that hD(11)[OF L(1), of b' k'] by (auto split: if_splits)
qed (use F'(4) sub heapD(8,9)[OF h] in auto)

lemma free_spec:
  assumes h: "heap base s F L" and a: "L a = Some n"
  obtains s' F' where "free (of_nat (a + 8)) s = Some s'" "heap base s' F' (L(a := None))"
    "same_on (L(a := None)) (umem s) (umem s')" "\<exists>x \<in> set F'. n \<le> snd x"
proof -
  note hD = heapD[OF h]
  have n: "0 < n" "base + 8 \<le> a" "a + 8 * n \<le> unat (brk s)" using hD(10)[OF a] by auto
  obtain A p B n' B' m where F: "F = A @ p # B" "bend p \<le> a" and t: "n' = n \<and> B' = B \<or> (\<exists>k. B = (a + 8 * n, k) # B' \<and> n' = n + k)"
    and posB: "\<forall>x \<in> set B. 0 < snd x \<and> a + 8 * n \<le> fst x" and fr: "free (of_nat (a + 8)) s = Some (s\<lparr>umem := m, freep := of_nat (fst p)\<rparr>)"
    and o: "only (umem s) m [a, fst p]" and sg: "seg m base A (fst p)" "seg m (start B' base) B' base" and ha: "ld m a = start B' base" "ld m (a + 4) = n'"
    and hp: "ld m (fst p) = (if fst p + 8 * snd p = a then start B' base else a)" "ld m (fst p + 4) = (if fst p + 8 * snd p = a then snd p + n' else snd p)"
    by (rule free_memory[OF h a])
  note so = sorted_split[OF hD(3)[unfolded F(1)]]
  note ut = up_tail[OF t n(1) posB seg_next(3)[OF hD(5)[unfolded F(1)]] so(4)]
  let ?L = "L(a := None)" and ?q = "(a, n')"
  have live: "apart (b, k) x" if b: "?L b = Some k" and x: "x \<in> set F \<or> x = (a, n) \<or> x = ?q" for b k x
  proof -
    have L: "L b = Some k" "b \<noteq> a" using b by (auto split: if_splits)
    have ap: "apart (b, k) (a, n)" "\<forall>x \<in> set F. apart (b, k) x" using hD(11)[OF L(1) a L(2)] hD(10)[OF L(1)] by blast+
    moreover have "apart (b, k) ?q" using ap(2) F(1) by (intro ut(5)[OF ap(1)]) simp
    ultimately show ?thesis using x by blast
  qed
  have same: "same_on ?L (umem s) m"
  proof (rule only_same_on[OF o])
    fix b k x assume b: "?L b = Some k" and x: "x \<in> set [a, fst p]"
    have "bend (b, k) = b + 8 * k" using b hD(10)[of b k] by (auto simp: bend_def split: if_splits)
    then show "x + 8 \<le> b \<or> b + 8 * k \<le> x" using live[OF b, of "(a, n)"] live[OF b, of p] F(1) x bend_gt(1)[of p] bend_gt(1)[of "(a, n)"] by (auto simp: apart_def)
  qed (use live_bound[OF h] in \<open>auto split: if_splits\<close>)
  have b: "bend x \<le> unat (brk s)" if "x \<in> set F \<or> x = ?q" for x
    using that hD(7) ut(6)[OF n(3)] F(1) ut(1) n(1) by (auto simp: bend_def)
  obtain G where G: "A @ [p] = (base, 0) # G" "\<forall>y \<in> set G. 0 < snd y" using hD(1,2) hD(4) F(1) by (cases A) auto
  have sub: "set B' \<subseteq> set F" "\<forall>y \<in> set B'. 0 < snd y" and n': "0 < n'" using ut(1,2) posB F(1) n(1) by auto
  show ?thesis
  proof (cases "fst p + 8 * snd p = a")
    case True
    have p: "0 < snd p" using True n(2) G hD(4)[of p] F(1) by (cases A) auto
    let ?r = "(fst p, snd p + n')"
    have be: "bend ?r = bend ?q" using True p n' by (simp add: bend_def)
    obtain A' where A': "A = (base, 0) # A'" using G(1) p by (cases A) auto
    have "heap base (s\<lparr>umem := m, freep := of_nat (fst ?r)\<rparr>) (A @ ?r # B') ?L"
    proof (rule heap_remove[OF h _ _ _ _ _ _ _ same, of _ "A' @ ?r # B'"])
      show "sorted_wrt before (A @ ?r # B')" using so(1,3,5) ut(2,4) be by (auto simp: sorted_wrt_append before_def)
      show "apart (b, k) x" if x: "x \<in> set (A @ ?r # B')" and b: "?L b = Some k" for b k x
      proof (cases "x = ?r")
        case r: True
        have "apart (b, k) (fst p, snd p)" "apart (b, k) (fst p + 8 * snd p, n')" using live[OF b, of p] live[OF b, of ?q] F(1) True by auto
        then show ?thesis unfolding r using p n' by (intro apart_join) auto
      qed (use live[OF b, of x] x F(1) sub(1) in auto)
      show "bend x \<le> unat (brk s)" if "x \<in> set (A @ ?r # B')" for x using that b[of x] b[of ?q] be F(1) sub(1) by auto
    qed (use A' G sub n' p sg hp True in \<open>auto simp: blocks_append\<close>)
    then show ?thesis using that[OF fr] same ut(1) by auto
  next
    case False
    have "heap base (s\<lparr>umem := m, freep := of_nat (fst p)\<rparr>) (A @ p # ?q # B') ?L"
    proof (rule heap_remove[OF h _ _ _ _ _ _ _ same, of _ "G @ ?q # B'"])
      show "A @ p # ?q # B' = (base, 0) # G @ ?q # B'" using G(1) by (metis append.assoc append_Cons append_Nil)
      have "before x ?q" if "x \<in> set (A @ [p])" for x using that so(1)[of x] F(2) bend_gt(1)[of p] by (auto simp: before_def)
      then show "sorted_wrt before (A @ p # ?q # B')" using so(1-3,5) ut(2,4) by (auto simp: sorted_wrt_append)
      show "apart (b, k) x" if "x \<in> set (A @ p # ?q # B')" "?L b = Some k" for b k x using live[OF that(2), of x] that(1) F(1) sub(1) by auto
      show "bend x \<le> unat (brk s)" if "x \<in> set (A @ p # ?q # B')" for x using that b[of x] F(1) sub(1) by auto
    qed (use G(2) sub n' sg ha hp False in \<open>auto simp: blocks_append\<close>)
    then show ?thesis using that[OF fr] same ut(1) by auto
  qed
qed

section \<open>Taking a block\<close>

text \<open>A part of a free block.\<close>

lemma apart_part: "apart y x \<Longrightarrow> fst x \<le> fst z \<Longrightarrow> bend z \<le> bend x \<Longrightarrow> apart y z"
  unfolding apart_def by linarith

lemma apart_inside: "apart (a, n) x \<Longrightarrow> fst x \<le> a \<Longrightarrow> a < bend x \<Longrightarrow> 0 < n \<Longrightarrow> False"
  unfolding apart_def by (simp add: bend_def)

lemma heap_add:
  assumes h: "heap base s F L" and x: "x \<in> set F" and z: "fst x \<le> a" "bend (a, k) \<le> bend x" "0 < k" "base + 8 \<le> a" "ld m' (a + 4) = k"
    and F': "F' = (base, 0) # G" "sorted_wrt before F'" "\<And>y. y \<in> set G \<Longrightarrow> 0 < snd y" "seg m' base F' base" "r \<in> set F'"
    and sub: "\<And>y. y \<in> set F' \<Longrightarrow> apart (a, k) y \<and> (\<exists>w \<in> set F. fst w \<le> fst y \<and> bend y \<le> bend w)" and same: "same_on L (umem s) m'"
  shows "L a = None" "heap base (s\<lparr>umem := m', freep := of_nat (fst r)\<rparr>) F' (L(a \<mapsto> k))"
proof -
  note hD = heapD[OF h]
  have ax: "a < bend x" using z(2,3) by (simp add: bend_def)
  show N: "L a = None"
  proof (rule ccontr)
    assume "L a \<noteq> None"
    then obtain n where n: "L a = Some n" by blast
    show False using hD(10)[OF n] x apart_inside[of a n x] z(1) ax by blast
  qed
  have la: "apart (b, n) (a, k)" if b: "L b = Some n" for b n using hD(10)[OF b] x z(1,2) apart_part[of "(b, n)" x "(a, k)"] by simp
  have lf: "apart (b, n) y" if b: "L b = Some n" and y: "y \<in> set F'" for b n y using hD(10)[OF b] sub[OF y] apart_part[of "(b, n)" _ y] by blast
  show "heap base (s\<lparr>umem := m', freep := of_nat (fst r)\<rparr>) F' (L(a \<mapsto> k))"
  proof (rule heapI[OF F'(1,2,3) _ F'(5)])
    fix b n assume b: "(L(a \<mapsto> k)) b = Some n"
    show "0 < n \<and> base + 8 \<le> b \<and> b + 8 * n \<le> unat (brk (s\<lparr>umem := m', freep := of_nat (fst r)\<rparr>)) \<and> ld (umem (s\<lparr>umem := m', freep := of_nat (fst r)\<rparr>)) (b + 4) = n"
    proof (cases "b = a")
      case True
      then show ?thesis using b z hD(7)[OF x] bend_gt(2)[of "(a, k)"] by auto
    next
      case False
      then have "L b = Some n" using b by simp
      then show ?thesis using hD(10)[of b n] same_on_size[OF same, of b n] by simp
    qed
    fix y assume y: "y \<in> set F'"
    show "apart (b, n) y"
    proof (cases "b = a")
      case True
      then show ?thesis using b sub[OF y] by simp
    next
      case False
      then show ?thesis using b lf[of b n, OF _ y] by simp
    qed
  next
    fix b n b' n' assume b: "(L(a \<mapsto> k)) b = Some n" "(L(a \<mapsto> k)) b' = Some n'" "b \<noteq> b'"
    consider "b = a" "b' \<noteq> a" | "b \<noteq> a" "b' = a" | "b \<noteq> a" "b' \<noteq> a" using b(3) by blast
    then show "apart (b, n) (b', n')"
    proof cases
      case 1
      then have "apart (b', n') (a, k)" "n = k" using b la[of b' n'] by simp_all
      then show ?thesis using 1 apart_sym by blast
    qed (use b la[of b n] hD(11)[of b n b' n'] in simp_all)
  next
    fix y assume y: "y \<in> set F'"
    show "bend y \<le> unat (brk (s\<lparr>umem := m', freep := of_nat (fst r)\<rparr>))" using sub[OF y] hD(7) by fastforce
  qed (use F'(4) hD(8,9) in simp_all)
qed

lemma take_nat:
  assumes "k < 2 ^ 32" "k \<le> ld (umem s) (x + 4)"
  shows "take_block (of_nat k) (of_nat r) (of_nat x) s =
    (if ld (umem s) (x + 4) = k then (of_nat (x + 8), s\<lparr>umem := st (umem s) r (ld (umem s) x), freep := of_nat r\<rparr>)
     else let d = ld (umem s) (x + 4) - k in
       (of_nat (x + 8 * d + 8), s\<lparr>umem := st (st (umem s) (x + 4) d) (x + 8 * d + 4) k, freep := of_nat r\<rparr>))"
proof -
  have o: "load32 m (of_nat y) = of_nat (ld m y)" "load32 m (of_nat y + 4) = of_nat (ld m (y + 4))" for m y
    using of_nat_ld[of m y] of_nat_ld[of m "y + 4"] by simp_all
  have s: "store32 m (of_nat y) (of_nat v) = st m y v" "store32 m (of_nat y + 4) (of_nat v) = st m (y + 4) v" for m y v by (simp_all add: st_def)
  have e: "(of_nat (ld (umem s) (x + 4)) :: u32) = of_nat k \<longleftrightarrow> ld (umem s) (x + 4) = k" using of_nat_eq[OF ld_bound assms(1)] by simp
  have d: "(of_nat (ld (umem s) (x + 4)) - of_nat k :: u32) = of_nat (ld (umem s) (x + 4) - k)" using assms(2) by (simp add: of_nat_diff)
  have ld: "ld (st (umem s) (x + 4) v) (x + 4) = v" if "v \<le> ld (umem s) (x + 4)" for v using ld_st_same ld_bound[of "umem s" "x + 4"] that by simp
  have q: "(of_nat x + 8 * of_nat v :: u32) = of_nat (x + 8 * v)" "(of_nat x + 8 :: u32) = of_nat (x + 8)" "(of_nat (x + 8 * v) + 8 :: u32) = of_nat (x + 8 * v + 8)" for v by simp_all
  show ?thesis unfolding take_block_def Let_def o e d s ld[OF diff_le_self] q ..
qed

lemma prev_facts:
  assumes h: "heap base s F L" and F: "F = A @ r # x # B" and k: "0 < snd x"
  shows "fst r + 8 \<le> fst x" "base + 8 \<le> fst x" "bend x = fst x + 8 * snd x" "fst x + 8 * snd x < 2 ^ 31"
    "\<exists>G. A @ [r] = (base, 0) # G \<and> (\<forall>y \<in> set G. 0 < snd y)"
    "\<And>y. y \<in> set B \<Longrightarrow> 0 < snd y \<and> bend x \<le> fst y" "\<And>y. y \<in> set (A @ [r]) \<Longrightarrow> bend y \<le> fst x" "\<And>y. y \<in> set A \<Longrightarrow> fst y + 8 \<le> fst r"
    "sorted_wrt before (A @ [r])" "sorted_wrt before B" "\<And>y z. y \<in> set (A @ [r]) \<Longrightarrow> z \<in> set B \<Longrightarrow> before y z"
    "seg (umem s) base A (fst r)" "ld (umem s) (fst r + 4) = snd r" "ld (umem s) (fst r) = fst x"
    "ld (umem s) (fst x) = start B base" "ld (umem s) (fst x + 4) = snd x" "seg (umem s) (start B base) B base"
proof -
  note hD = heapD[OF h] and hb = heap_base[OF h]
  have xF: "x \<in> set F" using F by simp
  have F2: "F = (A @ [r]) @ x # B" using F by simp
  note sx = seg_next[OF hD(5)[unfolded F2]] and sr = seg_next[OF hD(5)[unfolded F]]
  note so = sorted_split[OF hD(3)[unfolded F2]] and sor = sorted_split[OF hD(3)[unfolded F]]
  have xb: "x \<noteq> (base, 0)" using k by auto
  obtain G where G: "A @ [r] = (base, 0) # G" using F hD(2) by (cases A) auto
  have pos: "0 < snd y" if "y \<in> set G \<or> y \<in> set B" for y using hD(4)[of y] that G F by (cases A) auto
  show "fst r + 8 \<le> fst x" using before_less[OF so(1), of r] by simp
  show "base + 8 \<le> fst x" by (rule hb(5)[OF xF xb])
  show bx: "bend x = fst x + 8 * snd x" using k by (simp add: bend_def)
  show "fst x + 8 * snd x < 2 ^ 31" using hD(7)[OF xF] hD(8) unfolding bx by simp
  show "\<exists>G. A @ [r] = (base, 0) # G \<and> (\<forall>y \<in> set G. 0 < snd y)" using G pos by blast
  show "0 < snd y \<and> bend x \<le> fst y" if y: "y \<in> set B" for y using pos y so(2)[OF y] unfolding before_def by blast
  show "bend y \<le> fst x" if y: "y \<in> set (A @ [r])" for y using so(1)[OF y] unfolding before_def .
  show "fst y + 8 \<le> fst r" if y: "y \<in> set A" for y using before_less[OF sor(1)[OF y]] .
  show "sorted_wrt before (A @ [r])" "sorted_wrt before B" by (rule so(3,4))+
  show "before y z" if "y \<in> set (A @ [r])" "z \<in> set B" for y z using so(5) that .
  show "seg (umem s) base A (fst r)" "ld (umem s) (fst r + 4) = snd r" "ld (umem s) (fst r) = fst x" using sr by simp_all
  show "ld (umem s) (fst x) = start B base" "ld (umem s) (fst x + 4) = snd x" "seg (umem s) (start B base) B base" using sx by simp_all
qed

text \<open>A header within a free block is outside the blocks in use.\<close>

lemma header_free:
  assumes h: "heap base s F L" and b: "L b = Some n" and y: "y \<in> set F" "fst y \<le> z" "z + 8 \<le> bend y"
  shows "z + 8 \<le> b \<or> b + 8 * n \<le> z"
proof -
  have ap: "apart (b, n) y" "0 < n" using heapD(10)[OF h b] y(1) by auto
  have "bend (b, n) = b + 8 * n" using ap(2) by (simp add: bend_def)
  then show ?thesis using ap(1) y(2,3) unfolding apart_def by auto
qed

lemma take_exact:
  assumes h: "heap base s F L" and F: "F = A @ r # x # B" and x: "0 < snd x"
  defines "m \<equiv> st (umem s) (fst r) (start B base)"
  shows "L (fst x) = None" "heap base (s\<lparr>umem := m, freep := of_nat (fst r)\<rparr>) (A @ r # B) (L(fst x \<mapsto> snd x))" "same_on L (umem s) m"
proof -
  note pf = prev_facts[OF h F x]
  obtain G where G: "A @ [r] = (base, 0) # G" "\<forall>y \<in> set G. 0 < snd y" using pf(5) by blast
  have lim: "fst r + 8 \<le> 2 ^ 31" "fst x + 8 \<le> 2 ^ 31" using pf(1,4) x by simp_all
  have o: "only (umem s) m [fst r]" unfolding m_def using lim by (intro only_st) simp_all
  show same: "same_on L (umem s) m"
  proof (rule only_same_on[OF o])
    fix b n z assume b: "L b = Some n" "z \<in> set [fst r]"
    show "z + 8 \<le> b \<or> b + 8 * n \<le> z" using header_free[OF h b(1), of r z] b(2) bend_gt(1)[of r] F by simp
  qed (rule live_bound[OF h])
  have keep: "ld m y = ld (umem s) y" if "y + 4 \<le> fst r \<or> fst r + 4 \<le> y" "y + 4 \<le> 2 ^ 32" for y
    unfolding m_def using that lim by (intro ld_st_other) simp_all
  have lB: "fst y + 8 \<le> 2 ^ 31" if "y \<in> set B" for y using heap_base(2)[OF h, of y] heapD(8)[OF h] F that by simp
  have kA: "ld m (fst y) = ld (umem s) (fst y) \<and> ld m (fst y + 4) = ld (umem s) (fst y + 4)" if "y \<in> set A" for y
    using keep[of "fst y"] keep[of "fst y + 4"] pf(8)[OF that] lim by simp
  have kB: "ld m (fst y) = ld (umem s) (fst y) \<and> ld m (fst y + 4) = ld (umem s) (fst y + 4)" if "y \<in> set B" for y
    using keep[of "fst y"] keep[of "fst y + 4"] pf(1) pf(6)[OF that] lB[OF that] bend_gt(1)[of x] by simp
  have "seg m base A (fst r)" using pf(12) seg_frame[of A m "umem s", OF kA] by simp
  moreover have "seg m (start B base) B base" using pf(17) seg_frame[of B m "umem s", OF kB] by simp
  moreover have "ld m (fst r) = start B base" unfolding m_def using ld_bound[of "umem s" "fst x"] pf(15) by (intro ld_st_same) simp
  moreover have "ld m (fst r + 4) = snd r" using keep[of "fst r + 4"] pf(13) lim by simp
  ultimately have sg: "seg m base (A @ r # B) base" by (auto simp: blocks_append)
  have so: "sorted_wrt before (A @ r # B)" using pf(9-11) by (auto simp: sorted_wrt_append)
  have ap: "apart (fst x, snd x) y \<and> (\<exists>w \<in> set F. fst w \<le> fst y \<and> bend y \<le> bend w)" if y: "y \<in> set (A @ r # B)" for y
    using y pf(6)[of y] pf(7)[of y] F unfolding apart_def by auto
  have sz: "ld m (fst x + 4) = snd x" using keep[of "fst x + 4"] pf(1,16) lim by simp
  have xF: "x \<in> set F" and rF: "r \<in> set (A @ r # B)" and GB: "A @ r # B = (base, 0) # G @ B" using F G(1) by (simp_all add: append_eq_Cons_conv) (metis append.assoc append_Cons append_Nil)
  have pos: "0 < snd y" if "y \<in> set (G @ B)" for y using that G(2) pf(6)[of y] by auto
  have bx: "bend (fst x, snd x) \<le> bend x" by simp
  note ha = heap_add[OF h xF order_refl bx x pf(2) sz GB so pos sg rF ap same]
  show "L (fst x) = None" "heap base (s\<lparr>umem := m, freep := of_nat (fst r)\<rparr>) (A @ r # B) (L(fst x \<mapsto> snd x))" by (rule ha; assumption)+
qed

lemma take_split:
  assumes h: "heap base s F L" and F: "F = A @ r # x # B" and k: "0 < k" "k < snd x"
  defines "d \<equiv> snd x - k"
  defines "m \<equiv> st (st (umem s) (fst x + 4) d) (fst x + 8 * d + 4) k"
  shows "L (fst x + 8 * d) = None" "heap base (s\<lparr>umem := m, freep := of_nat (fst r)\<rparr>) (A @ r # (fst x, d) # B) (L(fst x + 8 * d \<mapsto> k))"
    "same_on L (umem s) m"
proof -
  have x: "0 < snd x" and d: "0 < d" "d + k = snd x" using k by (simp_all add: d_def)
  note pf = prev_facts[OF h F x]
  obtain G where G: "A @ [r] = (base, 0) # G" "\<forall>y \<in> set G. 0 < snd y" using pf(5) by blast
  let ?a = "fst x + 8 * d"
  have "?a + 8 * k = fst x + 8 * (d + k)" by simp
  then have lim: "?a + 8 * k < 2 ^ 31" "bend x = ?a + 8 * k" using pf(3,4) unfolding d(2) by (simp_all only:)
  have "only (umem s) (st (umem s) (fst x + 4) d) [fst x]" "only (st (umem s) (fst x + 4) d) m [?a]"
    unfolding m_def using lim d(1) k(1) by (auto intro!: only_st)
  from only_trans[OF this] have o: "only (umem s) m [fst x, ?a]" by simp
  show same: "same_on L (umem s) m"
  proof (rule only_same_on[OF o])
    fix b n z assume b: "L b = Some n" "z \<in> set [fst x, ?a]"
    show "z + 8 \<le> b \<or> b + 8 * n \<le> z" using header_free[OF h b(1), of x z] b(2) lim(2) d(1) k(1) F by auto
  qed (rule live_bound[OF h])
  have keep: "ld m y = ld (umem s) y \<and> ld m (y + 4) = ld (umem s) (y + 4)" if "y + 8 \<le> fst x \<or> bend x \<le> y" "y + 8 \<le> 2 ^ 32" for y
    by (intro conjI only_ld[OF o]) (use that lim d(1) k(1) in auto)
  have lB: "fst y + 8 \<le> 2 ^ 32" if "y \<in> set B" for y using heap_base(2)[OF h, of y] heapD(8)[OF h] F that by simp
  have kA: "ld m (fst y) = ld (umem s) (fst y) \<and> ld m (fst y + 4) = ld (umem s) (fst y + 4)" if "y \<in> set A" for y
    using keep[of "fst y"] pf(8)[OF that] pf(1) lim(1) by simp
  have kB: "ld m (fst y) = ld (umem s) (fst y) \<and> ld m (fst y + 4) = ld (umem s) (fst y + 4)" if "y \<in> set B" for y
    using keep[of "fst y"] pf(6)[OF that] lB[OF that] by simp
  have "seg m base A (fst r)" using pf(12) seg_frame[of A m "umem s", OF kA] by simp
  moreover have "seg m (start B base) B base" using pf(17) seg_frame[of B m "umem s", OF kB] by simp
  moreover have "ld m (fst r) = fst x" "ld m (fst r + 4) = snd r" using keep[of "fst r"] pf(1,13,14) lim(1) by simp_all
  moreover have "ld m (fst x + 4) = d" "ld m (fst x) = start B base"
    unfolding m_def using lim d(1) k(1) pf(15) by (simp_all add: ld_st_other ld_st_same)
  ultimately have sg: "seg m base (A @ r # (fst x, d) # B) base" by (auto simp: blocks_append)
  have bd: "bend (fst x, d) = ?a" "bend (?a, k) = bend x" using d(1) k(1) lim(2) by (simp_all add: bend_def)
  have so: "sorted_wrt before (A @ r # (fst x, d) # B)"
  proof -
    have "before y (fst x, d)" if "y \<in> set (A @ [r])" for y using pf(7)[OF that] by (simp add: before_def)
    moreover have "before (fst x, d) y" if "y \<in> set B" for y using pf(6)[OF that] bd lim(2) by (simp add: before_def)
    ultimately show ?thesis using pf(9-11) by (auto simp: sorted_wrt_append)
  qed
  have ap: "apart (?a, k) y \<and> (\<exists>w \<in> set F. fst w \<le> fst y \<and> bend y \<le> bend w)" if y: "y \<in> set (A @ r # (fst x, d) # B)" for y
    using y pf(6)[of y] pf(7)[of y] F bd lim(2) unfolding apart_def by auto
  have sz: "ld m (?a + 4) = k" unfolding m_def using lim(1) k(1) by (intro ld_st_same) simp
  have xF: "x \<in> set F" and rF: "r \<in> set (A @ r # (fst x, d) # B)" using F by simp_all
  have GB: "A @ r # (fst x, d) # B = (base, 0) # G @ (fst x, d) # B" using G(1) by (metis append.assoc append_Cons append_Nil)
  have pos: "0 < snd y" if "y \<in> set (G @ (fst x, d) # B)" for y using that G(2) pf(6)[of y] d(1) by auto
  have z: "fst x \<le> ?a" "bend (?a, k) \<le> bend x" "base + 8 \<le> ?a" using bd(2) pf(2) by simp_all
  note ha = heap_add[OF h xF z(1,2) k(1) z(3) sz GB so pos sg rF ap same]
  show "L ?a = None" "heap base (s\<lparr>umem := m, freep := of_nat (fst r)\<rparr>) (A @ r # (fst x, d) # B) (L(?a \<mapsto> k))" by (rule ha; assumption)+
qed

lemma take_spec:
  assumes h: "heap base s F L" and F: "F = A @ r # x # B" and k: "0 < k" "k \<le> snd x"
  obtains a s' F' where "take_block (of_nat k) (of_nat (fst r)) (of_nat (fst x)) s = (of_nat (a + 8), s')" "L a = None"
    "heap base s' F' (L(a \<mapsto> k))" "same_on L (umem s) (umem s')"
proof -
  have x: "0 < snd x" using k by simp
  note pf = prev_facts[OF h F x]
  have "k < 2 ^ 32" using k(2) pf(4) by simp
  note tn = take_nat[OF this k(2)[folded pf(16)], of "fst r", unfolded pf(15,16)]
  show ?thesis
  proof (cases "snd x = k")
    case True
    note te = take_exact[OF h F x]
    show ?thesis using that[OF _ te(1), of _ "A @ r # B"] te(2,3) tn True by simp
  next
    case False
    then have "k < snd x" using k(2) by simp
    note ts = take_split[OF h F k(1) this]
    show ?thesis using that[OF _ ts(1), of _ "A @ r # (fst x, snd x - k) # B"] ts(2,3) tn False by (simp add: Let_def)
  qed
qed

section \<open>The search of malloc\<close>

lemma seg_nth:
  assumes "seg m a F e" "i < length F"
  shows "ld m (fst (F ! i)) = (if Suc i < length F then fst (F ! Suc i) else e)" "ld m (fst (F ! i) + 4) = snd (F ! i)"
proof -
  have "F = take i F @ F ! i # drop (Suc i) F" using assms(2) by (rule id_take_nth_drop)
  then have "seg m a (take i F @ F ! i # drop (Suc i) F) e" using assms(1) by metis
  note n = seg_next(1,2)[OF this]
  show "ld m (fst (F ! i) + 4) = snd (F ! i)" by (rule n(2))
  show "ld m (fst (F ! i)) = (if Suc i < length F then fst (F ! Suc i) else e)"
  proof (cases "Suc i < length F")
    case True
    then show ?thesis using n(1) Cons_nth_drop_Suc[OF True, symmetric] by simp
  qed (use n(1) in simp)
qed

lemma heap_next:
  assumes h: "heap base s F L" and i: "i < length F"
  shows "ld (umem s) (fst (F ! i)) = fst (F ! (Suc i mod length F))" "ld (umem s) (fst (F ! i) + 4) = snd (F ! i)"
proof -
  note n = seg_nth[OF heapD(5)[OF h] i]
  have "F ! 0 = (base, 0)" using heapD(1,2)[OF h] by (simp add: hd_conv_nth)
  then show "ld (umem s) (fst (F ! i)) = fst (F ! (Suc i mod length F))" using n(1) i by (cases "Suc i < length F") (auto simp: not_less_iff_gr_or_eq)
  show "ld (umem s) (fst (F ! i) + 4) = snd (F ! i)" by (rule n(2))
qed

lemma heap_distinct:
  assumes h: "heap base s F L" and i: "i < length F" "j < length F" "fst (F ! i) = fst (F ! j)"
  shows "i = j"
proof -
  have "fst (F ! a) < fst (F ! b)" if "a < b" "b < length F" for a b
    using heapD(3)[OF h] that before_less[of "F ! a" "F ! b"] by (simp add: sorted_wrt_iff_nth_less)
  from this[of i j] this[of j i] show ?thesis using i by (metis linorder_neqE_nat order_less_irrefl)
qed

abbreviation pred :: "blk list \<Rightarrow> nat \<Rightarrow> nat" where
  "pred F i \<equiv> (i + length F - 1) mod length F"

lemma malloc_step:
  assumes h: "heap base s F L" and i: "i < length F" and k: "k < 2 ^ 32"
  shows "malloc_loop sb (of_nat k) pr (of_nat (fst (F ! i))) s =
    (if k \<le> snd (F ! i) then Some (take_block (of_nat k) pr (of_nat (fst (F ! i))) s)
     else if of_nat (fst (F ! i)) = freep s
     then Option.bind (morecore sb (of_nat k) s) (\<lambda>(r, s1). if r = 0 then Some (0, s1) else malloc_loop sb (of_nat k) r (hptr (umem s1) r) s1)
     else malloc_loop sb (of_nat k) (of_nat (fst (F ! i))) (of_nat (fst (F ! (Suc i mod length F)))) s)"
proof -
  note n = heap_next[OF h i]
  have p: "load32 (umem s) (of_nat (fst (F ! i))) = of_nat (fst (F ! (Suc i mod length F)))" using of_nat_ld[of "umem s" "fst (F ! i)"] n(1) by simp
  have z: "load32 (umem s) (of_nat (fst (F ! i)) + 4) = of_nat (snd (F ! i))" using of_nat_ld[of "umem s" "fst (F ! i) + 4"] n(2) by simp
  have "snd (F ! i) < 2 ^ 32" using ld_bound[of "umem s" "fst (F ! i) + 4"] n(2) by simp
  note le = of_nat_le[OF k this]
  show ?thesis by (subst malloc_loop.simps) (simp only: p z le)
qed

lemma malloc_search:
  assumes h: "heap base s F L" and k: "k < 2 ^ 32" and j: "j < length F" "freep s = of_nat (fst (F ! j))"
    and i: "i < length F" "(i + d) mod length F = j" "d < length F"
  shows "(\<exists>i' < length F. k \<le> snd (F ! i') \<and> malloc_loop sb (of_nat k) (of_nat (fst (F ! pred F i))) (of_nat (fst (F ! i))) s =
      Some (take_block (of_nat k) (of_nat (fst (F ! pred F i'))) (of_nat (fst (F ! i'))) s)) \<or>
    (\<forall>e \<le> d. snd (F ! ((i + e) mod length F)) < k) \<and> malloc_loop sb (of_nat k) (of_nat (fst (F ! pred F i))) (of_nat (fst (F ! i))) s =
      Option.bind (morecore sb (of_nat k) s) (\<lambda>(r, s1). if r = 0 then Some (0, s1) else malloc_loop sb (of_nat k) r (hptr (umem s1) r) s1)"
  using i
proof (induction d arbitrary: i)
  case 0
  then have "i = j" by simp
  then show ?case using malloc_step[OF h "0.prems"(1) k] 0 j(2) by (cases "k \<le> snd (F ! i)") auto
next
  case (Suc d)
  note st = malloc_step[OF h Suc.prems(1) k, of sb "of_nat (fst (F ! pred F i))"]
  have b: "fst (F ! a) < 2 ^ 32" if "a < length F" for a using heap_base(3)[OF h nth_mem[OF that]] by simp
  have "i \<noteq> j"
  proof (cases "i + Suc d < length F")
    case True
    then show ?thesis using Suc.prems(2) by simp
  next
    case False
    then show ?thesis using Suc.prems by (simp add: le_mod_geq)
  qed
  then have ne: "(of_nat (fst (F ! i)) :: u32) \<noteq> freep s"
    unfolding j(2) using of_nat_eq[OF b[OF Suc.prems(1)] b[OF j(1)]] heap_distinct[OF h Suc.prems(1) j(1)] by auto
  show ?case
  proof (cases "k \<le> snd (F ! i)")
    case True
    then show ?thesis using st Suc.prems(1) by auto
  next
    case False
    let ?i = "Suc i mod length F"
    have n: "0 < length F" using Suc.prems(1) by auto
    have i: "?i < length F" "(?i + d) mod length F = j" "d < length F" using Suc.prems mod_less_divisor[OF n] by (auto simp: mod_simps)
    have pi: "pred F ?i = i" using Suc.prems(1) by (cases "Suc i < length F") (auto simp: not_less_iff_gr_or_eq)
    have e: "snd (F ! ((i + e) mod length F)) < k" if "\<forall>e \<le> d. snd (F ! ((?i + e) mod length F)) < k" "e \<le> Suc d" for e
      using that False Suc.prems(1) by (cases e) (auto simp: mod_simps)
    show ?thesis using Suc.IH[OF i, unfolded pi] e st False ne by auto
  qed
qed

text \<open>A block of \<open>k\<close> units has been taken from the heap.\<close>

definition taken :: "nat \<Rightarrow> nat \<Rightarrow> uheap \<Rightarrow> (nat \<Rightarrow> nat option) \<Rightarrow> u32 \<Rightarrow> uheap \<Rightarrow> bool" where
  "taken base k s L r s' \<longleftrightarrow> (\<exists>a F'. r = of_nat (a + 8) \<and> L a = None \<and> heap base s' F' (L(a \<mapsto> k)) \<and> same_on L (umem s) (umem s'))"

lemma take_at:
  assumes h: "heap base s F L" and i: "i < length F" and k: "0 < k" "k \<le> snd (F ! i)"
  obtains r s' where "take_block (of_nat k) (of_nat (fst (F ! pred F i))) (of_nat (fst (F ! i))) s = (r, s')" "taken base k s L r s'"
proof -
  have "F ! 0 = (base, 0)" using heapD(1,2)[OF h] by (simp add: hd_conv_nth)
  then obtain j where j: "i = Suc j" using k by (cases i) auto
  have pj: "pred F i = j" using j i by simp
  have "drop j F = F ! j # F ! i # drop (Suc i) F" using i j Cons_nth_drop_Suc[of j F] Cons_nth_drop_Suc[of i F] by simp
  then have F: "F = take j F @ F ! j # F ! i # drop (Suc i) F" using append_take_drop_id[of j F] by simp
  show ?thesis by (rule take_spec[OF h F k]) (use that pj in \<open>auto simp: taken_def\<close>)
qed

lemma malloc_all:
  assumes h: "heap base s F L" and k: "0 < k" "k < 2 ^ 32"
  shows "(\<exists>r s'. malloc_loop sb (of_nat k) (freep s) (hptr (umem s) (freep s)) s = Some (r, s') \<and> taken base k s L r s') \<or>
    (\<forall>x \<in> set F. snd x < k) \<and> malloc_loop sb (of_nat k) (freep s) (hptr (umem s) (freep s)) s =
      Option.bind (morecore sb (of_nat k) s) (\<lambda>(r, s1). if r = 0 then Some (0, s1) else malloc_loop sb (of_nat k) r (hptr (umem s1) r) s1)"
proof -
  obtain j where j: "j < length F" "freep s = of_nat (fst (F ! j))" using heapD(6)[OF h] by (auto simp: in_set_conv_nth)
  let ?n = "length F" and ?i = "Suc j mod length F"
  have n: "0 < ?n" using j(1) by auto
  have i: "?i < ?n" "(?i + (?n - 1)) mod ?n = j" "?n - 1 < ?n" using n j(1) mod_less_divisor[OF n] by (cases "Suc j < ?n"; auto simp: mod_simps not_less_iff_gr_or_eq)+
  have p: "hptr (umem s) (freep s) = of_nat (fst (F ! ?i))" using of_nat_ld[of "umem s" "fst (F ! j)"] heap_next(1)[OF h j(1)] j(2) by simp
  have pi: "pred F ?i = j" using i(2) n by (metis Nat.add_diff_assoc One_nat_def Suc_leI)
  note ms = malloc_search[OF h k(2) j i, of sb, unfolded pi, folded j(2) p]
  have all: "\<forall>x \<in> set F. snd x < k" if "\<forall>e \<le> ?n - 1. snd (F ! ((?i + e) mod ?n)) < k"
  proof
    fix x assume "x \<in> set F"
    then obtain q where q: "q < ?n" "x = F ! q" by (auto simp: in_set_conv_nth)
    let ?e = "(q + (?n - ?i)) mod ?n"
    have "(?i + ?e) mod ?n = (?i + (q + (?n - ?i))) mod ?n" by (simp add: mod_simps)
    also have "?i + (q + (?n - ?i)) = q + ?n" using i(1) by simp
    finally have "(?i + ?e) mod ?n = q" using q(1) by simp
    moreover have "?e \<le> ?n - 1" using mod_less_divisor[OF n, of "q + (?n - ?i)"] by linarith
    ultimately show "snd x < k" using that q(2) by metis
  qed
  from ms show ?thesis
  proof
    assume "\<exists>i' < length F. k \<le> snd (F ! i') \<and> malloc_loop sb (of_nat k) (freep s) (hptr (umem s) (freep s)) s =
      Some (take_block (of_nat k) (of_nat (fst (F ! pred F i'))) (of_nat (fst (F ! i'))) s)"
    then obtain i' where i': "i' < length F" "k \<le> snd (F ! i')" "malloc_loop sb (of_nat k) (freep s) (hptr (umem s) (freep s)) s =
      Some (take_block (of_nat k) (of_nat (fst (F ! pred F i'))) (of_nat (fst (F ! i'))) s)" by blast
    obtain r s' where "take_block (of_nat k) (of_nat (fst (F ! pred F i'))) (of_nat (fst (F ! i'))) s = (r, s')" "taken base k s L r s'"
      by (rule take_at[OF h i'(1) k(1) i'(2)])
    then show ?thesis using i'(3) by auto
  qed (use all in blast)
qed

section \<open>More memory\<close>

text \<open>The contract of \<^verbatim>\<open>sbrk\<close> for a positive argument: it fails without a change, or it returns the old program break and moves it,
  below the kernel, with the memory below it as it was.\<close>

locale program_break =
  fixes sbrk :: "u32 \<Rightarrow> uheap \<Rightarrow> u32 \<times> uheap"
  assumes grow: "0 < sint n \<Longrightarrow> unat (brk s) < 2 ^ 31 \<Longrightarrow>
    sbrk n s = (- 1, s) \<or> (\<exists>s'. sbrk n s = (brk s, s') \<and> unat (brk s') = unat (brk s) + unat n \<and> unat (brk s') < 2 ^ 31 \<and>
      freep s' = freep s \<and> (\<forall>x < brk s. umem s' x = umem s x))"

lemma heap_grow:
  assumes h: "heap base s F L" and n: "0 < n" and s': "unat (brk s') = unat (brk s) + 8 * n" "unat (brk s') < 2 ^ 31" "freep s' = freep s"
    "\<And>x. x < brk s \<Longrightarrow> umem s' x = umem s x"
  defines "b \<equiv> unat (brk s)"
  defines "t \<equiv> s'\<lparr>umem := st (umem s') (b + 4) n\<rparr>"
  shows "heap base t F (L(b \<mapsto> n))" "L b = None" "same_on L (umem s) (umem t)"
proof -
  note hD = heapD[OF h]
  have lim: "b + 8 * n < 2 ^ 31" using s'(1,2) by (simp add: b_def)
  have eq: "umem t (of_nat y) = umem s (of_nat y)" if "y < b" for y
  proof -
    have "(of_nat y :: u32) < brk s" using that lim n by (simp add: b_def word_less_nat_alt unat_of_nat_u32)
    then show ?thesis using s'(4) st_other[of y "b + 4" "umem s'" n] that lim n by (simp add: t_def)
  qed
  have keep: "ld (umem t) y = ld (umem s) y" if "y + 4 \<le> b" for y by (rule ld_cong, rule eq) (use that in simp)
  have le: "a + 8 * k \<le> b" "0 < k" if "L a = Some k" for a k using hD(10)[OF that] by (simp_all add: b_def)
  show N: "L b = None" using le by (cases "L b") fastforce+
  show "same_on L (umem s) (umem t)" unfolding same_on_def using eq le(1) by fastforce
  have hb: "fst x + 8 \<le> b" "bend x \<le> b" if "x \<in> set F" for x using heap_base(2)[OF h that] hD(7)[OF that] by (simp_all add: b_def)
  obtain G where G: "F = (base, 0) # G" using hD(1,2) by (cases F) auto
  obtain x where x: "x \<in> set F" "freep t = of_nat (fst x)" using hD(6) s'(3) by (auto simp: t_def)
  have kh: "ld (umem t) (fst y) = ld (umem s) (fst y) \<and> ld (umem t) (fst y + 4) = ld (umem s) (fst y + 4)" if "y \<in> set F" for y
    using keep[of "fst y"] keep[of "fst y + 4"] hb(1)[OF that] by simp
  have nb: "ld (umem t) (b + 4) = n" using lim n by (simp add: t_def ld_st_same)
  have bt: "unat (brk t) = b + 8 * n" using s'(1) by (simp add: t_def b_def)
  have base: "base + 8 \<le> b" using hb(1)[of "(base, 0)"] G by simp
  show "heap base t F (L(b \<mapsto> n))"
  proof (rule heapI[OF G hD(3) _ _ x])
    show "seg (umem t) base F base" using hD(5) seg_frame[OF kh] by simp
    show "bend y \<le> unat (brk t)" if "y \<in> set F" for y using hb(2)[OF that] bt by simp
    fix a k assume a: "(L(b \<mapsto> n)) a = Some k"
    show "0 < k \<and> base + 8 \<le> a \<and> a + 8 * k \<le> unat (brk t) \<and> ld (umem t) (a + 4) = k"
    proof (cases "a = b")
      case False
      then have "L a = Some k" using a by simp
      then show ?thesis using hD(10)[of a k] le[of a k] keep[of "a + 4"] bt by simp
    qed (use a n nb bt base in simp)
    show "apart (a, k) y" if "y \<in> set F" for y
      using a hD(10)[of a k] hb(2)[OF that] that by (cases "a = b") (auto simp: apart_def)
    show "apart (a, k) (a', k')" if "(L(b \<mapsto> n)) a' = Some k'" "a \<noteq> a'" for a' k'
      using a that hD(11)[of a k a' k'] le[of a k] le[of a' k'] by (cases "a = b"; cases "a' = b") (auto simp: apart_def bend_def)
  qed (use hD(4,9) G bt lim in auto)
qed

lemma heap_freep: "heap base s F L \<Longrightarrow> freep s \<noteq> 0"
proof
  assume h: "heap base s F L" "freep s = 0"
  then obtain x where x: "x \<in> set F" "(of_nat (fst x) :: u32) = 0" using heapD(6)[OF h(1)] by auto
  then have "unat (of_nat (fst x) :: u32) = 0" by simp
  then show False using heap_base(1,3)[OF h(1) x(1)] heapD(9)[OF h(1)] by (simp add: unat_of_nat_u32)
qed

lemma same_on_trans: "same_on L a b \<Longrightarrow> same_on L b c \<Longrightarrow> same_on L a c"
  by (simp add: same_on_def)

lemma sint_pos: "0 < n \<Longrightarrow> n < 2 ^ 31 \<Longrightarrow> 0 < sint (of_nat n :: u32)"
proof -
  assume n: "0 < n" "n < 2 ^ 31"
  have "uint (of_nat n :: u32) = int n" using n uint_int_unat[of "of_nat n :: u32"] unat_of_nat_u32[of n] by simp
  then show ?thesis using n unfolding sint_u32 by simp
qed

context program_break
begin

lemma morecore_spec:
  assumes h: "heap base s F L" and k: "0 < k" "8 * k < 2 ^ 31"
  shows "morecore sbrk (of_nat k) s = Some (0, s) \<or>
    (\<exists>s' F'. morecore sbrk (of_nat k) s = Some (freep s', s') \<and> heap base s' F' L \<and> same_on L (umem s) (umem s') \<and> (\<exists>x \<in> set F'. k \<le> snd x))"
proof -
  define n where "n = max 4096 k"
  have n: "0 < n" "8 * n < 2 ^ 31" "k \<le> n" using k by (simp_all add: n_def)
  have nu: "(if of_nat k < (4096 :: u32) then 4096 else of_nat k) = (of_nat n :: u32)"
    using of_nat_less[of k 4096] k by (auto simp: n_def max_def)
  have n8: "(of_nat n * 8 :: u32) = of_nat (8 * n)" by simp
  have u: "unat (of_nat (8 * n) :: u32) = 8 * n" using n(2) by (intro unat_of_nat_u32) simp
  have "0 < sint (of_nat (8 * n) :: u32)" using n by (intro sint_pos) simp_all
  from grow[OF this heapD(8)[OF h]] show ?thesis
  proof
    assume "sbrk (of_nat (8 * n)) s = (- 1, s)"
    then show ?thesis unfolding morecore_def Let_def nu n8 by simp
  next
    assume "\<exists>s'. sbrk (of_nat (8 * n)) s = (brk s, s') \<and> unat (brk s') = unat (brk s) + unat (of_nat (8 * n) :: u32) \<and> unat (brk s') < 2 ^ 31 \<and>
      freep s' = freep s \<and> (\<forall>x < brk s. umem s' x = umem s x)"
    then obtain s' where s': "sbrk (of_nat (8 * n)) s = (brk s, s')" "unat (brk s') = unat (brk s) + 8 * n" "unat (brk s') < 2 ^ 31"
      "freep s' = freep s" "\<And>x. x < brk s \<Longrightarrow> umem s' x = umem s x" unfolding u by blast
    let ?b = "unat (brk s)"
    let ?t = "s'\<lparr>umem := st (umem s') (?b + 4) n\<rparr>"
    note g = heap_grow[OF h n(1) s'(2-5)]
    have b: "(brk s :: u32) = of_nat ?b" by simp
    have ne: "brk s \<noteq> - 1" using heapD(8)[OF h] by auto
    obtain s2 F' where f: "free (of_nat (?b + 8)) ?t = Some s2" "heap base s2 F' ((L(?b \<mapsto> n))(?b := None))"
      "same_on ((L(?b \<mapsto> n))(?b := None)) (umem ?t) (umem s2)" "\<exists>x \<in> set F'. n \<le> snd x" by (rule free_spec[OF g(1), of ?b n]) simp_all
    have L: "(L(?b \<mapsto> n))(?b := None) = L" using g(2) by auto
    have t: "s'\<lparr>umem := store32 (umem s') (brk s + 4) (of_nat n)\<rparr> = ?t" by (simp add: st_def)
    have "(brk s + 8 :: u32) = of_nat (?b + 8)" by simp
    then have "morecore sbrk (of_nat k) s = Some (freep s2, s2)"
      unfolding morecore_def Let_def nu n8 s'(1) prod.case if_not_P[OF ne] t using f(1) by (simp only: option.case)
    then show ?thesis using f(2-4) same_on_trans[OF g(3)] n(3) unfolding L by fastforce
  qed
qed

lemma malloc_heap:
  assumes h: "heap base s F L" and k: "0 < k" "8 * k < 2 ^ 31"
  shows "\<exists>r s'. malloc_loop sbrk (of_nat k) (freep s) (hptr (umem s) (freep s)) s = Some (r, s') \<and> (r = 0 \<and> s' = s \<or> taken base k s L r s')"
proof -
  have kb: "k < 2 ^ 32" using k(2) by simp
  from malloc_all[OF h k(1) kb, of sbrk] show ?thesis
  proof
    assume m: "(\<forall>x \<in> set F. snd x < k) \<and> malloc_loop sbrk (of_nat k) (freep s) (hptr (umem s) (freep s)) s =
      Option.bind (morecore sbrk (of_nat k) s) (\<lambda>(r, s1). if r = 0 then Some (0, s1) else malloc_loop sbrk (of_nat k) r (hptr (umem s1) r) s1)"
    from morecore_spec[OF h k] show ?thesis
    proof
      assume "\<exists>s' F'. morecore sbrk (of_nat k) s = Some (freep s', s') \<and> heap base s' F' L \<and> same_on L (umem s) (umem s') \<and> (\<exists>x \<in> set F'. k \<le> snd x)"
      then obtain s1 F1 x where s1: "morecore sbrk (of_nat k) s = Some (freep s1, s1)" "heap base s1 F1 L" "same_on L (umem s) (umem s1)"
        "x \<in> set F1" "k \<le> snd x" by blast
      have "\<not> (\<forall>x \<in> set F1. snd x < k)" using s1(4,5) by (meson not_le)
      then obtain r s' where r: "malloc_loop sbrk (of_nat k) (freep s1) (hptr (umem s1) (freep s1)) s1 = Some (r, s')" "taken base k s1 L r s'"
        using malloc_all[OF s1(2) k(1) kb, of sbrk] by blast
      have "taken base k s L r s'" using r(2) same_on_trans[OF s1(3)] unfolding taken_def by blast
      then show ?thesis using m r(1) s1(1) heap_freep[OF s1(2)] by simp
    qed (use m in simp)
  qed blast
qed

end

section \<open>The allocator\<close>

text \<open>A heap before the first call of \<^verbatim>\<open>malloc\<close>, or a well-formed one.\<close>

definition heap_ok :: "nat \<Rightarrow> uheap \<Rightarrow> (nat \<Rightarrow> nat option) \<Rightarrow> bool" where
  "heap_ok base s L \<longleftrightarrow> freep s = 0 \<and> L = Map.empty \<and> 0 < base \<and> base + 8 \<le> unat (brk s) \<and> unat (brk s) < 2 ^ 31 \<or> (\<exists>F. heap base s F L)"

lemma heap_first:
  assumes "0 < base" "base + 8 \<le> unat (brk s)" "unat (brk s) < 2 ^ 31"
  shows "heap base (s\<lparr>umem := st (st (umem s) base base) (base + 4) 0, freep := of_nat base\<rparr>) [(base, 0)] Map.empty"
proof -
  have "ld (st (st (umem s) base base) (base + 4) 0) base = base" "ld (st (st (umem s) base base) (base + 4) 0) (base + 4) = 0"
    using assms by (simp_all add: ld_st_other ld_st_same)
  then show ?thesis using assms by (intro heapI[of _ _ "[]" _ "(base, 0)"]) (simp_all add: bend_def)
qed

context program_break
begin

lemma malloc_spec:
  assumes ok: "heap_ok base s L" and nb: "unat nbytes + 16 < 2 ^ 31"
  shows "\<exists>r s' L'. malloc sbrk (of_nat base) nbytes s = Some (r, s') \<and> heap_ok base s' L' \<and> same_on L (umem s) (umem s') \<and>
    (r = 0 \<and> L' = L \<or> (\<exists>a n. r = of_nat (a + 8) \<and> L a = None \<and> L' = L(a \<mapsto> n) \<and> unat nbytes \<le> 8 * (n - 1)))"
proof -
  define k where "k = (unat nbytes + 7) div 8 + 1"
  have k: "0 < k" "8 * k < 2 ^ 31" "unat nbytes \<le> 8 * (k - 1)" using nb by (auto simp: k_def)
  have "nbytes + 8 - 1 = nbytes + 7" by simp
  then have "unat (nbytes + 8 - 1) = unat nbytes + 7" using nb unat_add_noof[of nbytes 7] by (simp only:) simp
  then have "(nbytes + 8 - 1) div 8 = of_nat ((unat nbytes + 7) div 8)" by (simp add: word_arith_nat_div)
  then have nu: "(nbytes + 8 - 1) div 8 + 1 = of_nat k" by (simp add: k_def)
  let ?s = "if freep s = 0 then s\<lparr>umem := store32 (store32 (umem s) (of_nat base) (of_nat base)) (of_nat base + 4) 0, freep := of_nat base\<rparr> else s"
  have e: "store32 (store32 (umem s) (of_nat base) (of_nat base)) (of_nat base + 4) 0 = st (st (umem s) base base) (base + 4) 0" by (simp add: st_def)
  obtain F where F: "heap base ?s F L" "same_on L (umem s) (umem ?s)"
  proof (cases "freep s = 0")
    case True
    then have "L = Map.empty" "0 < base" "base + 8 \<le> unat (brk s)" "unat (brk s) < 2 ^ 31" using ok heap_freep unfolding heap_ok_def by blast+
    then show ?thesis using that heap_first[of base s] True e by (simp add: same_on_def)
  next
    case False
    then show ?thesis using that ok unfolding heap_ok_def by (auto simp: same_on_def)
  qed
  obtain r s' where r: "malloc_loop sbrk (of_nat k) (freep ?s) (hptr (umem ?s) (freep ?s)) ?s = Some (r, s')" "r = 0 \<and> s' = ?s \<or> taken base k ?s L r s'"
    using malloc_heap[OF F(1) k(1,2)] by blast
  have m: "malloc sbrk (of_nat base) nbytes s = Some (r, s')" unfolding malloc_def Let_def nu by (rule r(1))
  from r(2) show ?thesis
  proof
    assume "r = 0 \<and> s' = ?s"
    then show ?thesis using m F unfolding heap_ok_def by blast
  next
    assume "taken base k ?s L r s'"
    then obtain a F' where a: "r = of_nat (a + 8)" "L a = None" "heap base s' F' (L(a \<mapsto> k))" "same_on L (umem ?s) (umem s')" unfolding taken_def by blast
    then show ?thesis using m same_on_trans[OF F(2) a(4)] k(3) unfolding heap_ok_def by blast
  qed
qed

end

lemma usbrk_grow:
  assumes n: "0 < sint n" and b: "unat (brk s) < 2 ^ 31"
  shows "usbrk grows n s = (- 1, s) \<or> (\<exists>s'. usbrk grows n s = (brk s, s') \<and> unat (brk s') = unat (brk s) + unat n \<and> unat (brk s') < 2 ^ 31 \<and>
    freep s' = freep s \<and> (\<forall>x < brk s. umem s' x = umem s x))"
proof -
  obtain k where k: "unat n = k" "uint n = int k" by simp
  have "k < 2 ^ 31" "0 < k" using n k(2) unat_less_2p32[of n] k(1) unfolding sint_u32 k(2) by (simp_all split: if_splits)
  then have u: "unat (brk s + n) = unat (brk s) + unat n" "0 < unat n" using b k(1) by (simp_all add: unat_add_noof)
  have kb: "KERNBASE \<le> brk s + n \<longleftrightarrow> 2 ^ 31 \<le> unat (brk s + n)" by (simp add: KERNBASE_def word_le_nat_alt)
  have lt: "\<not> brk s + n < brk s" using u by (simp add: word_less_nat_alt)
  have nz: "brk s + n \<noteq> 0" using u by (metis add_is_0 less_irrefl unat_0)
  have pg: "\<not> PGROUNDUP (brk s) \<le> x" if "x < brk s" for x
  proof -
    have "unat (PGROUNDUP (brk s)) = (unat (brk s) + 4095) div 4096 * 4096" using b by (intro unat_PGROUNDUP) simp
    then have "unat (brk s) \<le> unat (PGROUNDUP (brk s))" by simp
    then show ?thesis using that by (simp add: word_less_nat_alt word_le_nat_alt)
  qed
  show ?thesis
  proof (cases "KERNBASE \<le> brk s + n \<or> \<not> grows (brk s) (brk s + n)")
    case True
    then show ?thesis using n lt by (auto simp: usbrk_def Let_def)
  next
    case False
    then show ?thesis using n lt nz u(1) kb pg by (auto simp: usbrk_def Let_def)
  qed
qed

interpretation ubreak: program_break "usbrk grows" for grows
  by unfold_locales (rule usbrk_grow)

text \<open>The program writes into a block it owns.\<close>

lemma heap_write:
  assumes h: "heap base s F L" and a: "L a = Some n" "a + 8 \<le> y" "y < a + 8 * n"
  shows "heap base (s\<lparr>umem := (umem s)(of_nat y := v)\<rparr>) F L"
proof -
  note hD = heapD[OF h]
  let ?m = "(umem s)(of_nat y := v)"
  have yb: "y < 2 ^ 32" using live_bound[OF h a(1)] a(3) by simp
  have keep: "ld ?m z = ld (umem s) z" if "y < z \<or> z + 4 \<le> y" "z + 4 \<le> 2 ^ 32" for z
  proof (rule ld_cong)
    fix k :: nat assume "k < 4"
    then have "z + k \<noteq> y" "z + k < 2 ^ 32" using that by auto
    then have "(of_nat (z + k) :: u32) \<noteq> of_nat y" using of_nat_eq[of "z + k" y] yb by blast
    then show "?m (of_nat (z + k)) = umem s (of_nat (z + k))" by simp
  qed
  have F: "y < fst x \<or> fst x + 8 \<le> y" "fst x + 8 \<le> 2 ^ 31" if x: "x \<in> set F" for x
    using header_free[OF h a(1) x order_refl bend_gt(1)] a heap_base(2)[OF h x] hD(8) by auto
  have kF: "ld ?m (fst x) = ld (umem s) (fst x) \<and> ld ?m (fst x + 4) = ld (umem s) (fst x + 4)" if "x \<in> set F" for x
    using keep[of "fst x"] keep[of "fst x + 4"] F[OF that] by auto
  have kL: "ld ?m (b + 4) = ld (umem s) (b + 4)" if b: "L b = Some k" for b k
  proof -
    have "y < b + 4 \<or> b + 8 \<le> y" using a hD(10)[OF b] hD(11)[OF a(1) b] by (cases "a = b") (auto simp: apart_def bend_def)
    then show ?thesis using keep[of "b + 4"] live_bound[OF h b] hD(10)[OF b] by auto
  qed
  show ?thesis using h kL seg_frame[OF kF] unfolding heap_def by auto
qed

text \<open>C10. The allocator of user programs keeps its heap well-formed, with \<open>L\<close> the blocks in use. \<^verbatim>\<open>malloc\<close> returns for every request below two
  gigabytes: 0, with no block given out, or a new block of at least the requested size; \<^verbatim>\<open>free\<close> of a block in use returns and
  takes it out; both leave the contents of all other blocks in use alone, and the program may write whatever it wants into its
  own blocks. Blocks in use never overlap.\<close>

theorem allocator_keeps_heap:
  assumes ok: "heap_ok base s L"
  shows "(\<forall>nbytes. unat nbytes + 16 < 2 ^ 31 \<longrightarrow>
      (\<exists>r s' L'. malloc (usbrk grows) (of_nat base) nbytes s = Some (r, s') \<and> heap_ok base s' L' \<and> same_on L (umem s) (umem s') \<and>
        (r = 0 \<and> L' = L \<or> (\<exists>a n. r = of_nat (a + 8) \<and> L a = None \<and> L' = L(a \<mapsto> n) \<and> unat nbytes \<le> 8 * (n - 1))))) \<and>
    (\<forall>a n. L a = Some n \<longrightarrow>
      (\<exists>s'. free (of_nat (a + 8)) s = Some s' \<and> heap_ok base s' (L(a := None)) \<and> same_on (L(a := None)) (umem s) (umem s')) \<and>
      (\<forall>y v. a + 8 \<le> y \<longrightarrow> y < a + 8 * n \<longrightarrow> heap_ok base (s\<lparr>umem := (umem s)(of_nat y := v)\<rparr>) L) \<and>
      (\<forall>a' n'. L a' = Some n' \<longrightarrow> a \<noteq> a' \<longrightarrow> a + 8 * n \<le> a' \<or> a' + 8 * n' \<le> a))"
proof (rule conjI)
  show "\<forall>nbytes. unat nbytes + 16 < 2 ^ 31 \<longrightarrow>
      (\<exists>r s' L'. malloc (usbrk grows) (of_nat base) nbytes s = Some (r, s') \<and> heap_ok base s' L' \<and> same_on L (umem s) (umem s') \<and>
        (r = 0 \<and> L' = L \<or> (\<exists>a n. r = of_nat (a + 8) \<and> L a = None \<and> L' = L(a \<mapsto> n) \<and> unat nbytes \<le> 8 * (n - 1))))"
    using ubreak.malloc_spec[OF ok] by blast
  show "\<forall>a n. L a = Some n \<longrightarrow>
      (\<exists>s'. free (of_nat (a + 8)) s = Some s' \<and> heap_ok base s' (L(a := None)) \<and> same_on (L(a := None)) (umem s) (umem s')) \<and>
      (\<forall>y v. a + 8 \<le> y \<longrightarrow> y < a + 8 * n \<longrightarrow> heap_ok base (s\<lparr>umem := (umem s)(of_nat y := v)\<rparr>) L) \<and>
      (\<forall>a' n'. L a' = Some n' \<longrightarrow> a \<noteq> a' \<longrightarrow> a + 8 * n \<le> a' \<or> a' + 8 * n' \<le> a)"
  proof (intro allI impI)
    fix a n assume a: "L a = Some n"
    then obtain F where h: "heap base s F L" using ok unfolding heap_ok_def by auto
    obtain s' F' where "free (of_nat (a + 8)) s = Some s'" "heap base s' F' (L(a := None))" "same_on (L(a := None)) (umem s) (umem s')" by (rule free_spec[OF h a])
    moreover have "a + 8 * n \<le> a' \<or> a' + 8 * n' \<le> a" if "L a' = Some n'" "a \<noteq> a'" for a' n'
      using heapD(11)[OF h a that] heapD(10)[OF h a] heapD(10)[OF h that(1)] by (auto simp: apart_def bend_def)
    ultimately show "(\<exists>s'. free (of_nat (a + 8)) s = Some s' \<and> heap_ok base s' (L(a := None)) \<and> same_on (L(a := None)) (umem s) (umem s')) \<and>
      (\<forall>y v. a + 8 \<le> y \<longrightarrow> y < a + 8 * n \<longrightarrow> heap_ok base (s\<lparr>umem := (umem s)(of_nat y := v)\<rparr>) L) \<and>
      (\<forall>a' n'. L a' = Some n' \<longrightarrow> a \<noteq> a' \<longrightarrow> a + 8 * n \<le> a' \<or> a' + 8 * n' \<le> a)"
      using heap_write[OF h a] unfolding heap_ok_def by blast
  qed
qed

text \<open>A heap with an empty free list and a block of four units at address 8192 in use.\<close>

definition demo_heap :: uheap where
  "demo_heap = \<lparr>umem = st (st (st (\<lambda>_. 0) 4096 4096) 4100 0) 8196 4, freep = 4096, brk = 12288\<rparr>"

lemma demo_heap_ok: "heap_ok 4096 demo_heap [8192 \<mapsto> 4]"
proof -
  have "heap 4096 demo_heap [(4096, 0)] [8192 \<mapsto> 4]"
    by (rule heapI[of _ _ "[]" _ "(4096, 0)"]) (auto simp: demo_heap_def bend_def apart_def ld_st_other ld_st_same split: if_splits)
  then show ?thesis unfolding heap_ok_def by blast
qed

theorem allocator_keeps_heap_witness:
  "(\<exists>r s' L'. malloc (usbrk (\<lambda>_ _. True)) 4096 100 demo_heap = Some (r, s') \<and> heap_ok 4096 s' L' \<and> same_on [8192 \<mapsto> 4] (umem demo_heap) (umem s') \<and>
      (r = 0 \<and> L' = [8192 \<mapsto> 4] \<or> (\<exists>a n. r = of_nat (a + 8) \<and> [8192 \<mapsto> 4 :: nat] a = None \<and> L' = [8192 \<mapsto> 4, a \<mapsto> n] \<and> 100 \<le> 8 * (n - 1)))) \<and>
   (\<exists>s'. free 8200 demo_heap = Some s' \<and> heap_ok 4096 s' Map.empty)"
proof -
  note k = allocator_keeps_heap[OF demo_heap_ok, of "\<lambda>_ _. True"]
  have a: "[8192 \<mapsto> 4 :: nat] (8192 :: nat) = Some 4" "[8192 \<mapsto> 4 :: nat](8192 := None) = (Map.empty :: nat \<Rightarrow> nat option)" by simp_all
  have "\<exists>s'. free (of_nat (8192 + 8)) demo_heap = Some s' \<and> heap_ok 4096 s' Map.empty"
    using k[THEN conjunct2, rule_format, OF a(1), THEN conjunct1] unfolding a(2) by blast
  then show ?thesis using k[THEN conjunct1, rule_format, of 100] by simp
qed

text \<open>The rounding of the size wraps around: a request of almost the whole address space gets a header without any payload.\<close>

lemma malloc_wraps: "malloc sbrk base (- 1) s = malloc sbrk base 0 s"
  by (simp add: malloc_def)

end
