(* ===== verification/Spec2Isabelle.thy ===== *)
theory Spec2Isabelle
  imports Grep Syscall Ptable Printf Kbd Shparse Mapreduce Protect Bitmap Xcheck Malloc
begin

text \<open>
  A verification development for the C programs of \<^verbatim>\<open>src/\<close>: the xv6 kernel and its user programs under \<^verbatim>\<open>src/src\<close>,
  with the lottery scheduler, page protection and kernel threads that the exercises add, and the host programs of the
  exercises (\<^verbatim>\<open>P1a\<close>, \<^verbatim>\<open>P2a\<close>, \<^verbatim>\<open>P3a\<close>, \<^verbatim>\<open>P4a\<close>, \<^verbatim>\<open>P5\<close>).

  \<^bold>\<open>Conventions.\<close> Machine integers are words of their width (\<open>u8\<close>, \<open>u16\<close>, \<open>u32\<close>); signed comparison, division and shifts
  go through \<open>sint\<close>. A C structure is a record, memory a function from 32-bit addresses to bytes, an array indexed by the
  code a list. State is passed explicitly; what a routine can do besides returning is a value of \<open>stop\<close> (\<open>Prelude\<close>):
  \<open>Panic\<close> with the message of the kernel's \<^verbatim>\<open>panic\<close>, \<open>Spins\<close> for a loop that waits for another processor, \<open>Blocks\<close> for
  \<^verbatim>\<open>sleep\<close>, \<open>Fault\<close> for an access outside an object or a page fault. \<open>rbind\<close> sequences such results. Code outside the
  repository (the disk, the processor count, clients of a library, other processes) is a parameter.

  \<^bold>\<open>Shared theories.\<close> \<open>Prelude\<close>: words, results, lists. \<open>Cstring\<close>: \<^verbatim>\<open>string.c\<close> and the string part of \<^verbatim>\<open>ulib.c\<close> on
  byte memory; the loops that look for a NUL are \<^theory_text>\<open>partial_function (option)\<close> and are proved to return. \<open>Bytes\<close>: integers
  in blocks and memory. \<open>Mmu\<close>: constants and macros of \<^verbatim>\<open>mmu.h\<close>, \<^verbatim>\<open>memlayout.h\<close>, \<^verbatim>\<open>param.h\<close>. \<open>Stdio\<close>: the input and output
  functions the host programs use. \<open>Fcntl\<close>: open modes. \<open>Ring\<close>: the interface \<open>fifo\<close> of a bounded queue, which a ring
  buffer with wrapping counters implements; \<open>Pipe\<close> interprets it and \<open>Console\<close> uses the lemmas on the ring.

  \<^bold>\<open>The storage stack.\<close> Each layer of \<^verbatim>\<open>src/src\<close> calls the one below, and so do the theories.
  \<^item> \<open>Ide\<close> (\<^verbatim>\<open>ide.c\<close>, \<^verbatim>\<open>memide.c\<close>): the request queue and the interrupt handler refine synchronous requests in order, under
    every interleaving; a drive error marks a stale buffer valid.
  \<^item> \<open>Bio\<close> (\<^verbatim>\<open>bio.c\<close>): the LRU list of buffers. Any sequence of reads and writes through the cache gives what the bare
    disk gives. The invariant \<open>bio_ok\<close> covers the links, the keys, locks, reference counts and flags.
  \<^item> \<open>Log\<close> and \<open>Transaction\<close> (\<^verbatim>\<open>log.c\<close>): a crash after any prefix of the disk writes of a transaction leaves all of it or
    nothing of it after recovery; the space that \<^verbatim>\<open>begin_op\<close> reserves is one block short.
  \<^item> \<open>Fs\<close> (\<^verbatim>\<open>fs.c\<close>: blocks, inodes, contents), with \<open>Filedata\<close>: reads and writes of a file are those of a string of bytes;
    and \<open>Bitmap\<close>: the block allocator takes the first free block, and freeing undoes allocating.
  \<^item> \<open>Dir\<close> (\<^verbatim>\<open>fs.c\<close>: directories, paths): \<^verbatim>\<open>skipelem\<close> splits paths. \<open>File\<close> (\<^verbatim>\<open>file.c\<close>) and \<open>Pipe\<close> (\<^verbatim>\<open>pipe.c\<close>): a pipe is a
    queue of bytes for any interleaving of writers, readers and closes, and two partners that take turns finish.

  \<^bold>\<open>Memory and processes.\<close>
  \<^item> \<open>Locks\<close> (\<^verbatim>\<open>spinlock.c\<close>, \<^verbatim>\<open>sleeplock.c\<close>): the interface \<open>mutex\<close>, implemented by both kinds of lock; nesting of
    \<^verbatim>\<open>pushcli\<close>.
  \<^item> \<open>Kalloc\<close> (\<^verbatim>\<open>kalloc.c\<close>): the interface \<open>page_allocator\<close>; the free list inside the pages refines a set of free pages.
  \<^item> \<open>Vm\<close> (\<^verbatim>\<open>vm.c\<close>) on page tables in byte memory, with \<open>Pagemap\<close>: page tables as a partial map, and \<^verbatim>\<open>copyuvm\<close> gives a
    private copy of an address space; \<open>Protect\<close>: \<^verbatim>\<open>mprotect\<close> and \<^verbatim>\<open>munprotect\<close> change exactly the range they are given, and a
    range that wraps around reaches kernel pages.
  \<^item> \<open>Proc\<close> (\<^verbatim>\<open>proc.c\<close>), \<open>Sched\<close>: what the lottery draws, that the scheduler runs a runnable process, and when it divides
    by zero; \<open>Ptable\<close>: the transitions of the process table as a step relation, unique process ids in all reachable
    states, and every outcome of \<^verbatim>\<open>join\<close>.
  \<^item> \<open>Sysfile\<close>, \<open>Exec\<close>, \<open>Syscall\<close> (\<^verbatim>\<open>sysfile.c\<close>, \<^verbatim>\<open>exec.c\<close>, \<^verbatim>\<open>syscall.c\<close>, \<^verbatim>\<open>sysproc.c\<close>, \<^verbatim>\<open>trap.c\<close>): the system calls
    composed from the layers above, up to the dispatcher and the trap handler.
  \<^item> \<open>Console\<close> (\<^verbatim>\<open>console.c\<close>) and \<open>Kbd\<close> (\<^verbatim>\<open>kbd.c\<close>, \<^verbatim>\<open>uart.c\<close>): line editing refines a line editor, output stays on the
    screen, letter keys obey the modifiers.

  \<^bold>\<open>User and host programs.\<close> \<open>Malloc\<close> (the allocator and the thread functions of \<^verbatim>\<open>ulib.c\<close>: the circular free list stays
  well-formed and blocks in use never overlap, over the interface \<open>program_break\<close> of \<^verbatim>\<open>sbrk\<close>), \<open>Printf\<close> (\<^verbatim>\<open>printf.c\<close>), \<open>Grep\<close> (\<^verbatim>\<open>grep.c\<close>), \<open>Sh\<close> and \<open>Shparse\<close> (\<^verbatim>\<open>sh.c\<close>: the parser returns
  on every line and reads back every command that is written out), \<open>Rle\<close> (\<^verbatim>\<open>wzip.c\<close>, \<^verbatim>\<open>wunzip.c\<close>, \<^verbatim>\<open>pzip.c\<close>), \<open>Wutils\<close>
  (\<^verbatim>\<open>wcat.c\<close>, \<^verbatim>\<open>wgrep.c\<close>), \<open>Mapreduce\<close> (\<^verbatim>\<open>mapreduce.c\<close>, \<^verbatim>\<open>wordcount.c\<close>: every schedule of the mappers counts the words), \<open>Xcheck\<close>
  (\<^verbatim>\<open>xcheck.c\<close>: the checker of disk images accepts exactly the consistent ones).

  \<^bold>\<open>Fuel.\<close> The mutually recursive parser of the shell takes \<open>parse_fuel n = 4 n + 4\<close> for a line of \<open>n\<close> bytes;
  \<open>parsecmd_terminates\<close> shows that it never runs out, and more fuel changes nothing. The loop of \<^verbatim>\<open>deallocuvm\<close> may wrap
  around; it has a step for each page of the address space. The loop of \<^verbatim>\<open>Reduce\<close> has one step for each
  value. All other loops are structural or have a termination proof.

  \<^bold>\<open>Not modelled.\<close> Assembly (\<^verbatim>\<open>entry.S\<close>, \<^verbatim>\<open>swtch.S\<close>, \<^verbatim>\<open>trapasm.S\<close>, \<^verbatim>\<open>usys.S\<close>, \<^verbatim>\<open>initcode.S\<close>, \<^verbatim>\<open>bootasm.S\<close>, \<^verbatim>\<open>entryother.S\<close>); the
  boot path and interrupt controllers (\<^verbatim>\<open>bootmain.c\<close>, \<^verbatim>\<open>main.c\<close>, \<^verbatim>\<open>mp.c\<close>, \<^verbatim>\<open>lapic.c\<close>, \<^verbatim>\<open>ioapic.c\<close>, \<^verbatim>\<open>picirq.c\<close>), which set up tables and
  device registers before any modelled code runs; \<^verbatim>\<open>mkfs.c\<close>, which writes the initial image and whose layout appears as the
  assumptions on superblocks; the host shell \<^verbatim>\<open>wish.c\<close>, mostly process control of the host system; the small user programs around
  one system call (\<^verbatim>\<open>cat.c\<close>, \<^verbatim>\<open>echo.c\<close>, \<^verbatim>\<open>kill.c\<close>, \<^verbatim>\<open>ln.c\<close>, \<^verbatim>\<open>ls.c\<close>, \<^verbatim>\<open>mkdir.c\<close>, \<^verbatim>\<open>rm.c\<close>, \<^verbatim>\<open>wc.c\<close>, \<^verbatim>\<open>init.c\<close>); the tests (\<^verbatim>\<open>usertests.c\<close>,
  \<^verbatim>\<open>forktest.c\<close>, \<^verbatim>\<open>stressfs.c\<close> and the small test programs); \<^verbatim>\<open>umalloc.c\<close>, whose text is commented out. In the modelled files, routines that
  only load processor registers or poll ports are left out (\<^verbatim>\<open>seginit\<close>, \<^verbatim>\<open>kvmalloc\<close>, \<^verbatim>\<open>tvinit\<close>, \<^verbatim>\<open>ideinit\<close>). Time and preemption
  inside a routine that holds its lock are outside the model.
\<close>

end
